(* ===== verification/Prelude.thy ===== *)
theory Prelude
  imports Main "HOL-Library.Word"
begin

text \<open>
  Shared vocabulary of the development: the machine types of the C sources, the
  collections of hints the component proofs use, generic facts on lists and words, and the
  abstract interfaces (locales) that several components implement.
\<close>

unbundle bit_operations_syntax

section \<open>Types\<close>

text \<open>\<open>unsigned short\<close> and \<open>unsigned int\<close> of the sources.\<close>

type_synonym u16 = "16 word"
type_synonym u32 = "32 word"

section \<open>Collections\<close>

named_theorems wf_intros \<open>preservation of the components' well-formedness invariants\<close>
named_theorems val_simps \<open>values of the representations the components use\<close>

section \<open>Lists\<close>

lemma nth_append_last: "xs \<noteq> [] \<Longrightarrow> last xs = xs ! (length xs - 1)"
  by (rule last_conv_nth)

lemma last_take_nth: "0 < n \<Longrightarrow> n \<le> length xs \<Longrightarrow> last (take n xs) = xs ! (n - 1)"
  by (cases xs) (auto simp: last_conv_nth min_def)

lemma take_update_eq_append:
  "n < length xs \<Longrightarrow> xs[n := x] = take n xs @ x # drop (Suc n) xs"
  by (simp add: upd_conv_take_nth_drop)

lemma take_Suc_update:
  "n < length xs \<Longrightarrow> take (Suc n) (xs[n := x]) = take n xs @ [x]"
  by (simp add: take_Suc_conv_app_nth)

section \<open>Words\<close>

lemma uint_less_u16: "uint (w :: u16) < 65536"
  using uint_lt2p [of w] by simp

lemma uint_less_u32: "uint (w :: u32) < 4294967296"
  using uint_lt2p [of w] by simp

lemma unat_less_u16: "unat (w :: u16) < 65536"
proof -
  have "int (unat w) < 65536" using uint_less_u16 [of w] by simp
  then show ?thesis by linarith
qed

lemma unat_less_u32: "unat (w :: u32) < 4294967296"
proof -
  have "int (unat w) < 4294967296" using uint_less_u32 [of w] by simp
  then show ?thesis by linarith
qed

lemma uint_ucast_u16_u32 [simp]: "uint (ucast (w :: u16) :: u32) = uint w"
  by (simp add: unsigned_ucast_eq take_bit_int_eq_self uint_less_u16 less_trans [OF uint_less_u16])

lemma low16_mask: "(x :: u32) AND 0xffff = take_bit 16 x"
  by (simp add: take_bit_eq_mask mask_eq_exp_minus_1)

lemma uint_low16: "uint (ucast ((x :: u32) AND 0xffff) :: u16) = uint x mod 65536"
  by (simp add: low16_mask unsigned_ucast_eq uint_mod take_bit_eq_mod)

lemma uint_high16: "uint (drop_bit 16 (x :: u32)) = uint x div 65536"
  by (simp add: drop_bit_eq_div uint_div)

lemma sdrop16_mask: "signed_drop_bit 16 (x :: u32) AND 0xffff = drop_bit 16 x"
  unfolding low16_mask by (rule bit_eqI) (auto simp: bit_simps dest: bit_imp_le_length)

lemma uint_add_u32: "uint (x :: u32) + uint y < 4294967296 \<Longrightarrow> uint (x + y) = uint x + uint y"
  by (simp add: uint_word_ariths)

lemma uint_mult_u32: "uint (x :: u32) * uint y < 4294967296 \<Longrightarrow> uint (x * y) = uint x * uint y"
  by (simp add: uint_word_ariths)

lemma uint_word_of_int_and: "uint (word_of_int (c AND 0xffff) :: u16) = c mod 65536"
proof -
  have "c AND 0xffff = take_bit 16 c"
    by (simp add: take_bit_eq_mask mask_eq_exp_minus_1)
  then show ?thesis by (simp add: uint_word_of_int take_bit_eq_mod)
qed

section \<open>Interfaces\<close>

text \<open>
  A message format: what was encoded is decoded again. \<open>ok\<close> says which values the format
  is made for.
\<close>

locale codec =
  fixes ok :: "'a \<Rightarrow> bool"
    and enc :: "'a \<Rightarrow> 'm"
    and dec :: "'m \<Rightarrow> 'a option"
  assumes dec_enc: "ok x \<Longrightarrow> dec (enc x) = Some x"
begin

lemma enc_inject: "ok x \<Longrightarrow> ok y \<Longrightarrow> enc x = enc y \<longleftrightarrow> x = y"
  by (metis dec_enc option.inject)

text \<open>A receiver that applies every decoded message ends where the sender is.\<close>

lemma last_received:
  assumes "\<forall>x\<in>set xs. ok x" and "xs \<noteq> []"
  shows "foldl (\<lambda>s m. case dec m of None \<Rightarrow> s | Some x \<Rightarrow> x) s0 (map enc xs) = last xs"
  using assms
proof (induction xs rule: rev_induct)
  case (snoc x xs)
  then show ?case by (simp add: dec_enc)
qed simp

end

text \<open>A machine driven by inputs, with an invariant that every step keeps.\<close>

locale machine =
  fixes inv :: "'s \<Rightarrow> bool"
    and step :: "'s \<Rightarrow> 'e \<Rightarrow> 's"
  assumes step_inv: "inv s \<Longrightarrow> inv (step s e)"
begin

lemma run_inv: "inv s \<Longrightarrow> inv (foldl step s es)"
  by (induction es arbitrary: s) (simp_all add: step_inv)

end

section \<open>Step relations\<close>

text \<open>A program of several threads: how it starts, its steps, and what every step keeps.\<close>

locale system =
  fixes start :: "'s \<Rightarrow> bool"
    and step :: "'s \<Rightarrow> 's \<Rightarrow> bool"
    and inv :: "'s \<Rightarrow> bool"
  assumes inv_start: "start s \<Longrightarrow> inv s"
    and inv_step: "inv s \<Longrightarrow> step s t \<Longrightarrow> inv t"
begin

lemma inv_steps: "step\<^sup>*\<^sup>* s t \<Longrightarrow> inv s \<Longrightarrow> inv t"
  by (induction rule: rtranclp_induct) (auto intro: inv_step)

lemma inv_reachable: "start s \<Longrightarrow> step\<^sup>*\<^sup>* s t \<Longrightarrow> inv t"
  by (rule inv_steps [OF _ inv_start])

end

text \<open>When every step lowers a rank and only final states have no step, every run ends well.\<close>

locale ending_system = system +
  fixes rank :: "'a \<Rightarrow> nat"
    and final :: "'a \<Rightarrow> bool"
  assumes rank_step: "inv s \<Longrightarrow> step s t \<Longrightarrow> rank t < rank s"
    and stuck_final: "inv s \<Longrightarrow> \<forall>t. \<not> step s t \<Longrightarrow> final s"
begin

lemma rank_steps: "(step ^^ n) s t \<Longrightarrow> inv s \<Longrightarrow> rank t + n \<le> rank s \<and> inv t"
proof (induction n arbitrary: t)
  case (Suc n)
  then obtain u where "(step ^^ n) s u" "step u t" by auto
  with Suc show ?case using rank_step [of u t] inv_step [of u t] by fastforce
qed simp

lemma run_length: "start s \<Longrightarrow> (step ^^ n) s t \<Longrightarrow> n \<le> rank s"
  using rank_steps inv_start by fastforce

lemma inv_ends: "inv s \<Longrightarrow> \<exists>t. step\<^sup>*\<^sup>* s t \<and> final t"
proof (induction "rank s" arbitrary: s rule: less_induct)
  case less
  show ?case
  proof (cases "\<exists>t. step s t")
    case True
    then obtain t where t: "step s t" by blast
    then show ?thesis
      using less.hyps [OF rank_step [OF less.prems t] inv_step [OF less.prems t]]
      by (blast intro: converse_rtranclp_into_rtranclp)
  qed (use less.prems stuck_final in blast)
qed

lemma always_ends: "start s \<Longrightarrow> step\<^sup>*\<^sup>* s t \<Longrightarrow> \<exists>u. step\<^sup>*\<^sup>* t u \<and> final u"
  by (rule inv_ends [OF inv_reachable])

lemma ends_final: "start s \<Longrightarrow> step\<^sup>*\<^sup>* s t \<Longrightarrow> \<forall>u. \<not> step t u \<Longrightarrow> final t"
  by (rule stuck_final [OF inv_reachable])

end

end
