(* ===== verification/CText.thy ===== *)
theory CText
  imports Prelude
begin

text \<open>
  The parts of the C library that the text-handling programs use: the character classes of
  \<^verbatim>\<open>ctype.h\<close> in the C locale, decimal numbers as \<^verbatim>\<open>printf("%d")\<close> writes and
  \<^verbatim>\<open>scanf("%d")\<close> reads them, and character arrays that hold \<open>NUL\<close>-terminated strings.
  A C string is a character list without the terminating \<open>NUL\<close>.
\<close>

section \<open>Characters\<close>

definition c_isdigit :: "char \<Rightarrow> bool" where
  "c_isdigit c \<longleftrightarrow> 48 \<le> (of_char c :: nat) \<and> (of_char c :: nat) \<le> 57"

definition c_isupper :: "char \<Rightarrow> bool" where
  "c_isupper c \<longleftrightarrow> 65 \<le> (of_char c :: nat) \<and> (of_char c :: nat) \<le> 90"

definition c_islower :: "char \<Rightarrow> bool" where
  "c_islower c \<longleftrightarrow> 97 \<le> (of_char c :: nat) \<and> (of_char c :: nat) \<le> 122"

definition c_isalpha :: "char \<Rightarrow> bool" where
  "c_isalpha c \<longleftrightarrow> c_isupper c \<or> c_islower c"

definition c_isalnum :: "char \<Rightarrow> bool" where
  "c_isalnum c \<longleftrightarrow> c_isalpha c \<or> c_isdigit c"

definition NUL :: char where
  "NUL = CHR 0x00"

definition tab :: char where
  "tab = CHR 0x09"

definition lf :: char where
  "lf = CHR 0x0A"

definition newline :: string where
  "newline = [CHR 0x0A]"

lemma newline_lf: "newline = [lf]"
  by (simp add: newline_def lf_def)

section \<open>Decimal numbers\<close>

text \<open>The decimal value of the leading digits of a string.\<close>

definition digit_of :: "char \<Rightarrow> int" where
  "digit_of c = int (of_char c) - 48"

primrec dec_acc :: "int \<Rightarrow> string \<Rightarrow> int" where
  "dec_acc a [] = a"
| "dec_acc a (c # cs) = (if c_isdigit c then dec_acc (10 * a + digit_of c) cs else a)"

lemma digit_word:
  assumes "c_isdigit c"
  shows "uint (of_nat (of_char c - 48) :: u32) = digit_of c" "0 \<le> digit_of c" "digit_of c \<le> 9"
proof -
  have c: "48 \<le> (of_char c :: nat)" "(of_char c :: nat) \<le> 57"
    using assms by (auto simp: c_isdigit_def)
  have d: "digit_of c = int (of_char c - 48)" using c by (simp add: digit_of_def of_nat_diff)
  have "uint (of_nat (of_char c - 48) :: u32) = int (of_char c - 48) mod 4294967296"
    by (simp add: unsigned_of_nat take_bit_eq_mod zmod_int del: of_nat_diff)
  then show "uint (of_nat (of_char c - 48) :: u32) = digit_of c" using c d by simp
  show "0 \<le> digit_of c" "digit_of c \<le> 9" using c d by simp_all
qed

lemma dec_acc_ge: "0 \<le> a \<Longrightarrow> a \<le> dec_acc a cs"
proof (induction cs arbitrary: a)
  case (Cons c cs)
  show ?case
  proof (cases "c_isdigit c")
    case True
    have "0 \<le> 10 * a + digit_of c" using Cons.prems digit_word(2) [OF True] by simp
    from Cons.IH [OF this] True Cons.prems digit_word(2) [OF True] show ?thesis by simp
  qed simp
qed simp

lemma dec_acc_less: "0 \<le> a \<Longrightarrow> dec_acc a cs < (a + 1) * 10 ^ length cs"
proof (induction cs arbitrary: a)
  case (Cons c cs)
  show ?case
  proof (cases "c_isdigit c")
    case True
    let ?b = "10 * a + digit_of c"
    have b: "0 \<le> ?b" "?b + 1 \<le> 10 * (a + 1)"
      using Cons.prems digit_word(2,3) [OF True] by simp_all
    have "dec_acc ?b cs < (?b + 1) * 10 ^ length cs" using Cons.IH [OF b(1)] .
    also have "\<dots> \<le> (10 * (a + 1)) * 10 ^ length cs" using b(2) by (intro mult_right_mono) auto
    also have "\<dots> = (a + 1) * 10 ^ length (c # cs)" by (simp add: algebra_simps)
    finally show ?thesis using True by simp
  next
    case False
    have "(1 :: int) \<le> 10 ^ length (c # cs)" by (rule one_le_power) simp
    then have "(a + 1) * 1 \<le> (a + 1) * 10 ^ length (c # cs)"
      using Cons.prems by (intro mult_left_mono) auto
    with False show ?thesis by simp
  qed
qed simp

text \<open>\<^verbatim>\<open>printf("%d")\<close>.\<close>

definition dec_digit :: "nat \<Rightarrow> char" where
  "dec_digit d = char_of (48 + d)"

fun nat_str :: "nat \<Rightarrow> string" where
  "nat_str n = (if n < 10 then [dec_digit n] else nat_str (n div 10) @ [dec_digit (n mod 10)])"

declare nat_str.simps [simp del]

definition int_str :: "int \<Rightarrow> string" where
  "int_str i = (if i < 0 then ''-'' @ nat_str (nat (- i)) else nat_str (nat i))"

lemma dec_digit_isdigit: "d < 10 \<Longrightarrow> c_isdigit (dec_digit d)"
  by (simp add: c_isdigit_def dec_digit_def)

lemma digit_of_dec_digit: "d < 10 \<Longrightarrow> digit_of (dec_digit d) = int d"
  by (simp add: digit_of_def dec_digit_def)

lemma dec_digit_simps:
  "dec_digit 0 = CHR ''0''" "dec_digit (Suc 0) = CHR ''1''" "dec_digit 1 = CHR ''1''"
  "dec_digit 2 = CHR ''2''" "dec_digit 3 = CHR ''3''" "dec_digit 4 = CHR ''4''"
  "dec_digit 5 = CHR ''5''" "dec_digit 6 = CHR ''6''" "dec_digit 7 = CHR ''7''"
  "dec_digit 8 = CHR ''8''" "dec_digit 9 = CHR ''9''"
  by code_simp+

lemma nat_str_digits: "c \<in> set (nat_str n) \<Longrightarrow> c_isdigit c"
proof (induction n rule: nat_str.induct)
  case (1 n)
  have "n < 10 \<Longrightarrow> c_isdigit (dec_digit n)" "c_isdigit (dec_digit (n mod 10))"
    by (simp_all add: dec_digit_isdigit)
  with 1 show ?case by (subst (asm) nat_str.simps) (auto split: if_splits)
qed

lemma nat_str_nonempty [simp]: "nat_str n \<noteq> []"
  by (subst nat_str.simps) simp

lemma dec_acc_append:
  "\<lbrakk>\<And>c. c \<in> set xs \<Longrightarrow> c_isdigit c\<rbrakk> \<Longrightarrow> dec_acc a (xs @ ys) = dec_acc (dec_acc a xs) ys"
  by (induction xs arbitrary: a) auto

definition no_digit :: "string \<Rightarrow> bool" where
  "no_digit s \<longleftrightarrow> (case s of [] \<Rightarrow> True | c # _ \<Rightarrow> \<not> c_isdigit c)"

lemma dec_acc_no_digit: "no_digit s \<Longrightarrow> dec_acc a s = a"
  by (cases s) (auto simp: no_digit_def)

lemma dec_acc_nat_str: "dec_acc 0 (nat_str n) = int n"
proof (induction n rule: nat_str.induct)
  case (1 n)
  show ?case
  proof (cases "n < 10")
    case True
    then show ?thesis by (subst nat_str.simps) (simp add: dec_digit_isdigit digit_of_dec_digit)
  next
    case False
    then have "dec_acc 0 (nat_str n) = dec_acc (int (n div 10)) [dec_digit (n mod 10)]"
      using 1 by (subst nat_str.simps) (simp add: dec_acc_append nat_str_digits)
    also have "\<dots> = int n"
      by (simp add: dec_digit_isdigit digit_of_dec_digit) presburger
    finally show ?thesis .
  qed
qed

text \<open>The digits at the front of the input: their value and the input after them.\<close>

definition scan_digits :: "string \<Rightarrow> int \<times> string" where
  "scan_digits s = (dec_acc 0 s, dropWhile c_isdigit s)"

lemma scan_digits_nat_str:
  assumes "no_digit rest"
  shows "scan_digits (nat_str n @ rest) = (int n, rest)"
proof -
  have "dropWhile c_isdigit rest = rest" using assms by (cases rest) (auto simp: no_digit_def)
  moreover have "dropWhile c_isdigit (nat_str n @ rest) = dropWhile c_isdigit rest"
    by (intro dropWhile_append2) (rule nat_str_digits)
  ultimately show ?thesis
    by (simp add: scan_digits_def dec_acc_append nat_str_digits dec_acc_nat_str dec_acc_no_digit assms)
qed

section \<open>Character arrays\<close>

text \<open>The string that starts at offset \<open>p\<close> of an array, and \<^verbatim>\<open>strcpy\<close> to it.\<close>

definition cstr_at :: "char list \<Rightarrow> nat \<Rightarrow> string" where
  "cstr_at mem p = takeWhile (\<lambda>c. c \<noteq> NUL) (drop p mem)"

definition strcpy_at :: "char list \<Rightarrow> nat \<Rightarrow> string \<Rightarrow> char list" where
  "strcpy_at mem p s = take p mem @ s @ [NUL] @ drop (p + length s + 1) mem"

text \<open>A terminated string lies inside the array.\<close>

definition cstr_ok :: "char list \<Rightarrow> nat \<Rightarrow> bool" where
  "cstr_ok mem p \<longleftrightarrow> p + length (cstr_at mem p) < length mem"

lemma strcpy_at_length:
  "p + length s < length mem \<Longrightarrow> length (strcpy_at mem p s) = length mem"
  by (simp add: strcpy_at_def)

lemma cstr_at_strcpy_same:
  assumes "p \<le> length mem" and "NUL \<notin> set s"
  shows "cstr_at (strcpy_at mem p s) p = s"
proof -
  have "drop p (strcpy_at mem p s) = s @ [NUL] @ drop (p + length s + 1) mem"
    using assms(1) by (simp add: strcpy_at_def)
  moreover have "takeWhile (\<lambda>c. c \<noteq> NUL) (s @ [NUL] @ drop (p + length s + 1) mem) = s"
    using assms(2) by (subst takeWhile_append2) auto
  ultimately show ?thesis by (simp add: cstr_at_def)
qed

text \<open>A string that ends before \<open>p\<close> is not touched.\<close>

lemma cstr_at_strcpy_before:
  assumes "q + length (cstr_at mem q) < p" and "p \<le> length mem"
  shows "cstr_at (strcpy_at mem p s) q = cstr_at mem q"
proof -
  let ?P = "\<lambda>c. c \<noteq> NUL" and ?r = "s @ [NUL] @ drop (p + length s + 1) mem"
  let ?d = "drop q (take p mem)"
  have q: "q \<le> length (take p mem)" using assms by simp
  have m: "drop q mem = ?d @ drop p mem"
    using q assms drop_append [of q "take p mem" "drop p mem"] by simp
  have "\<not> (\<forall>c\<in>set ?d. ?P c)"
  proof
    assume "\<forall>c\<in>set ?d. ?P c"
    then have "takeWhile ?P (drop q mem) = ?d @ takeWhile ?P (drop p mem)"
      unfolding m by (intro takeWhile_append2) auto
    then have "length ?d \<le> length (cstr_at mem q)" by (simp add: cstr_at_def)
    then show False using assms by simp
  qed
  then obtain c where "c \<in> set ?d" "\<not> ?P c" by blast
  then have "takeWhile ?P (?d @ ?r) = takeWhile ?P ?d" "takeWhile ?P (?d @ drop p mem) = takeWhile ?P ?d"
    by (intro takeWhile_append1; blast)+
  moreover have "drop q (strcpy_at mem p s) = ?d @ ?r"
    using q by (simp add: strcpy_at_def)
  ultimately show ?thesis unfolding cstr_at_def m by simp
qed

section \<open>More of the library\<close>

definition c_isspace :: "char \<Rightarrow> bool" where
  "c_isspace c \<longleftrightarrow> c = CHR '' '' \<or> 9 \<le> (of_char c :: nat) \<and> (of_char c :: nat) \<le> 13"

text \<open>
  \<^verbatim>\<open>atoi\<close>, and the conversion of \<^verbatim>\<open>sscanf("%d")\<close> (\<open>None\<close> when there is no number);
  numbers that do not fit in an \<open>int\<close> are outside of what C defines and stay as they are.
\<close>

definition atoi :: "string \<Rightarrow> int" where
  "atoi s =
     (case dropWhile c_isspace s of
        [] \<Rightarrow> 0
      | c # cs \<Rightarrow> if c = CHR ''-'' then - dec_acc 0 cs
                 else if c = CHR ''+'' then dec_acc 0 cs else dec_acc 0 (c # cs))"

definition starts_digit :: "string \<Rightarrow> bool" where
  "starts_digit s \<longleftrightarrow> (case s of [] \<Rightarrow> False | c # _ \<Rightarrow> c_isdigit c)"

definition scan_int :: "string \<Rightarrow> (int \<times> string) option" where
  "scan_int s =
     (let t = dropWhile c_isspace s;
          sg = (case t of c # _ \<Rightarrow> c = CHR ''-'' | [] \<Rightarrow> False);
          ps = (case t of c # _ \<Rightarrow> c = CHR ''+'' | [] \<Rightarrow> False);
          u = (if sg \<or> ps then tl t else t)
      in if starts_digit u then
           (let (v, rest) = scan_digits u in Some (if sg then - v else v, rest))
         else None)"

text \<open>\<^verbatim>\<open>strstr(hay, needle) != NULL\<close>.\<close>

primrec contains :: "string \<Rightarrow> string \<Rightarrow> bool" where
  "contains needle [] = (needle = [])"
| "contains needle (c # cs) = (take (length needle) (c # cs) = needle \<or> contains needle cs)"

lemma contains_iff: "contains needle hay \<longleftrightarrow> (\<exists>xs ys. hay = xs @ needle @ ys)"
proof (induction hay)
  case (Cons c cs)
  have "take (length needle) (c # cs) = needle \<longleftrightarrow> (\<exists>ys. c # cs = needle @ ys)"
    by (metis append_eq_conv_conj append_take_drop_id)
  moreover have "(\<exists>xs ys. c # cs = xs @ needle @ ys) \<longleftrightarrow>
      (\<exists>ys. c # cs = needle @ ys) \<or> (\<exists>xs ys. cs = xs @ needle @ ys)"
  proof
    assume "\<exists>xs ys. c # cs = xs @ needle @ ys"
    then obtain xs ys where e: "c # cs = xs @ needle @ ys" by blast
    then show "(\<exists>ys. c # cs = needle @ ys) \<or> (\<exists>xs ys. cs = xs @ needle @ ys)"
      by (cases xs) auto
  next
    assume "(\<exists>ys. c # cs = needle @ ys) \<or> (\<exists>xs ys. cs = xs @ needle @ ys)"
    then show "\<exists>xs ys. c # cs = xs @ needle @ ys"
      by (metis append_Cons append_Nil)
  qed
  ultimately show ?case using Cons by simp
qed simp

lemma digit_facts:
  assumes "c_isdigit c"
  shows "\<not> c_isspace c" "c \<noteq> CHR ''-''" "c \<noteq> CHR ''+''"
  using assms by (auto simp: c_isdigit_def c_isspace_def)

lemma nat_str_Cons: "\<exists>c cs. nat_str n = c # cs \<and> c_isdigit c"
  using nat_str_digits [of _ n] by (cases "nat_str n") auto

text \<open>What \<^verbatim>\<open>printf("%d")\<close> wrote \<^verbatim>\<open>sscanf("%d")\<close> reads back.\<close>

lemma scan_int_int_str:
  assumes "no_digit rest"
  shows "scan_int (int_str i @ rest) = Some (i, rest)"
proof (cases "i < 0")
  case True
  obtain c cs where n: "nat_str (nat (- i)) = c # cs" "c_isdigit c" using nat_str_Cons by blast
  have s: "dropWhile c_isspace (int_str i @ rest) = CHR ''-'' # nat_str (nat (- i)) @ rest"
    using True by (simp add: int_str_def c_isspace_def)
  have d: "starts_digit (nat_str (nat (- i)) @ rest)" by (simp add: n starts_digit_def)
  show ?thesis
    using True scan_digits_nat_str [OF assms, of "nat (- i)"] d
    by (simp add: scan_int_def s Let_def)
next
  case False
  obtain c cs where n: "nat_str (nat i) = c # cs" "c_isdigit c" using nat_str_Cons by blast
  have s: "dropWhile c_isspace (int_str i @ rest) = nat_str (nat i) @ rest"
    using False digit_facts [OF n(2)] by (simp add: int_str_def n)
  have d: "starts_digit (nat_str (nat i) @ rest)" by (simp add: n starts_digit_def)
  show ?thesis
    using False scan_digits_nat_str [OF assms, of "nat i"] d digit_facts [OF n(2)]
    by (simp add: scan_int_def s Let_def) (simp add: n)
qed

lemma scan_int_space: "c_isspace c \<Longrightarrow> scan_int (c # s) = scan_int s"
  by (simp add: scan_int_def)

text \<open>\<^verbatim>\<open>sscanf("%2d")\<close>, \<^verbatim>\<open>sprintf("%02d")\<close> and \<^verbatim>\<open>sprintf("%-10s")\<close>.\<close>

definition scan_int2 :: "string \<Rightarrow> int option" where
  "scan_int2 s = map_option fst (scan_int (take 2 (dropWhile c_isspace s)))"

definition pad2 :: "int \<Rightarrow> string" where
  "pad2 n = (if 0 \<le> n \<and> n < 10 then CHR ''0'' # int_str n else int_str n)"

definition left10 :: "string \<Rightarrow> string" where
  "left10 s = s @ replicate (10 - length s) CHR '' ''"

text \<open>The value of a (signed) \<^verbatim>\<open>char\<close>, and the \<^verbatim>\<open>char\<close> an \<open>int\<close> is truncated to.\<close>

definition schar :: "char \<Rightarrow> int" where
  "schar c = (let n = int (of_char c) in if n < 128 then n else n - 256)"

definition to_char :: "int \<Rightarrow> char" where
  "to_char c = char_of (nat (c mod 256))"

lemma of_char_less: "of_char c < (256 :: nat)"
  using of_char_mod_256 [of c, where ?'a = nat] by (metis mod_less_divisor zero_less_numeral)

lemma schar_range:
  "0 \<le> n \<Longrightarrow> n < 256 \<Longrightarrow> - 128 \<le> (if n < 128 then n else n - 256) \<and> (if n < 128 then n else n - 256) < (128 :: int)"
  by auto

lemma schar_bounds: "- 128 \<le> schar c" "schar c < 128"
proof -
  have "int (of_char c) < int 256" using of_char_less [of c] by (simp only: of_nat_less_iff)
  then have "0 \<le> int (of_char c) \<and> int (of_char c) < 256" by (simp only: of_nat_0_le_iff of_nat_numeral simp_thms)
  then show "- 128 \<le> schar c" "schar c < 128"
    using schar_range [of "int (of_char c)"] unfolding schar_def Let_def by blast+
qed

lemma schar_to_char: "- 128 \<le> i \<Longrightarrow> i < 128 \<Longrightarrow> schar (to_char i) = i"
proof -
  assume i: "- 128 \<le> i" "i < 128"
  have "nat (i mod 256) < 256" by (simp add: nat_less_iff)
  then have c: "int (of_char (to_char i)) = i mod 256"
    by (simp add: to_char_def)
  have "i mod 256 = (if i < 0 then i + 256 else i)"
  proof (cases "i < 0")
    case True
    have "(i + 256) mod 256 = i + 256" using i True by (intro mod_pos_pos_trivial) auto
    with True show ?thesis by simp
  next
    case False
    with i show ?thesis by (simp add: mod_pos_pos_trivial)
  qed
  with i c show ?thesis by (auto simp: schar_def Let_def)
qed

lemma to_char_schar: "to_char (schar c) = c"
proof -
  have "schar c mod 256 = int (of_char c) mod 256" unfolding schar_def Let_def by simp
  also have "\<dots> = int (of_char c)" by (metis of_char_less int_ops(3) mod_less of_nat_mod)
  finally show ?thesis by (simp add: to_char_def)
qed

end
