(* ===== verification/Bignum.thy ===== *)
theory Bignum
  imports CText
begin

text \<open>
  \<^verbatim>\<open>c/bignum.c\<close>: signed integers of arbitrary size as arrays of 16-bit cells, least
  significant cell first, in two's complement.
\<close>

section \<open>The data\<close>

text \<open>
  \<open>vals\<close> is the allocated array and \<open>len\<close> the number of its cells in use;
  \<open>contract_bignum\<close> lowers \<open>len\<close> and leaves the array as it is. What
  \<open>malloc\<close> returns is not initialised: the contents of a fresh array are the
  parameter \<open>junk\<close> of the operations that allocate one.
\<close>

type_synonym int16 = u16

record bignum =
  vals :: "int16 list"
  len :: nat

definition alloc_bignum :: "(nat \<Rightarrow> int16) \<Rightarrow> nat \<Rightarrow> bignum" where
  "alloc_bignum junk n = \<lparr>vals = map junk [0..<n], len = n\<rparr>"

definition wf_bn :: "bignum \<Rightarrow> bool" where
  "wf_bn b \<longleftrightarrow> 0 < len b \<and> len b \<le> length (vals b)"

text \<open>The number an array of cells stands for, unsigned and in two's complement.\<close>

primrec uval :: "int16 list \<Rightarrow> int" where
  "uval [] = 0"
| "uval (w # ws) = uint w + 65536 * uval ws"

definition msb_set :: "int16 \<Rightarrow> bool" where
  "msb_set w \<longleftrightarrow> w AND 0x8000 \<noteq> 0"

definition sval :: "int16 list \<Rightarrow> int" where
  "sval ws = (if ws \<noteq> [] \<and> msb_set (last ws) then uval ws - 65536 ^ length ws else uval ws)"

definition cells :: "bignum \<Rightarrow> int16 list" where
  "cells b = take (len b) (vals b)"

definition bn_val :: "bignum \<Rightarrow> int" where
  "bn_val b = sval (cells b)"

section \<open>expand\_bignum and contract\_bignum\<close>

text \<open>
  The loop counter \<open>i\<close> of \<^verbatim>\<open>expand_bignum\<close> is declared with the cells' type
  \<open>int16\<close>, so it wraps at 65536: the two loops are partial functions, and \<open>None\<close> is a
  loop that never ends.
\<close>

partial_function (option) expand_copy ::
  "int16 list \<Rightarrow> nat \<Rightarrow> int16 \<Rightarrow> int16 list \<Rightarrow> (int16 \<times> int16 list) option" where
  "expand_copy vs l i buf =
     (if unat i < l then expand_copy vs l (i + 1) (buf[unat i := vs ! unat i])
      else Some (i, buf))"

partial_function (option) expand_sign ::
  "int16 \<Rightarrow> nat \<Rightarrow> int16 \<Rightarrow> int16 list \<Rightarrow> int16 list option" where
  "expand_sign sg l i buf =
     (if unat i < l then expand_sign sg l (i + 1) (buf[unat i := sg]) else Some buf)"

declare expand_copy.simps [code] expand_sign.simps [code]

definition expand_bignum :: "(nat \<Rightarrow> int16) \<Rightarrow> bignum \<Rightarrow> nat \<Rightarrow> bignum option" where
  "expand_bignum junk val n =
     (let buf = map junk [0..<n + len val];
          sg = (if msb_set (vals val ! (len val - 1)) then 0xffff else 0x0000)
      in case expand_copy (vals val) (len val) 0 buf of
           None \<Rightarrow> None
         | Some (i, buf1) \<Rightarrow>
             (case expand_sign sg (len val + n) i buf1 of
                None \<Rightarrow> None
              | Some buf2 \<Rightarrow> Some (val\<lparr>vals := buf2, len := len val + n\<rparr>)))"

text \<open>
  \<^verbatim>\<open>for(;i--;)\<close> of \<^verbatim>\<open>contract_bignum\<close>: counts the cells equal to \<open>c\<close> from the
  top; the second component is the index \<open>i\<close> after the loop, \<open>None\<close> for the \<open>-1\<close> that is
  left when no other cell is found.
\<close>

primrec scan_top :: "int16 \<Rightarrow> int16 list \<Rightarrow> nat \<Rightarrow> nat \<Rightarrow> nat \<times> nat option" where
  "scan_top c vs 0 cnt = (cnt, None)"
| "scan_top c vs (Suc i) cnt =
     (if vs ! i = c then scan_top c vs i (Suc cnt) else (cnt, Some i))"

text \<open>
  After the scan the code reads \<open>val->values[i]\<close>, which for \<open>i = -1\<close> is the halfword in
  front of the array: the parameter \<open>oob\<close>.
\<close>

definition cell_at :: "int16 \<Rightarrow> int16 list \<Rightarrow> nat option \<Rightarrow> int16" where
  "cell_at oob vs i = (case i of None \<Rightarrow> oob | Some k \<Rightarrow> vs ! k)"

definition contract_bignum :: "int16 \<Rightarrow> bignum \<Rightarrow> bignum" where
  "contract_bignum oob val =
     (let vs = vals val; n = len val in
      if vs ! (n - 1) = 0 then
        (let (cnt, i) = scan_top 0 vs n 0;
             l1 = n - cnt;
             l2 = (if msb_set (cell_at oob vs i) then l1 + 1 else l1);
             l3 = (if l2 = 0 then l2 + 1 else l2)
         in val\<lparr>len := l3\<rparr>)
      else if vs ! (n - 1) = 0xffff then
        (let (cnt, i) = scan_top 0xffff vs n 0;
             l1 = n - cnt;
             l2 = (if \<not> msb_set (cell_at oob vs i) then l1 + 1 else l1);
             l3 = (if l2 = 0 then l2 + 1 else l2)
         in val\<lparr>len := l3\<rparr>)
      else val)"

section \<open>Parsing and printing\<close>

text \<open>
  The two nested loops for one digit: \<open>num\<close> enters with the digit, each pass multiplies the
  cells \<open>i..j-1\<close> by ten, and a carry left in \<open>num\<close> brings one more cell into use. A cell
  outside the array is undefined behaviour, \<open>None\<close>.
\<close>

function digit_pass :: "nat \<Rightarrow> nat \<Rightarrow> u32 \<Rightarrow> int16 list \<Rightarrow> (nat \<times> int16 list) option" where
  "digit_pass i j num vs =
     (if i < j then
        (if i < length vs then
           (let num' = num + ucast (vs ! i) * 10
            in digit_pass (Suc i) j (drop_bit 16 num') (vs[i := ucast (num' AND 0xffff)]))
         else None)
      else if num \<noteq> 0 then digit_pass i (Suc j) num vs
      else Some (j, vs))"
  by pat_completeness auto
termination
  by (relation "measures [\<lambda>(i, j, num, vs). length vs - i, \<lambda>(i, j, num, vs). Suc i - j]") auto

declare digit_pass.simps [simp del]

primrec parse_loop :: "string \<Rightarrow> nat \<Rightarrow> int16 list \<Rightarrow> int16 list option" where
  "parse_loop [] j vs = Some vs"
| "parse_loop (c # cs) j vs =
     (if c_isdigit c then
        (case digit_pass 0 j (of_nat (of_char c - 48)) vs of
           None \<Rightarrow> None
         | Some (j', vs') \<Rightarrow> parse_loop cs j' vs')
      else Some vs)"

text \<open>The loop that complements the cells and adds one.\<close>

primrec complement_cells :: "bool \<Rightarrow> int16 list \<Rightarrow> int16 list" where
  "complement_cells carry [] = []"
| "complement_cells carry (w # ws) =
     (let v = NOT w + (if carry then 1 else 0)
      in v # complement_cells (v = 0 \<and> carry) ws)"

text \<open>A C string is a character list without the terminating \<open>NUL\<close>.\<close>

definition parse_bignum :: "int16 \<Rightarrow> string \<Rightarrow> bignum option" where
  "parse_bignum oob numstr =
     (let n = length numstr div 4 + 2;
          vs = replicate n 0;
          neg = (case numstr of c # _ \<Rightarrow> c = CHR ''-'' | [] \<Rightarrow> False);
          digits = (if neg then tl numstr else numstr)
      in case parse_loop digits 1 vs of
           None \<Rightarrow> None
         | Some vs' \<Rightarrow>
             (let vs2 = (if neg then complement_cells True vs' else vs')
              in Some (contract_bignum oob \<lparr>vals = vs2, len = n\<rparr>)))"

text \<open>\<^verbatim>\<open>for(i=val->len;i--;)\<close> of \<^verbatim>\<open>completion_bignum\<close>: drops the zero cells at the top.\<close>

primrec drop_zero_cells :: "int16 list \<Rightarrow> nat \<Rightarrow> nat" where
  "drop_zero_cells vs 0 = 0"
| "drop_zero_cells vs (Suc i) = (if vs ! i = 0 then drop_zero_cells vs i else Suc i)"

definition completion_bignum :: "bignum \<Rightarrow> bignum" where
  "completion_bignum val =
     (let vs = complement_cells True (take (len val) (vals val)) @ drop (len val) (vals val)
      in val\<lparr>vals := vs, len := drop_zero_cells vs (len val)\<rparr>)"

text \<open>\<^verbatim>\<open>printf("%x")\<close>: lower-case hexadecimal without leading zeros.\<close>

definition hex_digit :: "nat \<Rightarrow> char" where
  "hex_digit d = (if d < 10 then char_of (48 + d) else char_of (87 + d))"

fun hex_str :: "nat \<Rightarrow> string" where
  "hex_str n = (if n < 16 then [hex_digit n] else hex_str (n div 16) @ [hex_digit (n mod 16)])"

declare hex_str.simps [simp del]

definition pad_zeros :: "int16 \<Rightarrow> string" where
  "pad_zeros w = (if unat w < 4096 then ''0'' else '''') @ (if unat w < 256 then ''0'' else '''') @
     (if unat w < 16 then ''0'' else '''')"

text \<open>
  The printing loop runs down from \<open>i\<close>; only the cell at \<open>len - 1\<close> is not padded to four
  digits. \<open>sep\<close> is what follows a cell (a space in \<^verbatim>\<open>print_heximage_bignum\<close>).
\<close>

primrec print_cells :: "string \<Rightarrow> int16 list \<Rightarrow> nat \<Rightarrow> nat \<Rightarrow> string" where
  "print_cells sep vs n 0 = ''''"
| "print_cells sep vs n (Suc i) =
     (if i \<noteq> n - 1 then pad_zeros (vs ! i) else '''') @ hex_str (unat (vs ! i)) @ sep @
     print_cells sep vs n i"

text \<open>The output and the number after the call: a negative number is complemented in place.\<close>

definition print_bignum :: "bignum \<Rightarrow> string \<times> bignum" where
  "print_bignum val =
     (let i = len val in
      if vals val ! (i - 1) = 0 then
        (if len val = 1 then (''0'' @ newline, val)
         else (print_cells '''' (vals val) (len val) (i - 1) @ newline, val))
      else if msb_set (vals val ! (i - 1)) then
        (let val' = completion_bignum val
         in (''-'' @ print_cells '''' (vals val') (len val') (len val') @ newline, val'))
      else (print_cells '''' (vals val) (len val) i @ newline, val))"

definition print_heximage_bignum :: "bignum \<Rightarrow> string" where
  "print_heximage_bignum val = print_cells '' '' (vals val) (len val) (len val) @ newline"

section \<open>Arithmetic\<close>

text \<open>
  \<open>carry\<close> of the addition and the subtraction is an \<open>int\<close> that stays between \<open>-65536\<close> and
  \<open>131071\<close>, so it is a HOL integer; \<open>carry >>= 16\<close> is the arithmetic shift.
\<close>

function add_loop ::
  "(nat \<Rightarrow> int) \<Rightarrow> (nat \<Rightarrow> int) \<Rightarrow> nat \<Rightarrow> nat \<Rightarrow> int \<Rightarrow> int16 list \<Rightarrow> int \<times> int16 list" where
  "add_loop f g i n carry vs =
     (if i < n then
        (let c = carry + (f i + g i)
         in add_loop f g (Suc i) n (drop_bit 16 c) (vs[i := word_of_int (c AND 0xffff)]))
      else (carry, vs))"
  by pat_completeness auto
termination
  by (relation "measure (\<lambda>(f, g, i, n, carry, vs). n - i)") auto

declare add_loop.simps [simp del]

definition add_bignum :: "(nat \<Rightarrow> int16) \<Rightarrow> int16 \<Rightarrow> bignum \<Rightarrow> bignum \<Rightarrow> bignum" where
  "add_bignum junk oob lhs rhs =
     (let (big, small) = (if len lhs > len rhs then (lhs, rhs) else (rhs, lhs));
          val = alloc_bignum junk (len big);
          sg = (if msb_set (vals small ! (len small - 1)) then 0xffff else 0);
          (carry, vs) = add_loop (\<lambda>i. uint (vals big ! i)) (\<lambda>i. uint (vals small ! i))
                          0 (len small) 0 (vals val);
          (carry2, vs2) = add_loop (\<lambda>i. uint (vals big ! i)) (\<lambda>i. sg)
                          (len small) (len big) carry vs
      in contract_bignum oob (val\<lparr>vals := vs2\<rparr>))"

text \<open>
  \<^verbatim>\<open>sub_bignum\<close> sign-extends the shorter operand in place (the caller's number changes):
  the result comes with the two operands after the call. \<open>lhs\<close> and \<open>rhs\<close> are distinct
  objects.
\<close>

definition sub_bignum ::
  "(nat \<Rightarrow> int16) \<Rightarrow> int16 \<Rightarrow> bignum \<Rightarrow> bignum \<Rightarrow> (bignum \<times> bignum \<times> bignum) option" where
  "sub_bignum junk oob lhs rhs =
     (let lbig = len lhs > len rhs;
          (big, small) = (if lbig then (lhs, rhs) else (rhs, lhs));
          val = alloc_bignum junk (len big)
      in case expand_bignum junk small (len big - len small) of
           None \<Rightarrow> None
         | Some small' \<Rightarrow>
           (let (lhs', rhs') = (if lbig then (lhs, small') else (small', rhs));
                (carry, vs) = add_loop (\<lambda>i. uint (vals lhs' ! i)) (\<lambda>i. - uint (vals rhs' ! i))
                                0 (len big) 0 (vals val);
                val1 = val\<lparr>vals := vs\<rparr>
            in if carry \<noteq> 0 \<and> msb_set (vs ! (len big - 1)) then
                 (case expand_bignum junk val1 1 of
                    None \<Rightarrow> None
                  | Some val2 \<Rightarrow>
                      Some (contract_bignum oob
                              (val2\<lparr>vals := (vals val2)[len val2 - 1 := 0x0000]\<rparr>), lhs', rhs'))
               else Some (contract_bignum oob val1, lhs', rhs')))"

text \<open>
  One cell of the product. The code's four variants of the expression differ in the casts
  (\<open>unsigned\<close> or \<open>int\<close>) of the 16-bit operands only and compute the same 32 bits; \<open>carry\<close>
  is an \<open>int\<close> that holds them, shifted arithmetically and masked.
\<close>

definition mul_cell :: "u32 \<Rightarrow> int16 \<Rightarrow> int16 \<Rightarrow> int16 \<Rightarrow> u32" where
  "mul_cell carry v x y = ucast v + carry + ucast x * ucast y"

function mul_row ::
  "int16 list \<Rightarrow> int16 \<Rightarrow> nat \<Rightarrow> nat \<Rightarrow> nat \<Rightarrow> u32 \<Rightarrow> int16 list \<Rightarrow> u32 \<times> int16 list" where
  "mul_row bvs y i j n carry vs =
     (if j < n then
        (let c = mul_cell carry (vs ! (i + j)) (bvs ! j) y
         in mul_row bvs y i (Suc j) n (signed_drop_bit 16 c AND 0xffff)
              (vs[i + j := ucast (c AND 0xffff)]))
      else (carry, vs))"
  by pat_completeness auto
termination
  by (relation "measure (\<lambda>(bvs, y, i, j, n, carry, vs). n - j)") auto

declare mul_row.simps [simp del]

text \<open>The rows of all cells of \<open>small\<close> but the last.\<close>

function mul_rows :: "bignum \<Rightarrow> bignum \<Rightarrow> nat \<Rightarrow> int16 list \<Rightarrow> int16 list" where
  "mul_rows big small i vs =
     (if i < len small - 1 then
        (let (carry, vs1) = mul_row (vals big) (vals small ! i) i 0 (len big) 0 vs;
             vs2 = (if carry \<noteq> 0
                    then vs1[i + len big := vs1 ! (i + len big) + ucast carry] else vs1)
         in mul_rows big small (Suc i) vs2)
      else vs)"
  by pat_completeness auto
termination
  by (relation "measure (\<lambda>(big, small, i, vs). len small - 1 - i)") auto

declare mul_rows.simps [simp del]

definition mul_bignum :: "(nat \<Rightarrow> int16) \<Rightarrow> int16 \<Rightarrow> bignum \<Rightarrow> bignum \<Rightarrow> bignum" where
  "mul_bignum junk oob lhs rhs =
     (let val = alloc_bignum junk (len lhs + len rhs);
          zeroed = replicate (len val) 0;
          (big, small) = (if len lhs > len rhs then (lhs, rhs) else (rhs, lhs));
          vs1 = mul_rows big small 0 zeroed;
          (carry, vs2) = mul_row (vals big) (vals small ! (len small - 1)) (len small - 1)
                           0 (len big) 0 vs1;
          vs3 = (if carry \<noteq> 0
                 then vs2[len val - 1 := vs2 ! (len val - 1) + ucast carry] else vs2)
      in contract_bignum oob (val\<lparr>vals := vs3\<rparr>))"

text \<open>
  \<^verbatim>\<open>main\<close>: what it writes to standard output. With fewer than two arguments the usage line
  is printed and \<^verbatim>\<open>parse_bignum\<close> is called on a null pointer all the same: undefined, \<open>None\<close>.
\<close>

definition bignum_main :: "(nat \<Rightarrow> int16) \<Rightarrow> int16 \<Rightarrow> string list \<Rightarrow> string option" where
  "bignum_main junk oob argv =
     (if length argv < 3 then None
      else case parse_bignum oob (argv ! 1) of
        None \<Rightarrow> None
      | Some big1 \<Rightarrow>
          (case parse_bignum oob (argv ! 2) of
             None \<Rightarrow> None
           | Some big2 \<Rightarrow> Some (fst (print_bignum (mul_bignum junk oob big1 big2)))))"

section \<open>Values of cell arrays\<close>

lemma uint_ffff [simp]: "uint (0xffff :: u16) = 65535"
  by code_simp

lemma uval_append [val_simps]: "uval (xs @ ys) = uval xs + 65536 ^ length xs * uval ys"
  by (induction xs) (auto simp: algebra_simps)

lemma uval_nonneg: "0 \<le> uval ws"
  by (induction ws) auto

lemma uval_less: "uval ws < 65536 ^ length ws"
proof (induction ws)
  case (Cons w ws)
  have "uint w + 65536 * uval ws < 65536 + 65536 * uval ws"
    using uint_less_u16 [of w] by simp
  also have "\<dots> \<le> 65536 * 65536 ^ length ws"
    using Cons.IH by simp
  finally show ?case by simp
qed simp

lemma uval_zeros [val_simps]: "uval (replicate n 0) = 0"
  by (induction n) auto

lemma uval_ones [val_simps]: "uval (replicate n 0xffff) = 65536 ^ n - 1"
proof (induction n)
  case (Suc n)
  then show ?case
    unfolding replicate_Suc uval.simps uint_ffff power_Suc by simp
qed simp

lemma uval_update:
  assumes "i < length vs"
  shows "uval (vs[i := w]) = uval vs + 65536 ^ i * (uint w - uint (vs ! i))"
proof -
  have "uval (vs[i := w]) = uval (take i vs @ w # drop (Suc i) vs)"
    using assms by (simp add: take_update_eq_append)
  moreover have "uval vs = uval (take i vs @ vs ! i # drop (Suc i) vs)"
    using assms by (simp add: id_take_nth_drop [symmetric])
  ultimately show ?thesis
    using assms by (simp add: uval_append min_def algebra_simps)
qed

lemma msb_set_uint: "msb_set w \<longleftrightarrow> 32768 \<le> uint w"
proof -
  have "msb_set w \<longleftrightarrow> bit w 15"
    using and_exp_eq_0_iff_not_bit [of w 15] by (simp add: msb_set_def)
  also have "\<dots> \<longleftrightarrow> odd (uint w div 2 ^ 15)"
  proof -
    have "bit w 15 \<longleftrightarrow> bit (uint w) 15" by (simp add: bit_uint_iff)
    then show ?thesis by (simp only: bit_iff_odd)
  qed
  also have "\<dots> \<longleftrightarrow> 32768 \<le> uint w"
  proof (cases "32768 \<le> uint w")
    case True
    then have "uint w div 2 ^ 15 = 1"
      using uint_less_u16 [of w] by simp
    with True show ?thesis by simp
  next
    case False
    then have "uint w div 2 ^ 15 = 0" by simp
    with False show ?thesis by simp
  qed
  finally show ?thesis .
qed

lemma msb_set_simps [simp]: "\<not> msb_set 0" "msb_set 0xffff"
  by (simp_all add: msb_set_uint)

definition scell :: "int16 \<Rightarrow> int" where
  "scell w = (if msb_set w then uint w - 65536 else uint w)"

lemma scell_bounds: "- 32768 \<le> scell w" "scell w < 32768"
proof -
  have u: "0 \<le> uint w" "uint w < 65536" using uint_less_u16 [of w] by simp_all
  show "- 32768 \<le> scell w"
    unfolding scell_def msb_set_uint using u by presburger
  show "scell w < 32768"
    unfolding scell_def msb_set_uint using u by presburger
qed

lemma sval_snoc [val_simps]: "sval (ws @ [w]) = uval ws + 65536 ^ length ws * scell w"
  by (simp add: sval_def scell_def uval_append algebra_simps)

lemma sval_range:
  assumes "ws \<noteq> []"
  shows "- (65536 ^ length ws) \<le> 2 * sval ws" "2 * sval ws < 65536 ^ length ws"
proof -
  obtain ys y where ws: "ws = ys @ [y]" using assms by (metis append_butlast_last_id)
  let ?B = "65536 ^ length ys :: int"
  have B: "0 < ?B" by simp
  have s: "sval ws = uval ys + ?B * scell y" by (simp add: ws sval_snoc)
  have "?B * (- 32768) \<le> ?B * scell y"
    using scell_bounds(1) [of y] B by (intro mult_left_mono) auto
  then show "- (65536 ^ length ws) \<le> 2 * sval ws"
    using s uval_nonneg [of ys] by (simp add: ws)
  have "?B * scell y \<le> ?B * 32767"
    using scell_bounds(2) [of y] B by (intro mult_left_mono) auto
  then show "2 * sval ws < 65536 ^ length ws"
    using s uval_less [of ys] unfolding ws length_append power_add power_one_right
      list.size add_0 One_nat_def [symmetric] by linarith
qed

lemma sval_mod: "sval ws mod 65536 ^ length ws = uval ws"
  using uval_nonneg [of ws] uval_less [of ws]
  by (auto simp: sval_def)

text \<open>The two's complement value is the one in range with the right residue.\<close>

lemma sval_unique:
  assumes "ws \<noteq> []" and "v mod 65536 ^ length ws = uval ws"
    and "- (65536 ^ length ws) \<le> 2 * v" and "2 * v < 65536 ^ length ws"
  shows "sval ws = v"
proof -
  let ?B = "65536 ^ length ws :: int"
  have "?B dvd (sval ws - v)"
    using assms(2) sval_mod [of ws] by (metis mod_eq_dvd_iff)
  then obtain k where k: "sval ws - v = ?B * k" by (auto elim: dvdE)
  have "\<bar>sval ws - v\<bar> < ?B"
    using sval_range [OF assms(1)] assms(3,4) by linarith
  then have "\<bar>?B * k\<bar> < ?B" using k by simp
  then have "?B * \<bar>k\<bar> < ?B * 1" by (simp add: abs_mult)
  then have "k = 0" by simp
  with k show ?thesis by simp
qed

lemma sval_sign_extend [val_simps]:
  assumes "ws \<noteq> []"
  shows "sval (ws @ replicate n (if msb_set (last ws) then 0xffff else 0)) = sval ws"
proof (cases "msb_set (last ws)")
  case True
  have "last (ws @ replicate n 0xffff) = (if n = 0 then last ws else 0xffff)" by simp
  with True assms show ?thesis
    by (simp add: sval_def uval_append uval_ones power_add algebra_simps)
next
  case False
  have "last (ws @ replicate n 0) = (if n = 0 then last ws else 0)" by simp
  with False assms show ?thesis
    by (simp add: sval_def uval_append uval_zeros)
qed

section \<open>Expansion\<close>

lemma drop_take_step:
  assumes "i < l" and "l \<le> length vs" and "l \<le> length buf"
  shows "take (Suc i) (buf[i := vs ! i]) @ drop (Suc i) (take l vs) @ drop l (buf[i := vs ! i]) =
         take i buf @ drop i (take l vs) @ drop l buf"
proof -
  have "drop i (take l vs) = vs ! i # drop (Suc i) (take l vs)"
    using assms by (metis Cons_nth_drop_Suc length_take min.absorb2 nth_take)
  then show ?thesis using assms by (simp add: take_Suc_update)
qed

lemma fill_step:
  assumes "i < l" and "l \<le> length buf"
  shows "take (Suc i) (buf[i := x]) @ replicate (l - Suc i) x @ drop l (buf[i := x]) =
         take i buf @ replicate (l - i) x @ drop l buf"
proof -
  have "replicate (l - i) x = x # replicate (l - Suc i) x"
    using assms by (simp add: Suc_diff_Suc [symmetric])
  then show ?thesis using assms by (simp add: take_Suc_update)
qed

lemma expand_copy_Some:
  assumes "l \<le> 65535" and "l \<le> length vs" and "l \<le> length buf" and "unat i \<le> l"
  shows "expand_copy vs l i buf =
           Some (of_nat l, take (unat i) buf @ drop (unat i) (take l vs) @ drop l buf)"
  using assms
proof (induction "l - unat i" arbitrary: i buf)
  case 0
  then have l: "unat i = l" by simp
  have "i = of_nat (unat i)" by simp
  then have "i = of_nat l" by (simp only: l)
  with 0 l show ?case by (subst expand_copy.simps) simp
next
  case (Suc d)
  then have i: "unat i < l" by simp
  have i1: "unat (i + 1) = Suc (unat i)"
    using i Suc.prems(1) by (simp add: unat_word_ariths)
  have "expand_copy vs l i buf = expand_copy vs l (i + 1) (buf[unat i := vs ! unat i])"
    using i by (subst expand_copy.simps) simp
  also have "\<dots> = Some (of_nat l, take (unat (i + 1)) (buf[unat i := vs ! unat i]) @
      drop (unat (i + 1)) (take l vs) @ drop l (buf[unat i := vs ! unat i]))"
    using Suc.hyps(2) Suc.prems i i1 by (intro Suc.hyps(1)) auto
  finally show ?case
    using drop_take_step [OF i Suc.prems(2,3)] by (simp only: i1)
qed

lemma expand_sign_Some:
  assumes "l \<le> 65535" and "l \<le> length buf" and "unat i \<le> l"
  shows "expand_sign sg l i buf =
           Some (take (unat i) buf @ replicate (l - unat i) sg @ drop l buf)"
  using assms
proof (induction "l - unat i" arbitrary: i buf)
  case 0
  then show ?case by (subst expand_sign.simps) simp
next
  case (Suc d)
  then have i: "unat i < l" by simp
  have i1: "unat (i + 1) = Suc (unat i)"
    using i Suc.prems(1) by (simp add: unat_word_ariths)
  have "expand_sign sg l i buf = expand_sign sg l (i + 1) (buf[unat i := sg])"
    using i by (subst expand_sign.simps) simp
  also have "\<dots> = Some (take (unat (i + 1)) (buf[unat i := sg]) @
      replicate (l - unat (i + 1)) sg @ drop l (buf[unat i := sg]))"
    using Suc.hyps(2) Suc.prems i i1 by (intro Suc.hyps(1)) auto
  finally show ?case
    using fill_step [OF i Suc.prems(2)] by (simp only: i1)
qed

lemma expand_bignum_Some:
  assumes "wf_bn b" and "len b + n \<le> 65535"
  shows "expand_bignum junk b n =
    Some (b\<lparr>vals := cells b @ replicate n (if msb_set (last (cells b)) then 0xffff else 0),
            len := len b + n\<rparr>)"
proof -
  have "0 < len b" "len b \<le> length (vals b)" using assms(1) by (simp_all add: wf_bn_def)
  then show ?thesis
    using assms(2)
    by (simp add: expand_bignum_def Let_def cells_def expand_copy_Some expand_sign_Some
        last_take_nth unat_of_nat min_def)
qed

lemma expand_bignum_val:
  assumes "wf_bn b" and "len b + n \<le> 65535" and "expand_bignum junk b n = Some b'"
  shows "bn_val b' = bn_val b" and "len b' = len b + n" and "wf_bn b'"
proof -
  have b': "b' = b\<lparr>vals := cells b @ replicate n (if msb_set (last (cells b)) then 0xffff else 0),
            len := len b + n\<rparr>"
    using expand_bignum_Some [OF assms(1,2), of junk] assms(3) by simp
  have l: "length (cells b) = len b" and ne: "cells b \<noteq> []"
    using assms(1) by (auto simp: wf_bn_def cells_def)
  have "cells b' = cells b @ replicate n (if msb_set (last (cells b)) then 0xffff else 0)"
    unfolding b' cells_def [of "b\<lparr>vals := _, len := _\<rparr>"] by (simp add: l)
  then show "bn_val b' = bn_val b"
    by (simp only: bn_val_def sval_sign_extend [OF ne])
  show "len b' = len b + n" by (simp add: b')
  show "wf_bn b'" using assms(1) by (simp add: b' wf_bn_def l)
qed

text \<open>A number of 65536 cells or more: the 16-bit counter wraps and the copy never ends.\<close>

lemma expand_copy_diverges:
  assumes "65536 \<le> l"
  shows "expand_copy vs l i buf = None"
proof (cases "expand_copy vs l i buf")
  case (Some r)
  have "65536 \<le> l \<longrightarrow> False"
  proof (rule expand_copy.raw_induct [where P = "\<lambda>vs l i buf r. 65536 \<le> l \<longrightarrow> False", OF _ Some])
    fix f and vs :: "int16 list" and l and i :: int16 and buf r
    assume IH: "\<And>vs l i buf r. f vs l i buf = Some r \<Longrightarrow> 65536 \<le> l \<longrightarrow> False"
      and eq: "(if unat i < l then f vs l (i + 1) (buf[unat i := vs ! unat i])
                else Some (i, buf)) = Some r"
    show "65536 \<le> l \<longrightarrow> False"
    proof
      assume l: "65536 \<le> l"
      have "unat i < 65536" by (rule unat_less_u16)
      with l have "unat i < l" by simp
      with eq have "f vs l (i + 1) (buf[unat i := vs ! unat i]) = Some r" by simp
      from IH [OF this] l show False by simp
    qed
  qed
  with assms show ?thesis by simp
qed

section \<open>Contraction\<close>

lemma scan_top_split:
  assumes "scan_top c vs n cnt = (m, j)" and "n \<le> length vs"
  obtains k where "k \<le> n" and "m = cnt + (n - k)"
    and "take n vs = take k vs @ replicate (n - k) c"
    and "j = (if k = 0 then None else Some (k - 1))" and "0 < k \<Longrightarrow> vs ! (k - 1) \<noteq> c"
  using assms
proof (induction n arbitrary: cnt thesis)
  case 0
  then show ?case by force
next
  case (Suc i)
  show ?case
  proof (cases "vs ! i = c")
    case True
    with Suc.prems have "scan_top c vs i (Suc cnt) = (m, j)" "i \<le> length vs" by simp_all
    then obtain k where k: "k \<le> i" "m = Suc cnt + (i - k)"
      "take i vs = take k vs @ replicate (i - k) c"
      "j = (if k = 0 then None else Some (k - 1))" "0 < k \<Longrightarrow> vs ! (k - 1) \<noteq> c"
      using Suc.IH by blast
    have "take (Suc i) vs = take k vs @ replicate (i - k) c @ [c]"
      using Suc.prems(3) True k(3) by (simp add: take_Suc_conv_app_nth)
    also have "replicate (i - k) c @ [c] = replicate (Suc i - k) c"
      using k(1) by (simp add: Suc_diff_le replicate_append_same)
    finally show ?thesis
      using k by (intro Suc.prems(1) [of k]) auto
  next
    case False
    with Suc.prems show ?thesis by (intro Suc.prems(1) [of "Suc i"]) auto
  qed
qed

text \<open>Cells on top that only repeat the sign do not change the value.\<close>

lemma sval_drop_redundant:
  assumes "k \<le> n" and "0 < m" and "m \<le> n"
    and "take n vs = take k vs @ replicate (n - k) c" and "c = 0 \<or> c = 0xffff"
    and "k \<le> m" and "m \<le> length vs" and "n \<le> length vs"
    and "msb_set (vs ! (m - 1)) \<longleftrightarrow> c = 0xffff"
  shows "sval (take m vs) = sval (take n vs)"
proof -
  have "take m (take k vs @ replicate (n - k) c) = take k vs @ replicate (m - k) c"
    using assms(1,3,6,7,8) by (simp add: min_def)
  then have "take m (take n vs) = take k vs @ replicate (m - k) c"
    by (simp only: assms(4))
  then have m: "take m vs = take k vs @ replicate (m - k) c"
    using assms(3) by (simp add: min_def)
  have tn: "take n vs = take m vs @ replicate (n - m) c"
    using assms(1,3,4,6) by (simp add: m replicate_add [symmetric])
  have ne: "take m vs \<noteq> []" using assms(2,7) by auto
  have "sval (take m vs @ replicate (n - m) (if msb_set (last (take m vs)) then 0xffff else 0)) =
      sval (take m vs)" by (rule sval_sign_extend [OF ne])
  moreover have "(if msb_set (last (take m vs)) then 0xffff else 0) = c"
    using assms by (auto simp: last_take_nth)
  ultimately show ?thesis by (simp only: tn)
qed

text \<open>A number is canonical when its last cell is needed.\<close>

definition canonical :: "bignum \<Rightarrow> bool" where
  "canonical b \<longleftrightarrow> wf_bn b \<and> (1 < len b \<longrightarrow>
     \<not> (vals b ! (len b - 1) = 0 \<and> \<not> msb_set (vals b ! (len b - 2))) \<and>
     \<not> (vals b ! (len b - 1) = 0xffff \<and> msb_set (vals b ! (len b - 2))))"

lemma contract_bignum_cases:
  assumes "wf_bn b" and "c = 0 \<or> c = 0xffff" and "vals b ! (len b - 1) = c"
    and "scan_top c (vals b) (len b) 0 = (cnt, j)"
    and "ext \<longleftrightarrow> (msb_set (cell_at oob (vals b) j) \<noteq> msb_set c)"
    and "l2 = (if ext then len b - cnt + 1 else len b - cnt)"
    and "b' = b\<lparr>len := if l2 = 0 then l2 + 1 else l2\<rparr>"
  shows "bn_val b' = bn_val b \<and> canonical b'"
proof -
  let ?vs = "vals b" and ?n = "len b"
  have n: "0 < ?n" "?n \<le> length ?vs" using assms(1) by (auto simp: wf_bn_def)
  obtain k where k: "k \<le> ?n" "cnt = ?n - k" "take ?n ?vs = take k ?vs @ replicate (?n - k) c"
    "j = (if k = 0 then None else Some (k - 1))" "0 < k \<Longrightarrow> ?vs ! (k - 1) \<noteq> c"
    by (rule scan_top_split [OF assms(4) n(2)]) simp
  have kn: "k < ?n"
  proof (rule ccontr)
    assume "\<not> k < ?n"
    then have "k = ?n" using k(1) by simp
    then show False using k(5) n(1) assms(3) by simp
  qed
  have nth: "?vs ! i = c" if "k \<le> i" "i < ?n" for i
  proof -
    have "?vs ! i = take ?n ?vs ! i" using that by simp
    also have "\<dots> = c" unfolding k(3) using that n k(1) by (simp add: nth_append)
    finally show ?thesis .
  qed
  define m where "m = len b'"
  have m: "m = (if k = 0 then 1 else if msb_set (?vs ! (k - 1)) \<noteq> msb_set c then Suc k else k)"
    using assms(5-7) k kn by (auto simp: m_def cell_at_def)
  have mb: "0 < m" "m \<le> ?n" "k \<le> m" using m kn by (auto split: if_splits)
  have last: "msb_set (?vs ! (m - 1)) \<longleftrightarrow> c = 0xffff"
    using m nth [of k] kn assms(2) by (auto split: if_splits)
  have "sval (take m ?vs) = sval (take ?n ?vs)"
    using k(1) mb(1,2) k(3) assms(2) mb(3) _ n(2) last
    by (rule sval_drop_redundant) (use mb n in simp)
  moreover have "canonical b'"
    using m nth [of k] kn assms(2,7) n k(5) mb
    by (auto simp: canonical_def wf_bn_def m_def split: if_splits)
  ultimately show ?thesis
    using assms(7) by (simp add: bn_val_def cells_def m_def)
qed

lemma contract_bignum_correct:
  assumes "wf_bn b"
  shows "bn_val (contract_bignum oob b) = bn_val b \<and> canonical (contract_bignum oob b)"
proof -
  consider "vals b ! (len b - 1) = 0" | "vals b ! (len b - 1) = 0xffff"
    | "vals b ! (len b - 1) \<noteq> 0" "vals b ! (len b - 1) \<noteq> 0xffff" by blast
  then show ?thesis
  proof cases
    case 1
    obtain cnt j where s: "scan_top 0 (vals b) (len b) 0 = (cnt, j)" by fastforce
    show ?thesis
      by (rule contract_bignum_cases [OF assms _ 1 s refl refl, where oob = oob])
         (use 1 s in \<open>simp_all add: contract_bignum_def Let_def\<close>)
  next
    case 2
    obtain cnt j where s: "scan_top 0xffff (vals b) (len b) 0 = (cnt, j)" by fastforce
    show ?thesis
      by (rule contract_bignum_cases [OF assms _ 2 s refl refl, where oob = oob])
         (use 2 s in \<open>simp_all add: contract_bignum_def Let_def\<close>)
  next
    case 3
    with assms show ?thesis by (simp add: contract_bignum_def canonical_def Let_def)
  qed
qed

section \<open>Parsing\<close>

lemma uval_Cons_drop: "i < length vs \<Longrightarrow> uval (drop i vs) = uint (vs ! i) + 65536 * uval (drop (Suc i) vs)"
  by (simp add: Cons_nth_drop_Suc [symmetric])

lemma uval_drop_zero: "(\<forall>k. j \<le> k \<and> k < length vs \<longrightarrow> vs ! k = 0) \<Longrightarrow> uval (drop j vs) = 0"
proof (induction "length vs - j" arbitrary: j)
  case (Suc d)
  then have "uval (drop (Suc j) vs) = 0" by (intro Suc.hyps(1)) auto
  with Suc.hyps(2) Suc.prems show ?case by (subst uval_Cons_drop) auto
qed simp

definition zero_from :: "nat \<Rightarrow> int16 list \<Rightarrow> bool" where
  "zero_from j vs \<longleftrightarrow> (\<forall>k. j \<le> k \<and> k < length vs \<longrightarrow> vs ! k = 0)"

lemma num_step:
  assumes "uint (num :: u32) \<le> 9"
  shows "uint (num + ucast (w :: u16) * 10) = uint num + 10 * uint w"
    and "uint (drop_bit 16 (num + ucast w * 10)) \<le> 9"
proof -
  have m: "uint (ucast w * (10 :: u32)) = 10 * uint w"
    using uint_less_u16 [of w] by (subst uint_mult_u32) auto
  show e: "uint (num + ucast w * 10) = uint num + 10 * uint w"
    using uint_less_u16 [of w] assms by (subst uint_add_u32) (auto simp: m)
  show "uint (drop_bit 16 (num + ucast w * 10)) \<le> 9"
    using uint_less_u16 [of w] assms unfolding uint_high16 e by linarith
qed

lemma digit_pass_correct:
  assumes "i \<le> j" and "j \<le> length vs" and "zero_from j vs" and "uint num \<le> 9"
    and "10 * uval (drop i vs) + uint num < 65536 ^ (length vs - i)"
  shows "\<exists>j' vs'. digit_pass i j num vs = Some (j', vs') \<and> length vs' = length vs \<and>
    take i vs' = take i vs \<and> uval (drop i vs') = 10 * uval (drop i vs) + uint num \<and>
    j \<le> j' \<and> j' \<le> length vs \<and> zero_from j' vs'"
  using assms
proof (induction i j num vs rule: digit_pass.induct)
  case (1 i j num vs)
  show ?case
  proof (cases "i < j")
    case True
    then have il: "i < length vs" using "1.prems"(2) by simp
    define n2 where "n2 = num + ucast (vs ! i) * 10"
    define vs2 where "vs2 = vs[i := ucast (n2 AND 0xffff)]"
    have n2: "uint n2 = uint num + 10 * uint (vs ! i)" "uint (drop_bit 16 n2) \<le> 9"
      using num_step [OF "1.prems"(4), of "vs ! i"] by (simp_all add: n2_def)
    have d: "drop (Suc i) vs2 = drop (Suc i) vs" by (simp add: vs2_def drop_update_cancel)
    have l2: "length vs2 = length vs" by (simp add: vs2_def)
    have low: "uint (vs2 ! i) = uint n2 mod 65536" using il by (simp add: vs2_def uint_low16)
    have split: "uint n2 = 65536 * (uint n2 div 65536) + uint n2 mod 65536" by simp
    have all: "10 * uval (drop i vs) + uint num =
        uint n2 mod 65536 + 65536 * (10 * uval (drop (Suc i) vs) + uint n2 div 65536)"
      using n2(1) split by (simp add: uval_Cons_drop [OF il])
    have bound: "10 * uval (drop (Suc i) vs2) + uint (drop_bit 16 n2) < 65536 ^ (length vs2 - Suc i)"
    proof -
      have "65536 * (10 * uval (drop (Suc i) vs) + uint n2 div 65536) < 65536 ^ (length vs - i)"
        using all "1.prems"(5) pos_mod_sign [of 65536 "uint n2"] by linarith
      also have "65536 ^ (length vs - i) = 65536 * (65536 :: int) ^ (length vs - Suc i)"
        using il by (simp add: power_Suc [symmetric] Suc_diff_Suc del: power_Suc)
      finally show ?thesis by (simp add: d l2 uint_high16)
    qed
    have "zero_from j vs2" using "1.prems"(3) True by (auto simp: zero_from_def vs2_def)
    with True il bound n2(2) "1.prems"(2) obtain j' vs' where r:
      "digit_pass (Suc i) j (drop_bit 16 n2) vs2 = Some (j', vs')" "length vs' = length vs2"
      "take (Suc i) vs' = take (Suc i) vs2"
      "uval (drop (Suc i) vs') = 10 * uval (drop (Suc i) vs2) + uint (drop_bit 16 n2)"
      "j \<le> j'" "j' \<le> length vs2" "zero_from j' vs'"
      using "1.IH"(1) [OF True il n2_def] by (auto simp: vs2_def)
    have nth: "vs' ! i = vs2 ! i" using r(3) by (metis lessI nth_take)
    have "take i vs' = take i vs2" using r(3) by (metis lessI less_imp_le take_take min.absorb2 min.commute)
    then have t: "take i vs' = take i vs" by (simp add: vs2_def)
    have "uval (drop i vs') = uint n2 mod 65536 + 65536 * (10 * uval (drop (Suc i) vs) + uint n2 div 65536)"
      using il r(2,4) l2 by (simp add: uval_Cons_drop nth low d uint_high16)
    with all have "uval (drop i vs') = 10 * uval (drop i vs) + uint num" by simp
    moreover have "digit_pass i j num vs = Some (j', vs')"
      using True il r(1) by (subst digit_pass.simps) (simp add: n2_def vs2_def Let_def)
    ultimately show ?thesis using r l2 t by auto
  next
    case False
    then have ij: "i = j" using "1.prems"(1) by simp
    have z: "uval (drop i vs) = 0"
      using "1.prems"(3) uval_drop_zero [of j vs] by (simp add: ij zero_from_def)
    show ?thesis
    proof (cases "num = 0")
      case True
      with False z "1.prems" ij show ?thesis by (subst digit_pass.simps) auto
    next
      case nz: False
      have "0 < uint num" using nz uint_0_iff [of num] uint_ge_0 [of num] by linarith
      then have jl: "j < length vs"
        using "1.prems"(2,5) z ij by (cases "j = length vs") auto
      have "zero_from (Suc j) vs" using "1.prems"(3) by (simp add: zero_from_def)
      then obtain j' vs' where "digit_pass i (Suc j) num vs = Some (j', vs')"
        "length vs' = length vs" "take i vs' = take i vs"
        "uval (drop i vs') = 10 * uval (drop i vs) + uint num"
        "Suc j \<le> j'" "j' \<le> length vs" "zero_from j' vs'"
        using "1.IH"(2) [OF False nz] jl ij "1.prems" by auto
      moreover from this have "digit_pass i j num vs = Some (j', vs')"
        using False nz by (subst digit_pass.simps) simp
      ultimately show ?thesis by auto
    qed
  qed
qed

lemma parse_loop_correct:
  assumes "j \<le> length vs" and "zero_from j vs" and "dec_acc (uval vs) cs < 65536 ^ length vs"
  shows "\<exists>vs'. parse_loop cs j vs = Some vs' \<and> length vs' = length vs \<and>
           uval vs' = dec_acc (uval vs) cs"
  using assms
proof (induction cs arbitrary: j vs)
  case (Cons c cs)
  show ?case
  proof (cases "c_isdigit c")
    case True
    let ?d = "of_nat (of_char c - 48) :: u32"
    note d = digit_word [OF True]
    have next_less: "10 * uval vs + digit_of c < 65536 ^ length vs"
      using Cons.prems(3) True dec_acc_ge [of "10 * uval vs + digit_of c" cs] d uval_nonneg [of vs]
      by simp
    obtain j' vs' where p: "digit_pass 0 j ?d vs = Some (j', vs')" "length vs' = length vs"
      "uval vs' = 10 * uval vs + digit_of c" "j' \<le> length vs" "zero_from j' vs'"
      using digit_pass_correct [of 0 j vs ?d] Cons.prems(1,2) next_less d by auto
    from Cons.IH [of j' vs'] p Cons.prems(3) True show ?thesis by auto
  qed auto
qed auto

lemma ten_power_cells: "(10 :: int) ^ n < 65536 ^ (n div 4 + 1)"
proof -
  have "(10 :: int) ^ n = 10 ^ (4 * (n div 4) + n mod 4)" by simp
  also have "\<dots> = (10 ^ 4) ^ (n div 4) * 10 ^ (n mod 4)"
    by (simp only: power_add power_mult)
  also have "\<dots> \<le> (65536 :: int) ^ (n div 4) * 10 ^ 3"
    by (intro mult_mono power_mono power_increasing) auto
  also have "\<dots> < 65536 ^ (n div 4) * 65536" by simp
  finally show ?thesis by simp
qed

text \<open>The number a decimal string denotes, as \<^verbatim>\<open>parse_bignum\<close> reads it.\<close>

definition dec_val :: "string \<Rightarrow> int" where
  "dec_val s = (case s of [] \<Rightarrow> 0 | c # cs \<Rightarrow> if c = CHR ''-'' then - dec_acc 0 cs else dec_acc 0 s)"

lemma complement_cells_length [simp]: "length (complement_cells c ws) = length ws"
  by (induction ws arbitrary: c) (auto simp: Let_def)

lemma uint_not_u16: "uint (NOT (w :: u16)) = 65535 - uint w"
proof -
  have "NOT w = 65535 - w" by (simp add: not_eq_complement)
  also have "uint (65535 - w) = 65535 - uint w"
    using uint_less_u16 [of w] by (subst uint_sub_lem [THEN iffD1]) (auto simp: word_le_def uint_ffff)
  finally show ?thesis .
qed

lemma uval_complement:
  "uval (complement_cells c ws) = (65536 ^ length ws - 1 - uval ws + of_bool c) mod 65536 ^ length ws"
proof (induction ws arbitrary: c)
  case (Cons w ws)
  let ?B = "65536 ^ length ws :: int" and ?v = "NOT w + (if c then 1 else 0)"
  have U: "0 \<le> uval ws" "uval ws < ?B" using uval_nonneg uval_less by auto
  have v: "uint ?v = (65535 - uint w + of_bool c) mod 65536"
    by (simp add: uint_word_ariths uint_not_u16)
  show ?case
  proof (cases "c \<and> w = 0")
    case True
    then have "?v = 0" by simp
    with True have "uval (complement_cells c (w # ws)) = 65536 * ((?B - uval ws) mod ?B)"
      by (simp add: Cons.IH)
    also have "\<dots> = (65536 * (?B - uval ws)) mod (65536 * ?B)" by (simp add: mult_mod_right)
    finally show ?thesis using True by (simp add: algebra_simps)
  next
    case False
    have nz: "\<not> (?v = 0 \<and> c)"
    proof
      assume "?v = 0 \<and> c"
      then have "uint (NOT w + 1) = 0" "c" by auto
      then have "(65536 - uint w) mod 65536 = 0" using v by simp
      then have "uint w = 0"
        using uint_less_u16 [of w] uint_ge_0 [of w] mod_pos_pos_trivial [of "65536 - uint w" 65536]
        by linarith
      then show False using False \<open>c\<close> uint_0_iff [of w] by blast
    qed
    have "uint w > 0 \<or> \<not> c"
      using False uint_0_iff [of w] uint_ge_0 [of w] by linarith
    then have k: "of_bool c = (0 :: int) \<or> of_bool c = (1 :: int) \<and> 0 < uint w" by auto
    have r1: "0 \<le> 65535 - uint w + of_bool c"
      using k uint_less_u16 [of w] by linarith
    have r2: "65535 - uint w + of_bool c < 65536"
      using k uint_ge_0 [of w] by linarith
    have "complement_cells c (w # ws) = ?v # complement_cells False ws"
      by (simp only: complement_cells.simps Let_def nz simp_thms)
    moreover have "uint ?v = 65535 - uint w + of_bool c"
      using v mod_pos_pos_trivial [OF r1 r2] by simp
    moreover have "uval (complement_cells False ws) = (?B - 1 - uval ws) mod ?B"
      using Cons.IH [of False] by simp
    ultimately have "uval (complement_cells c (w # ws)) =
        65535 - uint w + of_bool c + 65536 * ((?B - 1 - uval ws) mod ?B)"
      by (simp only: uval.simps)
    also have "(?B - 1 - uval ws) mod ?B = ?B - 1 - uval ws" using U by simp
    also have "65535 - uint w + of_bool c + 65536 * (?B - 1 - uval ws) =
        65536 ^ length (w # ws) - 1 - uval (w # ws) + of_bool c" by simp
    finally have e: "uval (complement_cells c (w # ws)) =
        65536 ^ length (w # ws) - 1 - uval (w # ws) + of_bool c" .
    have "uval (complement_cells c (w # ws)) mod 65536 ^ length (complement_cells c (w # ws)) =
        uval (complement_cells c (w # ws))"
      by (rule mod_pos_pos_trivial [OF uval_nonneg uval_less])
    from this [unfolded complement_cells_length e, symmetric] show ?thesis unfolding e .
  qed
qed simp

lemma uval_negate: "uval (complement_cells True ws) = (- uval ws) mod 65536 ^ length ws"
  by (simp add: uval_complement)

lemma sval_negate:
  assumes "ws \<noteq> []" and "2 * sval ws \<noteq> - (65536 ^ length ws)"
  shows "sval (complement_cells True ws) = - sval ws"
proof (rule sval_unique)
  have len: "length (complement_cells True ws) = length ws" by simp
  show "complement_cells True ws \<noteq> []" using assms(1) len by (metis length_0_conv)
  have "(- sval ws) mod 65536 ^ length ws = (- (sval ws mod 65536 ^ length ws)) mod 65536 ^ length ws"
    by (simp add: mod_minus_eq)
  then show "(- sval ws) mod 65536 ^ length (complement_cells True ws) = uval (complement_cells True ws)"
    by (simp only: sval_mod uval_negate len)
  show "- (65536 ^ length (complement_cells True ws)) \<le> 2 * - sval ws"
    using sval_range(2) [OF assms(1)] unfolding len by linarith
  show "2 * - sval ws < 65536 ^ length (complement_cells True ws)"
    using sval_range(1) [OF assms(1)] assms(2) unfolding len by linarith
qed

lemma sval_eq_uval: "2 * uval ws < 65536 ^ length ws \<Longrightarrow> sval ws = uval ws"
proof (cases "ws = []")
  case False
  assume a: "2 * uval ws < 65536 ^ length ws"
  have "- (65536 ^ length ws) \<le> (0 :: int)" by simp
  with False a show ?thesis
    using uval_nonneg [of ws] uval_less [of ws] by (intro sval_unique) auto
qed (simp add: sval_def)

text \<open>
  Parsing never leaves the array, and yields the canonical representation of the number.
\<close>

lemma parse_digits:
  assumes "length s \<le> length numstr" and "n = length numstr div 4 + 2"
  shows "\<exists>vs. parse_loop s 1 (replicate n 0) = Some vs \<and> length vs = n \<and>
    sval vs = dec_acc 0 s \<and> uval vs = dec_acc 0 s \<and> 2 * dec_acc 0 s < 65536 ^ n"
proof -
  have "dec_acc 0 s < 10 ^ length s" using dec_acc_less [of 0 s] by simp
  also have "(10 :: int) ^ length s \<le> 10 ^ length numstr" using assms(1) by (simp add: power_increasing)
  also have "\<dots> < 65536 ^ (length numstr div 4 + 1)" by (rule ten_power_cells)
  finally have b: "dec_acc 0 s < 65536 ^ (length numstr div 4 + 1)" .
  have pos: "0 < (65536 :: int) ^ (length numstr div 4)" by simp
  from b have b2: "2 * dec_acc 0 s < 65536 ^ n"
    unfolding assms(2) power_add by simp (use pos in linarith)
  have "dec_acc 0 s < 65536 ^ n"
    using b2 dec_acc_ge [of 0 s] by linarith
  then obtain vs where vs: "parse_loop s 1 (replicate n 0) = Some vs" "length vs = n"
    "uval vs = dec_acc 0 s"
  proof -
    have "1 \<le> length (replicate n (0 :: int16))" using assms(2) by simp
    moreover have "zero_from 1 (replicate n 0)" by (simp add: zero_from_def)
    moreover have "dec_acc (uval (replicate n 0)) s < 65536 ^ length (replicate n (0 :: int16))"
      using \<open>dec_acc 0 s < 65536 ^ n\<close> by (simp add: uval_zeros)
    ultimately obtain vs' where "parse_loop s 1 (replicate n 0) = Some vs'"
      "length vs' = length (replicate n (0 :: int16))" "uval vs' = dec_acc (uval (replicate n 0)) s"
      using parse_loop_correct by blast
    then show thesis by (intro that [of vs']) (simp_all add: uval_zeros)
  qed
  have "sval vs = dec_acc 0 s" using sval_eq_uval [of vs] vs b2 by simp
  with vs b2 show ?thesis by auto
qed

lemma parse_bignum_correct:
  "\<exists>b. parse_bignum oob s = Some b \<and> canonical b \<and> bn_val b = dec_val s"
proof -
  let ?n = "length s div 4 + 2"
  define neg where "neg = (case s of c # _ \<Rightarrow> c = CHR ''-'' | [] \<Rightarrow> False)"
  define ds where "ds = (if neg then tl s else s)"
  have "length ds \<le> length s" by (simp add: ds_def)
  then obtain vs where vs: "parse_loop ds 1 (replicate ?n 0) = Some vs" "length vs = ?n"
    "sval vs = dec_acc 0 ds" "uval vs = dec_acc 0 ds" "2 * dec_acc 0 ds < 65536 ^ ?n"
    using parse_digits [of ds s ?n] by auto
  let ?vs2 = "if neg then complement_cells True vs else vs"
  let ?b = "\<lparr>vals = ?vs2, len = ?n\<rparr>"
  have dv: "dec_val s = (if neg then - dec_acc 0 ds else dec_acc 0 ds)"
    by (auto simp: dec_val_def ds_def neg_def split: list.splits)
  have ne: "vs \<noteq> []" using vs(2) by auto
  have "2 * sval vs \<noteq> - (65536 ^ length vs)"
    using vs(2,3) dec_acc_ge [of 0 ds] zero_less_power [of "65536 :: int" "length vs"] by linarith
  then have "sval ?vs2 = dec_val s" using sval_negate [OF ne] vs(3) dv by simp
  then have "wf_bn ?b" "bn_val ?b = dec_val s"
    using vs(2) by (auto simp: wf_bn_def bn_val_def cells_def)
  moreover have "parse_bignum oob s = Some (contract_bignum oob ?b)"
    using vs(1) by (simp add: parse_bignum_def Let_def neg_def [symmetric] ds_def [symmetric])
  ultimately show ?thesis using contract_bignum_correct [of ?b oob] by auto
qed

section \<open>Printing\<close>

text \<open>Fixed-width hexadecimal, and how it composes with \<^verbatim>\<open>%x\<close>.\<close>

primrec hexw :: "nat \<Rightarrow> nat \<Rightarrow> string" where
  "hexw 0 n = []"
| "hexw (Suc k) n = hexw k (n div 16) @ [hex_digit (n mod 16)]"

lemma hex_digit_0 [simp]: "hex_digit 0 = CHR ''0''"
  by code_simp

lemma hex_split:
  "(x * 16 ^ Suc b + y) div 16 = x * 16 ^ b + y div (16 :: nat)"
  "(x * 16 ^ Suc b + y) mod 16 = y mod (16 :: nat)"
proof -
  have "x * 16 ^ Suc b + y = y + 16 * (x * 16 ^ b)" by simp
  then show "(x * 16 ^ Suc b + y) div 16 = x * 16 ^ b + y div (16 :: nat)"
    "(x * 16 ^ Suc b + y) mod 16 = y mod (16 :: nat)"
    by (simp_all only: div_mult_self2 mod_mult_self2)
qed

lemma hexw_append:
  "y < 16 ^ b \<Longrightarrow> hexw (a + b) (x * 16 ^ b + y) = hexw a x @ hexw b y"
proof (induction b arbitrary: y)
  case (Suc b)
  have "y div 16 < 16 ^ b" using Suc.prems by (simp add: less_mult_imp_div_less mult.commute)
  then show ?case
    using Suc.IH [of "y div 16"] by (simp only: add_Suc_right hexw.simps hex_split append_assoc)
qed simp

lemma hex_str_append:
  assumes "0 < x" and "y < 16 ^ b"
  shows "hex_str (x * 16 ^ b + y) = hex_str x @ hexw b y"
  using assms(2)
proof (induction b arbitrary: y)
  case (Suc b)
  have y: "y div 16 < 16 ^ b" using Suc.prems by (simp add: less_mult_imp_div_less mult.commute)
  have "16 \<le> x * 16 ^ Suc b + y" using assms(1) by (simp add: trans_le_add1)
  then have "hex_str (x * 16 ^ Suc b + y) = hex_str (x * 16 ^ b + y div 16) @ [hex_digit (y mod 16)]"
    by (subst hex_str.simps) (simp add: hex_split del: power_Suc)
  with Suc.IH [OF y] show ?case by simp
qed simp

lemma pad_hex: "n < 65536 \<Longrightarrow>
  (if n < 4096 then ''0'' else '''') @ (if n < 256 then ''0'' else '''') @
  (if n < 16 then ''0'' else '''') @ hex_str n = hexw 4 n"
proof -
  assume n: "n < 65536"
  have w: "hexw 4 n = [hex_digit (n div 16 div 16 div 16 mod 16), hex_digit (n div 16 div 16 mod 16),
      hex_digit (n div 16 mod 16), hex_digit (n mod 16)]"
  proof -
    have "(4 :: nat) = Suc (Suc (Suc (Suc 0)))" by simp
    then show ?thesis by (simp only: hexw.simps append.simps)
  qed
  have one: "hex_str d = [hex_digit d]" if "d < 16" for d
    using that by (subst hex_str.simps) simp
  have s: "hex_str n = hex_str (n div 16) @ [hex_digit (n mod 16)]" if "16 \<le> n" for n
    using that by (subst hex_str.simps) simp
  consider "n < 16" | "16 \<le> n" "n < 256" | "256 \<le> n" "n < 4096" | "4096 \<le> n" by linarith
  then show ?thesis
  proof cases
    case 1
    then show ?thesis by (simp add: one w)
  next
    case 2
    then have "n div 16 < 16" "n div 16 div 16 = 0" by simp_all
    with 2 show ?thesis by (simp add: s [of n] one w)
  next
    case 3
    then have "n div 16 div 16 < 16" "16 \<le> n div 16" "n div 16 div 16 div 16 = 0" by simp_all
    with 3 show ?thesis
      by (simp add: s [of n] s [of "n div 16"] one w)
  next
    case 4
    with n have "n div 16 div 16 div 16 < 16" "16 \<le> n div 16" "16 \<le> n div 16 div 16" by simp_all
    with 4 show ?thesis
      by (simp add: s [of n] s [of "n div 16"] s [of "n div 16 div 16"] one w)
  qed
qed

lemma pad_zeros_hex: "pad_zeros w @ hex_str (unat w) = hexw 4 (unat w)"
  using pad_hex [OF unat_less_u16 [of w]] by (simp add: pad_zeros_def)

text \<open>The cells below the top one are four digits each.\<close>

lemma nat_uval_take_Suc:
  assumes "i < length vs"
  shows "nat (uval (take (Suc i) vs)) = unat (vs ! i) * 16 ^ (4 * i) + nat (uval (take i vs))"
proof -
  have p: "(16 :: nat) ^ (4 * i) = 65536 ^ i" by (simp add: power_mult)
  have "uval (take (Suc i) vs) = uval (take i vs) + 65536 ^ i * uint (vs ! i)"
    using assms by (simp add: take_Suc_conv_app_nth uval_append)
  then have "int (nat (uval (take (Suc i) vs))) = int (unat (vs ! i) * 16 ^ (4 * i) + nat (uval (take i vs)))"
    using uval_nonneg by (simp add: p)
  then show ?thesis by linarith
qed

lemma nat_uval_less: "length vs = n \<Longrightarrow> nat (uval vs) < 16 ^ (4 * n)"
proof -
  assume n: "length vs = n"
  have p: "(16 :: nat) ^ (4 * n) = 65536 ^ n" by (simp add: power_mult)
  have "uval vs < int (65536 ^ n)" using uval_less [of vs] n by simp
  then show ?thesis unfolding p by (simp add: nat_less_iff uval_nonneg)
qed

lemma print_cells_padded:
  assumes "i \<le> length vs" and "i < n"
  shows "print_cells '''' vs n i = hexw (4 * i) (nat (uval (take i vs)))"
  using assms
proof (induction i)
  case (Suc i)
  then have i: "i < length vs" "i \<noteq> n - 1" by simp_all
  have b: "nat (uval (take i vs)) < 16 ^ (4 * i)" using i by (intro nat_uval_less) simp
  have "hexw (4 + 4 * i) (nat (uval (take (Suc i) vs))) =
      hexw 4 (unat (vs ! i)) @ hexw (4 * i) (nat (uval (take i vs)))"
    unfolding nat_uval_take_Suc [OF i(1)] by (rule hexw_append [OF b])
  also have "hexw 4 (unat (vs ! i)) = pad_zeros (vs ! i) @ hex_str (unat (vs ! i))"
    by (rule pad_zeros_hex [symmetric])
  finally show ?case using Suc i by simp
qed simp

lemma print_cells_top:
  assumes "0 < n" and "n \<le> length vs" and "vs ! (n - 1) \<noteq> 0"
  shows "print_cells '''' vs n n = hex_str (nat (uval (take n vs)))"
proof -
  obtain i where n: "n = Suc i" using assms(1) by (cases n) auto
  have i: "i < length vs" using assms(2) n by simp
  have b: "nat (uval (take i vs)) < 16 ^ (4 * i)" using i by (intro nat_uval_less) simp
  have "0 < unat (vs ! i)" using assms(3) n by (simp add: unat_gt_0)
  then have "hex_str (nat (uval (take n vs))) = hex_str (unat (vs ! i)) @ hexw (4 * i) (nat (uval (take i vs)))"
    unfolding n nat_uval_take_Suc [OF i] by (rule hex_str_append [OF _ b])
  then show ?thesis using print_cells_padded [of i vs n] i n by simp
qed

lemma drop_zero_cells_uval:
  "n \<le> length vs \<Longrightarrow> uval (take (drop_zero_cells vs n) vs) = uval (take n vs) \<and>
     drop_zero_cells vs n \<le> n \<and>
     (0 < drop_zero_cells vs n \<longrightarrow> vs ! (drop_zero_cells vs n - 1) \<noteq> 0)"
  by (induction n) (auto simp: take_Suc_conv_app_nth uval_append)

lemma completion_bignum_correct:
  assumes "wf_bn b" and "bn_val b < 0"
  defines "b' \<equiv> completion_bignum b"
  shows "uval (cells b') = - bn_val b" and "wf_bn b'" and "vals b' ! (len b' - 1) \<noteq> 0"
    and "length (vals b') = length (vals b)"
proof -
  have n: "0 < len b" "len b \<le> length (vals b)" using assms(1) by (auto simp: wf_bn_def)
  let ?ws = "cells b"
  have l: "length ?ws = len b" using n by (simp add: cells_def)
  let ?vs = "complement_cells True ?ws @ drop (len b) (vals b)"
  have tk: "take (len b) ?vs = complement_cells True ?ws" using l by simp
  have neg: "bn_val b = uval ?ws - 65536 ^ len b"
    using assms(2) uval_nonneg [of ?ws] l by (auto simp: bn_val_def sval_def split: if_splits)
  have m: "(65536 ^ len b - uval ?ws) mod 65536 ^ len b = 65536 ^ len b - uval ?ws"
    if "0 < uval ?ws" using that uval_less [of ?ws] l by (intro mod_pos_pos_trivial) auto
  have "0 < uval ?ws"
  proof -
    have "- (65536 ^ len b) \<le> 2 * bn_val b"
    proof -
      have "?ws \<noteq> []" using l n by auto
      from sval_range(1) [OF this] show ?thesis by (simp add: l bn_val_def)
    qed
    moreover have "0 < (65536 :: int) ^ len b" by simp
    ultimately show ?thesis using neg by linarith
  qed
  then have "uval (complement_cells True ?ws) = - bn_val b"
    using neg m by (simp add: uval_complement l)
  then have u: "uval (take (len b) ?vs) = - bn_val b" by (simp only: tk)
  have v: "vals b' = ?vs" "len b' = drop_zero_cells ?vs (len b)"
    by (simp_all add: b'_def completion_bignum_def Let_def cells_def)
  have d: "uval (take (len b') ?vs) = - bn_val b \<and> len b' \<le> len b \<and>
      (0 < len b' \<longrightarrow> ?vs ! (len b' - 1) \<noteq> 0)"
  proof -
    have le: "len b \<le> length ?vs" using n l by simp
    from drop_zero_cells_uval [OF le] show ?thesis unfolding v(2) u .
  qed
  then have "0 < len b'" using assms(2) by (cases "len b' = 0") auto
  then show "uval (cells b') = - bn_val b" "vals b' ! (len b' - 1) \<noteq> 0"
    using d unfolding cells_def [of b'] v(1) by blast+
  show "wf_bn b'" using d n \<open>0 < len b'\<close> by (simp add: wf_bn_def v(1) l)
  show "length (vals b') = length (vals b)" using n l by (simp add: v(1))
qed

definition hex_val :: "int \<Rightarrow> string" where
  "hex_val x = (if x < 0 then ''-'' else '''') @ hex_str (nat \<bar>x\<bar>)"

lemma msb_negative: "wf_bn b \<Longrightarrow> msb_set (vals b ! (len b - 1)) \<longleftrightarrow> bn_val b < 0"
proof -
  assume "wf_bn b"
  then have n: "0 < len b" "len b \<le> length (vals b)" by (auto simp: wf_bn_def)
  have ne: "cells b \<noteq> []" and la: "last (cells b) = vals b ! (len b - 1)"
    using n by (auto simp: cells_def last_take_nth)
  show ?thesis
    using uval_nonneg [of "cells b"] uval_less [of "cells b"] ne
    by (auto simp: bn_val_def sval_def la)
qed

lemma print_bignum_correct:
  assumes "canonical b"
  shows "fst (print_bignum b) = hex_val (bn_val b) @ newline"
proof -
  have wf: "wf_bn b" and n: "0 < len b" "len b \<le> length (vals b)"
    using assms by (auto simp: canonical_def wf_bn_def)
  let ?vs = "vals b" and ?n = "len b"
  have pos: "bn_val b = uval (take ?n ?vs)" if "\<not> bn_val b < 0"
    using that uval_less [of "cells b"] by (auto simp: bn_val_def sval_def cells_def split: if_splits)
  consider "?vs ! (?n - 1) = 0" "?n = 1" | i where "?vs ! (?n - 1) = 0" "?n = Suc (Suc i)"
    | "?vs ! (?n - 1) \<noteq> 0" "bn_val b < 0" | "?vs ! (?n - 1) \<noteq> 0" "\<not> bn_val b < 0"
    using n by (metis One_nat_def Suc_pred less_one not_gr_zero not0_implies_Suc)
  then show ?thesis
  proof cases
    case 1
    have "take (Suc 0) ?vs = take 0 ?vs @ [?vs ! 0]" using n by (intro take_Suc_conv_app_nth) auto
    then have "take ?n ?vs = [?vs ! 0]" using 1 by simp
    then have "bn_val b = 0" using 1 by (simp add: bn_val_def cells_def sval_def)
    with 1 show ?thesis by (simp add: print_bignum_def hex_val_def hex_str.simps [of 0])
  next
    case (2 i)
    have nn: "\<not> bn_val b < 0" using msb_negative [OF wf] 2 by simp
    have m: "msb_set (?vs ! i)" using assms 2 by (simp add: canonical_def)
    then have i0: "?vs ! i \<noteq> 0" by auto
    have "uval (take ?n ?vs) = uval (take (Suc i) ?vs)"
      using 2 n by (simp add: take_Suc_conv_app_nth uval_append)
    moreover have "print_cells '''' ?vs ?n (Suc i) = hex_str (nat (uval (take (Suc i) ?vs)))"
    proof -
      have "32768 \<le> int (unat (?vs ! i))" using m by (simp add: msb_set_uint)
      then have "\<not> unat (?vs ! i) < 4096" by linarith
      then have "pad_zeros (?vs ! i) = ''''" by (simp add: pad_zeros_def)
      moreover have "print_cells '''' ?vs (Suc i) (Suc i) = hex_str (nat (uval (take (Suc i) ?vs)))"
        using 2 n i0 by (intro print_cells_top) auto
      moreover have "print_cells '''' ?vs (Suc i) i = print_cells '''' ?vs ?n i"
        using 2 n by (simp add: print_cells_padded)
      ultimately show ?thesis using 2 by simp
    qed
    ultimately show ?thesis
      using 2 nn pos [OF nn] by (simp add: print_bignum_def hex_val_def uval_nonneg del: print_cells.simps)
  next
    case 3
    let ?b = "completion_bignum b"
    note c = completion_bignum_correct [OF wf 3(2)]
    have "print_cells '''' (vals ?b) (len ?b) (len ?b) = hex_str (nat (uval (take (len ?b) (vals ?b))))"
      using c by (intro print_cells_top) (auto simp: wf_bn_def)
    with 3 c(1) msb_negative [OF wf] show ?thesis
      by (simp add: print_bignum_def hex_val_def cells_def Let_def)
  next
    case 4
    have "print_cells '''' ?vs ?n ?n = hex_str (nat (uval (take ?n ?vs)))"
      using 4 n by (intro print_cells_top) auto
    with 4 msb_negative [OF wf] pos [OF 4(2)] show ?thesis
      by (simp add: print_bignum_def hex_val_def uval_nonneg)
  qed
qed

section \<open>Addition and subtraction\<close>

lemma uval_sum: "n \<le> length vs \<Longrightarrow> uval (take n vs) = (\<Sum>k<n. 65536 ^ k * uint (vs ! k))"
  by (induction n) (auto simp: take_Suc_conv_app_nth uval_append)

lemma power_div_mod: "65536 ^ i * c = 65536 ^ i * (c mod 65536) + 65536 ^ Suc i * (c div 65536 :: int)"
proof -
  have "c = c mod 65536 + 65536 * (c div 65536)" by simp
  from arg_cong [OF this, of "\<lambda>x. 65536 ^ i * x"] show ?thesis
    by (simp only: distrib_left power_Suc mult.assoc mult.left_commute)
qed

lemma add_loop_correct:
  assumes "add_loop f g i n carry vs = (carry', vs')" and "n \<le> length vs" and "i \<le> n"
  shows "length vs' = length vs \<and> (\<forall>k\<ge>n. vs' ! k = vs ! k) \<and>
    uval vs' = uval vs + (\<Sum>k=i..<n. 65536 ^ k * (f k + g k - uint (vs ! k)))
                 + 65536 ^ i * carry - 65536 ^ n * carry'"
  using assms
proof (induction f g i n carry vs rule: add_loop.induct)
  case (1 f g i n carry vs)
  show ?case
  proof (cases "i < n")
    case True
    define c where "c = carry + (f i + g i)"
    define vs1 where "vs1 = vs[i := word_of_int (c AND 0xffff)]"
    have i: "i < length vs" using True "1.prems"(2) by simp
    have r: "add_loop f g (Suc i) n (drop_bit 16 c) vs1 = (carry', vs')"
      using "1.prems"(1) True by (subst (asm) add_loop.simps) (simp add: c_def vs1_def Let_def)
    then have IH: "length vs' = length vs1 \<and> (\<forall>k\<ge>n. vs' ! k = vs1 ! k) \<and>
      uval vs' = uval vs1 + (\<Sum>k=Suc i..<n. 65536 ^ k * (f k + g k - uint (vs1 ! k)))
                 + 65536 ^ Suc i * drop_bit 16 c - 65536 ^ n * carry'"
      using "1.IH" [OF True c_def] "1.prems"(2) True by (simp add: vs1_def)
    have s: "(\<Sum>k=Suc i..<n. 65536 ^ k * (f k + g k - uint (vs1 ! k))) =
        (\<Sum>k=Suc i..<n. 65536 ^ k * (f k + g k - uint (vs ! k)))"
      by (intro sum.cong) (auto simp: vs1_def)
    have u: "uval vs1 = uval vs + 65536 ^ i * (c mod 65536 - uint (vs ! i))"
      unfolding vs1_def by (simp add: uval_update [OF i] uint_word_of_int_and)
    have c: "65536 ^ i * c = 65536 ^ i * (c mod 65536) + 65536 ^ Suc i * drop_bit 16 c"
      using power_div_mod [of i c] by (simp add: drop_bit_eq_div)
    have "(\<Sum>k=i..<n. 65536 ^ k * (f k + g k - uint (vs ! k))) =
        65536 ^ i * (f i + g i - uint (vs ! i)) +
        (\<Sum>k=Suc i..<n. 65536 ^ k * (f k + g k - uint (vs ! k)))"
      using True by (rule sum.atLeast_Suc_lessThan)
    moreover have "\<forall>k\<ge>n. vs' ! k = vs ! k" using IH True by (simp add: vs1_def)
    ultimately show ?thesis using IH s u c by (simp add: c_def vs1_def algebra_simps)
  next
    case False
    with "1.prems" show ?thesis by (subst (asm) add_loop.simps) simp
  qed
qed

lemma uval_sum_all: "length vs = n \<Longrightarrow> uval vs = (\<Sum>k<n. 65536 ^ k * uint (vs ! k))"
  using uval_sum [of n vs] by simp

lemma sum_split_at:
  assumes "m \<le> n"
  shows "(\<Sum>k<n. h k) = (\<Sum>k<m. h k) + (\<Sum>k=m..<n. h (k :: nat) :: int)"
  using assms sum.atLeastLessThan_concat [of 0 m n h] by (simp add: atLeast0LessThan)

text \<open>A complete pass over the cells of a fresh array; the initial contents do not matter.\<close>

lemma add_loop_all:
  assumes "add_loop f g 0 n 0 vs = (c, vs')" and "length vs = n"
  shows "length vs' = n" and
    "uval vs' = (\<Sum>k<n. 65536 ^ k * f k) + (\<Sum>k<n. 65536 ^ k * g k) - 65536 ^ n * c"
proof -
  note r = add_loop_correct [OF assms(1)]
  show "length vs' = n" using r assms(2) by simp
  have "uval vs' = uval vs + (\<Sum>k<n. 65536 ^ k * (f k + g k - uint (vs ! k))) - 65536 ^ n * c"
    using r assms(2) by (simp add: atLeast0LessThan)
  then show "uval vs' = (\<Sum>k<n. 65536 ^ k * f k) + (\<Sum>k<n. 65536 ^ k * g k) - 65536 ^ n * c"
    using uval_sum_all [OF assms(2)]
    by (simp add: sum.distrib sum_subtractf algebra_simps)
qed

lemma add_two_loops:
  assumes "add_loop f g 0 m 0 vs = (c1, vs1)" and "add_loop f h m n c1 vs1 = (c2, vs2)"
    and "m \<le> n" and "length vs = n"
  shows "length vs2 = n" and
    "uval vs2 = (\<Sum>k<n. 65536 ^ k * f k) +
       ((\<Sum>k<m. 65536 ^ k * g k) + (\<Sum>k=m..<n. 65536 ^ k * h k)) - 65536 ^ n * c2"
proof -
  note r1 = add_loop_correct [OF assms(1)] and r2 = add_loop_correct [OF assms(2)]
  show "length vs2 = n" using r1 r2 assms(3,4) by simp
  have k: "(\<Sum>k=m..<n. 65536 ^ k * (f k + h k - uint (vs1 ! k))) =
      (\<Sum>k=m..<n. 65536 ^ k * (f k + h k - uint (vs ! k)))"
    using r1 assms(3,4) by (intro sum.cong) auto
  have u1: "uval vs1 = uval vs + (\<Sum>k<m. 65536 ^ k * (f k + g k - uint (vs ! k))) - 65536 ^ m * c1"
    using r1 assms(3,4) by (simp add: atLeast0LessThan)
  have "uval vs2 = uval vs1 + (\<Sum>k=m..<n. 65536 ^ k * (f k + h k - uint (vs ! k))) +
      65536 ^ m * c1 - 65536 ^ n * c2"
    using r1 r2 assms(3,4) k by simp
  with u1 show "uval vs2 = (\<Sum>k<n. 65536 ^ k * f k) +
       ((\<Sum>k<m. 65536 ^ k * g k) + (\<Sum>k=m..<n. 65536 ^ k * h k)) - 65536 ^ n * c2"
    unfolding uval_sum_all [OF assms(4)] sum_split_at [OF assms(3)]
    by (simp add: sum.distrib sum_subtractf algebra_simps)
qed

lemma sign_cells:
  assumes "wf_bn b" and "len b \<le> n"
    and "s = (if msb_set (vals b ! (len b - 1)) then 65535 else (0 :: int))"
  shows "((\<Sum>k<len b. 65536 ^ k * uint (vals b ! k)) + (\<Sum>k=len b..<n. 65536 ^ k * s)) =
           bn_val b + (if bn_val b < 0 then 65536 ^ n else 0)"
proof -
  have nb: "0 < len b" "len b \<le> length (vals b)" using assms(1) by (auto simp: wf_bn_def)
  have g: "(\<Sum>k=len b..<n. 65536 ^ k * 65535 :: int) = 65536 ^ n - 65536 ^ len b"
    using assms(2) by (induction n rule: dec_induct) (auto simp: algebra_simps)
  have u: "(\<Sum>k<len b. 65536 ^ k * uint (vals b ! k)) = uval (cells b)"
    using nb uval_sum [of "len b" "vals b"] by (simp add: cells_def)
  have la: "last (cells b) = vals b ! (len b - 1)" "cells b \<noteq> []" "length (cells b) = len b"
    using nb by (auto simp: cells_def last_take_nth)
  show ?thesis
    using msb_negative [OF assms(1)] by (auto simp: assms(3) u g bn_val_def sval_def la)
qed

lemma mod_add_if: "(x + (if p then (m :: int) else 0)) mod m = x mod m"
  by simp

lemma add_bignum_exists:
  assumes "wf_bn lhs" and "wf_bn rhs"
  obtains vs where "add_bignum junk oob lhs rhs = contract_bignum oob \<lparr>vals = vs, len = max (len lhs) (len rhs)\<rparr>"
    and "length vs = max (len lhs) (len rhs)"
    and "uval vs mod 65536 ^ length vs = (bn_val lhs + bn_val rhs) mod 65536 ^ length vs"
proof -
  define big where "big = (if len lhs > len rhs then lhs else rhs)"
  define small where "small = (if len lhs > len rhs then rhs else lhs)"
  define s where "s = (if msb_set (vals small ! (len small - 1)) then 65535 else (0 :: int))"
  let ?n = "len big" and ?m = "len small"
  have n: "max (len lhs) (len rhs) = ?n" and mn: "?m \<le> ?n" and wf: "wf_bn big" "wf_bn small"
    and sum: "bn_val lhs + bn_val rhs = bn_val big + bn_val small"
    using assms by (auto simp: big_def small_def)
  have nb: "?n \<le> length (vals big)" using wf by (auto simp: wf_bn_def)
  let ?f = "\<lambda>i. uint (vals big ! i)" and ?vs0 = "map junk [0..<?n]"
  obtain c1 vs1 where l1: "add_loop ?f (\<lambda>i. uint (vals small ! i)) 0 ?m 0 ?vs0 = (c1, vs1)"
    by fastforce
  obtain c2 vs2 where l2: "add_loop ?f (\<lambda>i. s) ?m ?n c1 vs1 = (c2, vs2)"
    by fastforce
  have r: "length vs2 = ?n" "uval vs2 = (\<Sum>k<?n. 65536 ^ k * ?f k) +
      ((\<Sum>k<?m. 65536 ^ k * uint (vals small ! k)) + (\<Sum>k=?m..<?n. 65536 ^ k * s)) - 65536 ^ ?n * c2"
    using add_two_loops [OF l1 l2 mn] by simp_all
  have "(\<Sum>k<?n. 65536 ^ k * ?f k) = bn_val big + (if bn_val big < 0 then 65536 ^ ?n else 0)"
    using sign_cells [OF wf(1) order_refl refl] by simp
  then have u: "uval vs2 = bn_val lhs + bn_val rhs + (if bn_val big < 0 then 65536 ^ ?n else 0) +
      (if bn_val small < 0 then 65536 ^ ?n else 0) - 65536 ^ ?n * c2"
    unfolding r(2) sign_cells [OF wf(2) mn s_def] sum by simp
  then have m: "uval vs2 mod 65536 ^ ?n = (bn_val lhs + bn_val rhs) mod 65536 ^ ?n"
  proof -
    let ?B = "65536 ^ ?n :: int"
    let ?k = "of_bool (bn_val big < 0) + of_bool (bn_val small < 0) - c2"
    have "uval vs2 = bn_val lhs + bn_val rhs + ?B * ?k"
      unfolding u by (simp add: algebra_simps)
    then show ?thesis by (simp only: mod_mult_self2)
  qed
  have p: "(if len lhs > len rhs then (lhs, rhs) else (rhs, lhs)) = (big, small)"
    by (simp add: big_def small_def)
  have "add_bignum junk oob lhs rhs = contract_bignum oob \<lparr>vals = vs2, len = ?n\<rparr>"
    using l2 by (auto simp: add_bignum_def alloc_bignum_def l1 s_def p Let_def)
  with r(1) m show thesis by (intro that [of vs2]) (simp_all add: n)
qed

lemma bn_val_wrap:
  assumes "b = contract_bignum oob \<lparr>vals = vs, len = n\<rparr>" and "length vs = n" and "0 < n"
    and "uval vs mod 65536 ^ n = x mod 65536 ^ n"
  shows "bn_val b mod 65536 ^ n = x mod 65536 ^ n" and "canonical b"
    and "\<lbrakk>- (65536 ^ n) \<le> 2 * x; 2 * x < 65536 ^ n\<rbrakk> \<Longrightarrow> bn_val b = x"
proof -
  let ?b = "\<lparr>vals = vs, len = n\<rparr>"
  have wf: "wf_bn ?b" using assms(2,3) by (simp add: wf_bn_def)
  have c: "bn_val b = sval vs" "canonical b"
    using contract_bignum_correct [OF wf, of oob] assms(1,2) by (simp_all add: bn_val_def cells_def)
  then show "canonical b" by simp
  have u: "uval vs = x mod 65536 ^ n"
    using assms(2,4) sval_mod [of vs] by (metis mod_mod_trivial)
  with c assms(2) sval_mod [of vs] show "bn_val b mod 65536 ^ n = x mod 65536 ^ n" by simp
  show "bn_val b = x" if "- (65536 ^ n) \<le> 2 * x" "2 * x < 65536 ^ n"
    unfolding c(1) using that assms(2,3) u by (intro sval_unique) auto
qed

lemma add_bignum_correct:
  fixes junk :: "nat \<Rightarrow> int16" and oob :: int16
  assumes "wf_bn lhs" and "wf_bn rhs"
  defines "n \<equiv> max (len lhs) (len rhs)" and "s \<equiv> add_bignum junk oob lhs rhs"
  shows "bn_val s mod 65536 ^ n = (bn_val lhs + bn_val rhs) mod 65536 ^ n" and "canonical s"
    and "\<lbrakk>- (65536 ^ n) \<le> 2 * (bn_val lhs + bn_val rhs);
          2 * (bn_val lhs + bn_val rhs) < 65536 ^ n\<rbrakk> \<Longrightarrow> bn_val s = bn_val lhs + bn_val rhs"
proof -
  obtain vs where "s = contract_bignum oob \<lparr>vals = vs, len = n\<rparr>" "length vs = n"
    "uval vs mod 65536 ^ n = (bn_val lhs + bn_val rhs) mod 65536 ^ n"
    using add_bignum_exists [OF assms(1,2), of junk oob] unfolding n_def s_def by metis
  note s = this
  have n0: "0 < n" using assms(1) by (auto simp: n_def wf_bn_def)
  note w = bn_val_wrap [OF s(1,2) n0 s(3)]
  show "bn_val s mod 65536 ^ n = (bn_val lhs + bn_val rhs) mod 65536 ^ n" by (rule w(1))
  show "canonical s" by (rule w(2))
  show "\<lbrakk>- (65536 ^ n) \<le> 2 * (bn_val lhs + bn_val rhs);
      2 * (bn_val lhs + bn_val rhs) < 65536 ^ n\<rbrakk> \<Longrightarrow> bn_val s = bn_val lhs + bn_val rhs"
    by (rule w(3))
qed

text \<open>The borrow of the subtraction of two arrays of the same length.\<close>

lemma borrow_cases:
  assumes "x = l - r - B * c" and "0 \<le> x" "x < B" "0 \<le> l" "l < B" "0 \<le> r" "r < (B :: int)"
  shows "c = (if l < r then - 1 else 0)"
proof -
  have "B * c < B * 1" and "B * (- 2) < B * c"
    using assms by linarith+
  moreover have "0 < B" using assms(2,3) by simp
  ultimately have "c < 1" "- 2 < c" by (simp_all only: mult_less_cancel_left_pos)
  then have "c = 0 \<or> c = - 1" by linarith
  then show ?thesis using assms by auto
qed

lemma sub_bignum_unfold:
  assumes "wf_bn lhs" and "wf_bn rhs" and "max (len lhs) (len rhs) < 65535"
  defines "n \<equiv> max (len lhs) (len rhs)"
  obtains vs lhs' rhs' where "length vs = n" and
    "uval vs = uval (cells lhs') - uval (cells rhs') +
       (if uval (cells lhs') < uval (cells rhs') then 65536 ^ n else 0)"
    and "wf_bn lhs'" "wf_bn rhs'" "len lhs' = n" "len rhs' = n"
    and "bn_val lhs' = bn_val lhs" "bn_val rhs' = bn_val rhs"
    and "sub_bignum junk oob lhs rhs =
      (if uval (cells lhs') < uval (cells rhs') \<and> msb_set (vs ! (n - 1))
       then Some (contract_bignum oob \<lparr>vals = vs @ [0], len = Suc n\<rparr>, lhs', rhs')
       else Some (contract_bignum oob \<lparr>vals = vs, len = n\<rparr>, lhs', rhs'))"
proof -
  define lbig where "lbig = (len lhs > len rhs)"
  define big where "big = (if lbig then lhs else rhs)"
  define small where "small = (if lbig then rhs else lhs)"
  have n: "n = len big" and m: "len small \<le> n" and wf: "wf_bn big" "wf_bn small"
    using assms by (auto simp: big_def small_def lbig_def)
  have e: "len small + (n - len small) \<le> 65535" using m assms(3) n_def by simp
  obtain small' where s: "expand_bignum junk small (n - len small) = Some small'"
    using expand_bignum_Some [OF wf(2) e] by blast
  note s' = expand_bignum_val [OF wf(2) e s]
  define lhs' where "lhs' = (if lbig then lhs else small')"
  define rhs' where "rhs' = (if lbig then small' else rhs)"
  have lr: "wf_bn lhs'" "wf_bn rhs'" "len lhs' = n" "len rhs' = n"
    "bn_val lhs' = bn_val lhs" "bn_val rhs' = bn_val rhs"
    using s' wf m n by (auto simp: lhs'_def rhs'_def big_def small_def split: if_splits)
  let ?f = "\<lambda>i. uint (vals lhs' ! i)" and ?g = "\<lambda>i. - uint (vals rhs' ! i)"
  obtain c vs where l: "add_loop ?f ?g 0 n 0 (map junk [0..<n]) = (c, vs)" by fastforce
  have len: "length vs = n" using add_loop_all(1) [OF l] by simp
  have cl: "length (cells lhs') = n" "length (cells rhs') = n"
    using lr by (auto simp: cells_def wf_bn_def)
  have "uval vs = uval (cells lhs') - uval (cells rhs') - 65536 ^ n * c"
    using add_loop_all(2) [OF l] lr uval_sum [of n "vals lhs'"] uval_sum [of n "vals rhs'"]
    by (simp add: cells_def wf_bn_def sum_negf)
  note u = this
  have c: "c = (if uval (cells lhs') < uval (cells rhs') then - 1 else 0)"
    using borrow_cases [OF u] uval_nonneg uval_less [of vs] uval_less [of "cells lhs'"]
      uval_less [of "cells rhs'"] by (simp only: len cl)
  have pair: "(if lbig then (lhs, rhs) else (rhs, lhs)) = (big, small)"
    "(if lbig then (lhs, small') else (small', rhs)) = (lhs', rhs')"
    by (simp_all add: big_def small_def lhs'_def rhs'_def)
  have n0: "0 < n" using wf n by (auto simp: wf_bn_def)
  have ex: "expand_bignum junk \<lparr>vals = vs, len = n\<rparr> (Suc 0) =
      Some \<lparr>vals = vs @ [if msb_set (last vs) then 0xffff else 0], len = Suc n\<rparr>"
    using expand_bignum_Some [of "\<lparr>vals = vs, len = n\<rparr>" "Suc 0" junk] n0 len assms(3) n_def
    by (simp add: wf_bn_def cells_def)
  have sub: "sub_bignum junk oob lhs rhs =
      (if uval (cells lhs') < uval (cells rhs') \<and> msb_set (vs ! (n - 1))
       then Some (contract_bignum oob \<lparr>vals = vs @ [0], len = Suc n\<rparr>, lhs', rhs')
       else Some (contract_bignum oob \<lparr>vals = vs, len = n\<rparr>, lhs', rhs'))"
    unfolding sub_bignum_def Let_def lbig_def [symmetric] pair prod.case n [symmetric] s option.case
    using c len
    by (simp add: alloc_bignum_def l pair ex list_update_append)
  show thesis
    by (rule that [OF len _ lr sub]) (use u c in simp)
qed

lemma bn_val_cells:
  assumes "wf_bn b"
  shows "bn_val b = uval (cells b) - (if bn_val b < 0 then 65536 ^ len b else 0)"
    and "length (cells b) = len b"
proof -
  have n: "0 < len b" "len b \<le> length (vals b)" using assms by (auto simp: wf_bn_def)
  show l: "length (cells b) = len b" using n by (simp add: cells_def)
  show "bn_val b = uval (cells b) - (if bn_val b < 0 then 65536 ^ len b else 0)"
    using uval_nonneg [of "cells b"] uval_less [of "cells b"] l
    by (auto simp: bn_val_def sval_def)
qed

text \<open>
  The subtraction is right when the result is not negative for operands of one sign; with
  \<open>lhs < rhs\<close> of one sign the borrow is taken for an overflow, a zero cell is put on top and
  the result is off by \<open>65536 ^ n\<close>.
\<close>

lemma sub_bignum_ge:
  assumes "wf_bn lhs" and "wf_bn rhs" and "max (len lhs) (len rhs) < 65535"
    and "bn_val rhs \<le> bn_val lhs"
  shows "\<exists>d lhs' rhs'. sub_bignum junk oob lhs rhs = Some (d, lhs', rhs') \<and> canonical d \<and>
    bn_val d = bn_val lhs - bn_val rhs \<and> bn_val lhs' = bn_val lhs \<and> bn_val rhs' = bn_val rhs"
proof -
  define n where "n = max (len lhs) (len rhs)"
  obtain vs lhs' rhs' where len: "length vs = n" and
    u: "uval vs = uval (cells lhs') - uval (cells rhs') +
       (if uval (cells lhs') < uval (cells rhs') then 65536 ^ n else 0)"
    and wf: "wf_bn lhs'" "wf_bn rhs'" "len lhs' = n" "len rhs' = n"
    and v: "bn_val lhs' = bn_val lhs" "bn_val rhs' = bn_val rhs"
    and sub: "sub_bignum junk oob lhs rhs =
      (if uval (cells lhs') < uval (cells rhs') \<and> msb_set (vs ! (n - 1))
       then Some (contract_bignum oob \<lparr>vals = vs @ [0], len = Suc n\<rparr>, lhs', rhs')
       else Some (contract_bignum oob \<lparr>vals = vs, len = n\<rparr>, lhs', rhs'))"
    using sub_bignum_unfold [OF assms(1-3), of junk oob] unfolding n_def by blast
  let ?B = "65536 ^ n :: int" and ?d = "bn_val lhs - bn_val rhs"
  note cl = bn_val_cells [OF wf(1), unfolded v wf(3)] and cr = bn_val_cells [OF wf(2), unfolded v wf(4)]
  have n0: "0 < n" using wf by (auto simp: wf_bn_def)
  have ul: "0 \<le> uval (cells lhs')" "uval (cells lhs') < ?B" "0 \<le> uval (cells rhs')" "uval (cells rhs') < ?B"
    using uval_nonneg uval_less [of "cells lhs'"] uval_less [of "cells rhs'"] cl cr by simp_all
  have ne: "cells lhs' \<noteq> []" "cells rhs' \<noteq> []" using cl(2) cr(2) n0 by auto
  have rg: "- ?B \<le> 2 * bn_val lhs" "2 * bn_val lhs < ?B" "- ?B \<le> 2 * bn_val rhs" "2 * bn_val rhs < ?B"
    using sval_range [OF ne(1)] sval_range [OF ne(2)] cl(2) cr(2) v by (simp_all add: bn_val_def)
  have ud: "uval vs = ?d"
    using u cl(1) cr(1) assms(4) ul rg by (auto split: if_splits)
  have l1: "last vs = vs ! (n - 1)" "vs \<noteq> []" using len n0 by (auto simp: last_conv_nth)
  show ?thesis
  proof (cases "uval (cells lhs') < uval (cells rhs') \<and> msb_set (vs ! (n - 1))")
    case True
    let ?e = "\<lparr>vals = vs @ [0], len = Suc n\<rparr>"
    have w: "wf_bn ?e" using len by (simp add: wf_bn_def)
    have "bn_val ?e = ?d" using ud len by (simp add: bn_val_def cells_def sval_snoc scell_def)
    with contract_bignum_correct [OF w, of oob] sub True v show ?thesis by auto
  next
    case False
    let ?e = "\<lparr>vals = vs, len = n\<rparr>"
    have w: "wf_bn ?e" using len n0 by (simp add: wf_bn_def)
    have "\<not> msb_set (last vs)"
    proof (cases "uval (cells lhs') < uval (cells rhs')")
      case True
      with False show ?thesis by (simp add: l1)
    next
      case nb: False
      have "2 * uval vs < ?B" using nb cl(1) cr(1) ud assms(4) rg by (auto split: if_splits)
      moreover have "?B \<le> 2 * uval vs" if "msb_set (last vs)"
        using sval_range(1) [OF l1(2)] that l1(2) len by (simp add: sval_def)
      ultimately show ?thesis by linarith
    qed
    then have "bn_val ?e = ?d" using ud len by (simp add: bn_val_def cells_def sval_def)
    with contract_bignum_correct [OF w, of oob] sub False v show ?thesis by auto
  qed
qed

lemma sub_bignum_lt:
  assumes "wf_bn lhs" and "wf_bn rhs" and "max (len lhs) (len rhs) < 65535"
    and "bn_val lhs < bn_val rhs" and "bn_val lhs < 0 \<longleftrightarrow> bn_val rhs < 0"
  shows "\<exists>d lhs' rhs'. sub_bignum junk oob lhs rhs = Some (d, lhs', rhs') \<and> canonical d \<and>
    bn_val d = bn_val lhs - bn_val rhs + 65536 ^ max (len lhs) (len rhs)"
proof -
  define n where "n = max (len lhs) (len rhs)"
  obtain vs lhs' rhs' where len: "length vs = n" and
    u: "uval vs = uval (cells lhs') - uval (cells rhs') +
       (if uval (cells lhs') < uval (cells rhs') then 65536 ^ n else 0)"
    and wf: "wf_bn lhs'" "wf_bn rhs'" "len lhs' = n" "len rhs' = n"
    and v: "bn_val lhs' = bn_val lhs" "bn_val rhs' = bn_val rhs"
    and sub: "sub_bignum junk oob lhs rhs =
      (if uval (cells lhs') < uval (cells rhs') \<and> msb_set (vs ! (n - 1))
       then Some (contract_bignum oob \<lparr>vals = vs @ [0], len = Suc n\<rparr>, lhs', rhs')
       else Some (contract_bignum oob \<lparr>vals = vs, len = n\<rparr>, lhs', rhs'))"
    using sub_bignum_unfold [OF assms(1-3), of junk oob] unfolding n_def by blast
  let ?B = "65536 ^ n :: int"
  note cl = bn_val_cells [OF wf(1), unfolded v wf(3)] and cr = bn_val_cells [OF wf(2), unfolded v wf(4)]
  have n0: "0 < n" using wf by (auto simp: wf_bn_def)
  have ne: "cells lhs' \<noteq> []" "cells rhs' \<noteq> []" using cl(2) cr(2) n0 by auto
  have rg: "- ?B \<le> 2 * bn_val lhs" "2 * bn_val lhs < ?B" "- ?B \<le> 2 * bn_val rhs" "2 * bn_val rhs < ?B"
    using sval_range [OF ne(1)] sval_range [OF ne(2)] cl(2) cr(2) v by (simp_all add: bn_val_def)
  have b: "uval (cells lhs') < uval (cells rhs')"
    using cl(1) cr(1) assms(4,5) by (auto split: if_splits)
  have ud: "uval vs = bn_val lhs - bn_val rhs + ?B"
    using u b cl(1) cr(1) assms(5) by (auto split: if_splits)
  have l1: "last vs = vs ! (n - 1)" "vs \<noteq> []" using len n0 by (auto simp: last_conv_nth)
  have "?B \<le> 2 * uval vs" using ud rg assms(5) by linarith
  then have "msb_set (vs ! (n - 1))"
    using sval_range(2) [OF l1(2)] l1 len by (auto simp: sval_def split: if_splits)
  moreover have w: "wf_bn \<lparr>vals = vs @ [0], len = Suc n\<rparr>" using len by (simp add: wf_bn_def)
  moreover have "bn_val \<lparr>vals = vs @ [0], len = Suc n\<rparr> = bn_val lhs - bn_val rhs + ?B"
    using ud len by (simp add: bn_val_def cells_def sval_snoc scell_def)
  ultimately show ?thesis
    using contract_bignum_correct [OF w, of oob] sub b unfolding n_def by auto
qed

section \<open>Multiplication\<close>

lemma mul_cell_uint: "uint c < 65536 \<Longrightarrow> uint (mul_cell c v x y) = uint v + uint c + uint x * uint y"
proof -
  assume "uint c < 65536"
  have b: "uint v < 65536" "uint x < 65536" "uint y < 65536" "0 \<le> uint x" "0 \<le> uint y" "0 \<le> uint v" "0 \<le> uint c"
    by (simp_all add: uint_less_u16)
  have "uint x * uint y \<le> 65535 * 65535" using b by (intro mult_mono) auto
  then show ?thesis using b \<open>uint c < 65536\<close>
    by (simp add: mul_cell_def uint_add_u32 uint_mult_u32)
qed

lemma mul_row_correct:
  assumes "mul_row bvs y i j n carry vs = (carry', vs')"
    and "uint carry < 65536" and "i + n \<le> length vs" and "j \<le> n"
  shows "length vs' = length vs \<and> (\<forall>k\<ge>i + n. vs' ! k = vs ! k) \<and> uint carry' < 65536 \<and>
    uval vs' + 65536 ^ (i + n) * uint carry' = uval vs + 65536 ^ (i + j) * uint carry +
      (\<Sum>k=j..<n. 65536 ^ (i + k) * (uint (bvs ! k) * uint y))"
  using assms
proof (induction bvs y i j n carry vs rule: mul_row.induct)
  case (1 bvs y i j n carry vs)
  show ?case
  proof (cases "j < n")
    case True
    define c where "c = mul_cell carry (vs ! (i + j)) (bvs ! j) y"
    define vs1 where "vs1 = vs[i + j := ucast (c AND 0xffff)]"
    let ?d = "signed_drop_bit 16 c AND 0xffff"
    have i: "i + j < length vs" using True "1.prems"(3) by simp
    have r: "mul_row bvs y i (Suc j) n ?d vs1 = (carry', vs')"
      using "1.prems"(1) True by (subst (asm) mul_row.simps) (simp add: c_def vs1_def Let_def)
    have d: "uint ?d = uint c div 65536" "uint ?d < 65536"
      using uint_less_u32 [of c] by (simp_all add: sdrop16_mask uint_high16)
    have cv: "uint c = uint (vs ! (i + j)) + uint carry + uint (bvs ! j) * uint y"
      unfolding c_def by (rule mul_cell_uint [OF "1.prems"(2)])
    have IH: "length vs' = length vs1 \<and> (\<forall>k\<ge>i + n. vs' ! k = vs1 ! k) \<and> uint carry' < 65536 \<and>
      uval vs' + 65536 ^ (i + n) * uint carry' = uval vs1 + 65536 ^ (i + Suc j) * uint ?d +
        (\<Sum>k=Suc j..<n. 65536 ^ (i + k) * (uint (bvs ! k) * uint y))"
      using "1.IH" [OF True c_def] r d "1.prems"(3) True by (simp add: vs1_def)
    have u: "uval vs1 = uval vs + 65536 ^ (i + j) * (uint c mod 65536 - uint (vs ! (i + j)))"
      unfolding vs1_def by (simp add: uval_update [OF i] uint_low16)
    have c: "65536 ^ (i + j) * uint c =
        65536 ^ (i + j) * (uint c mod 65536) + 65536 ^ (i + Suc j) * (uint c div 65536)"
      using power_div_mod [of "i + j" "uint c"] by simp
    have s: "(\<Sum>k=j..<n. 65536 ^ (i + k) * (uint (bvs ! k) * uint y)) =
        65536 ^ (i + j) * (uint (bvs ! j) * uint y) +
        (\<Sum>k=Suc j..<n. 65536 ^ (i + k) * (uint (bvs ! k) * uint y))"
      using True by (rule sum.atLeast_Suc_lessThan)
    have "uval vs' + 65536 ^ (i + n) * uint carry' = uval vs + 65536 ^ (i + j) * uint carry +
        (\<Sum>k=j..<n. 65536 ^ (i + k) * (uint (bvs ! k) * uint y))"
      using IH u c unfolding s d(1) cv by (simp only: distrib_left right_diff_distrib)
    then show ?thesis using IH True by (simp add: vs1_def)
  next
    case False
    with "1.prems" show ?thesis by (subst (asm) mul_row.simps) simp
  qed
qed

text \<open>One row with the carry stored on top: a cell of \<open>small\<close> times the whole of \<open>big\<close> is added.\<close>

lemma mul_row_step:
  assumes "mul_row bvs y i 0 n 0 vs = (c, vs1)" and "i + n < length vs" and "vs ! (i + n) = 0"
    and "n \<le> length bvs"
  defines "vs2 \<equiv> if c \<noteq> 0 then vs1[i + n := vs1 ! (i + n) + ucast c] else vs1"
  shows "length vs2 = length vs" and "\<forall>k>i + n. vs2 ! k = vs ! k"
    and "uval vs2 = uval vs + uval (take n bvs) * (65536 ^ i * uint y)"
proof -
  have r: "length vs1 = length vs" "\<And>k. i + n \<le> k \<Longrightarrow> vs1 ! k = vs ! k" "uint c < 65536"
    "uval vs1 + 65536 ^ (i + n) * uint c =
      uval vs + (\<Sum>k<n. 65536 ^ (i + k) * (uint (bvs ! k) * uint y))"
    using mul_row_correct [OF assms(1)] assms(2) by (auto simp: atLeast0LessThan)
  show "length vs2 = length vs" "\<forall>k>i + n. vs2 ! k = vs ! k"
    using r(1,2) by (auto simp: vs2_def)
  have i: "i + n < length vs1" using r(1) assms(2) by simp
  have z: "vs1 ! (i + n) = 0" using r(2) [of "i + n"] assms(3) by simp
  have c: "uint (ucast c :: int16) = uint c"
    using r(3) by (simp add: unsigned_ucast_eq take_bit_int_eq_self)
  have u2: "uval vs2 = uval vs1 + 65536 ^ (i + n) * uint c"
    by (simp add: vs2_def uval_update [OF i] z c)
  have "(\<Sum>k<n. 65536 ^ (i + k) * (uint (bvs ! k) * uint y)) =
      uval (take n bvs) * (65536 ^ i * uint y)"
    unfolding uval_sum [OF assms(4)] sum_distrib_right
    by (intro sum.cong refl) (simp add: power_add)
  then show "uval vs2 = uval vs + uval (take n bvs) * (65536 ^ i * uint y)"
    using u2 r(4) by linarith
qed

lemma mul_rows_correct:
  assumes "i \<le> len small - 1" and "len big + len small \<le> length vs" and "wf_bn big" "wf_bn small"
    and "\<And>k. \<lbrakk>i + len big \<le> k; k < length vs\<rbrakk> \<Longrightarrow> vs ! k = 0"
    and "uval vs = uval (cells big) * uval (take i (vals small))"
  defines "vs' \<equiv> mul_rows big small i vs"
  shows "length vs' = length vs \<and>
    (\<forall>k. len small - 1 + len big \<le> k \<and> k < length vs \<longrightarrow> vs' ! k = 0) \<and>
    uval vs' = uval (cells big) * uval (take (len small - 1) (vals small))"
  using assms(1-6) unfolding vs'_def
proof (induction big small i vs rule: mul_rows.induct)
  case (1 big small i vs)
  let ?n = "len big"
  show ?case
  proof (cases "i < len small - 1")
    case True
    obtain c vs1 where r: "mul_row (vals big) (vals small ! i) i 0 ?n 0 vs = (c, vs1)"
      by fastforce
    define vs2 where "vs2 = (if c \<noteq> 0 then vs1[i + ?n := vs1 ! (i + ?n) + ucast c] else vs1)"
    have b: "i + ?n < length vs" "?n \<le> length (vals big)" "i < length (vals small)"
      using True "1.prems"(2-4) by (auto simp: wf_bn_def)
    have z: "vs ! (i + ?n) = 0" using "1.prems"(5) [of "i + ?n"] b(1) by simp
    note st = mul_row_step [OF r b(1) z b(2), folded vs2_def]
    have e: "mul_rows big small i vs = mul_rows big small (Suc i) vs2"
      using True r by (subst mul_rows.simps) (simp add: vs2_def Let_def)
    have t: "uval (take (Suc i) (vals small)) = uval (take i (vals small)) + 65536 ^ i * uint (vals small ! i)"
      using b(3) by (simp add: take_Suc_conv_app_nth uval_append)
    have "uval vs2 = uval (cells big) * uval (take (Suc i) (vals small))"
      unfolding st(3) t "1.prems"(6) by (simp add: cells_def distrib_left)
    then show ?thesis
      unfolding e using "1.IH" [OF True refl r [symmetric] vs2_def] "1.prems" True st(1,2) by simp
  next
    case False
    then have i: "i = len small - 1" using "1.prems"(1) by simp
    have "mul_rows big small i vs = vs" using False by (subst mul_rows.simps) simp
    then show ?thesis using "1.prems"(5,6) i by auto
  qed
qed

text \<open>
  Before it is contracted the array of the product holds the product of the operands read as
  unsigned numbers.
\<close>

lemma mul_bignum_unfold:
  assumes "wf_bn lhs" and "wf_bn rhs"
  defines "n \<equiv> len lhs + len rhs"
  obtains vs where "mul_bignum junk oob lhs rhs = contract_bignum oob \<lparr>vals = vs, len = n\<rparr>"
    and "length vs = n" and "uval vs = uval (cells lhs) * uval (cells rhs)"
proof -
  define big where "big = (if len lhs > len rhs then lhs else rhs)"
  define small where "small = (if len lhs > len rhs then rhs else lhs)"
  have wf: "wf_bn big" "wf_bn small" and n: "n = len big + len small"
    and prod: "uval (cells lhs) * uval (cells rhs) = uval (cells big) * uval (cells small)"
    using assms by (auto simp: big_def small_def)
  have p: "(if len lhs > len rhs then (lhs, rhs) else (rhs, lhs)) = (big, small)"
    by (simp add: big_def small_def)
  have m: "0 < len small" "len big \<le> length (vals big)" "len small \<le> length (vals small)"
    using wf by (auto simp: wf_bn_def)
  define vs1 where "vs1 = mul_rows big small 0 (replicate n 0)"
  let ?i = "len small - 1"
  have r1: "length vs1 = n" "\<forall>k. ?i + len big \<le> k \<and> k < n \<longrightarrow> vs1 ! k = 0"
    "uval vs1 = uval (cells big) * uval (take ?i (vals small))"
    using mul_rows_correct [of 0 small big "replicate n 0"] wf n
    by (auto simp: vs1_def uval_zeros)
  obtain c vs2 where r2: "mul_row (vals big) (vals small ! ?i) ?i 0 (len big) 0 vs1 = (c, vs2)"
    by fastforce
  have b: "?i + len big < length vs1" using r1(1) n m by simp
  have z: "vs1 ! (?i + len big) = 0" using r1 b by simp
  note st = mul_row_step [OF r2 b z m(2)]
  have ix: "?i + len big = n - 1" using n m by simp
  define vs3 where "vs3 = (if c \<noteq> 0 then vs2[n - 1 := vs2 ! (n - 1) + ucast c] else vs2)"
  note st = st [unfolded ix, folded vs3_def]
  have "cells small = take ?i (vals small) @ [vals small ! ?i]"
    using m take_Suc_conv_app_nth [of ?i "vals small"] by (simp add: cells_def)
  then have "uval vs3 = uval (cells lhs) * uval (cells rhs)"
    using st(3) m unfolding prod r1(3) by (simp add: uval_append cells_def distrib_left)
  moreover have "mul_bignum junk oob lhs rhs = contract_bignum oob \<lparr>vals = vs3, len = n\<rparr>"
    using r2 by (simp add: mul_bignum_def alloc_bignum_def p Let_def vs1_def [symmetric] vs3_def
        n_def [symmetric])
  ultimately show thesis using st(1) r1(1) by (intro that [of vs3]) simp_all
qed

lemma uval_cells_nonneg: "wf_bn b \<Longrightarrow> 0 \<le> bn_val b \<Longrightarrow> uval (cells b) = bn_val b"
  using bn_val_cells(1) [of b] by simp

lemma mul_bignum_nonneg:
  assumes "wf_bn lhs" and "wf_bn rhs" and "0 \<le> bn_val lhs" and "0 \<le> bn_val rhs"
  shows "canonical (mul_bignum junk oob lhs rhs) \<and>
    bn_val (mul_bignum junk oob lhs rhs) = bn_val lhs * bn_val rhs"
proof -
  let ?n = "len lhs + len rhs" and ?p = "bn_val lhs * bn_val rhs"
  obtain vs where m: "mul_bignum junk oob lhs rhs = contract_bignum oob \<lparr>vals = vs, len = ?n\<rparr>"
    and l: "length vs = ?n" and "uval vs = uval (cells lhs) * uval (cells rhs)"
    using mul_bignum_unfold [OF assms(1,2), of junk oob] by blast
  then have u: "uval vs = ?p" using assms by (simp add: uval_cells_nonneg)
  have h: "2 * bn_val b < 65536 ^ len b" if "wf_bn b" for b
  proof -
    have "cells b \<noteq> []" using bn_val_cells(2) [OF that] that by (auto simp: wf_bn_def)
    from sval_range(2) [OF this] show ?thesis
      unfolding bn_val_def bn_val_cells(2) [OF that] .
  qed
  have "(2 * bn_val lhs) * bn_val rhs \<le> 65536 ^ len lhs * bn_val rhs"
    using h [OF assms(1)] assms(4) by (intro mult_right_mono) auto
  also have "\<dots> < 65536 ^ len lhs * 65536 ^ len rhs"
    using h [OF assms(2)] assms(4) by (intro mult_strict_left_mono) auto
  finally have s: "2 * ?p < 65536 ^ ?n" by (simp add: power_add mult.assoc)
  have w: "wf_bn \<lparr>vals = vs, len = ?n\<rparr>" using assms(1) l by (simp add: wf_bn_def)
  have "bn_val \<lparr>vals = vs, len = ?n\<rparr> = ?p"
    using sval_eq_uval [of vs] s l u by (simp add: bn_val_def cells_def)
  with contract_bignum_correct [OF w, of oob] m show ?thesis by simp
qed

text \<open>
  The program on two numbers: it prints the product when neither is negative.
\<close>

lemma bignum_main_nonneg:
  assumes "argv = [prog, a, b] @ rest" and "0 \<le> dec_val a" and "0 \<le> dec_val b"
  shows "bignum_main junk oob argv = Some (hex_val (dec_val a * dec_val b) @ newline)"
proof -
  obtain x y where x: "parse_bignum oob a = Some x" "canonical x" "bn_val x = dec_val a"
    and y: "parse_bignum oob b = Some y" "canonical y" "bn_val y = dec_val b"
    using parse_bignum_correct by metis
  have "wf_bn x" "wf_bn y" using x y by (auto simp: canonical_def)
  with mul_bignum_nonneg [of x y junk oob] print_bignum_correct x y assms show ?thesis
    by (simp add: bignum_main_def)
qed

lemma hex_digit_simps:
  "hex_digit 0 = CHR ''0''" "hex_digit (Suc 0) = CHR ''1''" "hex_digit 1 = CHR ''1''" "hex_digit 2 = CHR ''2''"
  "hex_digit 3 = CHR ''3''" "hex_digit 4 = CHR ''4''" "hex_digit 5 = CHR ''5''"
  "hex_digit 6 = CHR ''6''" "hex_digit 7 = CHR ''7''" "hex_digit 8 = CHR ''8''"
  "hex_digit 9 = CHR ''9''" "hex_digit 10 = CHR ''a''" "hex_digit 11 = CHR ''b''"
  "hex_digit 12 = CHR ''c''" "hex_digit 13 = CHR ''d''" "hex_digit 14 = CHR ''e''"
  "hex_digit 15 = CHR ''f''"
  by code_simp+

section \<open>Properties of the component\<close>

text \<open>
  C1: The program run on two decimal numbers that are not negative prints their product in
  hexadecimal, followed by a newline, whatever \<open>malloc\<close> and the halfword in front of an
  array hold: every step is defined, and no carry is lost.
\<close>

theorem bignum_main_product:
  assumes "argv = [prog, a, b] @ rest" and "0 \<le> dec_val a" and "0 \<le> dec_val b"
  shows "bignum_main junk oob argv = Some (hex_val (dec_val a * dec_val b) @ newline)"
  using assms by (rule bignum_main_nonneg)

theorem bignum_main_product_witness:
  "bignum_main (\<lambda>_. 7) 9 [''bignum'', ''70000'', ''70000''] = Some (''124101100'' @ newline)"
proof -
  have "dec_val ''70000'' = 70000" by code_simp
  moreover have "hex_val 4900000000 = ''124101100''"
    by (simp add: hex_val_def hex_str.simps hex_digit_simps)
  ultimately show ?thesis
    using bignum_main_product [of _ "''bignum''" "''70000''" "''70000''" "[]" "\<lambda>_. 7" 9] by simp
qed


text \<open>
  C23: \<^verbatim>\<open>add_bignum\<close> returns the sum modulo \<open>65536 ^ n\<close> in canonical form, \<open>n\<close> being the
  larger length of the two operands, and the exact sum when \<open>n\<close> cells can hold it.
\<close>

theorem add_bignum_sum:
  assumes "wf_bn lhs" and "wf_bn rhs" and "n = max (len lhs) (len rhs)"
    and "s = add_bignum junk oob lhs rhs"
  shows "canonical s \<and> bn_val s mod 65536 ^ n = (bn_val lhs + bn_val rhs) mod 65536 ^ n \<and>
    (- (65536 ^ n) \<le> 2 * (bn_val lhs + bn_val rhs) \<and> 2 * (bn_val lhs + bn_val rhs) < 65536 ^ n
      \<longrightarrow> bn_val s = bn_val lhs + bn_val rhs)"
  unfolding assms(3,4)
  using add_bignum_correct(1) [OF assms(1,2), of junk oob]
    add_bignum_correct(2) [OF assms(1,2), of junk oob]
    add_bignum_correct(3) [OF assms(1,2), of junk oob] by blast

text \<open>\<open>0x1ffff + (-2) = 0x1fffd\<close>\<close>

theorem add_bignum_sum_witness:
  "bn_val (add_bignum (\<lambda>_. 7) 9 \<lparr>vals = [0xffff, 1], len = 2\<rparr> \<lparr>vals = [0xfffe], len = 1\<rparr>) = 0x1fffd"
proof -
  have "bn_val \<lparr>vals = [0xffff, 1], len = 2\<rparr> = 0x1ffff" "bn_val \<lparr>vals = [0xfffe], len = 1\<rparr> = - 2"
    "wf_bn \<lparr>vals = [0xffff, 1], len = 2\<rparr>" "wf_bn \<lparr>vals = [0xfffe], len = 1\<rparr>"
    by code_simp+
  then show ?thesis
    using add_bignum_sum [of "\<lparr>vals = [0xffff, 1], len = 2\<rparr>" "\<lparr>vals = [0xfffe], len = 1\<rparr>" 2 _ "\<lambda>_. 7" 9]
    by simp
qed

text \<open>
  C24: \<^verbatim>\<open>sub_bignum\<close> returns the exact difference in canonical form when it is not negative, and
  the sign extension of the shorter operand leaves the values of both operands as they were.
\<close>

theorem sub_bignum_difference:
  assumes "wf_bn lhs" and "wf_bn rhs" and "max (len lhs) (len rhs) < 65535"
    and "bn_val rhs \<le> bn_val lhs"
  shows "\<exists>d lhs' rhs'. sub_bignum junk oob lhs rhs = Some (d, lhs', rhs') \<and> canonical d \<and>
    bn_val d = bn_val lhs - bn_val rhs \<and> bn_val lhs' = bn_val lhs \<and> bn_val rhs' = bn_val rhs"
  using assms by (rule sub_bignum_ge)

theorem sub_bignum_difference_witness:
  "\<exists>d lhs' rhs'. sub_bignum (\<lambda>_. 7) 9 \<lparr>vals = [0, 1], len = 2\<rparr> \<lparr>vals = [0xfffe], len = 1\<rparr> =
     Some (d, lhs', rhs') \<and> bn_val d = 65538"
proof -
  have "bn_val \<lparr>vals = [0, 1], len = 2\<rparr> = 65536" "bn_val \<lparr>vals = [0xfffe], len = 1\<rparr> = - 2"
    "wf_bn \<lparr>vals = [0, 1], len = 2\<rparr>" "wf_bn \<lparr>vals = [0xfffe], len = 1\<rparr>"
    by code_simp+
  then show ?thesis
    using sub_bignum_difference [of "\<lparr>vals = [0, 1], len = 2\<rparr>" "\<lparr>vals = [0xfffe], len = 1\<rparr>" "\<lambda>_. 7" 9]
    by auto
qed

text \<open>
  For operands of one sign with \<open>lhs < rhs\<close> the borrow out of the top cell is taken for an
  overflow: a zero cell is put on top and the result is \<open>65536 ^ n\<close> too big.
\<close>

theorem sub_bignum_borrow:
  assumes "wf_bn lhs" and "wf_bn rhs" and "max (len lhs) (len rhs) < 65535"
    and "bn_val lhs < bn_val rhs" and "bn_val lhs < 0 \<longleftrightarrow> bn_val rhs < 0"
  shows "\<exists>d lhs' rhs'. sub_bignum junk oob lhs rhs = Some (d, lhs', rhs') \<and> canonical d \<and>
    bn_val d = bn_val lhs - bn_val rhs + 65536 ^ max (len lhs) (len rhs)"
  using assms by (rule sub_bignum_lt)

text \<open>
  The value of a product for operands of any sign, modulo the size of its array: the cells
  are multiplied as unsigned numbers, so a negative factor counts as \<open>65536 ^ len\<close> more than it
  is. With the other factor positive the product is wrong: \<open>(-1) * 1\<close> gives \<open>65535\<close>.
\<close>

theorem mul_bignum_value:
  assumes "wf_bn lhs" and "wf_bn rhs" and "p = mul_bignum junk oob lhs rhs"
    and "n = len lhs + len rhs"
  shows "canonical p \<and> bn_val p mod 65536 ^ n =
    ((bn_val lhs + (if bn_val lhs < 0 then 65536 ^ len lhs else 0)) *
     (bn_val rhs + (if bn_val rhs < 0 then 65536 ^ len rhs else 0))) mod 65536 ^ n"
proof -
  obtain vs where m: "p = contract_bignum oob \<lparr>vals = vs, len = n\<rparr>" and l: "length vs = n"
    and u: "uval vs = uval (cells lhs) * uval (cells rhs)"
    using mul_bignum_unfold [OF assms(1,2), of junk oob] assms(3,4) by metis
  have c: "uval (cells b) = bn_val b + (if bn_val b < 0 then 65536 ^ len b else 0)" if "wf_bn b" for b
    using bn_val_cells(1) [OF that] by simp
  have n: "0 < n" using assms(1,4) by (simp add: wf_bn_def)
  show ?thesis
    using bn_val_wrap(1) [OF m l n] bn_val_wrap(2) [OF m l n] u
    unfolding c [OF assms(1)] c [OF assms(2)] by metis
qed

end
