(* ===== verification/Symbol.thy ===== *)
theory Symbol
  imports CText
begin

text \<open>
  \<^verbatim>\<open>c/compiler/simple/symbol.c\<close> and \<^verbatim>\<open>init.c\<close>: the symbol table of the infix-to-postfix
  translator. Names are stored one after the other in the array \<open>lexemes\<close>; an entry of
  \<open>symtable\<close> holds the offset of its name and its token.
\<close>

section \<open>The interface\<close>

text \<open>
  What the lexical analyser relies on: a table of names numbered from 1, in the order of
  their insertion, which finds a name again and keeps the number of every name.
\<close>

locale symbol_table =
  fixes inv :: "'t \<Rightarrow> bool"
    and storable :: "string \<Rightarrow> bool"
    and names :: "'t \<Rightarrow> string list"
    and tok :: "'t \<Rightarrow> nat \<Rightarrow> int"
    and find :: "'t \<Rightarrow> string \<Rightarrow> nat"
    and add :: "'t \<Rightarrow> string \<Rightarrow> int \<Rightarrow> string + ('t \<times> nat)"
  assumes find_none: "inv t \<Longrightarrow> find t s = 0 \<longleftrightarrow> s \<notin> set (names t)"
    and find_some: "inv t \<Longrightarrow> find t s = Suc p \<Longrightarrow> p < length (names t) \<and> names t ! p = s"
    and add_inv: "\<lbrakk>inv t; storable s; add t s k = Inr (t', p)\<rbrakk> \<Longrightarrow> inv t'"
    and add_names: "\<lbrakk>inv t; storable s; add t s k = Inr (t', p)\<rbrakk> \<Longrightarrow>
          names t' = names t @ [s] \<and> p = Suc (length (names t))"
    and add_tok: "\<lbrakk>inv t; storable s; add t s k = Inr (t', p); q < length (names t)\<rbrakk> \<Longrightarrow>
          tok t' (Suc q) = tok t (Suc q)"
    and add_tok_new: "\<lbrakk>inv t; storable s; add t s k = Inr (t', p)\<rbrakk> \<Longrightarrow> tok t' p = k"
begin

text \<open>Look a name up and insert it when it is new, as the lexical analyser does.\<close>

definition intern :: "'t \<Rightarrow> string \<Rightarrow> int \<Rightarrow> string + ('t \<times> nat)" where
  "intern t s k = (if find t s = 0 then add t s k else Inr (t, find t s))"

definition extends :: "'t \<Rightarrow> 't \<Rightarrow> bool" where
  "extends t t' \<longleftrightarrow> (\<exists>xs. names t' = names t @ xs) \<and>
     (\<forall>q. q < length (names t) \<longrightarrow> tok t' (Suc q) = tok t (Suc q))"

lemma extends_refl: "extends t t"
  by (simp add: extends_def)

lemma extends_trans: "extends t u \<Longrightarrow> extends u v \<Longrightarrow> extends t v"
  by (auto simp: extends_def)

lemma intern_correct:
  assumes "inv t" and "storable s" and "intern t s k = Inr (t', p)"
  shows "inv t'" and "extends t t'" and "0 < p" and "p \<le> length (names t')"
    and "names t' ! (p - 1) = s" and "distinct (names t) \<Longrightarrow> distinct (names t')"
    and "set (names t') = insert s (set (names t))"
    and "s \<notin> set (names t) \<Longrightarrow> tok t' p = k"
proof -
  have "inv t' \<and> extends t t' \<and> 0 < p \<and> p \<le> length (names t') \<and> names t' ! (p - 1) = s \<and>
    (distinct (names t) \<longrightarrow> distinct (names t')) \<and> set (names t') = insert s (set (names t)) \<and>
    (s \<notin> set (names t) \<longrightarrow> tok t' p = k)"
  proof (cases "find t s")
    case 0
    then have a: "add t s k = Inr (t', p)" using assms(3) by (simp add: intern_def)
    note n = add_names [OF assms(1,2) a]
    have "extends t t'" using n add_tok [OF assms(1,2) a] by (simp add: extends_def)
    then show ?thesis
      using n add_inv [OF assms(1,2) a] add_tok_new [OF assms(1,2) a] find_none [OF assms(1)] 0
      by auto
  next
    case (Suc q)
    then have e: "t' = t" "p = Suc q" using assms(3) by (auto simp: intern_def)
    have m: "s \<in> set (names t)" using Suc find_none [OF assms(1), of s] by simp
    show ?thesis
      using e m find_some [OF assms(1) Suc] assms(1) extends_refl by (auto simp: insert_absorb)
  qed
  then show "inv t'" and "extends t t'" and "0 < p" and "p \<le> length (names t')"
    and "names t' ! (p - 1) = s" and "distinct (names t) \<Longrightarrow> distinct (names t')"
    and "set (names t') = insert s (set (names t))"
    and "s \<notin> set (names t) \<Longrightarrow> tok t' p = k"
    by blast+
qed

text \<open>A name keeps its number: interning it again changes nothing.\<close>

lemma intern_again:
  assumes "inv t" and "storable s" and "distinct (names t)" and "intern t s k = Inr (t', p)"
    and "inv u" and "distinct (names u)" and "extends t' u"
  shows "intern u s k' = Inr (u, p)"
proof -
  note i = intern_correct [OF assms(1,2,4)]
  have n: "names u ! (p - 1) = s" "p - 1 < length (names u)"
    using i assms(7) by (auto simp: extends_def nth_append)
  then have "s \<in> set (names u)" by (metis nth_mem)
  then obtain q where q: "find u s = Suc q" using find_none [OF assms(5), of s] by (cases "find u s") auto
  have "names u ! q = s" "q < length (names u)" using find_some [OF assms(5) q] by auto
  then have "q = p - 1" using n assms(6) by (metis nth_eq_iff_index_eq)
  with q i(3) show ?thesis by (simp add: intern_def)
qed

end

section \<open>The table\<close>

definition STRMAX :: nat where
  "STRMAX = 999"

definition SYMMAX :: nat where
  "SYMMAX = 100"

definition DIV_token :: int where
  "DIV_token = 257"

definition MOD_token :: int where
  "MOD_token = 258"

record entry =
  lexptr :: nat
  token :: int

record symtab =
  lexemes :: "char list"
  lastchar :: int
  symtable :: "entry list"
  lastentry :: nat

text \<open>The initial values of the global variables (arrays are zeroed).\<close>

definition symtab0 :: symtab where
  "symtab0 = \<lparr>lexemes = replicate STRMAX NUL, lastchar = - 1,
     symtable = replicate SYMMAX \<lparr>lexptr = 0, token = 0\<rparr>, lastentry = 0\<rparr>"

definition name_at :: "symtab \<Rightarrow> nat \<Rightarrow> string" where
  "name_at t p = cstr_at (lexemes t) (lexptr (symtable t ! p))"

primrec lookup_from :: "symtab \<Rightarrow> string \<Rightarrow> nat \<Rightarrow> nat" where
  "lookup_from t s 0 = 0"
| "lookup_from t s (Suc p) = (if name_at t (Suc p) = s then Suc p else lookup_from t s p)"

definition lookup :: "symtab \<Rightarrow> string \<Rightarrow> nat" where
  "lookup t s = lookup_from t s (lastentry t)"

text \<open>\<open>Inl m\<close>: the program ends in \<^verbatim>\<open>error(m)\<close>.\<close>

definition insert_sym :: "symtab \<Rightarrow> string \<Rightarrow> int \<Rightarrow> string + (symtab \<times> nat)" where
  "insert_sym t s tk =
     (let n = length s in
      if lastentry t + 1 \<ge> SYMMAX then Inl ''symbol table full''
      else if lastchar t + int n + 1 \<ge> int STRMAX then Inl ''lexemes array full''
      else
        (let e = lastentry t + 1;
             ptr = nat (lastchar t + 1)
         in Inr (t\<lparr>lastentry := e, symtable := (symtable t)[e := \<lparr>lexptr = ptr, token = tk\<rparr>],
                   lastchar := lastchar t + int n + 1,
                   lexemes := strcpy_at (lexemes t) ptr s\<rparr>, e)))"

definition keyword_table :: "(string \<times> int) list" where
  "keyword_table = [(''div'', DIV_token), (''mod'', MOD_token)]"

primrec init_loop :: "symtab \<Rightarrow> (string \<times> int) list \<Rightarrow> string + symtab" where
  "init_loop t [] = Inr t"
| "init_loop t (p # ps) =
     (case insert_sym t (fst p) (snd p) of
        Inl m \<Rightarrow> Inl m
      | Inr (t', _) \<Rightarrow> init_loop t' ps)"

definition init :: "symtab \<Rightarrow> string + symtab" where
  "init t = init_loop t keyword_table"

section \<open>The invariant\<close>

text \<open>
  The names lie one behind the other in \<open>lexemes\<close>, each with its terminator, and fill it up
  to \<open>lastchar\<close>.
\<close>

definition names :: "symtab \<Rightarrow> string list" where
  "names t = map (\<lambda>p. name_at t (Suc p)) [0..<lastentry t]"

definition used :: "string list \<Rightarrow> nat" where
  "used ns = (\<Sum>s\<leftarrow>ns. length s + 1)"

definition sym_inv :: "symtab \<Rightarrow> bool" where
  "sym_inv t \<longleftrightarrow> length (lexemes t) = STRMAX \<and> length (symtable t) = SYMMAX \<and>
     lastentry t < SYMMAX \<and> lastchar t + 1 = int (used (names t)) \<and> used (names t) \<le> STRMAX \<and>
     (\<forall>p<lastentry t. lexptr (symtable t ! Suc p) = used (take p (names t)))"

definition storable :: "string \<Rightarrow> bool" where
  "storable s \<longleftrightarrow> NUL \<notin> set s"

lemma names_length [simp]: "length (names t) = lastentry t"
  by (simp add: names_def)

lemma names_nth: "p < lastentry t \<Longrightarrow> names t ! p = name_at t (Suc p)"
  by (simp add: names_def)

lemma used_append [simp]: "used (xs @ ys) = used xs + used ys"
  by (simp add: used_def)

lemma used_simps [simp]: "used [] = 0" "used [s] = length s + 1"
  by (simp_all add: used_def)

lemma used_take_le: "p < length ns \<Longrightarrow> used (take p ns) + length (ns ! p) + 1 \<le> used ns"
proof -
  assume p: "p < length ns"
  have "used ns = used (take (Suc p) ns) + used (drop (Suc p) ns)"
    by (simp only: used_append [symmetric] append_take_drop_id)
  then show ?thesis using p by (simp add: take_Suc_conv_app_nth)
qed

lemma lookup_from_cases:
  "lookup_from t s n = 0 \<and> (\<forall>p<n. name_at t (Suc p) \<noteq> s) \<or>
   (\<exists>p<n. lookup_from t s n = Suc p \<and> name_at t (Suc p) = s)"
proof (induction n)
  case (Suc n)
  then show ?case by (auto simp: less_Suc_eq)
qed simp

lemma lookup_none: "lookup t s = 0 \<longleftrightarrow> s \<notin> set (names t)"
  using lookup_from_cases [of t s "lastentry t"] by (auto simp: lookup_def names_def)

lemma lookup_some: "lookup t s = Suc p \<Longrightarrow> p < lastentry t \<and> name_at t (Suc p) = s"
  using lookup_from_cases [of t s "lastentry t"] by (auto simp: lookup_def)

lemma insert_sym_Inr:
  assumes "insert_sym t s tk = Inr (t', e)"
  shows "e = Suc (lastentry t)" and "Suc (lastentry t) < SYMMAX"
    and "lastchar t + int (length s) + 1 < int STRMAX"
    and "t' = t\<lparr>lastentry := Suc (lastentry t),
          symtable := (symtable t)[Suc (lastentry t) := \<lparr>lexptr = nat (lastchar t + 1), token = tk\<rparr>],
          lastchar := lastchar t + int (length s) + 1,
          lexemes := strcpy_at (lexemes t) (nat (lastchar t + 1)) s\<rparr>"
  using assms by (auto simp: insert_sym_def Let_def split: if_splits)

lemma insert_sym_names:
  assumes "sym_inv t" and "storable s" and "insert_sym t s tk = Inr (t', e)"
  shows "names t' = names t @ [s]"
proof -
  note i = insert_sym_Inr [OF assms(3)]
  have u: "nat (lastchar t + 1) = used (names t)" and ul: "used (names t) + length s < length (lexemes t)"
    using assms(1) i(3) by (auto simp: sym_inv_def)
  have sl: "Suc (lastentry t) < length (symtable t)" using assms(1) i(2) by (simp add: sym_inv_def)
  have "names t' ! p = (names t @ [s]) ! p" if p: "p < Suc (lastentry t)" for p
  proof (cases "p = lastentry t")
    case True
    have "cstr_at (strcpy_at (lexemes t) (used (names t)) s) (used (names t)) = s"
      using ul assms(2) by (intro cstr_at_strcpy_same) (auto simp: storable_def)
    with True show ?thesis
      using sl by (simp add: names_nth i(4) name_at_def u nth_append)
  next
    case False
    then have p': "p < lastentry t" using p by simp
    have lp: "lexptr (symtable t ! Suc p) = used (take p (names t))"
      using assms(1) p' by (simp add: sym_inv_def)
    have "used (take p (names t)) + length (names t ! p) < used (names t)"
      using used_take_le [of p "names t"] p' by simp
    then have "cstr_at (strcpy_at (lexemes t) (used (names t)) s) (used (take p (names t))) =
        cstr_at (lexemes t) (used (take p (names t)))"
      using ul p' by (intro cstr_at_strcpy_before) (auto simp: names_nth name_at_def lp)
    then have "names t' ! p = names t ! p"
      using False p' sl by (simp add: names_nth i(4) name_at_def u lp)
    with p' show ?thesis by (simp add: nth_append)
  qed
  then show ?thesis by (intro nth_equalityI) (simp_all add: i(4))
qed

lemma insert_sym_inv:
  assumes "sym_inv t" and "storable s" and "insert_sym t s tk = Inr (t', e)"
  shows "sym_inv t'"
proof -
  note i = insert_sym_Inr [OF assms(3)] and n = insert_sym_names [OF assms]
  have u: "nat (lastchar t + 1) = used (names t)" and ul: "used (names t) + length s < length (lexemes t)"
    using assms(1) i(3) by (auto simp: sym_inv_def)
  have sl: "Suc (lastentry t) < length (symtable t)" using assms(1) i(2) by (simp add: sym_inv_def)
  have f: "length (lexemes t') = STRMAX" "length (symtable t') = SYMMAX"
    "lastentry t' = Suc (lastentry t)" "lastchar t' = lastchar t + int (length s) + 1"
    using assms(1) ul u by (simp_all add: i(4) strcpy_at_length sym_inv_def)
  have l: "lastchar t + 1 = int (used (names t))" using assms(1) by (simp add: sym_inv_def)
  have "lexptr (symtable t' ! Suc p) = used (take p (names t @ [s]))" if p: "p < Suc (lastentry t)" for p
    using p assms(1) sl u by (cases "p = lastentry t") (auto simp: i(4) sym_inv_def)
  then show ?thesis
    unfolding sym_inv_def n using f l i(2,3) by auto
qed

lemma insert_sym_fits:
  assumes "sym_inv t" and "lastentry t + 1 < SYMMAX" and "used (names t) + length s < STRMAX"
  shows "\<exists>t'. insert_sym t s tk = Inr (t', Suc (lastentry t))"
  using assms by (simp add: insert_sym_def Let_def sym_inv_def)

definition sym_token :: "symtab \<Rightarrow> nat \<Rightarrow> int" where
  "sym_token t p = token (symtable t ! p)"

interpretation st: symbol_table sym_inv storable names sym_token lookup insert_sym
proof unfold_locales
  fix t s k t' p q
  show "sym_inv t \<Longrightarrow> (lookup t s = 0) = (s \<notin> set (names t))" by (rule lookup_none)
  show "sym_inv t \<Longrightarrow> lookup t s = Suc p \<Longrightarrow> p < length (names t) \<and> names t ! p = s"
    using lookup_some [of t s p] by (auto simp: names_nth)
  assume a: "sym_inv t" "storable s" "insert_sym t s k = Inr (t', p)"
  note i = insert_sym_Inr [OF a(3)]
  show "sym_inv t'" by (rule insert_sym_inv [OF a])
  show "names t' = names t @ [s] \<and> p = Suc (length (names t))"
    using insert_sym_names [OF a] i(1) by simp
  show "q < length (names t) \<Longrightarrow> sym_token t' (Suc q) = sym_token t (Suc q)"
    by (simp add: i(4) sym_token_def)
  show "sym_token t' p = k"
    using a(1) i(1,2) by (simp add: i(4) sym_token_def sym_inv_def)
qed

end
