(* ===== verification/Lexer.thy ===== *)
theory Lexer
  imports Symbol
begin

text \<open>
  \<^verbatim>\<open>c/compiler/simple/lexer.c\<close>, \<^verbatim>\<open>emitter.c\<close> and the global variables of the translator.
  Characters of the input are the tokens below 256, as \<^verbatim>\<open>getchar\<close> returns them.
\<close>

section \<open>The state\<close>

definition NONE :: int where
  "NONE = - 1"

definition NUM :: int where
  "NUM = 256"

definition ID :: int where
  "ID = 259"

definition DONE :: int where
  "DONE = 260"

definition BSIZE :: nat where
  "BSIZE = 128"

text \<open>
  \<open>stdin\<close> is the input not yet read and \<open>out\<close> what was printed; the line counter is
  assumed not to overflow.
\<close>

record comp =
  stdin :: string
  out :: string
  tab :: symtab
  lineno :: int
  tokenval :: int
  lookahead :: int

definition char_tok :: "char \<Rightarrow> int" where
  "char_tok c = int (of_char c)"

text \<open>The state in which \<^verbatim>\<open>error\<close> was called and its message, or a state and a value.\<close>

type_synonym 'a run = "(comp \<times> string) + (comp \<times> 'a)"

section \<open>The lexical analyser\<close>

text \<open>
  \<^verbatim>\<open>scanf("%d")\<close> on input that starts with a digit; what it stores for a number that does
  not fit in an \<open>int\<close> is undefined in C: the parameter \<open>big\<close>.
\<close>

definition scan_num :: "(int \<Rightarrow> int) \<Rightarrow> string \<Rightarrow> int \<times> string" where
  "scan_num big s =
     (let (v, rest) = scan_digits s in (if v < 2147483648 then v else big v, rest))"

text \<open>The loop that fills \<open>lexbuf\<close> from index \<open>b\<close>; \<open>None\<close> when the buffer is full.\<close>

primrec scan_word :: "nat \<Rightarrow> string \<Rightarrow> (string \<times> string) option" where
  "scan_word b [] = Some ([], [])"
| "scan_word b (t # cs) =
     (if c_isalnum t then
        (if b + 1 \<ge> BSIZE then None
         else case scan_word (b + 1) cs of
                None \<Rightarrow> None
              | Some (w, rest) \<Rightarrow> Some (t # w, rest))
      else Some ([], t # cs))"

definition intern_word :: "symtab \<Rightarrow> string \<Rightarrow> string + (symtab \<times> nat)" where
  "intern_word t w = (let p = lookup t w in if p = 0 then insert_sym t w ID else Inr (t, p))"

lemma intern_word_st: "intern_word t w = st.intern t w ID"
  by (simp add: intern_word_def st.intern_def Let_def)

text \<open>\<open>lexan_at s cs\<close> is the loop with the characters \<open>cs\<close> left to read.\<close>

primrec lexan_at :: "(int \<Rightarrow> int) \<Rightarrow> comp \<Rightarrow> string \<Rightarrow> int run" where
  "lexan_at big s [] = Inr (s\<lparr>stdin := []\<rparr>, DONE)"
| "lexan_at big s (t # cs) =
     (if t = CHR '' '' \<or> t = CText.tab then lexan_at big s cs
      else if t = lf then lexan_at big (s\<lparr>lineno := lineno s + 1\<rparr>) cs
      else if c_isdigit t then
        (let (v, rest) = scan_num big (t # cs)
         in Inr (s\<lparr>stdin := rest, tokenval := v\<rparr>, NUM))
      else if c_isalpha t then
        (case scan_word 0 (t # cs) of
           None \<Rightarrow> Inl (s\<lparr>stdin := []\<rparr>, ''compiler error'')
         | Some (w, rest) \<Rightarrow>
             (case intern_word (tab s) w of
                Inl m \<Rightarrow> Inl (s\<lparr>stdin := rest\<rparr>, m)
              | Inr (t', p) \<Rightarrow>
                  Inr (s\<lparr>stdin := rest, tab := t', tokenval := int p\<rparr>, sym_token t' p)))
      else Inr (s\<lparr>stdin := cs, tokenval := NONE\<rparr>, char_tok t))"

definition lexan :: "(int \<Rightarrow> int) \<Rightarrow> comp \<Rightarrow> int run" where
  "lexan big s = lexan_at big s (stdin s)"

section \<open>The emitter\<close>

text \<open>
  \<^verbatim>\<open>defalut:\<close> in \<^verbatim>\<open>emit\<close> is a label, not a case: for another token nothing is printed.
\<close>

definition emit_text :: "symtab \<Rightarrow> int \<Rightarrow> int \<Rightarrow> string" where
  "emit_text t tk v =
     (if tk = char_tok CHR ''+'' \<or> tk = char_tok CHR ''-'' \<or> tk = char_tok CHR ''*'' \<or>
         tk = char_tok CHR ''/'' then [char_of (nat tk)] @ newline
      else if tk = DIV_token then ''DIV'' @ newline
      else if tk = MOD_token then ''MOD'' @ newline
      else if tk = NUM then int_str v @ newline
      else if tk = ID then name_at t (nat v) @ newline
      else '''')"

definition emit :: "comp \<Rightarrow> int \<Rightarrow> int \<Rightarrow> comp" where
  "emit s tk v = s\<lparr>out := out s @ emit_text (tab s) tk v\<rparr>"

section \<open>Tokens\<close>

lemma char_tok_bounds: "0 \<le> char_tok c" "char_tok c < 256"
  using of_char_mod_256 [of c, where ?'a = nat] by (auto simp: char_tok_def intro: mod_less_divisor)

lemma char_tok_inject [simp]: "char_tok c = char_tok d \<longleftrightarrow> c = d"
  by (simp add: char_tok_def)

lemma char_tok_neq [simp]:
  "char_tok c \<noteq> NUM" "char_tok c \<noteq> ID" "char_tok c \<noteq> DONE"
  "char_tok c \<noteq> DIV_token" "char_tok c \<noteq> MOD_token"
  "NUM \<noteq> char_tok c" "ID \<noteq> char_tok c" "DONE \<noteq> char_tok c"
  "DIV_token \<noteq> char_tok c" "MOD_token \<noteq> char_tok c"
  using char_tok_bounds [of c] by (auto simp: NUM_def ID_def DONE_def DIV_token_def MOD_token_def)

lemma tok_neq [simp]:
  "NUM \<noteq> ID" "NUM \<noteq> DONE" "ID \<noteq> DONE" "ID \<noteq> NUM" "DONE \<noteq> NUM" "DONE \<noteq> ID"
  "DIV_token \<noteq> NUM" "DIV_token \<noteq> ID" "DIV_token \<noteq> DONE" "DIV_token \<noteq> MOD_token"
  "MOD_token \<noteq> NUM" "MOD_token \<noteq> ID" "MOD_token \<noteq> DONE" "MOD_token \<noteq> DIV_token"
  "NUM \<noteq> DIV_token" "ID \<noteq> DIV_token" "DONE \<noteq> DIV_token"
  "NUM \<noteq> MOD_token" "ID \<noteq> MOD_token" "DONE \<noteq> MOD_token"
  by (simp_all add: NUM_def ID_def DONE_def DIV_token_def MOD_token_def)

section \<open>Progress\<close>

lemma scan_word_split:
  "scan_word b cs = Some (w, rest) \<Longrightarrow> cs = w @ rest \<and> (\<forall>c\<in>set w. c_isalnum c) \<and> length w + b < BSIZE \<or>
     cs = w @ rest \<and> w = []"
proof (induction cs arbitrary: b w)
  case (Cons t cs)
  show ?case
  proof (cases "c_isalnum t \<and> \<not> b + 1 \<ge> BSIZE")
    case True
    with Cons.prems obtain w' where w': "scan_word (b + 1) cs = Some (w', rest)" "w = t # w'"
      by (auto split: option.splits)
    from Cons.IH [OF w'(1)] w'(2) True show ?thesis by auto
  next
    case False
    with Cons.prems show ?thesis by (auto split: if_splits)
  qed
qed auto

lemma scan_word_Some:
  "scan_word b cs = Some (w, rest) \<Longrightarrow> cs = w @ rest \<and> (\<forall>c\<in>set w. c_isalnum c)"
  using scan_word_split [of b cs w rest] by auto

lemma c_isalnum_not_NUL: "c_isalnum c \<Longrightarrow> c \<noteq> NUL"
  by (auto simp: c_isalnum_def c_isalpha_def c_isupper_def c_islower_def c_isdigit_def NUL_def)

lemma scan_word_storable: "scan_word b cs = Some (w, rest) \<Longrightarrow> storable w"
  using scan_word_Some [of b cs w rest] c_isalnum_not_NUL by (auto simp: storable_def)

lemma scan_word_progress:
  assumes "c_isalnum t" and "scan_word b (t # cs) = Some (w, rest)"
  shows "length rest \<le> length cs"
proof -
  obtain w' where "scan_word (b + 1) cs = Some (w', rest)"
    using assms by (auto split: if_splits option.splits)
  from scan_word_Some [OF this] show ?thesis by simp
qed

text \<open>
  Each call consumes input or reports the end of it; the token is a byte, \<open>NUM\<close>, \<open>DONE\<close>
  or the token of an entry of the table.
\<close>

lemma lexan_at_progress:
  "lexan_at big s cs = Inr (s', tk) \<Longrightarrow>
     (if tk = DONE \<and> stdin s' = [] then True else length (stdin s') < length cs) \<and>
     length (stdin s') \<le> length cs \<and> out s' = out s"
proof (induction cs arbitrary: s)
  case (Cons t cs)
  show ?case
  proof (cases "t = CHR '' '' \<or> t = CText.tab \<or> t = lf")
    case True
    with Cons.prems Cons.IH [of s] Cons.IH [of "s\<lparr>lineno := lineno s + 1\<rparr>"] show ?thesis
      by (auto split: if_splits)
  next
    case F: False
    consider "c_isdigit t" | "\<not> c_isdigit t" "c_isalpha t" | "\<not> c_isdigit t" "\<not> c_isalpha t" by blast
    then show ?thesis
    proof cases
      case 1
      have "length (dropWhile c_isdigit cs) \<le> length cs" by (rule length_dropWhile_le)
      with F 1 Cons.prems show ?thesis
        by (auto simp: scan_num_def scan_digits_def Let_def simp del: dropWhile.simps)
           (auto simp: 1)
    next
      case 2
      then have a: "c_isalnum t" by (simp add: c_isalnum_def)
      from F 2 Cons.prems obtain w rest where w: "scan_word 0 (t # cs) = Some (w, rest)"
        by (auto split: option.splits)
      from scan_word_progress [OF a w] F 2 Cons.prems w show ?thesis
        by (auto simp: Let_def simp del: scan_word.simps split: if_splits sum.splits)
    next
      case 3
      with F Cons.prems show ?thesis by auto
    qed
  qed
qed auto

end
