(* ===== verification/Parser.thy ===== *)
theory Parser
  imports Lexer
begin

text \<open>
  \<^verbatim>\<open>c/compiler/simple/parser.c\<close>, \<^verbatim>\<open>error.c\<close> and \<^verbatim>\<open>main.c\<close>: the recursive-descent
  translator from infix to postfix.
\<close>

section \<open>Outcomes\<close>

text \<open>
  A procedure returns with a state, or the program ends in \<^verbatim>\<open>error\<close>. \<open>Fuel\<close> is not an
  outcome of the program: it says that the recursion was cut off, and enough fuel for every
  state is given below.
\<close>

datatype outcome = Fuel | Error comp string | Return comp

primrec andThen :: "outcome \<Rightarrow> (comp \<Rightarrow> outcome) \<Rightarrow> outcome" where
  "andThen Fuel f = Fuel"
| "andThen (Error s m) f = Error s m"
| "andThen (Return s) f = f s"

section \<open>The parser\<close>

definition next_token :: "(int \<Rightarrow> int) \<Rightarrow> comp \<Rightarrow> outcome" where
  "next_token big s =
     (case lexan big s of
        Inl (s', m) \<Rightarrow> Error s' m
      | Inr (s', t) \<Rightarrow> Return (s'\<lparr>lookahead := t\<rparr>))"

definition match :: "(int \<Rightarrow> int) \<Rightarrow> int \<Rightarrow> comp \<Rightarrow> outcome" where
  "match big t s =
     (if lookahead s = t then next_token big s else Error s ''syntax error'')"

definition is_addop :: "int \<Rightarrow> bool" where
  "is_addop t \<longleftrightarrow> t = char_tok CHR ''+'' \<or> t = char_tok CHR ''-''"

definition is_mulop :: "int \<Rightarrow> bool" where
  "is_mulop t \<longleftrightarrow> t = char_tok CHR ''*'' \<or> t = char_tok CHR ''/'' \<or> t = DIV_token \<or> t = MOD_token"

text \<open>
  \<open>expr_rest\<close> and \<open>term_rest\<close> are the loops of \<open>expr\<close> and \<open>term\<close>. In \<open>factor\<close> the
  misspelt \<^verbatim>\<open>defalut:\<close> is a label behind a \<^verbatim>\<open>break\<close>: another token is not an error, and
  \<open>factor\<close> returns without reading it.
\<close>

fun expr :: "(int \<Rightarrow> int) \<Rightarrow> nat \<Rightarrow> comp \<Rightarrow> outcome"
  and expr_rest :: "(int \<Rightarrow> int) \<Rightarrow> nat \<Rightarrow> comp \<Rightarrow> outcome"
  and trm :: "(int \<Rightarrow> int) \<Rightarrow> nat \<Rightarrow> comp \<Rightarrow> outcome"
  and trm_rest :: "(int \<Rightarrow> int) \<Rightarrow> nat \<Rightarrow> comp \<Rightarrow> outcome"
  and factor :: "(int \<Rightarrow> int) \<Rightarrow> nat \<Rightarrow> comp \<Rightarrow> outcome" where
  "expr big 0 s = Fuel"
| "expr big (Suc k) s = andThen (trm big k s) (expr_rest big k)"
| "expr_rest big 0 s = Fuel"
| "expr_rest big (Suc k) s =
     (if is_addop (lookahead s) then
        andThen (match big (lookahead s) s) (\<lambda>s1.
        andThen (trm big k s1) (\<lambda>s2. expr_rest big k (emit s2 (lookahead s) NONE)))
      else Return s)"
| "trm big 0 s = Fuel"
| "trm big (Suc k) s = andThen (factor big k s) (trm_rest big k)"
| "trm_rest big 0 s = Fuel"
| "trm_rest big (Suc k) s =
     (if is_mulop (lookahead s) then
        andThen (match big (lookahead s) s) (\<lambda>s1.
        andThen (factor big k s1) (\<lambda>s2. trm_rest big k (emit s2 (lookahead s) NONE)))
      else Return s)"
| "factor big 0 s = Fuel"
| "factor big (Suc k) s =
     (if lookahead s = char_tok CHR ''('' then
        andThen (match big (char_tok CHR ''('') s) (\<lambda>s1.
        andThen (expr big k s1) (match big (char_tok CHR '')'')))
      else if lookahead s = NUM then match big NUM (emit s NUM (tokenval s))
      else if lookahead s = ID then match big ID (emit s ID (tokenval s))
      else Return s)"

fun parse_rest :: "(int \<Rightarrow> int) \<Rightarrow> nat \<Rightarrow> comp \<Rightarrow> outcome" where
  "parse_rest big 0 s = Fuel"
| "parse_rest big (Suc k) s =
     (if lookahead s \<noteq> DONE then
        andThen (expr big k s) (\<lambda>s1. andThen (match big (char_tok CHR '';'') s1) (parse_rest big k))
      else Return s)"

definition parse :: "(int \<Rightarrow> int) \<Rightarrow> nat \<Rightarrow> comp \<Rightarrow> outcome" where
  "parse big k s = andThen (next_token big s) (parse_rest big k)"

text \<open>\<open>(stdout, stderr, exit status)\<close>, \<open>None\<close> when the fuel is used up.\<close>

definition comp0 :: "string \<Rightarrow> symtab \<Rightarrow> comp" where
  "comp0 input t = \<lparr>stdin = input, out = '''', tab = t, lineno = 1, tokenval = NONE, lookahead = 0\<rparr>"

definition error_text :: "comp \<Rightarrow> string \<Rightarrow> string" where
  "error_text s m = ''line '' @ int_str (lineno s) @ '': '' @ m @ newline"

definition simple_main :: "(int \<Rightarrow> int) \<Rightarrow> nat \<Rightarrow> string \<Rightarrow> (string \<times> string \<times> nat) option" where
  "simple_main big k input =
     (case init symtab0 of
        Inl m \<Rightarrow> Some ('''', error_text (comp0 input symtab0) m, 1)
      | Inr t \<Rightarrow>
          (case parse big k (comp0 input t) of
             Fuel \<Rightarrow> None
           | Error s m \<Rightarrow> Some (out s, error_text s m, 1)
           | Return s \<Rightarrow> Some (out s, '''', 0)))"

section \<open>Termination\<close>

text \<open>The input that can still be consumed, the token of look-ahead included.\<close>

definition todo :: "comp \<Rightarrow> nat" where
  "todo s = length (stdin s) + (if lookahead s = DONE then 0 else 1)"

lemma todo_emit [simp]: "todo (emit s t v) = todo s" "lookahead (emit s t v) = lookahead s"
  by (simp_all add: todo_def emit_def)

lemma next_token_progress:
  "next_token big s = Return s' \<Longrightarrow> todo s' \<le> length (stdin s)"
  using lexan_at_progress [of big s "stdin s"]
  by (force simp: next_token_def lexan_def todo_def split: sum.splits if_splits)

lemma next_token_not_Fuel [simp]: "next_token big s \<noteq> Fuel"
  by (auto simp: next_token_def split: sum.splits)

lemma match_not_Fuel [simp]: "match big t s \<noteq> Fuel"
  by (simp add: match_def)

lemma match_progress:
  "match big t s = Return s' \<Longrightarrow> t \<noteq> DONE \<Longrightarrow> todo s' < todo s"
  using next_token_progress [of big s s'] by (auto simp: match_def todo_def split: if_splits)

lemma andThen_Return: "andThen r f = Return s' \<longleftrightarrow> (\<exists>s. r = Return s \<and> f s = Return s')"
  by (cases r) auto

lemma andThen_Fuel: "andThen r f = Fuel \<longleftrightarrow> r = Fuel \<or> (\<exists>s. r = Return s \<and> f s = Fuel)"
  by (cases r) auto

lemma addop_not_DONE: "is_addop t \<Longrightarrow> t \<noteq> DONE"
  by (auto simp: is_addop_def)

lemma mulop_not_DONE: "is_mulop t \<Longrightarrow> t \<noteq> DONE"
  by (auto simp: is_mulop_def)

lemma parser_monotone:
  "expr big k s = Return s' \<Longrightarrow> todo s' \<le> todo s"
  "expr_rest big k s = Return s' \<Longrightarrow> todo s' \<le> todo s"
  "trm big k s = Return s' \<Longrightarrow> todo s' \<le> todo s"
  "trm_rest big k s = Return s' \<Longrightarrow> todo s' \<le> todo s"
  "factor big k s = Return s' \<Longrightarrow> todo s' \<le> todo s"
proof (induction big k s and big k s and big k s and big k s and big k s arbitrary: s' and s' and s' and s' and s'
    rule: expr_expr_rest_trm_trm_rest_factor.induct)
  case (4 big k s)
  show ?case
  proof (cases "is_addop (lookahead s)")
    case True
    with "4.prems" obtain s1 s2 where m: "match big (lookahead s) s = Return s1"
      and t: "trm big k s1 = Return s2"
      and r: "expr_rest big k (emit s2 (lookahead s) NONE) = Return s'"
      by (auto simp: andThen_Return)
    show ?thesis
      using match_progress [OF m addop_not_DONE [OF True]] "4.IH"(1) [OF True t] "4.IH"(2) [OF True r]
      by simp
  next
    case False
    with "4.prems" show ?thesis by simp
  qed
next
  case (8 big k s)
  show ?case
  proof (cases "is_mulop (lookahead s)")
    case True
    with "8.prems" obtain s1 s2 where m: "match big (lookahead s) s = Return s1"
      and t: "factor big k s1 = Return s2"
      and r: "trm_rest big k (emit s2 (lookahead s) NONE) = Return s'"
      by (auto simp: andThen_Return)
    show ?thesis
      using match_progress [OF m mulop_not_DONE [OF True]] "8.IH"(1) [OF True t] "8.IH"(2) [OF True r]
      by simp
  next
    case False
    with "8.prems" show ?thesis by simp
  qed
next
  case (10 big k s)
  show ?case
  proof (cases "lookahead s = char_tok CHR ''(''")
    case True
    with "10.prems" obtain s1 s2 where m: "match big (char_tok CHR ''('') s = Return s1"
      and t: "expr big k s1 = Return s2" and r: "match big (char_tok CHR '')'') s2 = Return s'"
      by (auto simp: andThen_Return)
    show ?thesis
      using match_progress [OF m] match_progress [OF r] "10.IH" [OF True t] by simp
  next
    case False
    with "10.prems" show ?thesis
      using match_progress [of big NUM "emit s NUM (tokenval s)" s']
        match_progress [of big ID "emit s ID (tokenval s)" s']
      by (auto split: if_splits)
  qed
qed (auto simp: andThen_Return intro: order_trans)

text \<open>The fuel that the five procedures need is linear in the input that is left.\<close>

lemma parser_fuel:
  "4 * todo s + 3 \<le> k \<Longrightarrow> expr big k s \<noteq> Fuel"
  "4 * todo s + 2 \<le> k \<Longrightarrow> expr_rest big k s \<noteq> Fuel"
  "4 * todo s + 2 \<le> k \<Longrightarrow> trm big k s \<noteq> Fuel"
  "4 * todo s + 1 \<le> k \<Longrightarrow> trm_rest big k s \<noteq> Fuel"
  "4 * todo s + 1 \<le> k \<Longrightarrow> factor big k s \<noteq> Fuel"
proof (induction big k s and big k s and big k s and big k s and big k s
    rule: expr_expr_rest_trm_trm_rest_factor.induct)
  case (2 big k s)
  then show ?case using parser_monotone(3) [of big k s] by (fastforce simp: andThen_Fuel)
next
  case (4 big k s)
  show ?case
  proof
    assume F: "expr_rest big (Suc k) s = Fuel"
    then have a: "is_addop (lookahead s)" by (simp split: if_splits)
    from F a obtain s1 where m: "match big (lookahead s) s = Return s1"
      and c: "trm big k s1 = Fuel \<or>
        (\<exists>s2. trm big k s1 = Return s2 \<and> expr_rest big k (emit s2 (lookahead s) NONE) = Fuel)"
      by (auto simp: andThen_Fuel)
    have l: "todo s1 < todo s" by (rule match_progress [OF m addop_not_DONE [OF a]])
    from c show False
      using "4.IH"(1) [OF a, of s1] "4.IH"(2) [OF a] "4.prems" l parser_monotone(3) [of big k s1]
      by fastforce
  qed
next
  case (6 big k s)
  then show ?case using parser_monotone(5) [of big k s] by (fastforce simp: andThen_Fuel)
next
  case (8 big k s)
  show ?case
  proof
    assume F: "trm_rest big (Suc k) s = Fuel"
    then have a: "is_mulop (lookahead s)" by (simp split: if_splits)
    from F a obtain s1 where m: "match big (lookahead s) s = Return s1"
      and c: "factor big k s1 = Fuel \<or>
        (\<exists>s2. factor big k s1 = Return s2 \<and> trm_rest big k (emit s2 (lookahead s) NONE) = Fuel)"
      by (auto simp: andThen_Fuel)
    have l: "todo s1 < todo s" by (rule match_progress [OF m mulop_not_DONE [OF a]])
    from c show False
      using "8.IH"(1) [OF a, of s1] "8.IH"(2) [OF a] "8.prems" l parser_monotone(5) [of big k s1]
      by fastforce
  qed
next
  case (10 big k s)
  show ?case
  proof
    assume F: "factor big (Suc k) s = Fuel"
    then have a: "lookahead s = char_tok CHR ''(''" by (auto split: if_splits)
    from F a obtain s1 where m: "match big (char_tok CHR ''('') s = Return s1"
      and c: "expr big k s1 = Fuel"
      by (auto simp: andThen_Fuel)
    have "todo s1 < todo s" by (rule match_progress [OF m]) simp
    then show False using "10.IH" [OF a, of s1] "10.prems" c by simp
  qed
qed auto

lemma parse_rest_fuel: "5 * todo s + 4 \<le> k \<Longrightarrow> parse_rest big k s \<noteq> Fuel"
proof (induction big k s rule: parse_rest.induct)
  case (2 big k s)
  show ?case
  proof
    assume F: "parse_rest big (Suc k) s = Fuel"
    then have d: "lookahead s \<noteq> DONE" by (auto split: if_splits)
    then have "1 \<le> todo s" by (simp add: todo_def)
    then have "expr big k s \<noteq> Fuel" using parser_fuel(1) [of s k big] "2.prems" by simp
    with F d obtain s1 s2 where e: "expr big k s = Return s1"
      and m: "match big (char_tok CHR '';'') s1 = Return s2" and r: "parse_rest big k s2 = Fuel"
      by (auto simp: andThen_Fuel)
    have "todo s2 < todo s"
      using match_progress [OF m] parser_monotone(1) [OF e] by simp
    then show False using "2.IH" [OF d, of s2] "2.prems" r by simp
  qed
qed simp

lemma parse_fuel: "5 * length (stdin s) + 4 \<le> k \<Longrightarrow> parse big k s \<noteq> Fuel"
proof
  assume k: "5 * length (stdin s) + 4 \<le> k" and F: "parse big k s = Fuel"
  then obtain s1 where n: "next_token big s = Return s1" and r: "parse_rest big k s1 = Fuel"
    by (auto simp: parse_def andThen_Fuel)
  from parse_rest_fuel [of s1 k big] next_token_progress [OF n] k r show False by simp
qed

lemma simple_main_fuel: "5 * length input + 4 \<le> k \<Longrightarrow> simple_main big k input \<noteq> None"
  using parse_fuel [of "comp0 input _" k big]
  by (auto simp: simple_main_def comp0_def split: sum.splits outcome.splits)

section \<open>More fuel changes nothing\<close>

definition approx :: "outcome \<Rightarrow> outcome \<Rightarrow> bool" where
  "approx r r' \<longleftrightarrow> r = Fuel \<or> r' = r"

lemma approx_refl: "approx r r"
  by (simp add: approx_def)

lemma approx_andThen: "approx r r' \<Longrightarrow> (\<And>s. approx (f s) (f' s)) \<Longrightarrow> approx (andThen r f) (andThen r' f')"
  by (cases r) (auto simp: approx_def)

lemma approx_if: "(c \<Longrightarrow> approx a a') \<Longrightarrow> (\<not> c \<Longrightarrow> approx b b') \<Longrightarrow> approx (if c then a else b) (if c then a' else b')"
  by simp

lemmas approx_intros = approx_refl approx_andThen approx_if

lemma parser_step_fuel:
  "(\<forall>s. approx (expr big k s) (expr big (Suc k) s)) \<and>
   (\<forall>s. approx (expr_rest big k s) (expr_rest big (Suc k) s)) \<and>
   (\<forall>s. approx (trm big k s) (trm big (Suc k) s)) \<and>
   (\<forall>s. approx (trm_rest big k s) (trm_rest big (Suc k) s)) \<and>
   (\<forall>s. approx (factor big k s) (factor big (Suc k) s))"
proof (induction k)
  case 0
  then show ?case by (simp add: approx_def)
next
  case (Suc k)
  have "approx (expr big (Suc k) s) (expr big (Suc (Suc k)) s)" for s
    using Suc by (simp only: expr.simps(2)) (intro approx_intros; blast)
  moreover have "approx (expr_rest big (Suc k) s) (expr_rest big (Suc (Suc k)) s)" for s
    using Suc by (simp only: expr_rest.simps(2)) (intro approx_intros; blast)
  moreover have "approx (trm big (Suc k) s) (trm big (Suc (Suc k)) s)" for s
    using Suc by (simp only: trm.simps(2)) (intro approx_intros; blast)
  moreover have "approx (trm_rest big (Suc k) s) (trm_rest big (Suc (Suc k)) s)" for s
    using Suc by (simp only: trm_rest.simps(2)) (intro approx_intros; blast)
  moreover have "approx (factor big (Suc k) s) (factor big (Suc (Suc k)) s)" for s
    using Suc by (simp only: factor.simps(2)) (intro approx_intros; blast)
  ultimately show ?case by blast
qed

lemma approx_mono: "(\<And>k. approx (f k) (f (Suc k))) \<Longrightarrow> k \<le> l \<Longrightarrow> f k \<noteq> Fuel \<Longrightarrow> f l = f k"
proof (induction l)
  case (Suc l)
  then show ?case using Suc.prems(1) [of l] by (cases "k = Suc l") (auto simp: approx_def)
qed simp

lemma parser_mono_fuel:
  "k \<le> l \<Longrightarrow> expr big k s \<noteq> Fuel \<Longrightarrow> expr big l s = expr big k s"
  "k \<le> l \<Longrightarrow> expr_rest big k s \<noteq> Fuel \<Longrightarrow> expr_rest big l s = expr_rest big k s"
  "k \<le> l \<Longrightarrow> trm big k s \<noteq> Fuel \<Longrightarrow> trm big l s = trm big k s"
  "k \<le> l \<Longrightarrow> trm_rest big k s \<noteq> Fuel \<Longrightarrow> trm_rest big l s = trm_rest big k s"
  "k \<le> l \<Longrightarrow> factor big k s \<noteq> Fuel \<Longrightarrow> factor big l s = factor big k s"
  using approx_mono [of "\<lambda>k. expr big k s" k l] approx_mono [of "\<lambda>k. expr_rest big k s" k l]
    approx_mono [of "\<lambda>k. trm big k s" k l] approx_mono [of "\<lambda>k. trm_rest big k s" k l]
    approx_mono [of "\<lambda>k. factor big k s" k l] parser_step_fuel [of big]
  by blast+

lemma parse_rest_step_fuel: "approx (parse_rest big k s) (parse_rest big (Suc k) s)"
proof (induction k arbitrary: s)
  case (Suc k)
  have "\<And>s. approx (expr big k s) (expr big (Suc k) s)" using parser_step_fuel by blast
  then show ?case
    unfolding parse_rest.simps(2) [of big k s] parse_rest.simps(2) [of big "Suc k" s]
    by (intro approx_intros Suc.IH)
qed (simp add: approx_def)

lemma parse_mono_fuel: "k \<le> l \<Longrightarrow> parse big k s \<noteq> Fuel \<Longrightarrow> parse big l s = parse big k s"
  using approx_mono [of "\<lambda>k. parse big k s" k l] parse_rest_step_fuel [of big]
  by (fastforce simp: parse_def intro: approx_andThen approx_refl)

end
