(* ===== verification/Translate.thy ===== *)
theory Translate
  imports Parser
begin

text \<open>
  Correctness of the translator of \<^verbatim>\<open>c/compiler/simple\<close>: an abstract lexical analyser that
  the concrete one refines, the grammar of the infix language, and the theorem that a program
  of the grammar is translated to the postfix form of its syntax trees.
\<close>

section \<open>Tokens of a text\<close>

datatype atok = TChar char | TNum int | TWord string | TEnd

primrec first_token :: "string \<Rightarrow> atok \<times> string" where
  "first_token [] = (TEnd, [])"
| "first_token (c # cs) =
     (if c = CHR '' '' \<or> c = CText.tab \<or> c = lf then first_token cs
      else if c_isdigit c then (TNum (dec_acc 0 (c # cs)), dropWhile c_isdigit (c # cs))
      else if c_isalpha c then (TWord (takeWhile c_isalnum (c # cs)), dropWhile c_isalnum (c # cs))
      else (TChar c, cs))"

lemma first_token_length:
  "first_token s = (a, r) \<Longrightarrow> a \<noteq> TEnd \<Longrightarrow> length r < length s"
proof (induction s)
  case (Cons c cs)
  have "length (dropWhile P cs) \<le> length cs" for P :: "char \<Rightarrow> bool" by (rule length_dropWhile_le)
  from this [of c_isdigit] this [of c_isalnum] Cons show ?case
    by (auto simp: c_isalnum_def split: if_splits)
qed simp

function tokens :: "string \<Rightarrow> atok list" where
  "tokens s = (case first_token s of (a, r) \<Rightarrow> if a = TEnd then [] else a # tokens r)"
  by pat_completeness auto
termination
  by (relation "measure length") (auto dest: first_token_length [OF sym])

declare tokens.simps [simp del]

section \<open>The grammar\<close>

datatype binop = Plus | Minus | Times | Slash | Div | Mod

datatype ex = Num int | Var string | Bin binop ex ex

definition keyword :: "string \<Rightarrow> bool" where
  "keyword w \<longleftrightarrow> w = ''div'' \<or> w = ''mod''"

primrec op_tok :: "binop \<Rightarrow> atok" where
  "op_tok Plus = TChar CHR ''+''"
| "op_tok Minus = TChar CHR ''-''"
| "op_tok Times = TChar CHR ''*''"
| "op_tok Slash = TChar CHR ''/''"
| "op_tok Div = TWord ''div''"
| "op_tok Mod = TWord ''mod''"

inductive is_expr :: "atok list \<Rightarrow> ex \<Rightarrow> bool"
  and is_term :: "atok list \<Rightarrow> ex \<Rightarrow> bool"
  and is_factor :: "atok list \<Rightarrow> ex \<Rightarrow> bool" where
  e_term: "is_term ts e \<Longrightarrow> is_expr ts e"
| e_add: "\<lbrakk>is_expr ts a; o1 \<in> {Plus, Minus}; is_term us b\<rbrakk> \<Longrightarrow>
     is_expr (ts @ op_tok o1 # us) (Bin o1 a b)"
| t_factor: "is_factor ts e \<Longrightarrow> is_term ts e"
| t_mul: "\<lbrakk>is_term ts a; o1 \<in> {Times, Slash, Div, Mod}; is_factor us b\<rbrakk> \<Longrightarrow>
     is_term (ts @ op_tok o1 # us) (Bin o1 a b)"
| f_num: "is_factor [TNum n] (Num n)"
| f_var: "\<not> keyword w \<Longrightarrow> is_factor [TWord w] (Var w)"
| f_paren: "is_expr ts e \<Longrightarrow> is_factor (TChar CHR ''('' # ts @ [TChar CHR '')'']) e"

inductive is_prog :: "atok list \<Rightarrow> ex list \<Rightarrow> bool" where
  p_end: "is_prog [] []"
| p_stmt: "\<lbrakk>is_expr ts e; is_prog us es\<rbrakk> \<Longrightarrow> is_prog (ts @ TChar CHR '';'' # us) (e # es)"

text \<open>The postfix form, an operand or operator on a line.\<close>

primrec op_line :: "binop \<Rightarrow> string" where
  "op_line Plus = ''+''"
| "op_line Minus = ''-''"
| "op_line Times = ''*''"
| "op_line Slash = ''/''"
| "op_line Div = ''DIV''"
| "op_line Mod = ''MOD''"

primrec postfix_of :: "ex \<Rightarrow> string" where
  "postfix_of (Num n) = int_str n @ newline"
| "postfix_of (Var w) = w @ newline"
| "postfix_of (Bin o1 a b) = postfix_of a @ postfix_of b @ op_line o1 @ newline"

section \<open>The lexical analyser refines the abstract one\<close>

definition word_tok :: "string \<Rightarrow> int" where
  "word_tok w = (if w = ''div'' then DIV_token else if w = ''mod'' then MOD_token else ID)"

primrec code :: "atok \<Rightarrow> int" where
  "code (TChar c) = char_tok c"
| "code (TNum n) = NUM"
| "code (TWord w) = word_tok w"
| "code TEnd = DONE"

text \<open>
  \<open>K\<close> is a set of names that fits in the table; the names in the table are among them.
\<close>

definition fits :: "string set \<Rightarrow> bool" where
  "fits K \<longleftrightarrow> finite K \<and> card K < SYMMAX \<and> (\<Sum>w\<in>K. length w + 1) \<le> STRMAX"

definition tok_ok :: "string set \<Rightarrow> atok \<Rightarrow> bool" where
  "tok_ok K a = (case a of TNum n \<Rightarrow> n < 2147483648 | TWord w \<Rightarrow> w \<in> K \<and> length w < BSIZE | _ \<Rightarrow> True)"

definition tab_ok :: "string set \<Rightarrow> symtab \<Rightarrow> bool" where
  "tab_ok K t \<longleftrightarrow> sym_inv t \<and> distinct (names t) \<and> set (names t) \<subseteq> K \<and>
     {''div'', ''mod''} \<subseteq> set (names t) \<and>
     (\<forall>p<lastentry t. sym_token t (Suc p) = word_tok (names t ! p))"

definition at_token :: "comp \<Rightarrow> atok \<Rightarrow> bool" where
  "at_token s a \<longleftrightarrow> lookahead s = code a \<and>
     (case a of TNum n \<Rightarrow> tokenval s = n
      | TWord w \<Rightarrow> \<not> keyword w \<longrightarrow> name_at (tab s) (nat (tokenval s)) = w
      | _ \<Rightarrow> True)"

lemma used_distinct: "distinct ns \<Longrightarrow> used ns = (\<Sum>w\<in>set ns. length w + 1)"
  by (simp add: used_def sum_list_distinct_conv_sum_set)

text \<open>A name of \<open>K\<close> can be interned.\<close>

lemma intern_fits:
  assumes "tab_ok K t" and "fits K" and "w \<in> K" and "storable w"
  shows "\<exists>t' p. intern_word t w = Inr (t', p) \<and>
    tab_ok K t' \<and> sym_token t' p = word_tok w \<and> name_at t' p = w"
proof (cases "lookup t w")
  case 0
  have inv: "sym_inv t" "distinct (names t)" "set (names t) \<subseteq> K" using assms(1) by (auto simp: tab_ok_def)
  have new: "w \<notin> set (names t)" using 0 lookup_none by simp
  have kw: "\<not> keyword w" using new assms(1) by (auto simp: tab_ok_def keyword_def)
  have fin: "finite K" using assms(2) by (simp add: fits_def)
  have sub: "insert w (set (names t)) \<subseteq> K" using inv(3) assms(3) by simp
  have "card (insert w (set (names t))) \<le> card K" by (rule card_mono [OF fin sub])
  then have c: "lastentry t + 1 < SYMMAX"
    using new distinct_card [OF inv(2)] assms(2) by (simp add: fits_def)
  have "(\<Sum>x\<in>insert w (set (names t)). length x + 1) \<le> (\<Sum>x\<in>K. length x + 1)"
    by (rule sum_mono2 [OF fin sub]) simp
  then have u: "used (names t) + length w < STRMAX"
    using new used_distinct [OF inv(2)] assms(2) by (simp add: fits_def)
  obtain t' where i: "insert_sym t w ID = Inr (t', Suc (lastentry t))"
    using insert_sym_fits [OF inv(1) c u] by blast
  note n = insert_sym_names [OF inv(1) assms(4) i] and v = insert_sym_inv [OF inv(1) assms(4) i]
    and e = insert_sym_Inr [OF i]
  have tk: "sym_token t' (Suc (lastentry t)) = ID"
    using st.add_tok_new [OF inv(1) assms(4) i] .
  have le: "lastentry t' = Suc (lastentry t)" using e(4) by simp
  have nm: "name_at t' (Suc (lastentry t)) = w"
    using names_nth [of "lastentry t" t'] n le by (simp add: nth_append)
  have "sym_token t' (Suc p) = word_tok (names t' ! p)" if "p < lastentry t'" for p
  proof (cases "p = lastentry t")
    case True
    with tk kw show ?thesis by (simp add: n nth_append word_tok_def keyword_def)
  next
    case False
    then have "p < lastentry t" using that le by simp
    with st.add_tok [OF inv(1) assms(4) i, of p] assms(1) show ?thesis
      by (simp add: n nth_append tab_ok_def)
  qed
  then have "tab_ok K t'" using assms(1) new v sub by (auto simp: tab_ok_def n)
  then show ?thesis using 0 i tk nm kw by (simp add: intern_word_def word_tok_def keyword_def)
next
  case (Suc p)
  note s = lookup_some [OF Suc]
  have "sym_token t (Suc p) = word_tok w" using assms(1) s names_nth [of p t] by (simp add: tab_ok_def)
  then show ?thesis using Suc s assms(1) by (simp add: intern_word_def)
qed

lemma scan_word_takeWhile:
  "b + length (takeWhile c_isalnum cs) < BSIZE \<Longrightarrow>
     scan_word b cs = Some (takeWhile c_isalnum cs, dropWhile c_isalnum cs)"
  by (induction cs arbitrary: b) auto

lemma lexan_at_refines:
  assumes "first_token cs = (a, r)" and "tok_ok K a" and "tab_ok K (tab s)" and "fits K"
  shows "\<exists>s' tk. lexan_at big s cs = Inr (s', tk) \<and> at_token (s'\<lparr>lookahead := tk\<rparr>) a \<and>
    tab_ok K (tab s') \<and> (a \<noteq> TEnd \<longrightarrow> stdin s' = r) \<and> out s' = out s"
  using assms
proof (induction cs arbitrary: s)
  case Nil
  then show ?case by (auto simp: at_token_def)
next
  case (Cons c cs)
  consider (blank) "c = CHR '' '' \<or> c = CText.tab \<or> c = lf"
    | (digit) "\<not> (c = CHR '' '' \<or> c = CText.tab \<or> c = lf)" "c_isdigit c"
    | (alpha) "\<not> (c = CHR '' '' \<or> c = CText.tab \<or> c = lf)" "\<not> c_isdigit c" "c_isalpha c"
    | (other) "\<not> (c = CHR '' '' \<or> c = CText.tab \<or> c = lf)" "\<not> c_isdigit c" "\<not> c_isalpha c"
    by blast
  then show ?case
  proof cases
    case blank
    then have f: "first_token cs = (a, r)" using Cons.prems(1) by simp
    show ?thesis
    proof (cases "c = lf")
      case True
      have "lf \<noteq> CHR '' ''" "lf \<noteq> CText.tab" by (simp_all add: lf_def CText.tab_def)
      with True show ?thesis
        using Cons.IH [OF f Cons.prems(2), of "s\<lparr>lineno := lineno s + 1\<rparr>"] Cons.prems(3,4) by simp
    next
      case False
      with blank show ?thesis using Cons.IH [OF f Cons.prems(2-4)] by auto
    qed
  next
    case digit
    then have "a = TNum (dec_acc 0 (c # cs))" "r = dropWhile c_isdigit (c # cs)"
      using Cons.prems(1) by auto
    then show ?thesis
      using digit Cons.prems(2,3)
      by (auto simp: at_token_def scan_num_def scan_digits_def tok_ok_def Let_def
          simp del: dec_acc.simps dropWhile.simps)
  next
    case alpha
    let ?w = "takeWhile c_isalnum (c # cs)"
    have a: "a = TWord ?w" "r = dropWhile c_isalnum (c # cs)" using alpha Cons.prems(1) by auto
    then have w: "scan_word 0 (c # cs) = Some (?w, r)"
      using scan_word_takeWhile [of 0 "c # cs"] Cons.prems(2) by (simp add: tok_ok_def)
    have "?w \<in> K" using Cons.prems(2) a by (simp add: tok_ok_def)
    then obtain t' p where i: "intern_word (tab s) ?w = Inr (t', p)"
      "tab_ok K t'" "sym_token t' p = word_tok ?w" "name_at t' p = ?w"
      using intern_fits [OF Cons.prems(3,4) _ scan_word_storable [OF w]] by blast
    have "lexan_at big s (c # cs) = Inr (s\<lparr>stdin := r, tab := t', tokenval := int p\<rparr>, word_tok ?w)"
      using alpha w i(1,3)
      by (auto simp: Let_def simp del: scan_word.simps takeWhile.simps split: if_splits)
    then show ?thesis using i a by (simp add: at_token_def)
  next
    case other
    then show ?thesis using Cons.prems by (auto simp: at_token_def)
  qed
qed

section \<open>The parser\<close>

text \<open>The parser stands before the tokens \<open>ts\<close>: the first one is the look-ahead.\<close>

definition posn :: "string set \<Rightarrow> comp \<Rightarrow> atok list \<Rightarrow> bool" where
  "posn K s ts \<longleftrightarrow> tab_ok K (tab s) \<and> fits K \<and>
     (case ts of [] \<Rightarrow> lookahead s = DONE
      | a # us \<Rightarrow> a \<noteq> TEnd \<and> at_token s a \<and> tokens (stdin s) = us \<and> (\<forall>b\<in>set us. tok_ok K b))"

lemma next_token_posn:
  assumes "tab_ok K (tab s)" and "fits K" and "\<forall>b\<in>set (tokens (stdin s)). tok_ok K b"
  shows "\<exists>s'. next_token big s = Return s' \<and> posn K s' (tokens (stdin s)) \<and> out s' = out s"
proof -
  obtain a r where f: "first_token (stdin s) = (a, r)" by fastforce
  have t: "tokens (stdin s) = (if a = TEnd then [] else a # tokens r)"
    by (subst tokens.simps) (simp add: f)
  have ok: "tok_ok K a" using assms(3) t by (cases "a = TEnd") (auto simp: tok_ok_def)
  obtain s' tk where l: "lexan_at big s (stdin s) = Inr (s', tk)" "at_token (s'\<lparr>lookahead := tk\<rparr>) a"
    "tab_ok K (tab s')" "a \<noteq> TEnd \<longrightarrow> stdin s' = r" "out s' = out s"
    using lexan_at_refines [OF f ok assms(1,2)] by blast
  have "posn K (s'\<lparr>lookahead := tk\<rparr>) (tokens (stdin s))"
    using l assms(2,3) t by (auto simp: posn_def at_token_def)
  then show ?thesis using l by (simp add: next_token_def lexan_def)
qed

lemma match_posn:
  assumes "posn K s (a # ts)" and "t = code a"
  shows "\<exists>s'. match big t s = Return s' \<and> posn K s' ts \<and> out s' = out s"
  using next_token_posn [of K s big] assms by (auto simp: posn_def match_def at_token_def)

lemma posn_emit [simp]: "posn K (emit s t v) ts = posn K s ts"
  by (simp add: posn_def emit_def at_token_def split: list.splits atok.splits)

text \<open>The five procedures without the fuel.\<close>

definition returns :: "(nat \<Rightarrow> comp \<Rightarrow> outcome) \<Rightarrow> comp \<Rightarrow> comp \<Rightarrow> bool" where
  "returns f s s' \<longleftrightarrow> (\<exists>k. f k s = Return s')"

lemma returns_both:
  assumes "returns f s s1" and "returns g t t1"
    and "\<And>k l s. k \<le> l \<Longrightarrow> f k s \<noteq> Fuel \<Longrightarrow> f l s = f k s"
    and "\<And>k l s. k \<le> l \<Longrightarrow> g k s \<noteq> Fuel \<Longrightarrow> g l s = g k s"
  shows "\<exists>k. f k s = Return s1 \<and> g k t = Return t1"
proof -
  obtain k l where k: "f k s = Return s1" and l: "g l t = Return t1"
    using assms(1,2) by (auto simp: returns_def)
  have "f (max k l) s = Return s1" "g (max k l) t = Return t1"
    using assms(3) [of k "max k l" s] assms(4) [of l "max k l" t] k l by simp_all
  then show ?thesis by blast
qed

lemma returns_expr:
  assumes "returns (trm big) s s1" and "returns (expr_rest big) s1 s2"
  shows "returns (expr big) s s2"
proof -
  obtain k where "trm big k s = Return s1 \<and> expr_rest big k s1 = Return s2"
    using returns_both [OF assms parser_mono_fuel(3) parser_mono_fuel(2)] by blast
  then have "expr big (Suc k) s = Return s2" by simp
  then show ?thesis unfolding returns_def by blast
qed

lemma returns_trm:
  assumes "returns (factor big) s s1" and "returns (trm_rest big) s1 s2"
  shows "returns (trm big) s s2"
proof -
  obtain k where "factor big k s = Return s1 \<and> trm_rest big k s1 = Return s2"
    using returns_both [OF assms parser_mono_fuel(5) parser_mono_fuel(4)] by blast
  then have "trm big (Suc k) s = Return s2" by simp
  then show ?thesis unfolding returns_def by blast
qed

lemma returns_expr_rest:
  assumes "is_addop (lookahead s)" and "match big (lookahead s) s = Return s1"
    and "returns (trm big) s1 s2" and "returns (expr_rest big) (emit s2 (lookahead s) NONE) s3"
  shows "returns (expr_rest big) s s3"
proof -
  obtain k where "trm big k s1 = Return s2 \<and> expr_rest big k (emit s2 (lookahead s) NONE) = Return s3"
    using returns_both [OF assms(3,4) parser_mono_fuel(3) parser_mono_fuel(2)] by blast
  then have "expr_rest big (Suc k) s = Return s3" using assms(1,2) by simp
  then show ?thesis unfolding returns_def by blast
qed

lemma returns_trm_rest:
  assumes "is_mulop (lookahead s)" and "match big (lookahead s) s = Return s1"
    and "returns (factor big) s1 s2" and "returns (trm_rest big) (emit s2 (lookahead s) NONE) s3"
  shows "returns (trm_rest big) s s3"
proof -
  obtain k where "factor big k s1 = Return s2 \<and> trm_rest big k (emit s2 (lookahead s) NONE) = Return s3"
    using returns_both [OF assms(3,4) parser_mono_fuel(5) parser_mono_fuel(4)] by blast
  then have "trm_rest big (Suc k) s = Return s3" using assms(1,2) by simp
  then show ?thesis unfolding returns_def by blast
qed

lemma returns_stop:
  "\<not> is_addop (lookahead s) \<Longrightarrow> returns (expr_rest big) s s"
  "\<not> is_mulop (lookahead s) \<Longrightarrow> returns (trm_rest big) s s"
  unfolding returns_def by (rule exI [of _ 1], simp)+

lemma returns_paren:
  assumes "lookahead s = char_tok CHR ''(''" and "match big (char_tok CHR ''('') s = Return s1"
    and "returns (expr big) s1 s2" and "match big (char_tok CHR '')'') s2 = Return s3"
  shows "returns (factor big) s s3"
proof -
  obtain k where "expr big k s1 = Return s2" using assms(3) by (auto simp: returns_def)
  then have "factor big (Suc k) s = Return s3" using assms by simp
  then show ?thesis unfolding returns_def by blast
qed

lemma returns_operand:
  "lookahead s = NUM \<Longrightarrow> match big NUM (emit s NUM (tokenval s)) = Return s' \<Longrightarrow> returns (factor big) s s'"
  "lookahead s = ID \<Longrightarrow> match big ID (emit s ID (tokenval s)) = Return s' \<Longrightarrow> returns (factor big) s s'"
  unfolding returns_def by (rule exI [of _ 1], simp)+

text \<open>What follows an expression or a term must not continue it.\<close>

definition stops :: "(int \<Rightarrow> bool) \<Rightarrow> atok list \<Rightarrow> bool" where
  "stops P ts \<longleftrightarrow> (case ts of [] \<Rightarrow> True | a # _ \<Rightarrow> \<not> P (code a))"

lemma posn_stops: "posn K s ts \<Longrightarrow> stops P ts \<Longrightarrow> \<not> P DONE \<Longrightarrow> \<not> P (lookahead s)"
  by (auto simp: posn_def stops_def at_token_def split: list.splits)

lemma op_tok_code:
  "o1 \<in> {Plus, Minus} \<Longrightarrow> is_addop (code (op_tok o1)) \<and> \<not> is_mulop (code (op_tok o1))"
  "o1 \<in> {Times, Slash, Div, Mod} \<Longrightarrow> is_mulop (code (op_tok o1))"
  by (auto simp: is_addop_def is_mulop_def word_tok_def)

lemma char_of_tok [simp]: "char_of (nat (char_tok c)) = c"
  by (simp add: char_tok_def)

lemma emit_op:
  "out (emit s (code (op_tok o1)) v) = out s @ op_line o1 @ newline"
proof (cases o1)
qed (simp_all add: emit_def emit_text_def word_tok_def)

lemma translate_grammar:
  "is_expr ts e \<Longrightarrow> (\<And>s rest. posn K s (ts @ rest) \<Longrightarrow> stops is_mulop rest \<Longrightarrow>
     \<exists>s1. posn K s1 rest \<and> out s1 = out s @ postfix_of e \<and>
       (\<forall>s2. returns (expr_rest big) s1 s2 \<longrightarrow> returns (expr big) s s2))"
  "is_term ts e \<Longrightarrow> (\<And>s rest. posn K s (ts @ rest) \<Longrightarrow>
     \<exists>s1. posn K s1 rest \<and> out s1 = out s @ postfix_of e \<and>
       (\<forall>s2. returns (trm_rest big) s1 s2 \<longrightarrow> returns (trm big) s s2))"
  "is_factor ts e \<Longrightarrow> (\<And>s rest. posn K s (ts @ rest) \<Longrightarrow>
     \<exists>s1. posn K s1 rest \<and> out s1 = out s @ postfix_of e \<and> returns (factor big) s s1)"
proof (induction rule: is_expr_is_term_is_factor.inducts)
  case (e_term ts e)
  obtain s1 where s1: "posn K s1 rest" "out s1 = out s @ postfix_of e"
    "\<And>s2. returns (trm_rest big) s1 s2 \<Longrightarrow> returns (trm big) s s2"
    using e_term.IH [OF e_term.prems(1)] by blast
  have "\<not> is_mulop (lookahead s1)"
    using posn_stops [OF s1(1) e_term.prems(2)] by (simp add: is_mulop_def)
  then have "returns (trm big) s s1" using s1(3) returns_stop(2) by blast
  with s1 returns_expr show ?case by blast
next
  case (e_add ts a o1 us b)
  let ?t = "code (op_tok o1)"
  have p: "posn K s (ts @ op_tok o1 # us @ rest)" "stops is_mulop (op_tok o1 # us @ rest)"
    using e_add.prems op_tok_code(1) [OF e_add.hyps(2)] by (simp_all add: stops_def)
  obtain s1 where s1: "posn K s1 (op_tok o1 # us @ rest)" "out s1 = out s @ postfix_of a"
    "\<And>s2. returns (expr_rest big) s1 s2 \<Longrightarrow> returns (expr big) s s2"
    using e_add.IH(1) [OF p] by blast
  have la: "lookahead s1 = ?t" using s1(1) by (simp add: posn_def at_token_def)
  obtain s2 where s2: "match big ?t s1 = Return s2" "posn K s2 (us @ rest)" "out s2 = out s1"
    using match_posn [OF s1(1) refl] by blast
  obtain s3 where s3: "posn K s3 rest" "out s3 = out s2 @ postfix_of b"
    "\<And>s4. returns (trm_rest big) s3 s4 \<Longrightarrow> returns (trm big) s2 s4"
    using e_add.IH(2) [OF s2(2)] by blast
  have "\<not> is_mulop (lookahead s3)"
    using posn_stops [OF s3(1) e_add.prems(2)] by (simp add: is_mulop_def)
  then have t: "returns (trm big) s2 s3" using s3(3) returns_stop(2) by blast
  let ?s4 = "emit s3 ?t NONE"
  have "returns (expr big) s s5" if "returns (expr_rest big) ?s4 s5" for s5
    using s1(3) returns_expr_rest [of s1 big s2 s3 s5] la s2(1) t that
      op_tok_code(1) [OF e_add.hyps(2)] by simp
  moreover have "out ?s4 = out s @ postfix_of (Bin o1 a b)"
    by (simp only: emit_op s1(2) s2(3) s3(2) postfix_of.simps append_assoc)
  ultimately show ?case using s3(1) by (intro exI [of _ ?s4]) simp
next
  case (t_factor ts e)
  then show ?case using returns_trm by blast
next
  case (t_mul ts a o1 us b)
  let ?t = "code (op_tok o1)"
  have p: "posn K s (ts @ op_tok o1 # us @ rest)" using t_mul.prems by simp
  obtain s1 where s1: "posn K s1 (op_tok o1 # us @ rest)" "out s1 = out s @ postfix_of a"
    "\<And>s2. returns (trm_rest big) s1 s2 \<Longrightarrow> returns (trm big) s s2"
    using t_mul.IH(1) [OF p] by blast
  have la: "lookahead s1 = ?t" using s1(1) by (simp add: posn_def at_token_def)
  obtain s2 where s2: "match big ?t s1 = Return s2" "posn K s2 (us @ rest)" "out s2 = out s1"
    using match_posn [OF s1(1) refl] by blast
  obtain s3 where s3: "posn K s3 rest" "out s3 = out s2 @ postfix_of b" "returns (factor big) s2 s3"
    using t_mul.IH(2) [OF s2(2)] by blast
  let ?s4 = "emit s3 ?t NONE"
  have "returns (trm big) s s5" if "returns (trm_rest big) ?s4 s5" for s5
    using s1(3) returns_trm_rest [of s1 big s2 s3 s5] la s2(1) s3(3) that
      op_tok_code(2) [OF t_mul.hyps(2)] by simp
  moreover have "out ?s4 = out s @ postfix_of (Bin o1 a b)"
    by (simp only: emit_op s1(2) s2(3) s3(2) postfix_of.simps append_assoc)
  ultimately show ?case using s3(1) by (intro exI [of _ ?s4]) simp
next
  case (f_num n)
  let ?s = "emit s NUM (tokenval s)"
  have p: "posn K ?s (TNum n # rest)" using f_num by simp
  have v: "lookahead s = NUM" "tokenval s = n" using f_num by (simp_all add: posn_def at_token_def)
  obtain s1 where "match big NUM ?s = Return s1" "posn K s1 rest" "out s1 = out ?s"
    using match_posn [OF p, of NUM] by auto
  moreover have "out ?s = out s @ postfix_of (Num n)"
    by (simp add: emit_def emit_text_def v del: char_tok_inject)
  ultimately show ?case using returns_operand(1) [OF v(1)] by auto
next
  case (f_var w)
  let ?s = "emit s ID (tokenval s)"
  have p: "posn K ?s (TWord w # rest)" using f_var by simp
  have w: "word_tok w = ID" using f_var.hyps by (simp add: word_tok_def keyword_def)
  have v: "lookahead s = ID" "name_at (tab s) (nat (tokenval s)) = w"
    using f_var w by (simp_all add: posn_def at_token_def)
  obtain s1 where "match big ID ?s = Return s1" "posn K s1 rest" "out s1 = out ?s"
    using match_posn [OF p, of ID] w by auto
  moreover have "out ?s = out s @ postfix_of (Var w)"
    by (simp add: emit_def emit_text_def v)
  ultimately show ?case using returns_operand(2) [OF v(1)] by auto
next
  case (f_paren ts e)
  let ?o = "char_tok CHR ''(''" and ?c = "char_tok CHR '')''"
  have p: "posn K s (TChar CHR ''('' # ts @ TChar CHR '')'' # rest)" using f_paren.prems by simp
  obtain s1 where s1: "match big ?o s = Return s1" "posn K s1 (ts @ TChar CHR '')'' # rest)" "out s1 = out s"
    using match_posn [OF p, of ?o] by auto
  obtain s2 where s2: "posn K s2 (TChar CHR '')'' # rest)" "out s2 = out s1 @ postfix_of e"
    "\<And>s3. returns (expr_rest big) s2 s3 \<Longrightarrow> returns (expr big) s1 s3"
    using f_paren.IH [OF s1(2)] by (auto simp: stops_def is_mulop_def)
  have "lookahead s2 = ?c" using s2(1) by (simp add: posn_def at_token_def)
  then have "returns (expr big) s1 s2" using s2(3) returns_stop(1) by (simp add: is_addop_def)
  moreover obtain s3 where s3: "match big ?c s2 = Return s3" "posn K s3 rest" "out s3 = out s2"
    using match_posn [OF s2(1), of ?c] by auto
  moreover have "lookahead s = ?o" using p by (simp add: posn_def at_token_def)
  ultimately have "returns (factor big) s s3" using returns_paren s1(1) by blast
  with s1 s2 s3 show ?case by (intro exI [of _ s3]) simp
qed

lemma translate_program:
  "is_prog ts es \<Longrightarrow> posn K s ts \<Longrightarrow>
     \<exists>s'. returns (parse_rest big) s s' \<and> out s' = out s @ concat (map postfix_of es)"
proof (induction arbitrary: s rule: is_prog.induct)
  case p_end
  then have "parse_rest big (Suc 0) s = Return s" by (simp add: posn_def)
  then have "returns (parse_rest big) s s" unfolding returns_def by blast
  then show ?case by auto
next
  case (p_stmt ts e us es)
  let ?c = "char_tok CHR '';''"
  have "stops is_mulop (TChar CHR '';'' # us)" by (simp add: stops_def is_mulop_def)
  from translate_grammar(1) [OF p_stmt.hyps(1) p_stmt.prems this]
  obtain s1 where s1: "posn K s1 (TChar CHR '';'' # us)" "out s1 = out s @ postfix_of e"
    "\<And>s2. returns (expr_rest big) s1 s2 \<Longrightarrow> returns (expr big) s s2" by blast
  have "lookahead s1 = ?c" using s1(1) by (simp add: posn_def at_token_def)
  then have e: "returns (expr big) s s1" using s1(3) returns_stop(1) by (simp add: is_addop_def)
  obtain s2 where s2: "match big ?c s1 = Return s2" "posn K s2 us" "out s2 = out s1"
    using match_posn [OF s1(1), of ?c] by auto
  obtain s3 where s3: "returns (parse_rest big) s2 s3" "out s3 = out s2 @ concat (map postfix_of es)"
    using p_stmt.IH [OF s2(2)] by blast
  have pm: "\<And>k l s. k \<le> l \<Longrightarrow> parse_rest big k s \<noteq> Fuel \<Longrightarrow> parse_rest big l s = parse_rest big k s"
    using approx_mono [of "\<lambda>k. parse_rest big k _"] parse_rest_step_fuel by blast
  obtain k where k: "expr big k s = Return s1 \<and> parse_rest big k s2 = Return s3"
    using returns_both [OF e s3(1) parser_mono_fuel(1) pm] by blast
  have la: "lookahead s \<noteq> DONE"
  proof -
    obtain a as where "ts @ TChar CHR '';'' # us = a # as" by (cases ts) auto
    moreover have "code a \<noteq> DONE" if "a \<noteq> TEnd" for a
      using that by (cases a) (auto simp: word_tok_def)
    ultimately show ?thesis using p_stmt.prems by (auto simp: posn_def at_token_def)
  qed
  have "parse_rest big (Suc k) s = Return s3" using k la s2(1) by simp
  then have "returns (parse_rest big) s s3" unfolding returns_def by blast
  then show ?case using s1(2) s2(3) s3(2) by auto
qed

text \<open>The initial table holds the two keywords.\<close>

definition symtab1 :: symtab where
  "symtab1 = (case init symtab0 of Inl _ \<Rightarrow> symtab0 | Inr t \<Rightarrow> t)"

lemma init_symtab0: "init symtab0 = Inr symtab1"
  by (simp add: symtab1_def init_def keyword_table_def insert_sym_def symtab0_def SYMMAX_def STRMAX_def Let_def)

lemma symtab0_inv: "sym_inv symtab0" "names symtab0 = []"
  by (simp_all add: sym_inv_def symtab0_def names_def SYMMAX_def)

lemma symtab1_ok: "{''div'', ''mod''} \<subseteq> K \<Longrightarrow> tab_ok K symtab1"
proof -
  assume K: "{''div'', ''mod''} \<subseteq> K"
  obtain t1 p1 where i1: "insert_sym symtab0 ''div'' DIV_token = Inr (t1, p1)"
    by (simp add: insert_sym_def symtab0_def SYMMAX_def STRMAX_def Let_def)
  have s: "storable ''div''" "storable ''mod''" by (simp_all add: storable_def NUL_def)
  note v1 = insert_sym_inv [OF symtab0_inv(1) s(1) i1] and n1 = insert_sym_names [OF symtab0_inv(1) s(1) i1]
    and e1 = insert_sym_Inr [OF i1]
  have l1: "lastentry t1 = 1" using e1(4) by (simp add: symtab0_def)
  have "\<exists>t'. insert_sym t1 ''mod'' MOD_token = Inr (t', Suc (lastentry t1))"
    using v1 l1 n1 symtab0_inv(2) by (intro insert_sym_fits) (simp_all add: SYMMAX_def STRMAX_def)
  then obtain t2 where i2: "insert_sym t1 ''mod'' MOD_token = Inr (t2, Suc (lastentry t1))" by blast
  note v2 = insert_sym_inv [OF v1 s(2) i2] and n2 = insert_sym_names [OF v1 s(2) i2] and e2 = insert_sym_Inr [OF i2]
  have t: "symtab1 = t2" by (simp add: symtab1_def init_def keyword_table_def i1 i2)
  have tk: "sym_token t2 2 = MOD_token" "sym_token t1 1 = DIV_token"
    using st.add_tok_new [OF v1 s(2) i2] st.add_tok_new [OF symtab0_inv(1) s(1) i1] l1 e1(1)
    by (simp_all add: symtab0_def numeral_2_eq_2)
  moreover have "sym_token t2 1 = DIV_token"
    using st.add_tok [OF v1 s(2) i2, of 0] l1 tk by simp
  moreover have nm: "names t2 = [''div'', ''mod'']" using n1 n2 symtab0_inv(2) by simp
  moreover have "lastentry t2 = 2" using e2(4) l1 by simp
  ultimately have "sym_token t2 (Suc p) = word_tok (names t2 ! p)" if "p < lastentry t2" for p
    using that by (cases p) (auto simp: word_tok_def numeral_2_eq_2 less_Suc_eq)
  with v2 K nm show ?thesis unfolding t by (simp add: tab_ok_def)
qed

definition words_of :: "atok list \<Rightarrow> string set" where
  "words_of ts = {w. TWord w \<in> set ts}"

definition within_limits :: "atok list \<Rightarrow> bool" where
  "within_limits ts \<longleftrightarrow> fits ({''div'', ''mod''} \<union> words_of ts) \<and>
     (\<forall>a\<in>set ts. case a of TNum n \<Rightarrow> n < 2147483648 | TWord w \<Rightarrow> length w < BSIZE | _ \<Rightarrow> True)"

text \<open>The whole program, when the parser gets through the tokens of the input.\<close>

lemma simple_main_run:
  assumes "within_limits (tokens input)" and "5 * length input + 4 \<le> k"
    and "\<And>K s. posn K s (tokens input) \<Longrightarrow>
      \<exists>s'. returns (parse_rest big) s s' \<and> out s' = out s @ text"
  shows "simple_main big k input = Some (text, '''', 0)"
proof -
  let ?K = "{''div'', ''mod''} \<union> words_of (tokens input)" and ?s = "comp0 input symtab1"
  have c: "stdin ?s = input" "tab ?s = symtab1" "out ?s = ''''" by (simp_all add: comp0_def)
  have ok: "\<forall>b\<in>set (tokens (stdin ?s)). tok_ok ?K b"
    using assms(1) unfolding c
    by (auto simp: within_limits_def tok_ok_def words_of_def split: atok.splits)
  have t: "tab_ok ?K (tab ?s)" unfolding c by (rule symtab1_ok) simp
  obtain s1 where s1: "next_token big ?s = Return s1" "posn ?K s1 (tokens input)" "out s1 = ''''"
    using next_token_posn [OF t _ ok, of big] assms(1) c by (auto simp: within_limits_def)
  obtain s2 l where s2: "parse_rest big l s1 = Return s2" "out s2 = text"
    using assms(3) [OF s1(2)] s1(3) by (auto simp: returns_def)
  have l: "parse big l ?s = Return s2" using s1 s2 by (simp add: parse_def)
  have nf: "parse big k ?s \<noteq> Fuel" using parse_fuel [of ?s k big] assms(2) c by simp
  have "parse big k ?s = Return s2"
  proof (cases "k \<le> l")
    case True
    from parse_mono_fuel [OF True nf] l show ?thesis by simp
  next
    case False
    with parse_mono_fuel [of l k big ?s] l show ?thesis by simp
  qed
  then show ?thesis using s2(2) by (simp add: simple_main_def init_symtab0)
qed

lemma simple_main_translates:
  assumes "is_prog (tokens input) es" and "within_limits (tokens input)"
    and "5 * length input + 4 \<le> k"
  shows "simple_main big k input = Some (concat (map postfix_of es), '''', 0)"
  using simple_main_run [OF assms(2,3)] translate_program [OF assms(1)] by blast

text \<open>Missing operands are not noticed.\<close>

lemma trm_no_operand:
  assumes "lookahead s = char_tok c" and "c \<noteq> CHR ''(''" and "\<not> is_mulop (char_tok c)"
  shows "returns (trm big) s s"
proof -
  have "factor big 1 s = Return s" using assms by (simp add: One_nat_def)
  then have "returns (factor big) s s" unfolding returns_def by blast
  then show ?thesis using returns_trm returns_stop(2) assms by simp
qed

lemma expr_rest_plusses:
  "posn K s (replicate m (TChar CHR ''+'') @ [TChar CHR '';'']) \<Longrightarrow>
     \<exists>s'. returns (expr_rest big) s s' \<and> posn K s' [TChar CHR '';''] \<and>
       out s' = out s @ concat (replicate m (''+'' @ newline))"
proof (induction m arbitrary: s)
  case 0
  then have "lookahead s = char_tok CHR '';''" by (simp add: posn_def at_token_def)
  then have "returns (expr_rest big) s s" by (intro returns_stop) (simp add: is_addop_def)
  with 0 show ?case by auto
next
  case (Suc m)
  let ?p = "char_tok CHR ''+''" and ?r = "replicate m (TChar CHR ''+'') @ [TChar CHR '';'']"
  have p: "posn K s (TChar CHR ''+'' # ?r)" using Suc.prems by simp
  then have la: "lookahead s = ?p" by (simp add: posn_def at_token_def)
  obtain s1 where s1: "match big ?p s = Return s1" "posn K s1 ?r" "out s1 = out s"
    using match_posn [OF p, of ?p] by auto
  have "lookahead s1 = char_tok (if m = 0 then CHR '';'' else CHR ''+'')"
    using s1(2) by (cases m) (simp_all add: posn_def at_token_def)
  then have t: "returns (trm big) s1 s1"
    by (rule trm_no_operand) (simp_all add: is_mulop_def)
  let ?s2 = "emit s1 ?p NONE"
  obtain s3 where s3: "returns (expr_rest big) ?s2 s3" "posn K s3 [TChar CHR '';'']"
    "out s3 = out ?s2 @ concat (replicate m (''+'' @ newline))"
    using Suc.IH [of ?s2] s1(2) by auto
  have "returns (expr_rest big) s s3"
    using returns_expr_rest [of s big s1 s1 s3] la s1(1) t s3(1) by (simp add: is_addop_def)
  moreover have "out ?s2 = out s @ ''+'' @ newline"
    using emit_op [of s1 Plus NONE] s1(3) by simp
  ultimately show ?case using s3 by auto
qed

lemma tokens_plusses:
  "tokens (replicate m CHR ''+'' @ '';'') = replicate m (TChar CHR ''+'') @ [TChar CHR '';'']"
proof (induction m)
  case 0
  have "first_token '';'' = (TChar CHR '';'', [])"
    by (simp add: CText.tab_def lf_def c_isdigit_def c_isalpha_def c_isupper_def c_islower_def)
  then show ?case by (simp add: tokens.simps [of "'';''"] tokens.simps [of "[]"])
next
  case (Suc m)
  have "first_token (CHR ''+'' # cs) = (TChar CHR ''+'', cs)" for cs
    by (simp add: CText.tab_def lf_def c_isdigit_def c_isalpha_def c_isupper_def c_islower_def)
  with Suc show ?case by (simp add: tokens.simps [of "CHR ''+'' # _"])
qed

lemma simple_main_plusses:
  assumes "5 * m + 9 \<le> k"
  shows "simple_main big k (replicate m CHR ''+'' @ '';'') =
    Some (concat (replicate m (''+'' @ newline)), '''', 0)"
proof (rule simple_main_run)
  show "within_limits (tokens (replicate m CHR ''+'' @ '';''))"
    unfolding tokens_plusses
    by (auto simp: within_limits_def words_of_def fits_def SYMMAX_def STRMAX_def)
  show "5 * length (replicate m CHR ''+'' @ '';'') + 4 \<le> k" using assms by simp
  fix K s assume p: "posn K s (tokens (replicate m CHR ''+'' @ '';''))"
  obtain s1 where s1: "returns (expr_rest big) s s1" "posn K s1 [TChar CHR '';'']"
    "out s1 = out s @ concat (replicate m (''+'' @ newline))"
    using expr_rest_plusses [OF p [unfolded tokens_plusses], of big] by blast
  have la: "lookahead s = char_tok (if m = 0 then CHR '';'' else CHR ''+'')"
    using p unfolding tokens_plusses by (cases m) (simp_all add: posn_def at_token_def)
  then have "returns (trm big) s s" by (rule trm_no_operand) (simp_all add: is_mulop_def)
  then have "returns (expr big) s s1" using returns_expr s1(1) by blast
  then obtain k where k: "expr big k s = Return s1" by (auto simp: returns_def)
  obtain s2 where s2: "match big (char_tok CHR '';'') s1 = Return s2" "posn K s2 []" "out s2 = out s1"
    using match_posn [OF s1(2), of "char_tok CHR '';''"] by auto
  have "k \<noteq> 0" using k by (cases k) auto
  then have "parse_rest big k s2 = Return s2"
    using s2(2) by (cases k) (auto simp: posn_def)
  with k la s2(1) have "parse_rest big (Suc k) s = Return s2" by (cases m) auto
  then have "returns (parse_rest big) s s2" unfolding returns_def by blast
  then show "\<exists>s'. returns (parse_rest big) s s' \<and> out s' = out s @ concat (replicate m (''+'' @ newline))"
    using s2(3) s1(3) by auto
qed

section \<open>Properties of the translator\<close>

text \<open>
  C6: For every input whose tokens form a program of the grammar, and which stays within the
  size of the symbol table, the lexeme buffer and an \<open>int\<close>, the program prints the postfix
  form of its expressions, an operand or operator on a line, and exits with status 0. The
  fuel \<open>k\<close> is linear in the length of the input.
\<close>

theorem simple_main_correct:
  assumes "is_prog (tokens input) es" and "within_limits (tokens input)"
    and "5 * length input + 4 \<le> k"
  shows "simple_main big k input = Some (concat (map postfix_of es), '''', 0)"
  using assms by (rule simple_main_translates)

theorem simple_main_correct_witness:
  "simple_main (\<lambda>_. 0) 100 ''a1*(2+b)-7 mod a1;'' =
     Some (''a1'' @ newline @ ''2'' @ newline @ ''b'' @ newline @ ''+'' @ newline @ ''*'' @ newline @
       ''7'' @ newline @ ''a1'' @ newline @ ''MOD'' @ newline @ ''-'' @ newline, '''', 0)"
proof -
  have ts: "tokens ''a1*(2+b)-7 mod a1;'' =
      (([TWord ''a1''] @ op_tok Times # (TChar CHR ''('' # ([TNum 2] @ op_tok Plus # [TWord ''b'']) @ [TChar CHR '')''])) @
       op_tok Minus # ([TNum 7] @ op_tok Mod # [TWord ''a1''])) @ TChar CHR '';'' # []"
    by (simp add: tokens.simps CText.tab_def lf_def c_isdigit_def c_isalpha_def c_isalnum_def
        c_isupper_def c_islower_def digit_of_def)
  let ?e = "Bin Minus (Bin Times (Var ''a1'') (Bin Plus (Num 2) (Var ''b''))) (Bin Mod (Num 7) (Var ''a1''))"
  have "is_prog (tokens ''a1*(2+b)-7 mod a1;'') [?e]"
    unfolding ts by (intro is_prog.intros is_expr_is_term_is_factor.intros) (simp_all add: keyword_def)
  moreover have "within_limits (tokens ''a1*(2+b)-7 mod a1;'')"
  proof -
    have "words_of (tokens ''a1*(2+b)-7 mod a1;'') = {''a1'', ''b'', ''mod''}"
      unfolding ts words_of_def by auto
    then have "{''div'', ''mod''} \<union> words_of (tokens ''a1*(2+b)-7 mod a1;'') = {''div'', ''mod'', ''a1'', ''b''}"
      by auto
    moreover have "fits {''div'', ''mod'', ''a1'', ''b''}"
      unfolding fits_def by (simp add: SYMMAX_def STRMAX_def)
    ultimately show ?thesis
      unfolding within_limits_def ts by (simp add: BSIZE_def)
  qed
  ultimately show ?thesis
    using simple_main_correct [of "''a1*(2+b)-7 mod a1;''" "[?e]" 100 "\<lambda>_. 0"]
    by (simp add: int_str_def nat_str.simps dec_digit_simps)
qed

text \<open>
  C7: The translator ends on every input: with fuel linear in its length it prints, and exits
  with 0 or with the message of an error and status 1; more fuel changes nothing.
\<close>

theorem simple_main_total:
  assumes "5 * length input + 4 \<le> k"
  shows "\<exists>o1 e st. simple_main big k input = Some (o1, e, st) \<and>
    simple_main big (k + j) input = Some (o1, e, st) \<and> (st = 0 \<and> e = '''' \<or> st = 1 \<and> e \<noteq> '''')"
proof -
  have "simple_main big k input \<noteq> None" by (rule simple_main_fuel [OF assms])
  moreover have "simple_main big (k + j) input = simple_main big k input"
    using parse_mono_fuel [of k "k + j" big "comp0 input symtab1"] parse_fuel [of "comp0 input symtab1" k big] assms
    by (simp add: simple_main_def init_symtab0 comp0_def)
  ultimately show ?thesis
    by (auto simp: simple_main_def init_symtab0 error_text_def split: outcome.splits)
qed

theorem simple_main_total_witness:
  "\<exists>o1 e st. simple_main (\<lambda>_. 0) 24 ''1+)a'' = Some (o1, e, st) \<and>
    simple_main (\<lambda>_. 0) (24 + 1000) ''1+)a'' = Some (o1, e, st) \<and> (st = 0 \<and> e = '''' \<or> st = 1 \<and> e \<noteq> '''')"
  by (rule simple_main_total) simp

text \<open>
  C39: A missing operand is no error: of \<open>m\<close> plus signs and a semicolon the program makes \<open>m\<close>
  lines of \<open>+\<close> and exits with 0. In \<^verbatim>\<open>factor\<close> the label \<^verbatim>\<open>defalut:\<close> stands where the
  code means \<^verbatim>\<open>default:\<close>.
\<close>

theorem simple_main_missing_operands:
  assumes "5 * m + 9 \<le> k"
  shows "simple_main big k (replicate m CHR ''+'' @ '';'') =
    Some (concat (replicate m (''+'' @ newline)), '''', 0)"
  using assms by (rule simple_main_plusses)

theorem simple_main_missing_operands_witness:
  "simple_main (\<lambda>_. 0) 19 ''++;'' = Some (''+'' @ newline @ ''+'' @ newline, '''', 0)"
  using simple_main_missing_operands [of 2 19 "\<lambda>_. 0"] by (simp add: numeral_2_eq_2)

text \<open>
  C17: The symbol table: a name that \<^verbatim>\<open>lexan\<close> interns is found again under the same number
  however many names follow, the number is that of its spelling in \<open>lexemes\<close>, and the table
  keeps its invariant (the strings lie one behind the other, terminated, inside the array).
\<close>

theorem symbol_table_intern:
  assumes "sym_inv t" and "storable s" and "distinct (names t)"
    and "intern_word t s = Inr (t', p)"
    and "storable s2" and "intern_word t' s2 = Inr (u, p2)"
  shows "sym_inv u \<and> distinct (names u) \<and> name_at u p = s \<and> name_at u p2 = s2 \<and>
    intern_word u s = Inr (u, p) \<and> (p = p2 \<longleftrightarrow> s = s2)"
proof -
  note w = assms(4,6) [unfolded intern_word_st]
  note i = st.intern_correct [OF assms(1,2) w(1)]
  note j = st.intern_correct [OF i(1) assms(5) w(2)]
  have d: "distinct (names t')" "distinct (names u)" using i(6) j(6) assms(3) by blast+
  have e: "intern_word u s = Inr (u, p)"
    unfolding intern_word_st by (rule st.intern_again [OF assms(1,2,3) w(1) j(1) d(2) j(2)])
  have n: "names u ! (p - 1) = s" "p \<le> lastentry u"
    using i(3,4,5) j(2) by (auto simp: st.extends_def nth_append) (metis le_add1 length_append names_length order_trans)
  have "name_at u p = s" using n i(3) names_nth [of "p - 1" u] by simp
  moreover have "name_at u p2 = s2" using j(3,4,5) names_nth [of "p2 - 1" u] by simp
  moreover have "p = p2" if "s = s2"
    using st.intern_again [OF assms(1,2,3) w(1) i(1) d(1) st.extends_refl, of ID] w(2) that by simp
  ultimately show ?thesis using j(1) d(2) e by auto
qed

theorem symbol_table_intern_witness:
  "\<exists>t' p u p2. intern_word symtab1 ''x'' = Inr (t', p) \<and> intern_word t' ''yz'' = Inr (u, p2) \<and>
     name_at u p = ''x'' \<and> name_at u p2 = ''yz'' \<and> p \<noteq> p2"
proof -
  let ?K = "{''div'', ''mod'', ''x'', ''yz''}"
  have K: "fits ?K" unfolding fits_def by (simp add: SYMMAX_def STRMAX_def)
  have s: "storable ''x''" "storable ''yz''" by (simp_all add: storable_def NUL_def)
  have t0: "tab_ok ?K symtab1" by (rule symtab1_ok) simp
  obtain t' p where i: "intern_word symtab1 ''x'' = Inr (t', p)" "tab_ok ?K t'"
    using intern_fits [OF t0 K _ s(1)] by auto
  obtain u p2 where j: "intern_word t' ''yz'' = Inr (u, p2)"
    using intern_fits [OF i(2) K _ s(2)] by auto
  have "sym_inv symtab1" "distinct (names symtab1)" using t0 by (simp_all add: tab_ok_def)
  from symbol_table_intern [OF this(1) s(1) this(2) i(1) s(2) j] i j show ?thesis by auto
qed

end
