(* ===== verification/Os.thy ===== *)
theory Os
  imports CText
begin

text \<open>
  Programs that talk to the operating system: a program is a value that returns, ends the
  process, or makes a system call and goes on with its reply. The operating system is a
  parameter, a function from the calls so far and the new call to a reply; what the programs
  rely on is stated as \<open>reads_ok\<close>.
\<close>

section \<open>Calls and replies\<close>

text \<open>
  An address is the host's address (as the resolver returned it) and a port. Output to
  \<^verbatim>\<open>stdout\<close> and \<^verbatim>\<open>stderr\<close> by \<^verbatim>\<open>stdio\<close> is a call too, so that the order of
  everything the outside sees is kept.
\<close>

datatype kernel_call =
    Waitpid int
  | Vfork
  | Execlp "string list"
  | Abort
  | Sleep nat
  | Getppid
  | Stat string
  | Lstat string
  | Chmod string int
  | Fcntl int
  | Sysconf string
  | Pathconf string string
  | Opendir string
  | Readdir int
  | Closedir int
  | Sysctl string
  | Kqueue
  | Kevent int
  | Popen string string
  | Pclose int
  | Contents int

datatype syscall =
    Socket string
  | Bind int "string \<times> int"
  | Listen int int
  | Accept int
  | Connect int "string \<times> int"
  | Close int
  | Shutdown int
  | Read int nat
  | Write int string
  | Recv int nat
  | Send int string
  | RecvFrom int nat
  | SendTo int "string \<times> int" string
  | Select "int list"
  | Open string
  | Fopen string string
  | Fclose int
  | Fgets int nat
  | Getchar
  | Fwrite int string
  | Gethostname nat
  | Gethostbyname string
  | Gethostbyaddr string
  | Getservbyname string string
  | Getaddrinfo string string
  | Freeaddrinfo
  | Fork
  | Wait
  | Getpid
  | Kernel kernel_call
  | Misc string
  | Out string
  | Err string
  | Perror string

text \<open>
  The return value, the bytes stored in the caller's buffer, the descriptors a \<^verbatim>\<open>select\<close>
  left in the set (or the numbers a call stores: the status of a child, the fields of a
  \<^verbatim>\<open>stat\<close>) and the sender of a datagram. A call that fails has the text for its
  \<^verbatim>\<open>errno\<close> as its data.
\<close>

record reply =
  rc :: int
  dat :: string
  ready :: "int list"
  sender :: "string \<times> int"

type_synonym os = "syscall list \<Rightarrow> syscall \<Rightarrow> reply"

section \<open>Programs\<close>

text \<open>
  \<open>Undef\<close> is undefined behaviour (a write outside an array), \<open>Cut\<close> the end of the
  number of rounds given to a loop that need not end.
\<close>

datatype 'a io = Ret 'a | Halt int | Undef | Cut | Sys syscall "reply \<Rightarrow> 'a io"

primrec io_bind :: "'a io \<Rightarrow> ('a \<Rightarrow> 'b io) \<Rightarrow> 'b io" where
  "io_bind (Ret x) f = f x"
| "io_bind (Halt n) f = Halt n"
| "io_bind Undef f = Undef"
| "io_bind Cut f = Cut"
| "io_bind (Sys c k) f = Sys c (\<lambda>r. io_bind (k r) f)"

definition one_call :: "syscall \<Rightarrow> unit io" where
  "one_call c = Sys c (\<lambda>_. Ret ())"

primrec syscalls :: "syscall list \<Rightarrow> unit io" where
  "syscalls [] = Ret ()"
| "syscalls (c # cs) = Sys c (\<lambda>_. syscalls cs)"

datatype 'a ended = Returned 'a | Exited int | Undefined | Running

primrec run :: "os \<Rightarrow> syscall list \<Rightarrow> 'a io \<Rightarrow> 'a ended \<times> syscall list" where
  "run os tr (Ret x) = (Returned x, tr)"
| "run os tr (Halt n) = (Exited n, tr)"
| "run os tr Undef = (Undefined, tr)"
| "run os tr Cut = (Running, tr)"
| "run os tr (Sys c k) = run os (tr @ [c]) (k (os tr c))"

lemma run_one_call [simp]: "run os tr (one_call c) = (Returned (), tr @ [c])"
  by (simp add: one_call_def)

lemma run_syscalls [simp]: "run os tr (syscalls cs) = (Returned (), tr @ cs)"
  by (induction cs arbitrary: tr) simp_all

lemma run_bind:
  "run os tr (io_bind p f) =
     (case run os tr p of
        (Returned x, tr') \<Rightarrow> run os tr' (f x)
      | (Exited n, tr') \<Rightarrow> (Exited n, tr')
      | (Undefined, tr') \<Rightarrow> (Undefined, tr')
      | (Running, tr') \<Rightarrow> (Running, tr'))"
  by (induction p arbitrary: tr) simp_all

lemma run_bind_Returned:
  "run os tr p = (Returned x, tr') \<Longrightarrow> run os tr (io_bind p f) = run os tr' (f x)"
  by (simp add: run_bind)

text \<open>The trace only grows.\<close>

lemma run_trace: "\<exists>cs. snd (run os tr p) = tr @ cs"
proof (induction p arbitrary: tr)
  case (Sys c k)
  obtain cs where "snd (run os (tr @ [c]) (k (os tr c))) = (tr @ [c]) @ cs"
    using Sys [of "k (os tr c)" "tr @ [c]"] by blast
  then show ?case by auto
qed auto

section \<open>Buffers\<close>

text \<open>What a read stores at the front of an array; the rest of the array keeps its contents.\<close>

definition overlay :: "string \<Rightarrow> string \<Rightarrow> string" where
  "overlay d buf = d @ drop (length d) buf"

lemma overlay_length: "length d \<le> length buf \<Longrightarrow> length (overlay d buf) = length buf"
  by (simp add: overlay_def)

lemma take_overlay: "take (length d) (overlay d buf) = d"
  by (simp add: overlay_def)

text \<open>
  A read of at most \<open>n\<close> bytes returns the number of bytes it stored, or \<open>-1\<close> and stores
  none.
\<close>

definition read_reply :: "nat \<Rightarrow> reply \<Rightarrow> bool" where
  "read_reply n r \<longleftrightarrow> length (dat r) \<le> n \<and> (rc r = int (length (dat r)) \<or> rc r = - 1 \<and> dat r = '''')"

definition reads_ok :: "os \<Rightarrow> bool" where
  "reads_ok os \<longleftrightarrow> (\<forall>tr fd n. read_reply n (os tr (Read fd n)) \<and> read_reply n (os tr (Recv fd n)))"

text \<open>An operating system given by a list of replies, for concrete runs.\<close>

definition script :: "reply list \<Rightarrow> os" where
  "script rs tr c = (if length tr < length rs then rs ! length tr else \<lparr>rc = 0, dat = '''', ready = [], sender = ('''', 0)\<rparr>)"

definition rint :: "int \<Rightarrow> reply" where
  "rint n = \<lparr>rc = n, dat = '''', ready = [], sender = ('''', 0)\<rparr>"

definition rdat :: "string \<Rightarrow> reply" where
  "rdat s = \<lparr>rc = int (length s), dat = s, ready = [], sender = ('''', 0)\<rparr>"

definition rready :: "int list \<Rightarrow> reply" where
  "rready fds = \<lparr>rc = int (length fds), dat = '''', ready = fds, sender = ('''', 0)\<rparr>"

lemma script_sel [simp]:
  "script (r # rs) [] c = r"
  "script (r # rs) (t # tr) c = script rs tr c"
  by (simp_all add: script_def)

lemma reply_sel [simp]:
  "rc (rint n) = n" "dat (rint n) = ''''" "rc (rdat s) = int (length s)" "dat (rdat s) = s"
  "ready (rready fds) = fds"
  by (simp_all add: rint_def rdat_def rready_def)

section \<open>What went through a descriptor\<close>

text \<open>The bytes written to a descriptor.\<close>

fun to_fd :: "int \<Rightarrow> syscall \<Rightarrow> string" where
  "to_fd f (Write g s) = (if g = f then s else '''')"
| "to_fd f _ = ''''"

definition received :: "int \<Rightarrow> syscall list \<Rightarrow> string" where
  "received f tr = concat (map (to_fd f) tr)"

lemma received_simps [simp]:
  "received f [] = ''''" "received f (c # cs) = to_fd f c @ received f cs"
  "received f (xs @ ys) = received f xs @ received f ys"
  by (simp_all add: received_def)

text \<open>
  The bytes that the program read from a descriptor in the calls \<open>cs\<close> that follow the
  trace \<open>pre\<close>.
\<close>

fun from_fd :: "int \<Rightarrow> syscall \<Rightarrow> reply \<Rightarrow> string" where
  "from_fd f (Read g n) r = (if g = f then dat r else '''')"
| "from_fd f (Recv g n) r = (if g = f then dat r else '''')"
| "from_fd f _ r = ''''"

fun got :: "os \<Rightarrow> int \<Rightarrow> syscall list \<Rightarrow> syscall list \<Rightarrow> string" where
  "got os f pre [] = ''''"
| "got os f pre (c # cs) = from_fd f c (os pre c) @ got os f (pre @ [c]) cs"

lemma got_append: "got os f pre (xs @ ys) = got os f pre xs @ got os f (pre @ xs) ys"
  by (induction xs arbitrary: pre) simp_all

end
