(* ===== verification/Mylib.thy ===== *)
theory Mylib
  imports Os
begin

text \<open>
  \<^verbatim>\<open>c/network/mylib\<close>: the socket set-up functions that the network programs share, for
  IPv4 (\<^verbatim>\<open>setup_*.c\<close>) and with \<^verbatim>\<open>getaddrinfo\<close> (\<^verbatim>\<open>setup_*6.c\<close>), and
  \<^verbatim>\<open>chop_newline\<close>. A null pointer from the resolver is the return value \<open>-1\<close>, the address
  it found the data of the reply.
\<close>

section \<open>chop\_newline\<close>

text \<open>
  \<open>before\<close> is the character in front of the buffer, which is read for an empty string (and
  overwritten, \<open>None\<close>, when it is a newline).
\<close>

definition chop_newline :: "char \<Rightarrow> string \<Rightarrow> nat \<Rightarrow> string option" where
  "chop_newline before str n =
     (if length str < n \<and> (if str = [] then before else last str) = lf then
        (if str = [] then None else Some (butlast str))
      else Some str)"

text \<open>\<^verbatim>\<open>fgets(buf, n, stdin)\<close> followed by \<^verbatim>\<open>chop_newline(buf, n)\<close>.\<close>

definition read_line :: "char \<Rightarrow> nat \<Rightarrow> (string \<Rightarrow> 'a io) \<Rightarrow> 'a io" where
  "read_line before n k =
     Sys (Fgets 0 n) (\<lambda>r. case chop_newline before (dat r) n of None \<Rightarrow> Undef | Some s \<Rightarrow> k s)"

section \<open>Clients\<close>

definition fail_with :: "string \<Rightarrow> int io" where
  "fail_with m = Sys (Perror m) (\<lambda>_. Ret (- 1))"

definition setup_client :: "string \<Rightarrow> int \<Rightarrow> int io" where
  "setup_client hostname port =
     Sys (Gethostbyname hostname) (\<lambda>h.
       if rc h = - 1 then fail_with ''gethostbyname'' else
     Sys (Socket ''inet stream'') (\<lambda>s.
       if rc s < 0 then fail_with ''socket'' else
     Sys (Connect (rc s) (dat h, port)) (\<lambda>c.
       if rc c = - 1 then fail_with ''socket'' else
     Sys (Err (''connected.'' @ newline)) (\<lambda>_. Ret (rc s)))))"

definition setup_client6 :: "string \<Rightarrow> int \<Rightarrow> int io" where
  "setup_client6 hostname port =
     Sys (Getaddrinfo hostname (int_str port)) (\<lambda>h.
       if rc h \<noteq> 0 then fail_with ''getaddrinfo'' else
     Sys (Socket ''unspec stream'') (\<lambda>s.
       if rc s < 0 then fail_with ''socket'' else
     Sys (Connect (rc s) (dat h, port)) (\<lambda>c.
       if rc c = - 1 then fail_with ''connect'' else
     Sys (Err (''connected.'' @ newline)) (\<lambda>_.
     Sys Freeaddrinfo (\<lambda>_. Ret (rc s))))))"

section \<open>Servers\<close>

definition INADDR_ANY :: string where
  "INADDR_ANY = ''0.0.0.0''"

definition setup_server :: "int \<Rightarrow> int io" where
  "setup_server port =
     Sys (Socket ''inet stream'') (\<lambda>w.
       if rc w < 0 then fail_with ''socket'' else
     Sys (Bind (rc w) (INADDR_ANY, port)) (\<lambda>b.
       if rc b = - 1 then fail_with ''bind'' else
     Sys (Listen (rc w) 1) (\<lambda>_.
     Sys (Err (''successfully bound, now waiting.'' @ newline)) (\<lambda>_.
     Sys (Accept (rc w)) (\<lambda>s.
     Sys (Close (rc w)) (\<lambda>_. Ret (rc s)))))))"

definition setup_sever :: "int \<Rightarrow> int io" where
  "setup_sever port =
     Sys (Gethostname 64) (\<lambda>g.
     Sys (Getaddrinfo (dat g) (int_str port)) (\<lambda>h.
       if rc h \<noteq> 0 then fail_with ''getaddrinfo'' else
     Sys (Socket ''unspec stream'') (\<lambda>w.
       if rc w < 0 then fail_with ''socket'' else
     Sys (Bind (rc w) (dat h, port)) (\<lambda>b.
       if rc b \<noteq> 0 then fail_with ''bind'' else
     Sys (Listen (rc w) 1) (\<lambda>_.
     Sys (Err (''successfully bound, now waiting.'' @ newline)) (\<lambda>_.
     Sys (Accept (rc w)) (\<lambda>s.
     Sys (Close (rc w)) (\<lambda>_.
     Sys Freeaddrinfo (\<lambda>_. Ret (rc s))))))))))"

definition mserver_socket :: "int \<Rightarrow> int \<Rightarrow> int io" where
  "mserver_socket port backlog =
     Sys (Socket ''inet stream'') (\<lambda>w.
       if rc w < 0 then fail_with ''socket'' else
     Sys (Bind (rc w) (INADDR_ANY, port)) (\<lambda>b.
       if rc b = - 1 then fail_with ''bind'' else
     Sys (Listen (rc w) backlog) (\<lambda>l.
       if rc l = - 1 then fail_with ''listen'' else
     Sys (Err (''successfully setup, now waiting.'' @ newline)) (\<lambda>_. Ret (rc w)))))"

definition mserver_socket6 :: "int \<Rightarrow> int \<Rightarrow> int io" where
  "mserver_socket6 port backlog =
     Sys (Gethostname 64) (\<lambda>g.
     Sys (Getaddrinfo (dat g) (int_str port)) (\<lambda>h.
       if rc h \<noteq> 0 then fail_with ''getaddrinfo'' else
     Sys (Socket ''unspec stream'') (\<lambda>w.
       if rc w < 0 then fail_with ''socket'' else
     Sys (Bind (rc w) (dat h, port)) (\<lambda>b.
       if rc b \<noteq> 0 then fail_with ''bind'' else
     Sys (Listen (rc w) backlog) (\<lambda>l.
       if rc l = - 1 then fail_with ''listen'' else
     Sys (Err (''successfully setup, now waiting.'' @ newline)) (\<lambda>_.
     Sys Freeaddrinfo (\<lambda>_. Ret (rc w))))))))"

text \<open>
  The accept loops. The handler works on the program's state \<open>st\<close>; the result is \<open>None\<close>
  after a failed \<^verbatim>\<open>accept\<close>, else the last descriptor. \<open>fd\<close> is not initialised, which
  shows when \<open>limit\<close> is not positive.
\<close>

primrec maccept_loop ::
  "(int \<Rightarrow> int \<Rightarrow> 's \<Rightarrow> 's io) \<Rightarrow> int \<Rightarrow> nat \<Rightarrow> int \<Rightarrow> int \<Rightarrow> 's \<Rightarrow> (int option \<times> 's) io" where
  "maccept_loop func w 0 i fd st = Ret (Some fd, st)"
| "maccept_loop func w (Suc n) i fd st =
     Sys (Err (int_str i @ '' OK'' @ newline)) (\<lambda>_.
     Sys (Accept w) (\<lambda>r.
       if rc r = - 1 then Sys (Err (''accept error'' @ newline)) (\<lambda>_. Ret (None, st))
       else io_bind (func i (rc r) st) (maccept_loop func w n (i + 1) (rc r))))"

definition mserver_maccept ::
  "int \<Rightarrow> int \<Rightarrow> int \<Rightarrow> (int \<Rightarrow> int \<Rightarrow> 's \<Rightarrow> 's io) \<Rightarrow> 's \<Rightarrow> (int \<times> 's) io" where
  "mserver_maccept junk w limit func st0 =
     io_bind (maccept_loop func w (nat limit) 0 junk st0) (\<lambda>(r, st).
       case r of
         None \<Rightarrow> Ret (- 1, st)
       | Some fd \<Rightarrow> Sys (Err (''OK'' @ newline)) (\<lambda>_. Sys (Close w) (\<lambda>_. Ret (fd, st))))"

primrec maccept_loop6 ::
  "(int \<Rightarrow> int \<Rightarrow> 's \<Rightarrow> 's io) \<Rightarrow> int \<Rightarrow> nat \<Rightarrow> int \<Rightarrow> int \<Rightarrow> 's \<Rightarrow> (int option \<times> 's) io" where
  "maccept_loop6 func w 0 i fd st = Ret (Some fd, st)"
| "maccept_loop6 func w (Suc n) i fd st =
     Sys (Accept w) (\<lambda>r.
       if rc r = - 1 then Sys (Err (''accept error'' @ newline)) (\<lambda>_. Ret (None, st))
       else io_bind (func i (rc r) st) (maccept_loop6 func w n (i + 1) (rc r)))"

definition mserver_maccept6 ::
  "int \<Rightarrow> int \<Rightarrow> int \<Rightarrow> (int \<Rightarrow> int \<Rightarrow> 's \<Rightarrow> 's io) \<Rightarrow> 's \<Rightarrow> (int \<times> 's) io" where
  "mserver_maccept6 junk w limit func st0 =
     io_bind (maccept_loop6 func w (nat limit) 0 junk st0) (\<lambda>(r, st).
       case r of None \<Rightarrow> Ret (- 1, st) | Some fd \<Rightarrow> Sys (Close w) (\<lambda>_. Ret (fd, st)))"

section \<open>What they guarantee\<close>

lemma chop_newline_line:
  "length s + 1 < n \<Longrightarrow> chop_newline before (s @ newline) n = Some s"
  by (simp add: chop_newline_def newline_lf)

lemma chop_newline_none: "s \<noteq> [] \<Longrightarrow> lf \<notin> set s \<Longrightarrow> chop_newline before s n = Some s"
  by (metis chop_newline_def last_in_set)

text \<open>
  A client is connected when the result is not negative: the last call on the socket is a
  \<^verbatim>\<open>connect\<close> to the resolved address that succeeded.
\<close>

lemma fail_with_run [simp]: "run os tr (fail_with m) = (Returned (- 1), tr @ [Perror m])"
  by (simp add: fail_with_def)

lemma setup_client_connected:
  assumes "run os tr (setup_client h p) = (Returned s, tr')" and "0 \<le> s"
  shows "\<exists>a. tr' = tr @ [Gethostbyname h, Socket ''inet stream'', Connect s (a, p), Err (''connected.'' @ newline)] \<and>
    a = dat (os tr (Gethostbyname h)) \<and>
    s = rc (os (tr @ [Gethostbyname h]) (Socket ''inet stream'')) \<and>
    rc (os (tr @ [Gethostbyname h, Socket ''inet stream'']) (Connect s (a, p))) \<noteq> - 1"
  using assms by (auto simp: setup_client_def split: if_splits)

lemma setup_client_ends:
  "\<exists>s tr'. run os tr (setup_client h p) = (Returned s, tr')"
  by (simp add: setup_client_def)

text \<open>
  The accept loop calls the handler for the connections in the order of their arrival, with
  the numbers \<open>0, 1, \<dots>\<close>: a property of the state that every call of the handler advances
  from \<open>i\<close> to \<open>i + 1\<close> holds at the end for \<open>limit\<close>.
\<close>

definition handler_keeps :: "os \<Rightarrow> (int \<Rightarrow> 's \<Rightarrow> bool) \<Rightarrow> (int \<Rightarrow> int \<Rightarrow> 's \<Rightarrow> 's io) \<Rightarrow> bool" where
  "handler_keeps os P func \<longleftrightarrow> (\<forall>i fd st tr. P i st \<longrightarrow> (\<exists>st' tr'.
     run os tr (func i fd st) = (Returned st', tr') \<and> P (i + 1) st'))"

definition accepts_ok :: "os \<Rightarrow> int \<Rightarrow> bool" where
  "accepts_ok os w \<longleftrightarrow> (\<forall>tr. rc (os tr (Accept w)) \<noteq> - 1)"

lemma maccept_loop_keeps:
  assumes "handler_keeps os P func" and "accepts_ok os w" and "P i st"
  shows "\<exists>fd' st' tr'. run os tr (maccept_loop func w n i fd st) = (Returned (Some fd', st'), tr') \<and>
    P (i + int n) st'"
  using assms(3)
proof (induction n arbitrary: i fd st tr)
  case (Suc n)
  let ?tr = "tr @ [Err (int_str i @ '' OK'' @ newline)]"
  let ?fd = "rc (os ?tr (Accept w))"
  obtain st1 tr1 where r: "run os (?tr @ [Accept w]) (func i ?fd st) = (Returned st1, tr1)" "P (i + 1) st1"
    using assms(1) Suc.prems by (fastforce simp: handler_keeps_def)
  have "?fd \<noteq> - 1" using assms(2) by (simp add: accepts_ok_def)
  then show ?case
    using Suc.IH [OF r(2), of tr1 ?fd] r(1) by (simp add: run_bind add.commute add.left_commute)
qed auto

lemma mserver_maccept_keeps:
  assumes "handler_keeps os P func" and "accepts_ok os w" and "P 0 st" and "0 \<le> limit"
  shows "\<exists>fd st' tr'. run os tr (mserver_maccept junk w limit func st) = (Returned (fd, st'), tr' @ [Close w]) \<and>
    P limit st'"
proof -
  obtain fd' st' tr' where "run os tr (maccept_loop func w (nat limit) 0 junk st) = (Returned (Some fd', st'), tr')"
    "P (0 + int (nat limit)) st'"
    using maccept_loop_keeps [OF assms(1,2,3), of tr "nat limit" junk] by blast
  then show ?thesis using assms(4) by (auto simp: mserver_maccept_def run_bind)
qed

end
