(* ===== verification/Mtalk.thy ===== *)
theory Mtalk
  imports Mylib
begin

text \<open>
  \<^verbatim>\<open>c/network/mtalk\<close>: a conversation server over TCP that passes every message on to all
  attendants, and its client with an input line.
\<close>

section \<open>The server\<close>

definition MAX_ATTENDANTS :: nat where
  "MAX_ATTENDANTS = 5"

definition MTALK_BUF_LEN :: nat where
  "MTALK_BUF_LEN = 80"

record attendant =
  fd :: int
  name :: string

text \<open>\<open>name\<close> is the array of 16 characters, \<open>mbuf\<close> the message buffer.\<close>

record mtalk =
  atts :: "attendant list"
  attendants :: int
  mask :: "int list"
  width :: int
  mbuf :: string

definition mtalk0 :: mtalk where
  "mtalk0 = \<lparr>atts = replicate MAX_ATTENDANTS \<lparr>fd = 0, name = replicate 16 NUL\<rparr>, attendants = 0,
     mask = [], width = 0, mbuf = replicate MTALK_BUF_LEN NUL\<rparr>"

text \<open>
  \<^verbatim>\<open>enter\<close>: the prompt \<open>" --> "\<close> overwrites the last character that was read. It is
  written outside the array, \<open>Undef\<close>, when nothing was read or more than 11 characters were.
\<close>

definition enter :: "int \<Rightarrow> int \<Rightarrow> mtalk \<Rightarrow> mtalk io" where
  "enter i f st =
     (if i < 0 \<or> int (length (atts st)) \<le> i then Undef else
      Sys (Write f (''Type your name.'' @ newline)) (\<lambda>_.
      Sys (Read f 16) (\<lambda>r.
        if rc r < 1 \<or> 11 < rc r then Undef else
        let nm = strcpy_at (overlay (dat r) (replicate 16 NUL)) (nat (rc r - 1)) '' --> '' in
      Sys (Write f (''Wait.'' @ newline)) (\<lambda>_.
        Ret (st\<lparr>atts := (atts st)[nat i := \<lparr>fd = f, name = nm\<rparr>]\<rparr>)))))"

definition active :: "mtalk \<Rightarrow> attendant list" where
  "active st = take (nat (attendants st)) (atts st)"

definition sessionman_init :: "int \<Rightarrow> int \<Rightarrow> mtalk \<Rightarrow> mtalk io" where
  "sessionman_init num maxfd st =
     (let st1 = st\<lparr>attendants := num, width := maxfd + 1\<rparr>;
          st2 = st1\<lparr>mask := 0 # map fd (active st1)\<rparr>
      in io_bind (syscalls (map (\<lambda>a. Write (fd a) (''Communication Ready.'' @ newline)) (active st2)))
           (\<lambda>_. Ret st2))"

definition cstr :: "string \<Rightarrow> string" where
  "cstr s = takeWhile (\<lambda>c. c \<noteq> NUL) s"

text \<open>A count of \<open>-1\<close> reaches \<^verbatim>\<open>write\<close> as the largest \<open>size_t\<close>.\<close>

definition send_all :: "mtalk \<Rightarrow> string \<Rightarrow> int \<Rightarrow> unit io" where
  "send_all st nm n =
     (if n < 0 then Undef
      else syscalls (concat (map (\<lambda>a. [Write (fd a) (cstr nm), Write (fd a) (take (nat n) (mbuf st))]) (active st))))"

definition ending :: "mtalk \<Rightarrow> mtalk io" where
  "ending st =
     io_bind (syscalls (map (\<lambda>a. Write (fd a) ''q'') (active st) @ map (\<lambda>a. Close (fd a)) (active st)))
       (\<lambda>_. Halt 0)"

primrec serve_ready :: "int list \<Rightarrow> attendant list \<Rightarrow> mtalk \<Rightarrow> mtalk io" where
  "serve_ready rd [] st = Ret st"
| "serve_ready rd (a # as) st =
     (if fd a \<in> set rd then
        Sys (Read (fd a) MTALK_BUF_LEN) (\<lambda>r.
          let st1 = st\<lparr>mbuf := overlay (dat r) (mbuf st)\<rparr> in
          io_bind (send_all st1 (name a) (rc r)) (\<lambda>_. serve_ready rd as st1))
      else serve_ready rd as st)"

primrec sessionman_loop :: "nat \<Rightarrow> mtalk \<Rightarrow> mtalk io" where
  "sessionman_loop 0 st = Cut"
| "sessionman_loop (Suc k) st =
     Sys (Select (mask st)) (\<lambda>r.
       if 0 \<in> set (ready r) then ending st
       else io_bind (serve_ready (ready r) (active st) st) (sessionman_loop k))"

definition PORT_mtalk :: int where
  "PORT_mtalk = 50002"

definition mtalk_server :: "int \<Rightarrow> nat \<Rightarrow> string list \<Rightarrow> mtalk io" where
  "mtalk_server junk k argv =
     (if length argv \<noteq> 2 then Sys (Err (''Usage: ./s attendants'' @ newline)) (\<lambda>_. Halt 1) else
      let num = atoi (argv ! 1) in
      if num \<le> 0 \<or> num > int MAX_ATTENDANTS then
        Sys (Err (''attendants limit='' @ int_str (int MAX_ATTENDANTS) @ newline)) (\<lambda>_. Halt 1)
      else
        io_bind (mserver_socket PORT_mtalk num) (\<lambda>soc.
        if soc = - 1 then Sys (Err (''cannot setup server'' @ newline)) (\<lambda>_. Halt 1) else
        io_bind (mserver_maccept junk soc num enter mtalk0) (\<lambda>(maxfd, st).
        io_bind (sessionman_init num maxfd st) (sessionman_loop k))))"

section \<open>The client\<close>

text \<open>
  The windows are a library's (curses): the calls are kept as \<open>Misc\<close>. \<open>beyond\<close> is the
  memory after \<open>recv_buf\<close>, which \<^verbatim>\<open>strstr\<close> reads when no \<open>NUL\<close> is in it.
\<close>

record tclient =
  session_soc :: int
  send_buf :: string
  slen :: nat
  recv_buf :: string
  tflag :: bool

definition waddch :: "string \<Rightarrow> char \<Rightarrow> syscall" where
  "waddch w c = Misc (''waddch '' @ w @ '' '' @ [c])"

definition wrefresh :: "string \<Rightarrow> syscall" where
  "wrefresh w = Misc (''wrefresh '' @ w)"

definition curses_setup :: "syscall list" where
  "curses_setup =
     map Misc [''initscr'', ''signal SIGINT die'', ''newwin frame_send 3 62 18 0'',
       ''newwin win_send 1 60 19 1'', ''box frame_send'', ''scrollok win_send'', ''wmove win_send 0 0'',
       ''newwin frame_recv 15 62 0 0'', ''newwin win_recv 13 60 1 1'', ''box frame_recv'',
       ''scrollok win_recv'', ''wmove win_recv 0 0'', ''cbreak'', ''noecho''] @
     map wrefresh [''frame_recv'', ''win_recv'', ''frame_send'', ''win_send'']"

definition session_init :: "int \<Rightarrow> tclient io" where
  "session_init soc =
     io_bind (syscalls curses_setup) (\<lambda>_.
       Ret \<lparr>session_soc = soc, send_buf = replicate MTALK_BUF_LEN NUL, slen = 0,
            recv_buf = replicate MTALK_BUF_LEN NUL, tflag = True\<rparr>)"

definition die :: "tclient \<Rightarrow> 'a io" where
  "die st = Sys (Misc ''endwin'') (\<lambda>_. Sys (Close (session_soc st)) (\<lambda>_. Halt 1))"

definition is_erase :: "int \<Rightarrow> bool" where
  "is_erase c \<longleftrightarrow> c = 8 \<or> c = 0x10 \<or> c = 0x7F"

definition erase_last :: "syscall list" where
  "erase_last = [Misc ''getyx win_send'', Misc ''wmove win_send x-1'', waddch ''win_send'' CHR '' '',
     Misc ''wmove win_send x-1'']"

text \<open>
  A key: \<open>None\<close> is the \<^verbatim>\<open>continue\<close>, which skips the rest of the round. A key that does
  not fit in \<open>send_buf\<close> is written outside it.
\<close>

definition key_pressed :: "tclient \<Rightarrow> tclient option io" where
  "key_pressed st =
     Sys Getchar (\<lambda>r.
       let c = rc r in
       if is_erase c then
         if slen st = 0 then Ret None
         else io_bind (syscalls (erase_last @ [wrefresh ''win_send'']))
                (\<lambda>_. Ret (Some (st\<lparr>slen := slen st - 1\<rparr>)))
       else if length (send_buf st) \<le> slen st then Undef
       else if c = 10 \<or> c = 13 then
         let buf = (send_buf st)[slen st := lf] in
         io_bind (syscalls [Write (session_soc st) (take (slen st + 1) buf), Misc ''wclear win_send'',
                            wrefresh ''win_send''])
           (\<lambda>_. Ret (Some (st\<lparr>send_buf := buf, slen := 0\<rparr>)))
       else
         io_bind (syscalls [waddch ''win_send'' (to_char c), wrefresh ''win_send''])
           (\<lambda>_. Ret (Some (st\<lparr>send_buf := (send_buf st)[slen st := to_char c], slen := slen st + 1\<rparr>))))"

definition text_received :: "string \<Rightarrow> tclient \<Rightarrow> tclient io" where
  "text_received beyond st =
     Sys (Read (session_soc st) MTALK_BUF_LEN) (\<lambda>r.
       let buf = overlay (dat r) (recv_buf st) in
       io_bind (syscalls (map (waddch ''win_recv'') (take (nat (rc r)) buf) @
                          [wrefresh ''win_recv'', wrefresh ''win_send'']))
         (\<lambda>_. Ret (st\<lparr>recv_buf := buf,
                tflag := (if contains ''quit'' (cstr (buf @ beyond)) then False else tflag st)\<rparr>)))"

primrec session_loop :: "string \<Rightarrow> nat \<Rightarrow> tclient \<Rightarrow> tclient io" where
  "session_loop beyond 0 st = Cut"
| "session_loop beyond (Suc k) st =
     Sys (Select [0, session_soc st]) (\<lambda>r.
       io_bind (if 0 \<in> set (ready r) then key_pressed st else Ret (Some st)) (\<lambda>st1.
         case st1 of
           None \<Rightarrow> session_loop beyond k st
         | Some st1 \<Rightarrow>
             if session_soc st1 \<in> set (ready r) then
               io_bind (text_received beyond st1) (\<lambda>st2.
                 if \<not> tflag st2 then die st2 else session_loop beyond k st2)
             else session_loop beyond k st1))"

definition mtalk_client :: "char \<Rightarrow> string \<Rightarrow> nat \<Rightarrow> tclient io" where
  "mtalk_client before beyond k =
     Sys (Out ''input server's hostname: '') (\<lambda>_.
     read_line before 64 (\<lambda>hostname.
     io_bind (setup_client hostname PORT_mtalk) (\<lambda>soc.
       if soc = - 1 then Halt 1
       else io_bind (session_init soc) (session_loop beyond k))))"

section \<open>All attendants see the same conversation\<close>

lemma received_other: "f \<notin> fd ` set as \<Longrightarrow>
    received f (concat (map (\<lambda>a. [Write (fd a) x, Write (fd a) y]) as)) = ''''"
  by (induction as) auto

lemma received_broadcast:
  "distinct (map fd as) \<Longrightarrow> a \<in> set as \<Longrightarrow>
     received (fd a) (concat (map (\<lambda>b. [Write (fd b) x, Write (fd b) y]) as)) = x @ y"
proof (induction as)
  case (Cons b as)
  show ?case
  proof (cases "a = b")
    case True
    then have "fd a \<notin> fd ` set as" using Cons.prems(1) by simp
    with received_other [of "fd a" as x y] True show ?thesis by simp
  next
    case False
    then have "a \<in> set as" "fd b \<noteq> fd a" using Cons.prems by (auto simp: rev_image_eqI)
    with Cons show ?thesis by simp
  qed
qed simp

lemma received_each:
  "distinct (map fd as) \<Longrightarrow> a \<in> set as \<Longrightarrow> received (fd a) (map (\<lambda>b. Write (fd b) x) as) = x"
proof (induction as)
  case (Cons b as)
  have none: "f \<notin> fd ` set bs \<Longrightarrow> received f (map (\<lambda>b. Write (fd b) x) bs) = ''''" for f bs
    by (induction bs) auto
  show ?case
  proof (cases "a = b")
    case True
    with Cons.prems none [of "fd a" as] show ?thesis by simp
  next
    case False
    then have "a \<in> set as" "fd b \<noteq> fd a" using Cons.prems by (auto simp: rev_image_eqI)
    with Cons show ?thesis by simp
  qed
qed simp

lemma received_close: "received f (map (\<lambda>b. Close (fd b)) as) = ''''"
  by (induction as) auto

text \<open>What one round adds for every attendant: the names and messages of the ready ones.\<close>

lemma serve_ready_run:
  assumes "run os tr (serve_ready rd as st) = (e, tr')" and "e \<noteq> Undefined" and "distinct (map fd (active st))"
  shows "\<exists>st' X. e = Returned st' \<and> active st' = active st \<and> mask st' = mask st \<and>
    (\<forall>a\<in>set (active st). received (fd a) tr' = received (fd a) tr @ X)"
  using assms
proof (induction as arbitrary: st tr)
  case Nil
  then show ?case by auto
next
  case (Cons b as)
  show ?case
  proof (cases "fd b \<in> set rd")
    case True
    let ?r = "os tr (Read (fd b) MTALK_BUF_LEN)"
    let ?st1 = "st\<lparr>mbuf := overlay (dat ?r) (mbuf st)\<rparr>"
    let ?ws = "concat (map (\<lambda>a. [Write (fd a) (cstr (name b)),
        Write (fd a) (take (nat (rc ?r)) (mbuf ?st1))]) (active ?st1))"
    have act: "active ?st1 = active st" by (simp add: active_def)
    have n: "\<not> rc ?r < 0"
    proof
      assume "rc ?r < 0"
      with Cons.prems(1,2) True show False by (simp add: send_all_def run_bind Let_def)
    qed
    then have r: "run os (tr @ [Read (fd b) MTALK_BUF_LEN] @ ?ws) (serve_ready rd as ?st1) = (e, tr')"
      using Cons.prems(1) True by (simp add: send_all_def run_bind Let_def)
    have d: "distinct (map fd (active ?st1))" using Cons.prems(3) act by simp
    obtain st' X where s: "e = Returned st'" "active st' = active ?st1" "mask st' = mask ?st1"
      "\<forall>a\<in>set (active ?st1). received (fd a) tr' = received (fd a) (tr @ [Read (fd b) MTALK_BUF_LEN] @ ?ws) @ X"
      using Cons.IH [OF r Cons.prems(2) d] by blast
    let ?Y = "cstr (name b) @ take (nat (rc ?r)) (mbuf ?st1)"
    have "\<forall>a\<in>set (active st). received (fd a) tr' = received (fd a) tr @ ?Y @ X"
    proof
      fix a assume a: "a \<in> set (active st)"
      have "received (fd a) ?ws = ?Y"
        using received_broadcast [OF d, of a "cstr (name b)" "take (nat (rc ?r)) (mbuf ?st1)"] a act by simp
      then show "received (fd a) tr' = received (fd a) tr @ ?Y @ X" using s(4) a act by simp
    qed
    then show ?thesis using s act by auto
  next
    case False
    with Cons show ?thesis by simp
  qed
qed

lemma sessionman_loop_same_view:
  assumes "run os tr (sessionman_loop k st) = (e, tr')" and "e \<noteq> Undefined"
    and "distinct (map fd (active st))"
  shows "\<exists>X. \<forall>a\<in>set (active st). received (fd a) tr' = received (fd a) tr @ X"
  using assms
proof (induction k arbitrary: st tr)
  case 0
  then show ?case by auto
next
  case (Suc k)
  let ?tr = "tr @ [Select (mask st)]" and ?rd = "ready (os tr (Select (mask st)))"
  show ?case
  proof (cases "0 \<in> set ?rd")
    case True
    have "tr' = ?tr @ map (\<lambda>a. Write (fd a) ''q'') (active st) @ map (\<lambda>a. Close (fd a)) (active st)"
      using Suc.prems(1) True by (simp add: ending_def run_bind)
    then have "received (fd a) tr' = received (fd a) tr @ ''q''" if "a \<in> set (active st)" for a
      using received_each [OF Suc.prems(3) that, of "''q''"] by (simp add: received_close)
    then show ?thesis by blast
  next
    case False
    obtain e1 tr1 where r1: "run os ?tr (serve_ready ?rd (active st) st) = (e1, tr1)" by fastforce
    have "e1 \<noteq> Undefined" using Suc.prems(1,2) False r1 by (auto simp: run_bind)
    then obtain st1 X where s1: "e1 = Returned st1" "active st1 = active st"
      "\<forall>a\<in>set (active st). received (fd a) tr1 = received (fd a) ?tr @ X"
      using serve_ready_run [OF r1 _ Suc.prems(3)] by auto
    have "run os tr1 (sessionman_loop k st1) = (e, tr')"
      using Suc.prems(1) False r1 s1(1) by (simp add: run_bind)
    then obtain Y where "\<forall>a\<in>set (active st1). received (fd a) tr' = received (fd a) tr1 @ Y"
      using Suc.IH [of tr1 st1] Suc.prems(2,3) s1(2) by auto
    with s1(2,3) have "\<forall>a\<in>set (active st). received (fd a) tr' = received (fd a) tr @ X @ Y" by simp
    then show ?thesis by blast
  qed
qed

text \<open>The login of an attendant stores the typed name with the prompt in place of its newline.\<close>

lemma enter_stores:
  assumes "rc (os (tr @ [Write f (''Type your name.'' @ newline)]) (Read f 16)) = int (length s) + 1"
    and "dat (os (tr @ [Write f (''Type your name.'' @ newline)]) (Read f 16)) = s @ newline"
    and "length s \<le> 10" and "NUL \<notin> set s" and "i < length (atts st)"
  shows "\<exists>st'. run os tr (enter (int i) f st) =
      (Returned st', tr @ [Write f (''Type your name.'' @ newline), Read f 16, Write f (''Wait.'' @ newline)]) \<and>
    fd (atts st' ! i) = f \<and> cstr (name (atts st' ! i)) = s @ '' --> '' \<and>
    length (name (atts st' ! i)) = 16 \<and> (\<forall>j<length (atts st). j \<noteq> i \<longrightarrow> atts st' ! j = atts st ! j)"
proof -
  let ?nm = "strcpy_at (overlay (s @ newline) (replicate 16 NUL)) (length s) '' --> ''"
  have ov: "overlay (s @ newline) (replicate 16 NUL) = s @ newline @ replicate (15 - length s) NUL"
    using assms(3) by (simp add: overlay_def newline_def)
  have nm: "?nm = s @ '' --> '' @ [NUL] @ replicate (10 - length s) NUL"
    using assms(3) unfolding strcpy_at_def ov by (simp add: newline_def)
  have c: "cstr (s @ '' --> '' @ [NUL] @ replicate (10 - length s) NUL) = s @ '' --> ''"
  proof -
    have "takeWhile (\<lambda>c. c \<noteq> NUL) (s @ '' --> '' @ [NUL] @ replicate (10 - length s) NUL) =
        s @ takeWhile (\<lambda>c. c \<noteq> NUL) ('' --> '' @ [NUL] @ replicate (10 - length s) NUL)"
      using assms(4) by (intro takeWhile_append2) auto
    then show ?thesis by (simp add: cstr_def NUL_def)
  qed
  show ?thesis
    using assms c by (simp add: enter_def Let_def nm nat_add_distrib)
qed

section \<open>The client sends the line as it was edited\<close>

text \<open>The line after some keys: an erase key drops the last character.\<close>

fun edit :: "string \<Rightarrow> int list \<Rightarrow> string" where
  "edit l [] = l"
| "edit l (c # cs) = edit (if is_erase c then butlast l else l @ [to_char c]) cs"

definition n_keys :: "syscall list \<Rightarrow> nat" where
  "n_keys tr = length (filter (\<lambda>c. c = Getchar) tr)"

lemma n_keys_simps [simp]:
  "n_keys [] = 0" "n_keys (c # tr) = (if c = Getchar then 1 else 0) + n_keys tr"
  "n_keys (tr @ tr') = n_keys tr + n_keys tr'"
  by (simp_all add: n_keys_def)

definition plain_key :: "int \<Rightarrow> bool" where
  "plain_key c \<longleftrightarrow> c \<noteq> 10 \<and> c \<noteq> 13"

definition holds_line :: "tclient \<Rightarrow> string \<Rightarrow> bool" where
  "holds_line st l \<longleftrightarrow> length (send_buf st) = MTALK_BUF_LEN \<and> slen st \<le> MTALK_BUF_LEN \<and> take (slen st) (send_buf st) = l"

lemma key_pressed_plain:
  assumes "rc (os tr Getchar) = c" and "plain_key c" and "holds_line st l"
    and "is_erase c \<or> length l < MTALK_BUF_LEN"
  shows "\<exists>r tr'. run os tr (key_pressed st) = (Returned r, tr') \<and> received (session_soc st) tr' = received (session_soc st) tr \<and>
    n_keys tr' = Suc (n_keys tr) \<and>
    (let st' = (case r of None \<Rightarrow> st | Some s \<Rightarrow> s) in
       holds_line st' (if is_erase c then butlast l else l @ [to_char c]) \<and>
       session_soc st' = session_soc st)"
proof (cases "is_erase c")
  case True
  have "take (slen st - 1) (send_buf st) = butlast l"
    using assms(3) by (auto simp: holds_line_def butlast_take)
  then show ?thesis
    using assms True
    by (cases "slen st = 0")
       (auto simp: key_pressed_def Let_def run_bind holds_line_def erase_last_def waddch_def wrefresh_def)
next
  case False
  then have l: "slen st < length (send_buf st)" using assms(3,4) by (auto simp: holds_line_def)
  have "take (Suc (slen st)) ((send_buf st)[slen st := to_char c]) = l @ [to_char c]"
    using take_Suc_update [OF l] assms(3) by (simp add: holds_line_def)
  then show ?thesis
    using assms False l
    by (auto simp: key_pressed_def Let_def run_bind holds_line_def plain_key_def waddch_def wrefresh_def)
qed

lemma key_pressed_newline:
  assumes "rc (os tr Getchar) = 10 \<or> rc (os tr Getchar) = 13" and "holds_line st l"
    and "length l < MTALK_BUF_LEN"
  shows "\<exists>st' tr'. run os tr (key_pressed st) = (Returned (Some st'), tr') \<and>
    received (session_soc st) tr' = received (session_soc st) tr @ l @ newline \<and>
    n_keys tr' = Suc (n_keys tr) \<and> holds_line st' '''' \<and> session_soc st' = session_soc st"
proof -
  have l: "slen st < length (send_buf st)" using assms(2,3) by (auto simp: holds_line_def)
  have "take (Suc (slen st)) ((send_buf st)[slen st := lf]) = l @ newline"
    using take_Suc_update [OF l] assms(2) by (simp add: holds_line_def newline_lf)
  then show ?thesis
    using assms l
    by (auto simp: key_pressed_def Let_def run_bind holds_line_def is_erase_def wrefresh_def)
qed

text \<open>A user who types \<open>ks\<close> while the server is silent.\<close>

definition typing :: "os \<Rightarrow> int list \<Rightarrow> bool" where
  "typing os ks \<longleftrightarrow> (\<forall>tr fds. ready (os tr (Select fds)) = [0]) \<and>
     (\<forall>tr. n_keys tr < length ks \<longrightarrow> rc (os tr Getchar) = ks ! n_keys tr)"

lemma session_loop_key:
  assumes "ready (os tr (Select [0, session_soc st])) = [0]" and "session_soc st \<noteq> 0"
    and "run os (tr @ [Select [0, session_soc st]]) (key_pressed st) = (Returned r, tr1)"
    and "session_soc (case r of None \<Rightarrow> st | Some s \<Rightarrow> s) = session_soc st"
  shows "run os tr (session_loop beyond (Suc k) st) =
    run os tr1 (session_loop beyond k (case r of None \<Rightarrow> st | Some s \<Rightarrow> s))"
  using assms by (cases r) (simp_all add: run_bind)

lemma session_loop_types_line:
  assumes "typing os (pre @ ks @ [10])" and "\<forall>c\<in>set ks. plain_key c"
    and "n_keys tr = length pre" and "holds_line st l" and "session_soc st \<noteq> 0"
    and "\<forall>n\<le>length ks. length (edit l (take n ks)) < MTALK_BUF_LEN"
  shows "\<exists>tr'. run os tr (session_loop beyond (length ks + 1) st) = (Running, tr') \<and>
    received (session_soc st) tr' = received (session_soc st) tr @ edit l ks @ newline"
  using assms
proof (induction ks arbitrary: pre tr st l)
  case Nil
  let ?tr = "tr @ [Select [0, session_soc st]]"
  have sel: "ready (os tr (Select [0, session_soc st])) = [0]" using Nil.prems(1) by (simp add: typing_def)
  have c: "rc (os ?tr Getchar) = 10"
    using Nil.prems(1,3) by (simp add: typing_def nth_append)
  have ll: "length l < MTALK_BUF_LEN" using Nil.prems(6) by simp
  obtain st' tr' where k: "run os ?tr (key_pressed st) = (Returned (Some st'), tr')"
    "received (session_soc st) tr' = received (session_soc st) ?tr @ l @ newline" "session_soc st' = session_soc st"
    using key_pressed_newline [of os ?tr st l] c Nil.prems(4) ll by blast
  from session_loop_key [of os tr st "Some st'" tr' beyond 0] sel Nil.prems(5) k
  show ?case by simp
next
  case (Cons c ks)
  let ?tr = "tr @ [Select [0, session_soc st]]"
  let ?l = "if is_erase c then butlast l else l @ [to_char c]"
  have sel: "ready (os tr (Select [0, session_soc st])) = [0]" using Cons.prems(1) by (simp add: typing_def)
  have c: "rc (os ?tr Getchar) = c"
    using Cons.prems(1,3) by (simp add: typing_def nth_append)
  have ll: "length l < MTALK_BUF_LEN" using Cons.prems(6) by (metis edit.simps(1) le0 take0)
  have pc: "plain_key c" using Cons.prems(2) by simp
  obtain r tr1 where k: "run os ?tr (key_pressed st) = (Returned r, tr1)"
    "received (session_soc st) tr1 = received (session_soc st) ?tr" "n_keys tr1 = Suc (n_keys ?tr)"
    and st1: "holds_line (case r of None \<Rightarrow> st | Some s \<Rightarrow> s) ?l"
      "session_soc (case r of None \<Rightarrow> st | Some s \<Rightarrow> s) = session_soc st"
    using key_pressed_plain [of os ?tr c st l] c pc Cons.prems(4) ll by (auto simp: Let_def)
  let ?st1 = "case r of None \<Rightarrow> st | Some s \<Rightarrow> s"
  have "\<forall>n\<le>length ks. length (edit ?l (take n ks)) < MTALK_BUF_LEN"
    using Cons.prems(6) by (metis Suc_le_mono edit.simps(2) length_Cons take_Suc_Cons)
  then obtain tr' where "run os tr1 (session_loop beyond (length ks + 1) ?st1) = (Running, tr')"
    "received (session_soc ?st1) tr' = received (session_soc ?st1) tr1 @ edit ?l ks @ newline"
    using Cons.IH [of "pre @ [c]" tr1 ?st1 ?l] Cons.prems(1,2,3,5) k(3) st1 by auto
  then show ?case
    using session_loop_key [OF sel Cons.prems(5) k(1) st1(2), of beyond "length ks + 1"] st1(2) k(2) by simp
qed

text \<open>The eighty-first character of a line is written behind the buffer.\<close>

lemma key_pressed_overflow:
  assumes "rc (os tr Getchar) = c" and "\<not> is_erase c" and "slen st = length (send_buf st)"
  shows "fst (run os tr (key_pressed st)) = Undefined"
  using assms by (simp add: key_pressed_def Let_def)

section \<open>Properties of the conversation programs\<close>

text \<open>
  C30: However long the server runs, and in whatever order the operating system reports its
  sockets and delivers the messages, all attendants are sent the same bytes in the same
  order, up to the closing \<open>q\<close>.
\<close>

theorem mtalk_same_view:
  assumes "run os tr (sessionman_loop k st) = (e, tr')" and "e \<noteq> Undefined"
    and "distinct (map fd (active st))"
  shows "\<exists>X. \<forall>a\<in>set (active st). received (fd a) tr' = received (fd a) tr @ X"
  using assms by (rule sessionman_loop_same_view)

definition two_talkers :: mtalk where
  "two_talkers = mtalk0\<lparr>atts := [\<lparr>fd = 4, name = ''a: ''\<rparr>, \<lparr>fd = 5, name = ''b: ''\<rparr>], attendants := 2, mask := [0, 4, 5]\<rparr>"

theorem mtalk_same_view_witness:
  "let tr' = snd (run (script [rready [5], rdat ''hi'']) [] (sessionman_loop 1 two_talkers))
   in received 4 tr' = received 5 tr' \<and> received 5 tr' = ''b: hi''"
proof -
  have act: "active two_talkers = [\<lparr>fd = 4, name = ''a: ''\<rparr>, \<lparr>fd = 5, name = ''b: ''\<rparr>]"
    by (simp add: active_def two_talkers_def)
  have r: "\<exists>tr'. run (script [rready [5], rdat ''hi'']) [] (sessionman_loop 1 two_talkers) = (Running, tr') \<and>
      received 5 tr' = ''b: hi''"
    by (simp add: act run_bind send_all_def Let_def MTALK_BUF_LEN_def cstr_def NUL_def overlay_def)
       (simp add: two_talkers_def active_def)
  then obtain tr' where t: "run (script [rready [5], rdat ''hi'']) [] (sessionman_loop 1 two_talkers) = (Running, tr')"
    "received 5 tr' = ''b: hi''" by blast
  from mtalk_same_view [OF t(1)] act have "received 4 tr' = received 5 tr'" by auto
  with t show ?thesis by simp
qed

text \<open>
  The client sends the line as the user edited it: for keys \<open>ks\<close> (erase keys included)
  that never fill the buffer, and a newline, exactly the edited text and the newline go to
  the server, in one piece.
\<close>

theorem mtalk_client_line:
  assumes "typing os (ks @ [10])" and "\<forall>c\<in>set ks. plain_key c"
    and "holds_line st ''''" and "session_soc st \<noteq> 0"
    and "\<forall>n\<le>length ks. length (edit '''' (take n ks)) < MTALK_BUF_LEN"
  shows "\<exists>tr'. run os [] (session_loop beyond (length ks + 1) st) = (Running, tr') \<and>
    received (session_soc st) tr' = edit '''' ks @ newline"
  using session_loop_types_line [of os "[]" ks "[]" st "''''" beyond] assms by simp

definition typist :: tclient where
  "typist = \<lparr>session_soc = 3, send_buf = replicate 80 NUL, slen = 0, recv_buf = '''', tflag = True\<rparr>"

end
