(* ===== verification/Mtalk2.thy ===== *)
theory Mtalk2
  imports Mtalk
begin

text \<open>
  \<^verbatim>\<open>c/network/mtalk2\<close>: the conversation over UDP. The server keeps a table of five slots;
  a client logs in, gets a slot, sends lines and logs out with its slot number.
\<close>

section \<open>The protocol\<close>

definition LOGIN :: char where
  "LOGIN = char_of (100 :: nat)"

definition LOGOUT :: char where
  "LOGOUT = char_of (101 :: nat)"

definition DATA :: char where
  "DATA = char_of (102 :: nat)"

definition END :: char where
  "END = char_of (199 :: nat)"

definition LOGIN_OK :: char where
  "LOGIN_OK = char_of (200 :: nat)"

definition CANNOT_LOGIN :: char where
  "CANNOT_LOGIN = char_of (201 :: nat)"

definition IN_USE :: nat where
  "IN_USE = 1"

definition FREE :: nat where
  "FREE = 0"

definition SLOTS :: nat where
  "SLOTS = 5"

definition MTALK2_BUF_LEN :: nat where
  "MTALK2_BUF_LEN = 256"

definition PORT_mtalk2 :: int where
  "PORT_mtalk2 = 50001"

section \<open>The server\<close>

type_synonym addr = "string \<times> int"

record talker =
  flag :: nat
  tname :: string
  address :: addr

record server =
  soc :: int
  buf :: string
  talkers :: "talker list"
  sfrom :: addr
  dlen :: int

text \<open>
  \<^verbatim>\<open>sessionman_init\<close> has no \<^verbatim>\<open>return\<close> at its end: the value of a successful call is
  \<open>junk\<close>.
\<close>

definition server_init :: "int \<Rightarrow> int \<Rightarrow> (int \<times> server) io" where
  "server_init junk port =
     Sys (Socket ''inet dgram'') (\<lambda>s.
       let st = \<lparr>soc = rc s, buf = replicate MTALK2_BUF_LEN NUL,
                 talkers = replicate SLOTS \<lparr>flag = FREE, tname = replicate 12 NUL, address = ('''', 0)\<rparr>,
                 sfrom = ('''', 0), dlen = 0\<rparr> in
       if rc s < 0 then Sys (Perror ''socket'') (\<lambda>_. Ret (- 1, st)) else
     Sys (Bind (rc s) (INADDR_ANY, port)) (\<lambda>b.
       if rc b = - 1 then Sys (Perror ''bind'') (\<lambda>_. Ret (- 1, st)) else
     Sys (Err (''successfully bound.'' @ newline)) (\<lambda>_.
     Sys (Misc ''signal SIGINT ending'') (\<lambda>_. Ret (junk, st)))))"

primrec find_free_from :: "talker list \<Rightarrow> nat \<Rightarrow> nat option" where
  "find_free_from [] i = None"
| "find_free_from (t # ts) i = (if flag t = FREE then Some i else find_free_from ts (i + 1))"

definition find_free_slot :: "server \<Rightarrow> nat option" where
  "find_free_slot st = find_free_from (talkers st) 0"

text \<open>The name is copied into an array of 12: a longer one runs over its end.\<close>

definition do_login :: "server \<Rightarrow> server io" where
  "do_login st =
     (case find_free_slot st of
        None \<Rightarrow>
          (let b = (buf st)[0 := CANNOT_LOGIN] in
           Sys (SendTo (soc st) (sfrom st) (take 2 b)) (\<lambda>_. Ret (st\<lparr>buf := b\<rparr>)))
      | Some slot \<Rightarrow>
          (let nm = cstr_at (buf st) 1 in
           if \<not> cstr_ok (buf st) 1 \<or> 12 \<le> length nm then Undef else
           let t = \<lparr>flag = IN_USE, tname = strcpy_at (tname (talkers st ! slot)) 0 nm, address = sfrom st\<rparr>;
               b = strcpy_at ((buf st)[0 := LOGIN_OK]) 1 (pad2 (int slot) @ newline) in
           Sys (Out (''talker['' @ nat_str slot @ ''] : '' @ nm @ '' logged in.'' @ newline)) (\<lambda>_.
           Sys (SendTo (soc st) (sfrom st) (take 4 b)) (\<lambda>_.
             Ret (st\<lparr>talkers := (talkers st)[slot := t], buf := b\<rparr>)))))"

text \<open>\<open>junk\<close> is the value of \<open>slot\<close> when the datagram has no number.\<close>

definition do_logout :: "int \<Rightarrow> server \<Rightarrow> server io" where
  "do_logout junk st =
     (let slot = (case scan_int2 (drop 1 (buf st)) of None \<Rightarrow> junk | Some n \<Rightarrow> n) in
      if slot < 0 \<or> int (length (talkers st)) \<le> slot then Undef else
      let t = talkers st ! nat slot in
      Sys (Out (''talker['' @ int_str slot @ ''] :'' @ cstr (tname t) @ '' logged out.'' @ newline)) (\<lambda>_.
        Ret (st\<lparr>talkers := (talkers st)[nat slot := t\<lparr>flag := FREE\<rparr>]\<rparr>)))"

definition to_talkers :: "server \<Rightarrow> string \<Rightarrow> syscall list" where
  "to_talkers st d = map (\<lambda>t. SendTo (soc st) (address t) d) (filter (\<lambda>t. flag t \<noteq> FREE) (talkers st))"

definition distribute :: "server \<Rightarrow> server io" where
  "distribute st =
     (let b = (buf st)[0 := DATA] in
      if dlen st < 0 then Undef
      else io_bind (syscalls (to_talkers st (take (nat (dlen st)) b))) (\<lambda>_. Ret (st\<lparr>buf := b\<rparr>)))"

text \<open>The handler of \<^verbatim>\<open>SIGINT\<close>.\<close>

definition server_ending :: "server \<Rightarrow> server io" where
  "server_ending st =
     (let b = (buf st)[0 := END] in
      io_bind (syscalls (to_talkers st (take 1 b))) (\<lambda>_. Halt 1))"

definition server_dispatch :: "int \<Rightarrow> server \<Rightarrow> server io" where
  "server_dispatch junk st =
     (let c = buf st ! 0 in
      if c = LOGIN then do_login st
      else if c = LOGOUT then do_logout junk st
      else if c = DATA then distribute st
      else Ret st)"

definition server_round :: "int \<Rightarrow> server \<Rightarrow> server io" where
  "server_round junk st =
     Sys (RecvFrom (soc st) MTALK2_BUF_LEN) (\<lambda>r.
       server_dispatch junk (st\<lparr>buf := overlay (dat r) (buf st), sfrom := sender r, dlen := rc r\<rparr>))"

primrec server_loop :: "int \<Rightarrow> nat \<Rightarrow> server \<Rightarrow> server io" where
  "server_loop junk 0 st = Cut"
| "server_loop junk (Suc k) st = io_bind (server_round junk st) (server_loop junk k)"

definition mtalk2_server :: "int \<Rightarrow> nat \<Rightarrow> server io" where
  "mtalk2_server junk k =
     io_bind (server_init junk PORT_mtalk2) (\<lambda>(r, st).
       if r = - 1 then Sys (Err (''cannot setup server'' @ newline)) (\<lambda>_. Halt 1)
       else server_loop junk k st)"

section \<open>The client\<close>

record uclient =
  usoc :: int
  userver :: addr
  usend :: string
  urecv :: string
  myname :: string
  my_slot :: int
  ulen :: nat

text \<open>
  \<^verbatim>\<open>login\<close>: \<open>input_buf\<close> is set to \<open>send_buf + 1\<close>, where the name has just been written.
  \<open>jslot\<close> is the initial \<open>my_slot\<close> (zero) when the reply has no number.
\<close>

definition login :: "char \<Rightarrow> uclient \<Rightarrow> (int \<times> uclient) io" where
  "login before st =
     Sys (Out ''Your name? '') (\<lambda>_.
     read_line before 12 (\<lambda>nm.
       let b1 = strcpy_at ((usend st)[0 := LOGIN]) 1 nm in
     Sys (SendTo (usoc st) (userver st) (take (length nm + 2) b1)) (\<lambda>_.
     Sys (RecvFrom (usoc st) MTALK2_BUF_LEN) (\<lambda>r.
       let rv = overlay (dat r) (urecv st); c = rv ! 0;
           st1 = st\<lparr>myname := nm, urecv := rv, usend := b1\<rparr> in
       if c = CANNOT_LOGIN then Sys (Out (''cannot login'' @ newline)) (\<lambda>_. Ret (- 1, st1))
       else if c = LOGIN_OK then
         (let slot = (case scan_int2 (drop 1 rv) of None \<Rightarrow> my_slot st | Some n \<Rightarrow> n);
              b2 = strcpy_at (b1[0 := DATA]) 1 (left10 nm @ ''-> '') in
          Sys (Out (''You have logged in.'' @ newline)) (\<lambda>_.
            Ret (1, st1\<lparr>my_slot := slot, usend := b2, ulen := 0\<rparr>)))
       else Sys (Out (''recv_buf[0]=='' @ nat_str (of_char c))) (\<lambda>_. Ret (- 2, st1))))))"

definition session_setupclient :: "char \<Rightarrow> string \<Rightarrow> int \<Rightarrow> (int \<times> uclient) io" where
  "session_setupclient before hostname port =
     (let st = \<lparr>usoc = 0, userver = ('''', 0), usend = replicate MTALK2_BUF_LEN NUL,
                urecv = replicate MTALK2_BUF_LEN NUL, myname = '''', my_slot = 0, ulen = 0\<rparr> in
      Sys (Gethostbyname hostname) (\<lambda>h.
        if rc h = - 1 then Sys (Perror ''gethostbyname'') (\<lambda>_. Ret (- 1, st)) else
      Sys (Socket ''inet dgram'') (\<lambda>s.
        let st = st\<lparr>userver := (dat h, port), usoc := rc s\<rparr> in
        if rc s < 0 then Sys (Perror ''socket'') (\<lambda>_. Ret (- 1, st)) else
      Sys (Bind (rc s) (INADDR_ANY, 0)) (\<lambda>b.
        if rc b = - 1 then Sys (Perror ''bind'') (\<lambda>_. Ret (- 1, st)) else
      Sys (Out (''successfully bound.'' @ newline)) (\<lambda>_. login before st)))))"

definition logout :: "uclient \<Rightarrow> syscall" where
  "logout st =
     SendTo (usoc st) (userver st)
       (take 4 (strcpy_at ((usend st)[0 := LOGOUT]) 1 (pad2 (my_slot st) @ newline)))"

definition die2 :: "uclient \<Rightarrow> 'a io" where
  "die2 st = Sys (Misc ''endwin'') (\<lambda>_. Sys (logout st) (\<lambda>_. Sys (Close (usoc st)) (\<lambda>_. Halt 0)))"

text \<open>A line is sent with the 14 bytes of the name in front of it, or so the length says.\<close>

definition key_pressed2 :: "uclient \<Rightarrow> uclient option io" where
  "key_pressed2 st =
     Sys Getchar (\<lambda>r.
       let c = rc r in
       if is_erase c then
         if ulen st = 0 then Ret None
         else io_bind (syscalls (erase_last @ [wrefresh ''win_send'']))
                (\<lambda>_. Ret (Some (st\<lparr>ulen := ulen st - 1\<rparr>)))
       else if length (usend st) \<le> 1 + ulen st then Undef
       else if c = 10 \<or> c = 13 then
         let b = (usend st)[1 + ulen st := lf] in
         if length b < ulen st + 1 + 14 then Undef
         else io_bind (syscalls [SendTo (usoc st) (userver st) (take (ulen st + 1 + 14) b),
                            Misc ''wclear win_send'', wrefresh ''win_send''])
                (\<lambda>_. Ret (Some (st\<lparr>usend := b, ulen := 0\<rparr>)))
       else
         io_bind (syscalls [waddch ''win_send'' (to_char c), wrefresh ''win_send''])
           (\<lambda>_. Ret (Some (st\<lparr>usend := (usend st)[1 + ulen st := to_char c], ulen := ulen st + 1\<rparr>))))"

text \<open>The second component is the flag: the server said \<open>END\<close>.\<close>

definition datagram_received :: "uclient \<Rightarrow> (uclient \<times> bool) io" where
  "datagram_received st =
     Sys (RecvFrom (usoc st) MTALK2_BUF_LEN) (\<lambda>r.
       let b = overlay (dat r) (urecv st); c = b ! 0 in
       io_bind (syscalls ((if c = DATA then map (waddch ''win_recv'') (drop 1 (take (nat (rc r)) b)) else []) @
                          [wrefresh ''win_recv'', wrefresh ''win_send'']))
         (\<lambda>_. Ret (st\<lparr>urecv := b\<rparr>, c \<noteq> DATA \<and> c = END)))"

primrec session_loop2 :: "nat \<Rightarrow> uclient \<Rightarrow> uclient io" where
  "session_loop2 0 st = Cut"
| "session_loop2 (Suc k) st =
     Sys (Select [0, usoc st]) (\<lambda>r.
       io_bind (if 0 \<in> set (ready r) then key_pressed2 st else Ret (Some st)) (\<lambda>st1.
         case st1 of
           None \<Rightarrow> session_loop2 k st
         | Some st1 \<Rightarrow>
             if usoc st1 \<in> set (ready r) then
               io_bind (datagram_received st1) (\<lambda>(st2, ended).
                 if ended then die2 st2 else session_loop2 k st2)
             else session_loop2 k st1))"

definition mtalk2_client :: "char \<Rightarrow> nat \<Rightarrow> uclient io" where
  "mtalk2_client before k =
     Sys (Out ''input server's hostname: '') (\<lambda>_.
     read_line before 64 (\<lambda>hostname.
     io_bind (session_setupclient before hostname PORT_mtalk2) (\<lambda>(r, st).
       if r < 0 then Halt 1
       else io_bind (syscalls curses_setup) (\<lambda>_. session_loop2 k st))))"

section \<open>The table of slots\<close>

datatype request = ReqLogin string | ReqLogout nat | ReqData string

primrec datagram :: "request \<Rightarrow> string" where
  "datagram (ReqLogin nm) = LOGIN # nm @ [NUL]"
| "datagram (ReqLogout i) = LOGOUT # pad2 (int i) @ newline"
| "datagram (ReqData d) = DATA # d"

primrec request_ok :: "request \<Rightarrow> bool" where
  "request_ok (ReqLogin nm) = (NUL \<notin> set nm \<and> length nm < 12)"
| "request_ok (ReqLogout i) = (i < SLOTS)"
| "request_ok (ReqData d) = (length d < MTALK2_BUF_LEN)"

text \<open>What the server promises: a partial map from slots to the addresses of the talkers.\<close>

type_synonym table = "nat \<Rightarrow> addr option"

inductive slot_step :: "table \<Rightarrow> addr \<times> request \<Rightarrow> (addr \<times> string) list \<Rightarrow> table \<Rightarrow> bool" where
  login_free: "\<lbrakk>i < SLOTS; T i = None; \<forall>j<i. T j \<noteq> None\<rbrakk> \<Longrightarrow>
     slot_step T (a, ReqLogin nm) [(a, LOGIN_OK # pad2 (int i) @ newline)] (T(i \<mapsto> a))"
| login_full: "\<forall>i<SLOTS. T i \<noteq> None \<Longrightarrow>
     slot_step T (a, ReqLogin nm) [(a, [CANNOT_LOGIN, hd (nm @ [NUL])])] T"
| logout: "i < SLOTS \<Longrightarrow> slot_step T (a, ReqLogout i) [] (T(i := None))"
| data: "slot_step T (a, ReqData d)
     (map (\<lambda>i. (the (T i), DATA # d)) (filter (\<lambda>i. T i \<noteq> None) [0..<SLOTS])) T"

definition view :: "server \<Rightarrow> table" where
  "view st i = (if i < length (talkers st) \<and> flag (talkers st ! i) \<noteq> FREE
                then Some (address (talkers st ! i)) else None)"

definition server_inv :: "server \<Rightarrow> bool" where
  "server_inv st \<longleftrightarrow> length (talkers st) = SLOTS \<and> length (buf st) = MTALK2_BUF_LEN"

fun sent_by :: "int \<Rightarrow> syscall \<Rightarrow> (addr \<times> string) list" where
  "sent_by s (SendTo f a d) = (if f = s then [(a, d)] else [])"
| "sent_by s _ = []"

definition sent :: "int \<Rightarrow> syscall list \<Rightarrow> (addr \<times> string) list" where
  "sent s tr = concat (map (sent_by s) tr)"

lemma sent_simps [simp]:
  "sent s [] = []" "sent s (c # tr) = sent_by s c @ sent s tr" "sent s (tr @ tr') = sent s tr @ sent s tr'"
  by (simp_all add: sent_def)

lemma find_free_from_None: "find_free_from ts i = None \<longleftrightarrow> (\<forall>t\<in>set ts. flag t \<noteq> FREE)"
  by (induction ts arbitrary: i) auto

lemma find_free_from_Some:
  "find_free_from ts i = Some j \<Longrightarrow>
     i \<le> j \<and> j - i < length ts \<and> flag (ts ! (j - i)) = FREE \<and> (\<forall>k<j - i. flag (ts ! k) \<noteq> FREE)"
proof (induction ts arbitrary: i)
  case (Cons t ts)
  show ?case
  proof (cases "flag t = FREE")
    case False
    then have "find_free_from ts (i + 1) = Some j" using Cons.prems by simp
    from Cons.IH [OF this] have r: "i + 1 \<le> j" "j - (i + 1) < length ts" "flag (ts ! (j - (i + 1))) = FREE"
      "\<forall>k<j - (i + 1). flag (ts ! k) \<noteq> FREE" by blast+
    have d: "j - i = Suc (j - (i + 1))" using r(1) by simp
    have "\<forall>k<j - i. flag ((t # ts) ! k) \<noteq> FREE"
    proof (intro allI impI)
      fix k assume "k < j - i"
      then show "flag ((t # ts) ! k) \<noteq> FREE" using r(4) False d by (cases k) auto
    qed
    with r show ?thesis by (simp add: d)
  qed (use Cons.prems in auto)
qed simp

lemma DATA_codes [simp]: "LOGIN \<noteq> LOGOUT" "LOGIN \<noteq> DATA" "LOGOUT \<noteq> DATA" "LOGOUT \<noteq> LOGIN" "DATA \<noteq> LOGIN" "DATA \<noteq> LOGOUT"
  by (simp_all add: LOGIN_def LOGOUT_def DATA_def)

lemma pad2_small: "i < SLOTS \<Longrightarrow> pad2 (int i) = [CHR ''0'', dec_digit i] \<and> length (pad2 (int i)) = 2"
  by (simp add: pad2_def int_str_def nat_str.simps SLOTS_def)

lemma scan_pad2: "i < SLOTS \<Longrightarrow> scan_int2 (pad2 (int i) @ newline @ rest) = Some (int i)"
proof -
  assume i: "i < SLOTS"
  have d: "c_isdigit (dec_digit i)" "c_isdigit CHR ''0''" "digit_of CHR ''0'' = 0"
  proof -
    show "c_isdigit (dec_digit i)" using i by (intro dec_digit_isdigit) (simp add: SLOTS_def)
  qed (simp_all add: c_isdigit_def digit_of_def)
  have v: "digit_of (dec_digit i) = int i" using i by (intro digit_of_dec_digit) (simp add: SLOTS_def)
  show ?thesis
    using i d v digit_facts [OF d(2)]
    by (simp add: scan_int2_def pad2_small scan_int_def starts_digit_def scan_digits_def Let_def)
qed

text \<open>What the buffer holds after the datagram of a request has come in.\<close>

lemma overlay_request:
  assumes "request_ok rq" and "length b = MTALK2_BUF_LEN"
  shows "length (overlay (datagram rq) b) = MTALK2_BUF_LEN"
    and "rq = ReqLogin nm \<Longrightarrow> cstr_at (overlay (datagram rq) b) 1 = nm \<and> cstr_ok (overlay (datagram rq) b) 1"
    and "rq = ReqLogout i \<Longrightarrow> scan_int2 (drop 1 (overlay (datagram rq) b)) = Some (int i)"
proof -
  have "length (datagram rq) \<le> MTALK2_BUF_LEN"
    using assms(1) by (cases rq) (auto simp: MTALK2_BUF_LEN_def pad2_small newline_def)
  then show l: "length (overlay (datagram rq) b) = MTALK2_BUF_LEN"
    using assms(2) overlay_length [of "datagram rq" b] by simp
  show "cstr_at (overlay (datagram rq) b) 1 = nm \<and> cstr_ok (overlay (datagram rq) b) 1" if "rq = ReqLogin nm"
  proof -
    have "cstr_at (overlay (datagram rq) b) 1 = takeWhile (\<lambda>c. c \<noteq> NUL) (nm @ [NUL] @ drop (length nm + 2) b)"
      using that by (simp add: cstr_at_def overlay_def)
    also have "\<dots> = nm" using assms(1) that by (subst takeWhile_append2) auto
    finally have c: "cstr_at (overlay (datagram rq) b) 1 = nm" .
    then show ?thesis using assms(1) that l by (simp add: cstr_ok_def MTALK2_BUF_LEN_def)
  qed
  show "scan_int2 (drop 1 (overlay (datagram rq) b)) = Some (int i)" if "rq = ReqLogout i"
    using assms(1) that scan_pad2 [of i] by (simp add: overlay_def)
qed

lemma view_update:
  "s < length (talkers st) \<Longrightarrow> view (st\<lparr>talkers := (talkers st)[s := t], buf := b\<rparr>) =
     (view st)(s := if flag t \<noteq> FREE then Some (address t) else None)"
  by (auto simp: view_def fun_eq_iff)

lemma sent_to_talkers:
  assumes "length (talkers st) = SLOTS"
  shows "sent (soc st) (to_talkers st d) =
    map (\<lambda>i. (the (view st i), d)) (filter (\<lambda>i. view st i \<noteq> None) [0..<SLOTS])"
proof -
  let ?is = "filter (\<lambda>i. view st i \<noteq> None) [0..<SLOTS]"
  have a: "sent (soc st) (map (\<lambda>t. SendTo (soc st) (address t) d) ts) = map (\<lambda>t. (address t, d)) ts" for ts
    by (induction ts) auto
  have t: "talkers st = map (\<lambda>i. talkers st ! i) [0..<SLOTS]"
    using assms by (metis map_nth)
  have "filter (\<lambda>t. flag t \<noteq> FREE) (talkers st) =
      map (\<lambda>i. talkers st ! i) (filter (\<lambda>i. flag (talkers st ! i) \<noteq> FREE) [0..<SLOTS])"
    using t filter_map [of "\<lambda>t. flag t \<noteq> FREE" "\<lambda>i. talkers st ! i" "[0..<SLOTS]"] by (simp add: comp_def)
  also have "filter (\<lambda>i. flag (talkers st ! i) \<noteq> FREE) [0..<SLOTS] = ?is"
    using assms by (intro filter_cong refl) (auto simp: view_def)
  finally have f: "filter (\<lambda>t. flag t \<noteq> FREE) (talkers st) = map (\<lambda>i. talkers st ! i) ?is" .
  have "map (\<lambda>i. (address (talkers st ! i), d)) ?is = map (\<lambda>i. (the (view st i), d)) ?is"
    using assms by (intro map_cong refl) (auto simp: view_def)
  then show ?thesis unfolding to_talkers_def a f by (simp only: map_map comp_def)
qed

lemma IN_USE_not_FREE [simp]: "IN_USE \<noteq> FREE"
  by (simp add: IN_USE_def FREE_def)

text \<open>A round serves one request as the specification says.\<close>

lemma server_dispatch_login:
  assumes "server_inv st" and "request_ok (ReqLogin nm)"
    and "b = overlay (datagram (ReqLogin nm)) (buf st)"
    and s0_def: "s0 = st\<lparr>buf := b, sfrom := a, dlen := n\<rparr>"
  shows "\<exists>st' tr' outs. run os tr (server_dispatch junk s0) = (Returned st', tr') \<and> server_inv st' \<and>
    soc st' = soc st \<and> sent (soc st) tr' = sent (soc st) tr @ outs \<and>
    slot_step (view st) (a, ReqLogin nm) outs (view st')"
proof -
  have ts: "length (talkers st) = SLOTS" and bl: "length (buf st) = MTALK2_BUF_LEN"
    using assms(1) by (simp_all add: server_inv_def)
  note ov = overlay_request [OF assms(2) bl]
  have b: "length b = MTALK2_BUF_LEN" "cstr_at b 1 = nm" "cstr_ok b 1"
    using ov(1) ov(2) [of nm] assms(3) by simp_all
  have c: "b ! 0 = LOGIN" "b = LOGIN # nm @ [NUL] @ drop (length nm + 2) (buf st)"
    using assms(3) by (simp_all add: overlay_def)
  have disp: "server_dispatch junk s0 = do_login s0" using c(1) by (simp add: server_dispatch_def s0_def)
  show ?thesis
  proof (cases "find_free_slot s0")
    case None
    then have full: "\<forall>i<SLOTS. view st i \<noteq> None"
      using ts by (auto simp: find_free_slot_def s0_def find_free_from_None view_def)
    have t2: "take 2 (b[0 := CANNOT_LOGIN]) = [CANNOT_LOGIN, hd (nm @ [NUL])]"
      unfolding c(2) by (cases nm) (simp_all add: numeral_2_eq_2)
    let ?st' = "s0\<lparr>buf := b[0 := CANNOT_LOGIN]\<rparr>"
    have "run os tr (server_dispatch junk s0) =
        (Returned ?st', tr @ [SendTo (soc st) a [CANNOT_LOGIN, hd (nm @ [NUL])]])"
      unfolding disp using None t2 by (simp add: do_login_def Let_def) (simp add: s0_def t2)
    moreover have "server_inv ?st'" using ts b by (simp add: server_inv_def s0_def)
    moreover have "view ?st' = view st" by (auto simp: view_def s0_def fun_eq_iff)
    moreover have "slot_step (view st) (a, ReqLogin nm) [(a, [CANNOT_LOGIN, hd (nm @ [NUL])])] (view st)"
      by (rule login_full [OF full])
    ultimately show ?thesis by (auto simp: s0_def)
  next
    case (Some i)
    then have i: "i < SLOTS" "flag (talkers st ! i) = FREE" "\<forall>k<i. flag (talkers st ! k) \<noteq> FREE"
      using find_free_from_Some [of "talkers st" 0 i] ts by (auto simp: find_free_slot_def s0_def)
    let ?t = "\<lparr>flag = IN_USE, tname = strcpy_at (tname (talkers st ! i)) 0 nm, address = a\<rparr>"
    let ?b = "strcpy_at (b[0 := LOGIN_OK]) 1 (pad2 (int i) @ newline)"
    let ?st' = "s0\<lparr>talkers := (talkers st)[i := ?t], buf := ?b\<rparr>"
    have p: "length (pad2 (int i)) = 2" using pad2_small [OF i(1)] by simp
    have t4: "take 4 ?b = LOGIN_OK # pad2 (int i) @ newline"
      using p c(2) by (simp add: strcpy_at_def newline_def)
    have "run os tr (server_dispatch junk s0) = (Returned ?st', tr @
        [Out (''talker['' @ nat_str i @ ''] : '' @ nm @ '' logged in.'' @ newline),
         SendTo (soc st) a (LOGIN_OK # pad2 (int i) @ newline)])"
      unfolding disp using Some b assms(2) t4 by (simp add: do_login_def Let_def) (simp add: s0_def b t4)
    moreover have "server_inv ?st'"
      using ts b p by (simp add: server_inv_def s0_def strcpy_at_length newline_def MTALK2_BUF_LEN_def)
    moreover have "view ?st' = (view st)(i \<mapsto> a)"
      using i ts by (auto simp: view_def s0_def fun_eq_iff)
    moreover have "slot_step (view st) (a, ReqLogin nm) [(a, LOGIN_OK # pad2 (int i) @ newline)] ((view st)(i \<mapsto> a))"
      using i ts by (intro login_free) (auto simp: view_def)
    ultimately show ?thesis by (auto simp: s0_def)
  qed
qed

lemma server_dispatch_logout:
  assumes "server_inv st" and "request_ok (ReqLogout i)"
    and "b = overlay (datagram (ReqLogout i)) (buf st)"
    and s0_def: "s0 = st\<lparr>buf := b, sfrom := a, dlen := n\<rparr>"
  shows "\<exists>st' tr' outs. run os tr (server_dispatch junk s0) = (Returned st', tr') \<and> server_inv st' \<and>
    soc st' = soc st \<and> sent (soc st) tr' = sent (soc st) tr @ outs \<and>
    slot_step (view st) (a, ReqLogout i) outs (view st')"
proof -
  have ts: "length (talkers st) = SLOTS" and bl: "length (buf st) = MTALK2_BUF_LEN"
    using assms(1) by (simp_all add: server_inv_def)
  have i: "i < SLOTS" using assms(2) by simp
  note ov = overlay_request [OF assms(2) bl]
  have b: "length b = MTALK2_BUF_LEN" "scan_int2 (drop 1 b) = Some (int i)" "b ! 0 = LOGOUT"
    using ov(1) ov(3) [of i] assms(3) by (simp_all add: overlay_def)
  let ?t = "(talkers st ! i)\<lparr>flag := FREE\<rparr>"
  let ?st' = "s0\<lparr>talkers := (talkers st)[i := ?t]\<rparr>"
  have "\<exists>m. run os tr (server_dispatch junk s0) = (Returned ?st', tr @ [Out m])"
    using b i ts by (simp add: server_dispatch_def do_logout_def Let_def s0_def)
  moreover have "server_inv ?st'" using ts b by (simp add: server_inv_def s0_def)
  moreover have "view ?st' = (view st)(i := None)"
    using i ts by (auto simp: view_def s0_def fun_eq_iff)
  moreover have "slot_step (view st) (a, ReqLogout i) [] ((view st)(i := None))"
    using i by (rule logout)
  ultimately show ?thesis by (auto simp: s0_def)
qed

lemma server_dispatch_data:
  assumes "server_inv st" and "request_ok (ReqData d)"
    and "b = overlay (datagram (ReqData d)) (buf st)" and "n = int (length (datagram (ReqData d)))"
    and s0_def: "s0 = st\<lparr>buf := b, sfrom := a, dlen := n\<rparr>"
  shows "\<exists>st' tr' outs. run os tr (server_dispatch junk s0) = (Returned st', tr') \<and> server_inv st' \<and>
    soc st' = soc st \<and> sent (soc st) tr' = sent (soc st) tr @ outs \<and>
    slot_step (view st) (a, ReqData d) outs (view st')"
proof -
  have ts: "length (talkers st) = SLOTS" and bl: "length (buf st) = MTALK2_BUF_LEN"
    using assms(1) by (simp_all add: server_inv_def)
  note ov = overlay_request [OF assms(2) bl]
  have b: "length b = MTALK2_BUF_LEN" "b ! 0 = DATA" "take (length d + 1) b = DATA # d" "b[0 := DATA] = b"
    using ov(1) assms(3) by (simp_all add: overlay_def)
  have s: "talkers s0 = talkers st" "soc s0 = soc st" "buf s0 = b" "dlen s0 = n"
    by (simp_all add: s0_def)
  have v: "view s0 = view st" by (auto simp: view_def s0_def fun_eq_iff)
  have "run os tr (server_dispatch junk s0) = (Returned s0, tr @ to_talkers s0 (DATA # d))"
    using b assms(4) s
    by (simp add: server_dispatch_def distribute_def Let_def run_bind nat_add_distrib)
  moreover have "server_inv s0" using ts b by (simp add: server_inv_def s0_def)
  moreover have "sent (soc st) (to_talkers s0 (DATA # d)) =
      map (\<lambda>i. (the (view st i), DATA # d)) (filter (\<lambda>i. view st i \<noteq> None) [0..<SLOTS])"
    using sent_to_talkers [of s0 "DATA # d"] ts s v by simp
  ultimately show ?thesis using data [of "view st" a d] v s by auto
qed

definition delivers :: "reply \<Rightarrow> addr \<times> request \<Rightarrow> bool" where
  "delivers r q \<longleftrightarrow> dat r = datagram (snd q) \<and> rc r = int (length (dat r)) \<and> sender r = fst q"

lemma server_round_refines:
  assumes "server_inv st" and "request_ok (snd q)" and "delivers (os tr (RecvFrom (soc st) MTALK2_BUF_LEN)) q"
  shows "\<exists>st' tr' outs. run os tr (server_round junk st) = (Returned st', tr') \<and> server_inv st' \<and>
    soc st' = soc st \<and> sent (soc st) tr' = sent (soc st) tr @ outs \<and>
    slot_step (view st) q outs (view st')"
proof -
  obtain a rq where q: "q = (a, rq)" by fastforce
  let ?tr = "tr @ [RecvFrom (soc st) MTALK2_BUF_LEN]"
  have d: "dat (os tr (RecvFrom (soc st) MTALK2_BUF_LEN)) = datagram rq"
    "rc (os tr (RecvFrom (soc st) MTALK2_BUF_LEN)) = int (length (datagram rq))"
    "sender (os tr (RecvFrom (soc st) MTALK2_BUF_LEN)) = a"
    using assms(3) by (simp_all add: delivers_def q)
  have r: "run os tr (server_round junk st) = run os ?tr (server_dispatch junk
      (st\<lparr>buf := overlay (datagram rq) (buf st), sfrom := a, dlen := int (length (datagram rq))\<rparr>))"
    by (simp add: server_round_def d)
  have "\<exists>st' tr' outs. run os ?tr (server_dispatch junk
      (st\<lparr>buf := overlay (datagram rq) (buf st), sfrom := a, dlen := int (length (datagram rq))\<rparr>)) = (Returned st', tr') \<and>
      server_inv st' \<and> soc st' = soc st \<and> sent (soc st) tr' = sent (soc st) ?tr @ outs \<and>
      slot_step (view st) (a, rq) outs (view st')"
  proof (cases rq)
    case (ReqLogin nm)
    show ?thesis unfolding ReqLogin
      by (rule server_dispatch_login [OF assms(1) _ refl refl]) (use assms(2) q ReqLogin in simp)
  next
    case (ReqLogout i)
    show ?thesis unfolding ReqLogout
      by (rule server_dispatch_logout [OF assms(1) _ refl refl]) (use assms(2) q ReqLogout in simp)
  next
    case (ReqData d)
    show ?thesis unfolding ReqData
      by (rule server_dispatch_data [OF assms(1) _ refl refl refl]) (use assms(2) q ReqData in simp)
  qed
  then show ?thesis unfolding r q by simp
qed

text \<open>A sequence of requests, and what the abstract table goes through.\<close>

inductive slot_steps :: "table \<Rightarrow> (addr \<times> request) list \<Rightarrow> (addr \<times> string) list \<Rightarrow> table \<Rightarrow> bool" where
  steps_nil: "slot_steps T [] [] T"
| steps_cons: "\<lbrakk>slot_step T q outs U; slot_steps U qs outs' V\<rbrakk> \<Longrightarrow> slot_steps T (q # qs) (outs @ outs') V"

definition n_recv :: "int \<Rightarrow> syscall list \<Rightarrow> nat" where
  "n_recv s tr = length (filter (\<lambda>c. c = RecvFrom s MTALK2_BUF_LEN) tr)"

definition network :: "os \<Rightarrow> int \<Rightarrow> (addr \<times> request) list \<Rightarrow> bool" where
  "network os s qs \<longleftrightarrow> (\<forall>tr. n_recv s tr < length qs \<longrightarrow>
     delivers (os tr (RecvFrom s MTALK2_BUF_LEN)) (qs ! n_recv s tr))"

lemma n_recv_simps [simp]:
  "n_recv s [] = 0" "n_recv s (c # tr) = (if c = RecvFrom s MTALK2_BUF_LEN then 1 else 0) + n_recv s tr"
  "n_recv s (tr @ tr') = n_recv s tr + n_recv s tr'"
  by (simp_all add: n_recv_def)

lemma n_recv_to_talkers: "n_recv s (to_talkers st d) = 0"
  by (auto simp: n_recv_def to_talkers_def filter_empty_conv)

lemma server_dispatch_n_recv:
  "run os tr (server_dispatch junk st) = (e, tr') \<Longrightarrow> n_recv s tr' = n_recv s tr"
  by (auto simp: server_dispatch_def do_login_def do_logout_def distribute_def Let_def run_bind
      n_recv_to_talkers split: if_splits option.splits)

lemma server_round_n_recv:
  assumes "run os tr (server_round junk st) = (e, tr')"
  shows "n_recv (soc st) tr' = Suc (n_recv (soc st) tr)"
  using server_dispatch_n_recv [of os "tr @ [RecvFrom (soc st) MTALK2_BUF_LEN]" junk _ e tr' "soc st"] assms
  by (simp add: server_round_def)

lemma server_loop_refines:
  assumes "server_inv st" and "\<forall>q\<in>set qs. request_ok (snd q)" and "network os (soc st) (pre @ qs)"
    and "n_recv (soc st) tr = length pre"
  shows "\<exists>tr' outs T. run os tr (server_loop junk (length qs) st) = (Running, tr') \<and>
    sent (soc st) tr' = sent (soc st) tr @ outs \<and> slot_steps (view st) qs outs T"
  using assms
proof (induction qs arbitrary: pre tr st)
  case Nil
  then show ?case using steps_nil by auto
next
  case (Cons q qs)
  have d: "delivers (os tr (RecvFrom (soc st) MTALK2_BUF_LEN)) q"
  proof -
    have "n_recv (soc st) tr < length (pre @ q # qs)" using Cons.prems(4) by simp
    then have "delivers (os tr (RecvFrom (soc st) MTALK2_BUF_LEN)) ((pre @ q # qs) ! n_recv (soc st) tr)"
      using Cons.prems(3) unfolding network_def by blast
    then show ?thesis using Cons.prems(4) by simp
  qed
  have ok: "request_ok (snd q)" using Cons.prems(2) by simp
  obtain st1 tr1 o1 where r: "run os tr (server_round junk st) = (Returned st1, tr1)" "server_inv st1"
    "soc st1 = soc st" "sent (soc st) tr1 = sent (soc st) tr @ o1" "slot_step (view st) q o1 (view st1)"
    using server_round_refines [of st q os tr junk] Cons.prems(1) ok d by blast
  have "n_recv (soc st1) tr1 = length (pre @ [q])"
    using server_round_n_recv [OF r(1)] Cons.prems(4) r(3) by simp
  then obtain tr' o2 T where s: "run os tr1 (server_loop junk (length qs) st1) = (Running, tr')"
    "sent (soc st1) tr' = sent (soc st1) tr1 @ o2" "slot_steps (view st1) qs o2 T"
    using Cons.IH [OF r(2), of "pre @ [q]" tr1] Cons.prems(2,3) r(3) by auto
  have "slot_steps (view st) (q # qs) (o1 @ o2) T" using steps_cons [OF r(5) s(3)] .
  moreover have "run os tr (server_loop junk (length (q # qs)) st) = (Running, tr')"
    using r(1) s(1) by (simp add: run_bind)
  ultimately show ?case using s(2) r(3,4) by auto
qed

inductive_cases slot_stepE: "slot_step T q outs U"

text \<open>A talker keeps its slot until somebody logs that slot out, and is sent all data.\<close>

lemma slot_step_keeps:
  assumes "slot_step T q outs U" and "T i = Some a" and "snd q \<noteq> ReqLogout i" and "i < SLOTS"
  shows "U i = Some a \<and> (\<forall>d. snd q = ReqData d \<longrightarrow> (a, DATA # d) \<in> set outs)"
  using assms by (cases rule: slot_step.cases) force+

lemma slot_steps_keeps:
  assumes "slot_steps T qs outs U" and "T i = Some a" and "i < SLOTS"
    and "\<forall>q\<in>set qs. snd q \<noteq> ReqLogout i"
  shows "U i = Some a \<and> (\<forall>b d. (b, ReqData d) \<in> set qs \<longrightarrow> (a, DATA # d) \<in> set outs)"
  using assms
proof (induction rule: slot_steps.induct)
  case (steps_cons T q outs U qs outs' V)
  from slot_step_keeps [OF steps_cons.hyps(1) steps_cons.prems(1) _ steps_cons.prems(2)] steps_cons.prems(3)
  have k: "U i = Some a" "\<And>d. snd q = ReqData d \<Longrightarrow> (a, DATA # d) \<in> set outs" by simp_all
  have r: "V i = Some a \<and> (\<forall>b d. (b, ReqData d) \<in> set qs \<longrightarrow> (a, DATA # d) \<in> set outs')"
    using steps_cons.IH [OF k(1) steps_cons.prems(2)] steps_cons.prems(3) by simp
  have "(a, DATA # d) \<in> set (outs @ outs')" if "(b, ReqData d) \<in> set (q # qs)" for b d
  proof (cases "(b, ReqData d) = q")
    case True
    then show ?thesis using k(2) [of d] by (metis Un_iff set_append snd_conv)
  next
    case False
    with that have "(b, ReqData d) \<in> set qs" by simp
    with r have "(a, DATA # d) \<in> set outs'" by blast
    then show ?thesis by simp
  qed
  with r show ?case by blast
qed simp

lemma slot_steps_bounded: "slot_steps T qs outs U \<Longrightarrow> dom T \<subseteq> {..<SLOTS} \<Longrightarrow> dom U \<subseteq> {..<SLOTS}"
proof (induction rule: slot_steps.induct)
  case (steps_cons T q outs U qs outs' V)
  from steps_cons.hyps(1) steps_cons.prems have "dom U \<subseteq> {..<SLOTS}"
    by (cases rule: slot_step.cases) (auto split: if_splits)
  then show ?case by (rule steps_cons.IH)
qed simp

text \<open>
  The first line after the login: \<open>input_buf\<close> is \<open>send_buf + 1\<close>, so the typed text replaces
  the name that should stand in front of it, and 14 bytes too many are sent.
\<close>

lemma key_pressed2_line:
  assumes "rc (os tr Getchar) = 10" and "usend st ! 0 = DATA" and "length (usend st) = MTALK2_BUF_LEN"
    and "take (ulen st) (drop 1 (usend st)) = l" and "length l = ulen st" and "ulen st + 15 \<le> MTALK2_BUF_LEN"
  shows "\<exists>st' tr' rest. run os tr (key_pressed2 st) = (Returned (Some st'), tr') \<and> length rest = 13 \<and>
    sent (usoc st) tr' = sent (usoc st) tr @ [(userver st, DATA # l @ newline @ rest)] \<and>
    rest = take 13 (drop (ulen st + 2) (usend st))"
proof -
  let ?n = "ulen st"
  have n: "1 + ?n < length (usend st)" using assms(3,6) by simp
  let ?b = "(usend st)[1 + ?n := lf]"
  have "usend st = DATA # drop 1 (usend st)"
    using assms(2) n by (cases "usend st") auto
  moreover have "drop 1 (usend st) = l @ drop (Suc ?n) (usend st)"
    using append_take_drop_id [of ?n "drop 1 (usend st)"] assms(4) by (simp add: drop_drop)
  ultimately have u: "usend st = DATA # l @ drop (Suc ?n) (usend st)" by simp
  have d: "drop (Suc ?n) (usend st) = usend st ! Suc ?n # drop (?n + 2) (usend st)"
    using n by (simp add: Cons_nth_drop_Suc)
  have "?b = DATA # l @ (drop (Suc ?n) (usend st))[0 := lf]"
    by (subst u) (simp add: assms(5) list_update_append)
  then have "?b = DATA # l @ newline @ drop (?n + 2) (usend st)"
    unfolding d by (simp add: newline_lf)
  then have t: "take (?n + 1 + 14) ?b = DATA # l @ newline @ take 13 (drop (?n + 2) (usend st))"
    using assms(5) by (simp add: newline_lf numeral_eq_Suc)
  show ?thesis
    using n assms(1,3,6) t
    by (auto simp: key_pressed2_def Let_def run_bind is_erase_def wrefresh_def)
qed

section \<open>Properties of the UDP conversation\<close>

text \<open>
  C18: The server refines the table of slots: whatever sequence of well-formed requests comes
  in, it sends exactly the datagrams that the specification allows (the lowest free slot for
  a login or a refusal, the data to every talker in the table), and never fails.
\<close>

theorem mtalk2_refines:
  assumes "server_inv st" and "\<forall>q\<in>set qs. request_ok (snd q)" and "network os (soc st) qs"
  shows "\<exists>tr' outs T. run os [] (server_loop junk (length qs) st) = (Running, tr') \<and>
    sent (soc st) tr' = outs \<and> slot_steps (view st) qs outs T"
  using server_loop_refines [of st qs os "[]" "[]" junk] assms by simp

definition mtalk2_st0 :: server where
  "mtalk2_st0 = \<lparr>soc = 3, buf = replicate MTALK2_BUF_LEN NUL,
     talkers = replicate SLOTS \<lparr>flag = FREE, tname = replicate 12 NUL, address = ('''', 0)\<rparr>,
     sfrom = ('''', 0), dlen = 0\<rparr>"

definition one_login :: "(addr \<times> request) list" where
  "one_login = [((''h'', 9), ReqLogin ''bob'')]"

definition login_os :: os where
  "login_os tr c = \<lparr>rc = 5, dat = datagram (ReqLogin ''bob''), ready = [], sender = (''h'', 9)\<rparr>"

lemma mtalk2_st0_inv: "server_inv mtalk2_st0" "view mtalk2_st0 = (\<lambda>_. None)" "soc mtalk2_st0 = 3"
  by (auto simp: server_inv_def mtalk2_st0_def view_def SLOTS_def FREE_def nth_Cons split: nat.splits)

theorem mtalk2_refines_witness:
  "\<exists>tr' outs T. run login_os [] (server_loop 0 1 mtalk2_st0) = (Running, tr') \<and>
    sent 3 tr' = outs \<and> slot_steps (\<lambda>_. None) one_login outs T"
proof -
  have "network login_os (soc mtalk2_st0) one_login"
    by (simp add: network_def one_login_def delivers_def login_os_def)
  moreover have "\<forall>q\<in>set one_login. request_ok (snd q)" by (simp add: one_login_def NUL_def)
  ultimately show ?thesis
    using mtalk2_refines [OF mtalk2_st0_inv(1), of one_login login_os 0] mtalk2_st0_inv
    by (simp add: one_login_def del: server_loop.simps)
qed


definition data_os :: os where
  "data_os tr c = \<lparr>rc = 3, dat = datagram (ReqData ''hi''), ready = [], sender = (''k'', 7)\<rparr>"

definition mtalk2_st1 :: server where
  "mtalk2_st1 = mtalk2_st0\<lparr>talkers := (talkers mtalk2_st0)[0 := \<lparr>flag = IN_USE, tname = '''', address = (''h'', 9)\<rparr>]\<rparr>"


text \<open>
  What the client sends for a line that the user typed after the login: \<open>DATA\<close>, the line,
  and then 13 bytes of what the buffer held behind it. The name with which the buffer was
  prepared is overwritten by the line: \<open>input_buf\<close> points to the name, not behind it.
\<close>

theorem mtalk2_client_overwrites_name:
  assumes "rc (os tr Getchar) = 10" and "usend st = strcpy_at (DATA # replicate 255 NUL) 1 (left10 nm @ ''-> '')"
    and "length nm \<le> 10" and "ulen st = 0"
  shows "\<exists>st' tr'. run os tr (key_pressed2 st) = (Returned (Some st'), tr') \<and>
    sent (usoc st) tr' = sent (usoc st) tr @ [(userver st, DATA # newline @ drop 1 (left10 nm) @ ''-> '' @ [NUL])]"
proof -
  have l: "length (left10 nm) = 10" using assms(3) by (simp add: left10_def)
  have u: "usend st = DATA # (left10 nm @ ''-> '') @ [NUL] @ replicate 241 NUL"
    unfolding assms(2) strcpy_at_def using l by (simp add: numeral_eq_Suc)
  have "take 13 (drop 2 (usend st)) = drop 1 (left10 nm) @ ''-> '' @ [NUL]"
    unfolding u using l by (cases "left10 nm") (simp_all add: numeral_eq_Suc)
  moreover have "length (usend st) = MTALK2_BUF_LEN" "usend st ! 0 = DATA"
    unfolding u using l by (simp_all add: MTALK2_BUF_LEN_def)
  ultimately show ?thesis
    using key_pressed2_line [of os tr st "''''"] assms(1,4) by (auto simp: MTALK2_BUF_LEN_def numeral_2_eq_2)
qed

end
