(* ===== verification/Race.thy ===== *)
theory Race
  imports Mylib
begin

text \<open>
  \<^verbatim>\<open>c/network/race\<close>: a race of up to five players through stages. The server collects
  the players' positions and the order in which they reach the goal or crash; the client
  moves a player by keys. A \<^verbatim>\<open>char\<close> is signed.
\<close>

section \<open>race.h\<close>

definition MAX_PLAYERS :: nat where
  "MAX_PLAYERS = 5"

definition PLAYER_SIZE :: nat where
  "PLAYER_SIZE = 4"

definition STAGE :: nat where
  "STAGE = 0"

definition XPOS :: nat where
  "XPOS = 1"

definition YPOS :: nat where
  "YPOS = 2"

definition DAMAGE :: nat where
  "DAMAGE = 3"

definition GRADE_SIZE :: nat where
  "GRADE_SIZE = 16"

definition ENTRYNUM :: nat where
  "ENTRYNUM = 0"

definition ENTRYNAME :: nat where
  "ENTRYNAME = 1"

definition MAX_STAGES :: int where
  "MAX_STAGES = 10"

definition STAGE_LENGTH :: int where
  "STAGE_LENGTH = 20"

definition STAGE_WIDTH :: int where
  "STAGE_WIDTH = 10"

definition MAX_DAMAGE :: int where
  "MAX_DAMAGE = 10"

definition PORT_race :: int where
  "PORT_race = 50003"

definition RACE_BUF_LENGTH :: nat where
  "RACE_BUF_LENGTH = 64"

lemmas race_consts = MAX_PLAYERS_def PLAYER_SIZE_def STAGE_def XPOS_def YPOS_def DAMAGE_def
  GRADE_SIZE_def ENTRYNUM_def ENTRYNAME_def MAX_STAGES_def STAGE_LENGTH_def STAGE_WIDTH_def MAX_DAMAGE_def

text \<open>A block of bytes stored inside an array.\<close>

definition store_at :: "string \<Rightarrow> nat \<Rightarrow> string \<Rightarrow> string" where
  "store_at mem p d = take p mem @ d @ drop (p + length d) mem"

section \<open>The server\<close>

record race =
  rsoc :: "int list"
  rname :: "string list"
  rp :: string
  rg :: string
  rmask :: "int list"
  rnum :: nat
  rfinal :: int
  reached :: nat
  crashed :: nat

definition race0 :: race where
  "race0 = \<lparr>rsoc = replicate MAX_PLAYERS 0, rname = replicate MAX_PLAYERS (replicate 16 NUL),
     rp = replicate (MAX_PLAYERS * PLAYER_SIZE) NUL, rg = replicate (MAX_PLAYERS * GRADE_SIZE) NUL,
     rmask = [], rnum = 0, rfinal = 0, reached = 0, crashed = 0\<rparr>"

text \<open>
  The name of player \<open>i\<close> as a C string: the names lie one behind the other, and \<open>beyond\<close> is
  what follows them.
\<close>

definition cname :: "string \<Rightarrow> race \<Rightarrow> nat \<Rightarrow> string" where
  "cname beyond st i = takeWhile (\<lambda>c. c \<noteq> NUL) (concat (drop i (rname st)) @ beyond)"

definition race_enter :: "string \<Rightarrow> int \<Rightarrow> int \<Rightarrow> race \<Rightarrow> race io" where
  "race_enter beyond i f st =
     (if i < 0 \<or> int MAX_PLAYERS \<le> i then Undef else
      let k = nat i in
      Sys (Write f (''Your name?'' @ [NUL])) (\<lambda>_.
      Sys (Read f 16) (\<lambda>r.
        let st1 = st\<lparr>rsoc := (rsoc st)[k := f], rname := (rname st)[k := overlay (dat r) (rname st ! k)]\<rparr> in
      Sys (Write f (int_str i @ newline @ [NUL])) (\<lambda>_.
      Sys (Out (''['' @ int_str i @ ''] '' @ cname beyond st1 k @ newline)) (\<lambda>_. Ret st1)))))"

definition race_init :: "nat \<Rightarrow> int \<Rightarrow> race \<Rightarrow> race io" where
  "race_init n fin st =
     (let st1 = st\<lparr>rnum := n, rfinal := fin, rmask := 0 # take n (rsoc st), reached := 0, crashed := 0\<rparr>;
          mesg = strcpy_at (replicate 10 NUL) 0 (int_str (int n) @ '' '' @ int_str fin @ newline)
      in io_bind (syscalls (map (\<lambda>f. Write f (take 10 mesg)) (take n (rsoc st)))) (\<lambda>_. Ret st1))"

definition player :: "string \<Rightarrow> nat \<Rightarrow> nat \<Rightarrow> int" where
  "player mem i field = schar (mem ! (i * PLAYER_SIZE + field))"

text \<open>
  The entry of a player in the table of grades, at place \<open>k\<close>; \<open>None\<close> when it does not lie
  inside the table.
\<close>

definition put_grade :: "string \<Rightarrow> race \<Rightarrow> int \<Rightarrow> nat \<Rightarrow> string option" where
  "put_grade beyond st k i =
     (if k < 0 then None else
      let p = nat k * GRADE_SIZE; nm = cname beyond st i in
      if length (rg st) < p + ENTRYNAME + length nm + 1 then None
      else Some (strcpy_at ((rg st)[p + ENTRYNUM := to_char (int i)]) (p + ENTRYNAME) nm))"

definition note_crash :: "string \<Rightarrow> nat \<Rightarrow> race \<Rightarrow> race option" where
  "note_crash beyond i st =
     (if player (rp st) i DAMAGE \<ge> MAX_DAMAGE then
        (case put_grade beyond st (int (rnum st) - int (crashed st) - 1) i of
           None \<Rightarrow> None
         | Some g \<Rightarrow> Some (st\<lparr>rg := g, crashed := crashed st + 1\<rparr>))
      else Some st)"

definition note_goal :: "string \<Rightarrow> nat \<Rightarrow> race \<Rightarrow> race option" where
  "note_goal beyond i st =
     (if player (rp st) i STAGE > rfinal st then
        (case put_grade beyond st (int (reached st)) i of
           None \<Rightarrow> None
         | Some g \<Rightarrow> Some (st\<lparr>rg := g, reached := reached st + 1\<rparr>))
      else Some st)"

primrec recv_players :: "string \<Rightarrow> int list \<Rightarrow> nat list \<Rightarrow> race \<Rightarrow> race io" where
  "recv_players beyond rd [] st = Ret st"
| "recv_players beyond rd (i # is) st =
     (if rsoc st ! i \<in> set rd then
        Sys (Read (rsoc st ! i) PLAYER_SIZE) (\<lambda>r.
          let st1 = st\<lparr>rp := store_at (rp st) (i * PLAYER_SIZE) (dat r)\<rparr> in
          case note_crash beyond i st1 of
            None \<Rightarrow> Undef
          | Some st2 \<Rightarrow>
              (case note_goal beyond i st2 of
                 None \<Rightarrow> Undef
               | Some st3 \<Rightarrow> recv_players beyond rd is st3))
      else recv_players beyond rd is st)"

definition recv_data :: "string \<Rightarrow> race \<Rightarrow> (int list \<times> race) io" where
  "recv_data beyond st =
     Sys (Select (rmask st)) (\<lambda>r.
       io_bind (recv_players beyond (ready r) [0..<rnum st] st) (\<lambda>st1. Ret (ready r, st1)))"

definition send_data :: "int list \<Rightarrow> race \<Rightarrow> unit io" where
  "send_data rd st =
     syscalls (map (\<lambda>f. Write f (take (PLAYER_SIZE * rnum st) (rp st)))
       (filter (\<lambda>f. f \<in> set rd) (take (rnum st) (rsoc st))))"

definition race_ending :: "race \<Rightarrow> unit io" where
  "race_ending st = syscalls (map (\<lambda>f. Write f (take (GRADE_SIZE * rnum st) (rg st))) (take (rnum st) (rsoc st)))"

primrec race_loop :: "string \<Rightarrow> nat \<Rightarrow> race \<Rightarrow> race io" where
  "race_loop beyond 0 st = Cut"
| "race_loop beyond (Suc k) st =
     (if reached st + crashed st < rnum st then
        io_bind (recv_data beyond st) (\<lambda>(rd, st1). io_bind (send_data rd st1) (\<lambda>_. race_loop beyond k st1))
      else io_bind (race_ending st) (\<lambda>_. Ret st))"

definition race_server :: "int \<Rightarrow> string \<Rightarrow> nat \<Rightarrow> string list \<Rightarrow> race io" where
  "race_server junk beyond k argv =
     (if length argv \<noteq> 3 then Sys (Err (''Usage: s players stages'' @ newline)) (\<lambda>_. Halt 1) else
      let num = atoi (argv ! 1); final = atoi (argv ! 2) in
      if num \<le> 0 \<or> num > int MAX_PLAYERS then
        Sys (Err (''players limit='' @ int_str (int MAX_PLAYERS) @ newline)) (\<lambda>_. Halt 1)
      else if final \<le> 0 \<or> final > MAX_STAGES then
        Sys (Err (''stage limit='' @ int_str MAX_STAGES @ newline)) (\<lambda>_. Halt 1)
      else
        io_bind (mserver_socket PORT_race num) (\<lambda>w.
        if w = - 1 then Sys (Err (''cannot setup server'' @ newline)) (\<lambda>_. Halt 1) else
        io_bind (mserver_maccept junk w num (race_enter beyond) race0) (\<lambda>(maxfd, st).
        io_bind (race_init (nat num) final st) (race_loop beyond k))))"

section \<open>The client\<close>

text \<open>
  The window with the course belongs to a library: its state is the type \<open>'w\<close> and the client
  uses \<open>puts y x s\<close> (move and add a string) and \<open>inch y x\<close> (the character at a place), the
  parameters of the definitions. Output to the other window is kept as \<open>Misc\<close> calls.
\<close>

record 'w rclient =
  cp :: string
  temp :: string
  cg :: string
  cnum :: nat
  cfinal :: int
  csoc :: int
  entry_num :: nat
  cflag :: int
  final_state :: int
  win :: 'w

definition tget :: "'w rclient \<Rightarrow> nat \<Rightarrow> int" where
  "tget st f = schar (temp st ! f)"

definition tadd :: "nat \<Rightarrow> int \<Rightarrow> 'w rclient \<Rightarrow> 'w rclient" where
  "tadd f d st = st\<lparr>temp := (temp st)[f := to_char (tget st f + d)]\<rparr>"

definition check :: "(int \<Rightarrow> int \<Rightarrow> 'w \<Rightarrow> char) \<Rightarrow> 'w rclient \<Rightarrow> int \<Rightarrow> int \<Rightarrow> bool" where
  "check inch st a b =
     (let p = tget st XPOS + a; q = tget st YPOS + b in
      if p < 1 \<or> p > STAGE_WIDTH \<or> q < 1 \<or> q > STAGE_LENGTH + 1 then False
      else if inch q p (win st) = CHR ''*'' then False
      else True)"

text \<open>
  \<open>fgets\<close> on the stage file replies with the line; \<open>buf\<close> is the static array of 16, its
  tenth character is set to \<open>NUL\<close>.
\<close>

primrec stage_lines :: "(int \<Rightarrow> int \<Rightarrow> string \<Rightarrow> 'w \<Rightarrow> 'w) \<Rightarrow> int \<Rightarrow> nat \<Rightarrow> int \<Rightarrow> string \<Rightarrow> 'w \<Rightarrow> 'w io" where
  "stage_lines puts fp 0 i b w = Ret w"
| "stage_lines puts fp (Suc n) i b w =
     Sys (Fgets fp 16) (\<lambda>r.
       let b1 = (if rc r = - 1 then b else strcpy_at b 0 (dat r)); b2 = b1[10 := NUL] in
       stage_lines puts fp n (i + 1) b2 (puts i 1 (takeWhile (\<lambda>c. c \<noteq> NUL) b2) w))"

definition new_stage :: "(int \<Rightarrow> int \<Rightarrow> string \<Rightarrow> 'w \<Rightarrow> 'w) \<Rightarrow> int \<Rightarrow> 'w rclient \<Rightarrow> (bool \<times> 'w rclient) io" where
  "new_stage puts z st =
     (if z > cfinal st then Ret (False, st) else
      let file = ''data/data'' @ int_str z in
      Sys (Fopen file ''r'') (\<lambda>r.
        if rc r = - 1 then Undef
        else io_bind (stage_lines puts (rc r) (nat STAGE_LENGTH) 1 (strcpy_at (replicate 16 NUL) 0 file) (win st)) (\<lambda>w.
          Sys (Fclose (rc r)) (\<lambda>_. Ret (True, st\<lparr>win := w\<rparr>)))))"

text \<open>\<^verbatim>\<open>get_my_location\<close> returns 0 when the race is over for this player.\<close>

definition damage_check :: "'w rclient \<Rightarrow> int \<times> 'w rclient" where
  "damage_check st = (if tget st DAMAGE \<ge> MAX_DAMAGE then (0, st\<lparr>final_state := - 1\<rparr>) else (1, st))"

definition step_to :: "(int \<Rightarrow> int \<Rightarrow> 'w \<Rightarrow> char) \<Rightarrow> int \<Rightarrow> int \<Rightarrow> 'w rclient \<Rightarrow> 'w rclient" where
  "step_to inch a b st =
     (if check inch st a b then (if a \<noteq> 0 then tadd XPOS a st else tadd YPOS b st) else tadd DAMAGE 1 st)"

definition get_my_location ::
  "(int \<Rightarrow> int \<Rightarrow> string \<Rightarrow> 'w \<Rightarrow> 'w) \<Rightarrow> (int \<Rightarrow> int \<Rightarrow> 'w \<Rightarrow> char) \<Rightarrow> 'w rclient \<Rightarrow> (int \<times> 'w rclient) io" where
  "get_my_location puts inch st =
     Sys Getchar (\<lambda>r.
       let c = rc r in
       if c = of_char CHR ''h'' then Ret (damage_check (step_to inch (- 1) 0 st))
       else if c = of_char CHR ''j'' then Ret (damage_check (step_to inch 0 1 st))
       else if c = of_char CHR ''k'' then
         (if tget st YPOS = 1 then
            (let st1 = tadd STAGE 1 st; st2 = st1\<lparr>temp := (temp st1)[YPOS := to_char 21]\<rparr> in
             io_bind (new_stage puts (tget st2 STAGE) st2) (\<lambda>(ok, st3).
               if \<not> ok then Ret (0, st3\<lparr>final_state := 0\<rparr>) else Ret (damage_check st3)))
          else Ret (damage_check (step_to inch 0 (- 1) st)))
       else if c = of_char CHR ''l'' then Ret (damage_check (step_to inch 1 0 st))
       else Ret (damage_check st))"

definition send_my_data :: "'w rclient \<Rightarrow> unit io" where
  "send_my_data st = one_call (Write (csoc st) (take PLAYER_SIZE (temp st)))"

text \<open>The players on my stage; \<open>me\<close> is the entry of the client itself in \<open>p\<close>.\<close>

definition on_my_stage :: "'w rclient \<Rightarrow> nat list" where
  "on_my_stage st = filter (\<lambda>i. player (cp st) i STAGE = player (cp st) (entry_num st) STAGE) [0..<cnum st]"

definition del_all_locations :: "(int \<Rightarrow> int \<Rightarrow> string \<Rightarrow> 'w \<Rightarrow> 'w) \<Rightarrow> 'w rclient \<Rightarrow> 'w rclient" where
  "del_all_locations puts st =
     st\<lparr>win := foldl (\<lambda>w i. puts (player (cp st) i YPOS) (player (cp st) i XPOS) '' '' w) (win st) (on_my_stage st)\<rparr>"

definition recv_all_data :: "'w rclient \<Rightarrow> 'w rclient io" where
  "recv_all_data st =
     Sys (Read (csoc st) (PLAYER_SIZE * cnum st)) (\<lambda>r. Ret (st\<lparr>cp := overlay (dat r) (cp st)\<rparr>))"

definition status_line :: "'w rclient \<Rightarrow> nat \<Rightarrow> syscall" where
  "status_line st i = Misc (''stage='' @ nat_str i @ '' '' @ int_str (player (cp st) i STAGE) @ '' '' @
     int_str (player (cp st) i DAMAGE))"

definition show_all_locations :: "(int \<Rightarrow> int \<Rightarrow> string \<Rightarrow> 'w \<Rightarrow> 'w) \<Rightarrow> 'w rclient \<Rightarrow> 'w rclient io" where
  "show_all_locations puts st =
     (let w = foldl (\<lambda>w i. puts (player (cp st) i YPOS) (player (cp st) i XPOS) [to_char (int i + 0x30)] w)
                (win st) (on_my_stage st)
      in io_bind (syscalls
           ([Misc (''stage='' @ int_str (player (cp st) (entry_num st) STAGE) @ ''/'' @ int_str (cfinal st))] @
            map (status_line st) [0..<cnum st]))
           (\<lambda>_. Ret (st\<lparr>win := w\<rparr>)))"

definition init_player :: "nat \<Rightarrow> string" where
  "init_player i = map to_char [1, 2 + int i, 20, 0]"

definition init_data :: "'w rclient \<Rightarrow> 'w rclient" where
  "init_data st =
     (let p = concat (map init_player [0..<cnum st]) @ drop (PLAYER_SIZE * cnum st) (cp st)
      in st\<lparr>cp := p, temp := take PLAYER_SIZE (drop (PLAYER_SIZE * entry_num st) p)\<rparr>)"

text \<open>
  \<^verbatim>\<open>session_init\<close>: the numbers come from the server and are used as they are; numbers out
  of the arrays' range are undefined behaviour. \<open>s0\<close> is the state before.
\<close>

definition race_session_init ::
  "(int \<Rightarrow> int \<Rightarrow> string \<Rightarrow> 'w \<Rightarrow> 'w) \<Rightarrow> char \<Rightarrow> int \<Rightarrow> 'w rclient \<Rightarrow> 'w rclient io" where
  "race_session_init puts before s s0 =
     Sys (Read s RACE_BUF_LENGTH) (\<lambda>r1.
     Sys (Out (takeWhile (\<lambda>c. c \<noteq> NUL) (dat r1))) (\<lambda>_.
     read_line before RACE_BUF_LENGTH (\<lambda>nm.
     Sys (Write s (nm @ [NUL])) (\<lambda>_.
     Sys (Read s RACE_BUF_LENGTH) (\<lambda>r2.
       case scan_int (dat r2) of None \<Rightarrow> Undef | Some (en, _) \<Rightarrow>
     Sys (Out (''Your entry number is '' @ int_str en @ newline)) (\<lambda>_.
     Sys (Read s RACE_BUF_LENGTH) (\<lambda>r3.
       case scan_int (dat r3) of None \<Rightarrow> Undef | Some (n, rest) \<Rightarrow>
       case scan_int rest of None \<Rightarrow> Undef | Some (f, _) \<Rightarrow>
     Sys (Out (''players are '' @ int_str n @ newline)) (\<lambda>_.
     Sys (Out (''final stage is '' @ int_str f @ newline)) (\<lambda>_.
       if n < 0 \<or> int MAX_PLAYERS < n \<or> en < 0 \<or> int MAX_PLAYERS \<le> en then Undef else
       let st = s0\<lparr>csoc := s, entry_num := nat en, cnum := nat n, cfinal := f\<rparr> in
     io_bind (syscalls (map Misc [''signals'', ''initscr'', ''noecho'', ''crmode'', ''nonl'',
       ''newwin win1 22 12 1 10'', ''newwin win2 11 25 5 40'', ''box win1'', ''box win2''])) (\<lambda>_.
     io_bind (new_stage puts 1 st) (\<lambda>(_, st1).
     let st2 = init_data st1 in
     io_bind (syscalls [Misc (''Entry Num='' @ int_str en), Misc ''num  stage  damage'', Misc ''*'']) (\<lambda>_.
     show_all_locations puts st2))))))))))))"

definition race_client_ending :: "'w rclient \<Rightarrow> 'w rclient io" where
  "race_client_ending st =
     Sys (Misc (if final_state st = 0 then ''Goal in, Wait!'' else ''Crashed, Wait!'')) (\<lambda>_.
     Sys (Read (csoc st) (GRADE_SIZE * cnum st)) (\<lambda>r.
       let st1 = st\<lparr>cg := overlay (dat r) (cg st)\<rparr> in
     io_bind (syscalls (map (\<lambda>i. Misc (''['' @ nat_str (i + 1) @ ''] '' @
         int_str (schar (cg st1 ! (i * GRADE_SIZE + ENTRYNUM))) @ '': '' @
         takeWhile (\<lambda>c. c \<noteq> NUL) (drop (i * GRADE_SIZE + ENTRYNAME) (cg st1)))) [0..<cnum st])) (\<lambda>_.
     Sys Getchar (\<lambda>_. Ret st1))))"

primrec race_client_loop ::
  "(int \<Rightarrow> int \<Rightarrow> string \<Rightarrow> 'w \<Rightarrow> 'w) \<Rightarrow> (int \<Rightarrow> int \<Rightarrow> 'w \<Rightarrow> char) \<Rightarrow> nat \<Rightarrow> 'w rclient \<Rightarrow> 'w rclient io" where
  "race_client_loop puts inch 0 st = Cut"
| "race_client_loop puts inch (Suc k) st =
     (if cflag st \<noteq> 0 then
        io_bind (get_my_location puts inch st) (\<lambda>(fl, st1).
        io_bind (send_my_data st1) (\<lambda>_.
        io_bind (recv_all_data (del_all_locations puts st1)) (\<lambda>st2.
        io_bind (show_all_locations puts st2) (\<lambda>st3.
          race_client_loop puts inch k (st3\<lparr>cflag := fl\<rparr>)))))
      else
        io_bind (race_client_ending st) (\<lambda>_.
          Sys (Misc ''endwin'') (\<lambda>_. Sys (Misc ''echo'') (\<lambda>_. Halt 1))))"

definition race_client ::
  "(int \<Rightarrow> int \<Rightarrow> string \<Rightarrow> 'w \<Rightarrow> 'w) \<Rightarrow> (int \<Rightarrow> int \<Rightarrow> 'w \<Rightarrow> char) \<Rightarrow> char \<Rightarrow> nat \<Rightarrow> 'w rclient \<Rightarrow> 'w rclient io" where
  "race_client puts inch before k s0 =
     Sys (Out ''input server's hostname: '') (\<lambda>_.
     read_line before 64 (\<lambda>hostname.
     io_bind (setup_client hostname PORT_race) (\<lambda>s.
       if s = - 1 then Halt 1
       else io_bind (race_session_init puts before s s0) (\<lambda>st. race_client_loop puts inch k (st\<lparr>cflag := 1\<rparr>)))))"

section \<open>The table of grades\<close>

text \<open>The entry at a place of the table: the number of the player and its name.\<close>

definition grade :: "string \<Rightarrow> nat \<Rightarrow> char \<times> string" where
  "grade g k = (let b = take GRADE_SIZE (drop (k * GRADE_SIZE) g)
                in (hd b, takeWhile (\<lambda>c. c \<noteq> NUL) (tl b)))"

lemma grade_split:
  assumes "g = A @ B @ C" and "length A = k * GRADE_SIZE" and "length B = GRADE_SIZE"
    and "B = c # nm @ NUL # D" and "NUL \<notin> set nm"
  shows "grade g k = (c, nm)"
proof -
  have "take GRADE_SIZE (drop (k * GRADE_SIZE) g) = B" using assms(1-3) by simp
  moreover have "takeWhile (\<lambda>c. c \<noteq> NUL) (nm @ NUL # D) = nm"
    using assms(5) by (subst takeWhile_append2) auto
  ultimately show ?thesis using assms(4) by (simp add: grade_def)
qed

lemma grade_other:
  assumes "length A = k * GRADE_SIZE" and "length B = GRADE_SIZE" and "length B' = GRADE_SIZE" and "k' \<noteq> k"
  shows "grade (A @ B @ C) k' = grade (A @ B' @ C) k'"
proof -
  have "take GRADE_SIZE (drop (k' * GRADE_SIZE) (A @ B @ C)) = take GRADE_SIZE (drop (k' * GRADE_SIZE) (A @ B' @ C))"
  proof (cases "k' < k")
    case True
    then have "Suc k' * GRADE_SIZE \<le> length A" using assms(1) by (simp only: mult_le_mono1 Suc_le_eq)
    then have "k' * GRADE_SIZE + GRADE_SIZE \<le> length A" by simp
    then show ?thesis by simp
  next
    case False
    then have "Suc k * GRADE_SIZE \<le> k' * GRADE_SIZE" using assms(4) by (intro mult_le_mono1) simp
    then have "length A + GRADE_SIZE \<le> k' * GRADE_SIZE" using assms(1) by simp
    then show ?thesis using assms(2,3) by simp
  qed
  then show ?thesis by (simp add: grade_def)
qed

lemma put_grade_ok:
  assumes "length (rg st) = MAX_PLAYERS * GRADE_SIZE" and "k < MAX_PLAYERS" and "length (cname beyond st i) \<le> 14"
  shows "\<exists>g. put_grade beyond st (int k) i = Some g \<and> length g = MAX_PLAYERS * GRADE_SIZE \<and>
    grade g k = (to_char (int i), cname beyond st i) \<and> (\<forall>k'. k' \<noteq> k \<longrightarrow> grade g k' = grade (rg st) k')"
proof -
  let ?p = "k * GRADE_SIZE" and ?nm = "cname beyond st i" and ?c = "to_char (int i)"
  define A where "A = take ?p (rg st)"
  define B where "B = take GRADE_SIZE (drop ?p (rg st))"
  define C where "C = drop (?p + GRADE_SIZE) (rg st)"
  have b: "?p + GRADE_SIZE \<le> length (rg st)"
    using assms(1,2) mult_le_mono1 [of "Suc k" MAX_PLAYERS GRADE_SIZE] by simp
  have r: "rg st = A @ B @ C"
    unfolding A_def B_def C_def by (metis append_take_drop_id drop_drop add.commute)
  have l: "length A = ?p" "length B = GRADE_SIZE" using b by (simp_all add: A_def B_def)
  let ?B' = "?c # ?nm @ NUL # drop (length ?nm + 2) B"
  have lB: "length ?B' = GRADE_SIZE" using l assms(3) by (simp add: GRADE_SIZE_def)
  have "B = hd B # tl B" using l by (cases B) (simp_all add: GRADE_SIZE_def)
  then have "(rg st)[?p := ?c] = A @ (?c # tl B) @ C"
    unfolding r using l by (metis append_Cons list_update_length)
  then have "strcpy_at ((rg st)[?p + ENTRYNUM := ?c]) (?p + ENTRYNAME) ?nm =
      A @ [?c] @ ?nm @ [NUL] @ drop (length ?nm + 1) (tl B @ C)"
    using l by (simp add: strcpy_at_def ENTRYNUM_def ENTRYNAME_def)
  also have "drop (length ?nm + 1) (tl B @ C) = drop (length ?nm + 2) B @ C"
    using l assms(3) by (cases B) (simp_all add: GRADE_SIZE_def)
  finally have g: "strcpy_at ((rg st)[?p + ENTRYNUM := ?c]) (?p + ENTRYNAME) ?nm = A @ ?B' @ C" by simp
  have fit: "\<not> length (rg st) < ?p + ENTRYNAME + length ?nm + 1"
    using b assms(3) by (simp add: GRADE_SIZE_def ENTRYNAME_def)
  have "put_grade beyond st (int k) i = Some (A @ ?B' @ C)"
    using fit g by (simp add: put_grade_def Let_def)
  moreover have "NUL \<notin> set ?nm" by (auto simp: cname_def dest: set_takeWhileD)
  then have "grade (A @ ?B' @ C) k = (?c, ?nm)"
    using grade_split [OF refl l(1) lB refl] by blast
  moreover have "grade (A @ ?B' @ C) k' = grade (rg st) k'" if "k' \<noteq> k" for k'
    unfolding r using l lB that by (intro grade_other)
  moreover have "length (A @ ?B' @ C) = length (rg st)" unfolding r using lB l by simp
  ultimately show ?thesis using assms(1) by metis
qed

text \<open>
  The contract: \<open>R\<close> are the players that reached the goal, in order, and \<open>C\<close> the crashed ones
  in order; the table ranks \<open>R\<close> from the top and \<open>C\<close> from the bottom.
\<close>

definition ranked :: "string \<Rightarrow> race \<Rightarrow> nat list \<Rightarrow> nat list \<Rightarrow> bool" where
  "ranked beyond st R C \<longleftrightarrow> length (rg st) = MAX_PLAYERS * GRADE_SIZE \<and> rnum st \<le> MAX_PLAYERS \<and>
     length R = reached st \<and> length C = crashed st \<and> reached st + crashed st \<le> rnum st \<and>
     (\<forall>i. length (cname beyond st i) \<le> 14) \<and>
     (\<forall>k<length R. grade (rg st) k = (to_char (int (R ! k)), cname beyond st (R ! k))) \<and>
     (\<forall>k<length C. grade (rg st) (rnum st - 1 - k) = (to_char (int (C ! k)), cname beyond st (C ! k)))"

lemma cname_update [simp]:
  "cname beyond (st\<lparr>rg := g\<rparr>) = cname beyond st"
  "cname beyond (st\<lparr>reached := n\<rparr>) = cname beyond st"
  "cname beyond (st\<lparr>crashed := n\<rparr>) = cname beyond st"
  by (simp_all add: cname_def fun_eq_iff)

lemma note_goal_ranked:
  assumes "ranked beyond st R C" and "reached st + crashed st < rnum st" and "player (rp st) i STAGE > rfinal st"
  shows "\<exists>st'. note_goal beyond i st = Some st' \<and> ranked beyond st' (R @ [i]) C"
proof -
  have r: "length (rg st) = MAX_PLAYERS * GRADE_SIZE" "rnum st \<le> MAX_PLAYERS" "length (cname beyond st i) \<le> 14"
    "length R = reached st" "length C = crashed st"
    using assms(1) by (simp_all add: ranked_def)
  have k: "reached st < MAX_PLAYERS" using r assms(2) by simp
  obtain g where g: "put_grade beyond st (int (reached st)) i = Some g" "length g = MAX_PLAYERS * GRADE_SIZE"
    "grade g (reached st) = (to_char (int i), cname beyond st i)"
    "\<forall>k'. k' \<noteq> reached st \<longrightarrow> grade g k' = grade (rg st) k'"
    using put_grade_ok [OF r(1) k r(3)] by blast
  let ?st' = "st\<lparr>rg := g, reached := reached st + 1\<rparr>"
  have "ranked beyond ?st' (R @ [i]) C"
    using assms(1,2) g r by (auto simp: ranked_def nth_append less_Suc_eq)
  then show ?thesis using g(1) assms(3) by (simp add: note_goal_def)
qed

lemma note_crash_ranked:
  assumes "ranked beyond st R C" and "reached st + crashed st < rnum st" and "player (rp st) i DAMAGE \<ge> MAX_DAMAGE"
  shows "\<exists>st'. note_crash beyond i st = Some st' \<and> ranked beyond st' R (C @ [i])"
proof -
  have r: "length (rg st) = MAX_PLAYERS * GRADE_SIZE" "rnum st \<le> MAX_PLAYERS" "length (cname beyond st i) \<le> 14"
    "length R = reached st" "length C = crashed st"
    using assms(1) by (simp_all add: ranked_def)
  let ?k = "rnum st - 1 - crashed st"
  have k: "?k < MAX_PLAYERS" "int (rnum st) - int (crashed st) - 1 = int ?k" using r assms(2) by auto
  obtain g where g: "put_grade beyond st (int ?k) i = Some g" "length g = MAX_PLAYERS * GRADE_SIZE"
    "grade g ?k = (to_char (int i), cname beyond st i)"
    "\<forall>k'. k' \<noteq> ?k \<longrightarrow> grade g k' = grade (rg st) k'"
    using put_grade_ok [OF r(1) k(1) r(3)] by blast
  let ?st' = "st\<lparr>rg := g, crashed := crashed st + 1\<rparr>"
  have a: "grade g k' = (to_char (int (R ! k')), cname beyond st (R ! k'))" if "k' < length R" for k'
    using that assms(1,2) g(4) r by (auto simp: ranked_def)
  have b: "grade g (rnum st - 1 - k') = (to_char (int ((C @ [i]) ! k')), cname beyond st ((C @ [i]) ! k'))"
    if "k' < Suc (length C)" for k'
  proof (cases "k' = length C")
    case True
    then show ?thesis using g(3) r by (simp add: nth_append)
  next
    case False
    then have "k' < length C" using that by simp
    then show ?thesis using assms(1,2) g(4) r by (auto simp: ranked_def nth_append)
  qed
  have "ranked beyond ?st' R (C @ [i])"
    using assms(1,2) a b g(2) unfolding ranked_def by simp
  then show ?thesis using g(1) assms(3) k(2) by (simp add: note_crash_def)
qed

section \<open>The course\<close>

lemma tget_tadd:
  assumes "length (temp st) = PLAYER_SIZE" and "f < PLAYER_SIZE" and "- 128 \<le> tget st f + d" "tget st f + d < 128"
  shows "tget (tadd f d st) h = (if h = f then tget st f + d else tget st h)"
    and "length (temp (tadd f d st)) = PLAYER_SIZE"
  using assms schar_to_char [of "tget st f + d"] by (auto simp: tadd_def tget_def)

definition on_course :: "'w rclient \<Rightarrow> bool" where
  "on_course st \<longleftrightarrow> length (temp st) = PLAYER_SIZE \<and>
     1 \<le> tget st XPOS \<and> tget st XPOS \<le> STAGE_WIDTH \<and> 1 \<le> tget st YPOS \<and> tget st YPOS \<le> STAGE_LENGTH + 1 \<and>
     0 \<le> tget st DAMAGE \<and> tget st DAMAGE \<le> MAX_DAMAGE \<and> 1 \<le> tget st STAGE \<and> tget st STAGE \<le> cfinal st + 1 \<and>
     cfinal st \<le> MAX_STAGES"

definition racing :: "'w rclient \<Rightarrow> bool" where
  "racing st \<longleftrightarrow> on_course st \<and> tget st DAMAGE < MAX_DAMAGE \<and> tget st STAGE \<le> cfinal st"

lemma step_to_course:
  assumes "racing st" and "a = 0 \<and> (b = 1 \<or> b = - 1) \<or> (a = 1 \<or> a = - 1) \<and> b = 0"
  shows "on_course (step_to inch a b st)" and "cfinal (step_to inch a b st) = cfinal st"
    and "tget (step_to inch a b st) STAGE = tget st STAGE"
proof -
  have l: "length (temp st) = PLAYER_SIZE" using assms(1) by (simp add: racing_def on_course_def)
  note t = tget_tadd [OF l]
  have b: "1 \<le> tget st XPOS" "tget st XPOS \<le> 10" "1 \<le> tget st YPOS" "tget st YPOS \<le> 21"
    "0 \<le> tget st DAMAGE" "tget st DAMAGE < 10"
    using assms(1) by (simp_all add: racing_def on_course_def race_consts)
  have c: "cfinal (tadd f d st) = cfinal st" for f d by (simp add: tadd_def)
  have x: "tget (tadd XPOS a st) h = (if h = XPOS then tget st XPOS + a else tget st h)"
    "length (temp (tadd XPOS a st)) = PLAYER_SIZE" for h
    using t(1) [of XPOS a h] t(2) [of XPOS a] assms(2) b by (auto simp: race_consts)
  have y: "tget (tadd YPOS b st) h = (if h = YPOS then tget st YPOS + b else tget st h)"
    "length (temp (tadd YPOS b st)) = PLAYER_SIZE" for h
    using t(1) [of YPOS b h] t(2) [of YPOS b] assms(2) b by (auto simp: race_consts)
  have d: "tget (tadd DAMAGE 1 st) h = (if h = DAMAGE then tget st DAMAGE + 1 else tget st h)"
    "length (temp (tadd DAMAGE 1 st)) = PLAYER_SIZE" for h
    using t(1) [of DAMAGE 1 h] t(2) [of DAMAGE 1] b by (auto simp: race_consts)
  show "on_course (step_to inch a b st)"
  proof -
    have oc: "on_course st" "tget st DAMAGE < MAX_DAMAGE" using assms(1) by (simp_all add: racing_def)
    have ne: "XPOS \<noteq> YPOS" "XPOS \<noteq> STAGE" "XPOS \<noteq> DAMAGE" "YPOS \<noteq> STAGE" "YPOS \<noteq> DAMAGE" "STAGE \<noteq> DAMAGE"
      by (simp_all add: race_consts)
    consider "check inch st a b" "a \<noteq> 0" | "check inch st a b" "a = 0" | "\<not> check inch st a b" by blast
    then show ?thesis
    proof cases
      case 1
      then have "1 \<le> tget st XPOS + a" "tget st XPOS + a \<le> STAGE_WIDTH"
        by (auto simp: check_def Let_def split: if_splits)
      then show ?thesis using oc 1 ne by (simp add: step_to_def on_course_def x c)
    next
      case 2
      then have "1 \<le> tget st YPOS + b" "tget st YPOS + b \<le> STAGE_LENGTH + 1"
        by (auto simp: check_def Let_def split: if_splits)
      then show ?thesis using oc 2 ne by (simp add: step_to_def on_course_def y c)
    next
      case 3
      then show ?thesis using oc ne by (simp add: step_to_def on_course_def d c)
    qed
  qed
  show "cfinal (step_to inch a b st) = cfinal st" by (simp add: step_to_def c)
  show "tget (step_to inch a b st) STAGE = tget st STAGE"
    by (simp add: step_to_def x y d) (simp add: race_consts)
qed

definition move_ok :: "int \<Rightarrow> 'w rclient \<Rightarrow> bool" where
  "move_ok fl st \<longleftrightarrow> on_course st \<and>
     (fl = 1 \<and> racing st \<or>
      fl = 0 \<and> (final_state st = - 1 \<and> tget st DAMAGE = MAX_DAMAGE \<or> final_state st = 0 \<and> tget st STAGE = cfinal st + 1))"

lemma damage_check_ok:
  assumes "on_course st" and "tget st STAGE \<le> cfinal st"
  shows "case damage_check st of (fl, st') \<Rightarrow> move_ok fl st'"
proof -
  have e: "on_course (st\<lparr>final_state := - 1\<rparr>)" "tget (st\<lparr>final_state := - 1\<rparr>) DAMAGE = tget st DAMAGE"
    using assms by (simp_all add: on_course_def tget_def)
  show ?thesis using assms e by (auto simp: damage_check_def move_ok_def racing_def) (auto simp: on_course_def)
qed

lemma new_stage_run:
  assumes "run os tr (new_stage puts z st) = (Returned (ok, st'), tr')"
  shows "ok = (z \<le> cfinal st) \<and> temp st' = temp st \<and> cfinal st' = cfinal st"
  using assms
  by (auto simp: new_stage_def Let_def run_bind split: if_splits ended.splits prod.splits)

lemma get_my_location_ok:
  assumes "racing st" and "run os tr (get_my_location puts inch st) = (Returned (fl, st'), tr')"
  shows "move_ok fl st'"
proof -
  have st: "case damage_check (step_to inch a b st) of (fl, st') \<Rightarrow> move_ok fl st'"
    if "a = 0 \<and> (b = 1 \<or> b = - 1) \<or> (a = 1 \<or> a = - 1) \<and> b = 0" for a b
    using step_to_course [OF assms(1) that] assms(1) by (intro damage_check_ok) (auto simp: racing_def)
  have id: "case damage_check st of (fl, st') \<Rightarrow> move_ok fl st'"
    using assms(1) by (intro damage_check_ok) (auto simp: racing_def)
  let ?c = "rc (os tr Getchar)"
  show ?thesis
  proof (cases "?c = of_char CHR ''k'' \<and> tget st YPOS = 1")
    case True
    define st1 where "st1 = tadd STAGE 1 st"
    define st2 where "st2 = st1\<lparr>temp := (temp st1)[YPOS := to_char 21]\<rparr>"
    have b: "length (temp st) = PLAYER_SIZE" "1 \<le> tget st STAGE" "tget st STAGE \<le> 10"
      using assms(1) by (simp_all add: racing_def on_course_def race_consts)
    have s1: "tget st1 h = (if h = STAGE then tget st STAGE + 1 else tget st h)" "length (temp st1) = PLAYER_SIZE" for h
      using tget_tadd(1) [OF b(1), of STAGE 1 h] tget_tadd(2) [OF b(1), of STAGE 1] b unfolding st1_def by (auto simp: race_consts)
    have s2: "tget st2 h = (if h = YPOS then 21 else tget st1 h)" for h
      using s1(2) schar_to_char [of 21] by (auto simp: st2_def tget_def race_consts)
    have len: "length (temp st2) = PLAYER_SIZE" using s1(2) by (simp add: st2_def)
    have cf: "cfinal st2 = cfinal st" by (simp add: st2_def st1_def tadd_def)
    have ne: "of_char CHR ''k'' \<noteq> (of_char CHR ''h'' :: int)" "of_char CHR ''k'' \<noteq> (of_char CHR ''j'' :: int)"
      by simp_all
    obtain ok st3 tr3 where n: "run os (tr @ [Getchar]) (new_stage puts (tget st2 STAGE) st2) = (Returned (ok, st3), tr3)"
      and r: "(fl, st') = (if \<not> ok then (0, st3\<lparr>final_state := 0\<rparr>) else damage_check st3)"
      using assms(2) True ne
      by (auto simp: get_my_location_def Let_def run_bind st1_def [symmetric] st2_def [symmetric] split: ended.splits prod.splits if_splits)
    note n' = new_stage_run [OF n]
    have g3: "tget st3 h = tget st2 h" for h using n' by (simp add: tget_def)
    have oc: "on_course st3"
      using assms(1) n' len cf by (simp add: on_course_def racing_def g3 s1 s2 race_consts)
    show ?thesis
    proof (cases ok)
      case False
      have "tget st3 STAGE = cfinal st3 + 1"
        using False n' assms(1) cf by (simp add: g3 s1 s2 racing_def race_consts)
      moreover have "on_course (st3\<lparr>final_state := 0\<rparr>)" "tget (st3\<lparr>final_state := 0\<rparr>) STAGE = tget st3 STAGE"
        using oc by (simp_all add: on_course_def tget_def)
      ultimately show ?thesis using False r by (simp add: move_ok_def)
    next
      case t: True
      then have "tget st3 STAGE \<le> cfinal st3" using n' cf by (simp add: g3)
      from damage_check_ok [OF oc this] t r show ?thesis by auto
    qed
  next
    case False
    then show ?thesis
      using assms(2) st [of "- 1" 0] st [of 1 0] st [of 0 1] st [of 0 "- 1"] id
      by (auto simp: get_my_location_def Let_def split: if_splits)
  qed
qed

lemma player_stored:
  assumes "i * PLAYER_SIZE \<le> length mem" and "length d = PLAYER_SIZE" and "f < PLAYER_SIZE"
  shows "player (store_at mem (i * PLAYER_SIZE) d) i f = schar (d ! f)"
  using assms by (simp add: player_def store_at_def nth_append)

lemma cname_rp [simp]: "cname beyond (st\<lparr>rp := p\<rparr>) = cname beyond st"
  by (simp add: cname_def fun_eq_iff)

section \<open>Properties of the race\<close>


definition race_st1 :: race where
  "race_st1 = race0\<lparr>rsoc := [4, 5, 0, 0, 0], rnum := 2, rfinal := 3\<rparr>"


text \<open>
  C29: Whatever key the player presses and whatever the course looks like, the player stays on
  the course (columns 1 to 10, rows 1 to 21) and the damage never passes the maximum; the
  race goes on exactly as long as the damage is below it and the stage is not past the final
  one, and the reason for its end is recorded.
\<close>

theorem race_moves_stay:
  assumes "racing st" and "run os tr (get_my_location puts inch st) = (Returned (fl, st'), tr')"
  shows "on_course st' \<and> (fl = 1 \<and> racing st' \<or>
    fl = 0 \<and> (final_state st' = - 1 \<and> tget st' DAMAGE = MAX_DAMAGE \<or>
              final_state st' = 0 \<and> tget st' STAGE = cfinal st' + 1))"
  using get_my_location_ok [OF assms] by (simp add: move_ok_def)

definition runner :: "nat rclient" where
  "runner = \<lparr>cp = replicate 20 NUL, temp = map to_char [1, 1, 20, 9], cg = '''', cnum = 1, cfinal = 3, csoc = 4,
     entry_num = 0, cflag = 1, final_state = 0, win = 0\<rparr>"

theorem race_moves_stay_witness:
  "\<exists>st' tr'. run (\<lambda>_ _. rint 104) [] (get_my_location (\<lambda>_ _ _ w. w) (\<lambda>_ _ _. CHR '' '') runner) =
     (Returned (0, st'), tr') \<and> final_state st' = - 1 \<and> on_course st'"
proof -
  have t: "tget runner STAGE = 1" "tget runner XPOS = 1" "tget runner YPOS = 20" "tget runner DAMAGE = 9"
    by (simp_all add: tget_def runner_def race_consts schar_to_char)
  have l: "length (temp runner) = PLAYER_SIZE" "cfinal runner = 3" by (simp_all add: runner_def race_consts)
  have rc: "racing runner" using t l by (simp add: racing_def on_course_def race_consts)
  have nc: "\<not> check (\<lambda>_ _ _. CHR '' '') runner (- 1) 0" using t by (simp add: check_def)
  have d: "tget (tadd DAMAGE 1 runner) DAMAGE = 10"
    using tget_tadd(1) [OF l(1), of DAMAGE 1 DAMAGE] t by (simp add: race_consts)
  have "run (\<lambda>_ _. rint 104) [] (get_my_location (\<lambda>_ _ _ w. w) (\<lambda>_ _ _. CHR '' '') runner) =
      (Returned (0, (tadd DAMAGE 1 runner)\<lparr>final_state := - 1\<rparr>), [Getchar])"
    using nc d by (simp add: get_my_location_def Let_def step_to_def damage_check_def MAX_DAMAGE_def)
  from this race_moves_stay [OF rc this] show ?thesis by auto
qed

end
