(* ===== verification/Tag.thy ===== *)
theory Tag
  imports Mylib
begin

text \<open>
  \<^verbatim>\<open>c/network/tag\<close>: two players on one board; each moves its own player by keys and sends
  the new position as text, which the other side reads back.
\<close>

section \<open>Data\<close>

definition TAG_BUF_LEN :: nat where
  "TAG_BUF_LEN = 20"

definition MIN_X :: int where
  "MIN_X = 1"

definition MIN_Y :: int where
  "MIN_Y = 1"

definition MAX_X :: int where
  "MAX_X = 60"

definition MAX_Y :: int where
  "MAX_Y = 20"

definition PORT_tag :: int where
  "PORT_tag = 50001"

lemmas tag_consts = MIN_X_def MIN_Y_def MAX_X_def MAX_Y_def TAG_BUF_LEN_def

record tplayer =
  px :: int
  py :: int
  look :: char

record tag =
  tsoc :: int
  me :: tplayer
  peer :: tplayer
  tbuf :: string

section \<open>The session\<close>

definition tag_session_init :: "int \<Rightarrow> char \<Rightarrow> int \<Rightarrow> int \<Rightarrow> char \<Rightarrow> int \<Rightarrow> int \<Rightarrow> tag io" where
  "tag_session_init soc mc mx my pc x y =
     io_bind (syscalls (map Misc [''initscr'', ''signal SIGINT die'', ''newwin 22 62 0 0'', ''box win'',
       ''cbreak'', ''noecho'']))
       (\<lambda>_. Ret \<lparr>tsoc = soc, me = \<lparr>px = mx, py = my, look = mc\<rparr>, peer = \<lparr>px = x, py = y, look = pc\<rparr>,
                 tbuf = replicate TAG_BUF_LEN NUL\<rparr>)"

definition wmove :: "int \<Rightarrow> int \<Rightarrow> syscall" where
  "wmove y x = Misc (''wmove '' @ int_str y @ '' '' @ int_str x)"

definition show_player :: "tplayer \<Rightarrow> syscall list" where
  "show_player who = [wmove (py who) (px who), Misc (''waddch '' @ [look who]), wmove (py who) (px who),
     Misc ''wrefresh'']"

definition hide_player :: "tplayer \<Rightarrow> syscall list" where
  "hide_player who = [wmove (py who) (px who), Misc ''waddch  '']"

text \<open>The new position for a key.\<close>

definition move :: "tplayer \<Rightarrow> int \<Rightarrow> tplayer" where
  "move who c =
     (if c = of_char CHR ''h'' then (if px who > MIN_X then who\<lparr>px := px who - 1\<rparr> else who)
      else if c = of_char CHR ''j'' then (if py who < MAX_Y then who\<lparr>py := py who + 1\<rparr> else who)
      else if c = of_char CHR ''k'' then (if py who > MIN_Y then who\<lparr>py := py who - 1\<rparr> else who)
      else if c = of_char CHR ''l'' then (if px who < MAX_X then who\<lparr>px := px who + 1\<rparr> else who)
      else who)"

definition position_text :: "tplayer \<Rightarrow> string" where
  "position_text who = int_str (px who) @ '' '' @ int_str (py who) @ newline"

text \<open>
  \<^verbatim>\<open>update\<close>: the flag, the player and the buffer. A text of more than 19 characters would
  run over the buffer, \<open>None\<close>.
\<close>

definition update :: "tplayer \<Rightarrow> int \<Rightarrow> string \<Rightarrow> (bool \<times> tplayer \<times> string) option" where
  "update who c buf =
     (if c = of_char CHR ''q'' then Some (False, who, buf[0 := CHR ''q''])
      else
        (let who1 = move who c in
         if TAG_BUF_LEN \<le> length (position_text who1) then None
         else Some (True, who1, strcpy_at buf 0 (position_text who1))))"

text \<open>\<^verbatim>\<open>sscanf("%d %d")\<close>: a number that is missing leaves its variable as it is.\<close>

definition interpret_buf :: "tplayer \<Rightarrow> string \<Rightarrow> bool \<times> tplayer" where
  "interpret_buf who buf =
     (if buf ! 0 = CHR ''q'' then (False, who)
      else (True,
        case scan_int (takeWhile (\<lambda>c. c \<noteq> NUL) buf) of
          None \<Rightarrow> who
        | Some (x, rest) \<Rightarrow>
            (case scan_int rest of
               None \<Rightarrow> who\<lparr>px := x\<rparr>
             | Some (y, _) \<Rightarrow> who\<lparr>px := x, py := y\<rparr>)))"

definition my_key :: "tag \<Rightarrow> (bool \<times> tag) io" where
  "my_key st =
     Sys Getchar (\<lambda>r.
     io_bind (syscalls (hide_player (me st))) (\<lambda>_.
       case update (me st) (rc r) (tbuf st) of
         None \<Rightarrow> Undef
       | Some (fl, me1, b) \<Rightarrow>
           io_bind (syscalls (show_player me1 @ [Write (tsoc st) (take TAG_BUF_LEN b)]))
             (\<lambda>_. Ret (fl, st\<lparr>me := me1, tbuf := b\<rparr>))))"

definition peer_message :: "tag \<Rightarrow> (bool \<times> tag) io" where
  "peer_message st =
     Sys (Read (tsoc st) TAG_BUF_LEN) (\<lambda>r.
       let b = overlay (dat r) (tbuf st) in
     io_bind (syscalls (hide_player (peer st))) (\<lambda>_.
       case interpret_buf (peer st) b of
         (fl, peer1) \<Rightarrow> io_bind (syscalls (show_player peer1)) (\<lambda>_. Ret (fl, st\<lparr>peer := peer1, tbuf := b\<rparr>))))"

definition tag_die :: "'a io" where
  "tag_die = Sys (Misc ''endwin'') (\<lambda>_. Halt 0)"

primrec tag_rounds :: "nat \<Rightarrow> tag \<Rightarrow> tag io" where
  "tag_rounds 0 st = Cut"
| "tag_rounds (Suc k) st =
     Sys (Select [0, tsoc st]) (\<lambda>r.
       io_bind (if 0 \<in> set (ready r) then my_key st else Ret (True, st)) (\<lambda>(fl, st1).
         if \<not> fl then tag_die
         else io_bind (if tsoc st1 \<in> set (ready r) then peer_message st1 else Ret (True, st1)) (\<lambda>(fl2, st2).
           if \<not> fl2 then tag_die else tag_rounds k st2)))"

definition tag_session_loop :: "nat \<Rightarrow> tag \<Rightarrow> tag io" where
  "tag_session_loop k st = io_bind (syscalls (show_player (me st))) (\<lambda>_. tag_rounds k st)"

definition tag_client :: "char \<Rightarrow> nat \<Rightarrow> tag io" where
  "tag_client before k =
     Sys (Out ''input server's hostname: '') (\<lambda>_.
     read_line before 64 (\<lambda>hostname.
     io_bind (setup_client hostname PORT_tag) (\<lambda>soc.
       if soc = - 1 then Halt 1
       else io_bind (tag_session_init soc CHR ''x'' 10 10 CHR ''o'' 1 1) (tag_session_loop k))))"

definition tag_server :: "nat \<Rightarrow> tag io" where
  "tag_server k =
     io_bind (setup_server PORT_tag) (\<lambda>soc.
       if soc = - 1 then Halt 1
       else io_bind (tag_session_init soc CHR ''o'' 1 1 CHR ''x'' 10 10) (tag_session_loop k))"

section \<open>The board\<close>

definition on_board :: "tplayer \<Rightarrow> bool" where
  "on_board p \<longleftrightarrow> MIN_X \<le> px p \<and> px p \<le> MAX_X \<and> MIN_Y \<le> py p \<and> py p \<le> MAX_Y"

interpretation walk: machine on_board move
  by unfold_locales (auto simp: move_def on_board_def tag_consts)

section \<open>The messages\<close>

lemma int_str_short: "0 \<le> i \<Longrightarrow> i < 100 \<Longrightarrow> length (int_str i) \<le> 2"
proof -
  assume i: "0 \<le> i" "i < 100"
  then have "nat i < 100" by simp
  moreover have "length (nat_str n) \<le> 2" if "n < 100" for n :: nat
  proof (cases "n < 10")
    case True
    then show ?thesis by (simp add: nat_str.simps [of n])
  next
    case False
    have "n div 10 < 10" using that by simp
    with False show ?thesis by (simp add: nat_str.simps [of n] nat_str.simps [of "n div 10"])
  qed
  ultimately show ?thesis using i by (simp add: int_str_def)
qed

lemma position_text_length: "on_board p \<Longrightarrow> length (position_text p) \<le> 6"
  using int_str_short [of "px p"] int_str_short [of "py p"]
  by (auto simp: position_text_def on_board_def tag_consts newline_def)

definition pos_text :: "int \<times> int \<Rightarrow> string" where
  "pos_text p = int_str (fst p) @ '' '' @ int_str (snd p) @ newline"

definition pos_read :: "string \<Rightarrow> (int \<times> int) option" where
  "pos_read s =
     (case scan_int s of
        None \<Rightarrow> None
      | Some (x, rest) \<Rightarrow> (case scan_int rest of None \<Rightarrow> None | Some (y, _) \<Rightarrow> Some (x, y)))"

interpretation position: codec "\<lambda>_. True" pos_text pos_read
proof
  fix p :: "int \<times> int"
  have s: "no_digit ('' '' @ t)" for t by (simp add: no_digit_def c_isdigit_def)
  have n: "no_digit newline" by (simp add: no_digit_def c_isdigit_def newline_def)
  have "scan_int ('' '' @ int_str (snd p) @ newline) = Some (snd p, newline)"
    using scan_int_int_str [OF n] scan_int_space [of "CHR '' ''"] by (simp add: c_isspace_def)
  with scan_int_int_str [OF s, of "fst p" "int_str (snd p) @ newline"]
  show "pos_read (pos_text p) = Some p" by (simp add: pos_read_def pos_text_def)
qed

lemma int_str_chars: "c \<in> set (int_str i) \<Longrightarrow> c_isdigit c \<or> c = CHR ''-''"
  by (auto simp: int_str_def dest: nat_str_digits split: if_splits)

lemma pos_text_no_NUL: "NUL \<notin> set (pos_text p)"
proof
  assume "NUL \<in> set (pos_text p)"
  then have "NUL \<in> set (int_str (fst p)) \<or> NUL \<in> set (int_str (snd p))"
    by (auto simp: pos_text_def newline_def NUL_def)
  then show False using int_str_chars by (fastforce simp: NUL_def c_isdigit_def)
qed

text \<open>What a player sends is read back by the other side as its position.\<close>

lemma interpret_update:
  assumes "on_board who" and "length buf = TAG_BUF_LEN" and "c \<noteq> of_char CHR ''q''"
  shows "\<exists>b. update who c buf = Some (True, move who c, b) \<and> length b = TAG_BUF_LEN \<and>
    interpret_buf p (take TAG_BUF_LEN b) = (True, p\<lparr>px := px (move who c), py := py (move who c)\<rparr>)"
proof -
  let ?w = "move who c" and ?t = "position_text (move who c)"
  have on: "on_board ?w" by (rule walk.step_inv [OF assms(1)])
  have l: "length ?t < TAG_BUF_LEN" using position_text_length [OF on] by (simp add: TAG_BUF_LEN_def)
  let ?b = "strcpy_at buf 0 ?t"
  have pt: "?t = pos_text (px ?w, py ?w)" by (simp add: position_text_def pos_text_def)
  have c0: "takeWhile (\<lambda>c. c \<noteq> NUL) ?b = ?t"
    using cstr_at_strcpy_same [of 0 buf ?t] pos_text_no_NUL unfolding pt by (simp add: cstr_at_def)
  have "pos_read ?t = Some (px ?w, py ?w)" unfolding pt by (rule position.dec_enc) simp
  then obtain r1 r2 where r: "scan_int ?t = Some (px ?w, r1)" "scan_int r1 = Some (py ?w, r2)"
    by (auto simp: pos_read_def split: option.splits)
  have q: "?b ! 0 \<noteq> CHR ''q''"
  proof -
    obtain c1 cs where i: "int_str (px ?w) = c1 # cs"
      using nat_str_nonempty by (cases "int_str (px ?w)") (auto simp: int_str_def split: if_splits)
    then have "?b ! 0 = c1" by (simp add: strcpy_at_def position_text_def)
    moreover have "c_isdigit c1 \<or> c1 = CHR ''-''" using int_str_chars [of c1 "px ?w"] i by simp
    ultimately show ?thesis by (auto simp: c_isdigit_def)
  qed
  have len: "length ?b = TAG_BUF_LEN" using strcpy_at_length [of 0 ?t buf] l assms(2) by simp
  have "interpret_buf p ?b = (True, p\<lparr>px := px ?w, py := py ?w\<rparr>)"
    using q by (simp add: interpret_buf_def c0 r)
  then show ?thesis using assms(3) l len by (simp add: update_def Let_def)
qed

section \<open>Properties of the game of tag\<close>

text \<open>
  C32: After a key of one player the message in its buffer makes the other side's copy of
  that player stand at the same place: for every key but \<open>q\<close>, every player on the board and
  every contents of the buffers, in the round of the sender and of the receiver.
\<close>

theorem tag_positions_agree:
  assumes "on_board (me a)" and "length (tbuf a) = TAG_BUF_LEN" and "length (tbuf b) = TAG_BUF_LEN"
    and "rc (os1 tr1 Getchar) = c" and "c \<noteq> of_char CHR ''q''"
  shows "\<exists>a' m tr1'. run os1 tr1 (my_key a) = (Returned (True, a'), tr1' @ [Write (tsoc a) m]) \<and>
    on_board (me a') \<and> length m = TAG_BUF_LEN \<and>
    (dat (os2 tr2 (Read (tsoc b) TAG_BUF_LEN)) = m \<longrightarrow>
      (\<exists>b' tr2'. run os2 tr2 (peer_message b) = (Returned (True, b'), tr2') \<and>
        px (peer b') = px (me a') \<and> py (peer b') = py (me a') \<and> me b' = me b))"
proof -
  obtain m where m: "update (me a) c (tbuf a) = Some (True, move (me a) c, m)" "length m = TAG_BUF_LEN"
    "\<And>p. interpret_buf p (take TAG_BUF_LEN m) = (True, p\<lparr>px := px (move (me a) c), py := py (move (me a) c)\<rparr>)"
    using interpret_update [OF assms(1,2,5)] by (metis (no_types, lifting) option.inject prod.inject)
  let ?a' = "a\<lparr>me := move (me a) c, tbuf := m\<rparr>"
  have s: "run os1 tr1 (my_key a) = (Returned (True, ?a'),
      (tr1 @ [Getchar] @ hide_player (me a) @ show_player (move (me a) c)) @ [Write (tsoc a) m])"
    using m assms(4) by (simp add: my_key_def run_bind)
  have on: "on_board (me ?a')" using walk.step_inv [OF assms(1)] by simp
  have p: "\<exists>b' tr2'. run os2 tr2 (peer_message b) = (Returned (True, b'), tr2') \<and>
      px (peer b') = px (me ?a') \<and> py (peer b') = py (me ?a') \<and> me b' = me b"
    if "dat (os2 tr2 (Read (tsoc b) TAG_BUF_LEN)) = m"
  proof -
    have "overlay m (tbuf b) = m" using m(2) assms(3) by (simp add: overlay_def)
    then show ?thesis using m(2,3) that by (simp add: peer_message_def run_bind Let_def)
  qed
  from s on m(2) p show ?thesis by blast
qed

definition tag_a :: tag where
  "tag_a = \<lparr>tsoc = 4, me = \<lparr>px = 60, py = 7, look = CHR ''x''\<rparr>, peer = \<lparr>px = 1, py = 1, look = CHR ''o''\<rparr>,
     tbuf = replicate TAG_BUF_LEN NUL\<rparr>"

theorem tag_positions_agree_witness:
  "\<exists>a' m tr1'. run (\<lambda>_ _. rint 106) [] (my_key tag_a) = (Returned (True, a'), tr1' @ [Write 4 m]) \<and>
    length m = TAG_BUF_LEN"
  using tag_positions_agree [of tag_a tag_a "\<lambda>_ _. rint 106" "[]" 106 "\<lambda>_ _. rint 106" "[]"]
  by (auto simp: tag_a_def on_board_def tag_consts)

end
