(* ===== verification/Sanmoku.thy ===== *)
theory Sanmoku
  imports Mylib
begin

text \<open>
  \<^verbatim>\<open>c/network/sanmoku\<close>: three in a row on two machines. Each side has its own picture of the
  board, sends its moves as two characters and draws the moves that come in.
\<close>

section \<open>The board\<close>

record goban =
  gsoc :: int
  my_stone :: char
  peer_stone :: char
  plane :: "string list"

text \<open>Five rows of six characters, the last one the terminating \<open>NUL\<close>.\<close>

definition goban_plane0 :: "string list" where
  "goban_plane0 = map (\<lambda>s. s @ [NUL]) [''+123+'', ''a...|'', ''b...|'', ''c...|'', ''+---+'']"

definition goban_init :: "int \<Rightarrow> char \<Rightarrow> char \<Rightarrow> goban" where
  "goban_init s m p = \<lparr>gsoc = s, my_stone = m, peer_stone = p, plane = goban_plane0\<rparr>"

definition goban_show :: "goban \<Rightarrow> unit io" where
  "goban_show g = syscalls (map (\<lambda>row. Out (takeWhile (\<lambda>c. c \<noteq> NUL) row @ newline)) (plane g))"

definition row_of :: "char \<Rightarrow> int" where
  "row_of c = schar c - schar CHR ''a'' + 1"

definition col_of :: "char \<Rightarrow> int" where
  "col_of c = schar c - schar CHR ''0''"

text \<open>A stone outside of the array is undefined behaviour.\<close>

definition put_stone :: "string list \<Rightarrow> int \<Rightarrow> int \<Rightarrow> char \<Rightarrow> string list option" where
  "put_stone pl y x s =
     (if 0 \<le> y \<and> y < 5 \<and> 0 \<le> x \<and> x < 6
      then Some (pl[nat y := (pl ! nat y)[nat x := s]]) else None)"

text \<open>
  \<open>junk\<close> is the uninitialised array \<open>data\<close>. The result is \<open>False\<close> for the code's \<open>-1\<close>. The
  coordinates of the other side are not checked.
\<close>

definition goban_peer_turn :: "string \<Rightarrow> goban \<Rightarrow> (bool \<times> goban) io" where
  "goban_peer_turn junk g =
     Sys (Read (gsoc g) 10) (\<lambda>r.
       let data = overlay (dat r) junk in
       if data ! 0 = CHR ''q'' then Ret (False, g)
       else case put_stone (plane g) (row_of (data ! 0)) (col_of (data ! 1)) (peer_stone g) of
              None \<Rightarrow> Undef
            | Some pl \<Rightarrow> Ret (True, g\<lparr>plane := pl\<rparr>))"

definition valid_move :: "string \<Rightarrow> bool" where
  "valid_move data \<longleftrightarrow>
     \<not> (schar (data ! 0) < schar CHR ''a'' \<or> schar (data ! 0) > schar CHR ''c'' \<or>
        schar (data ! 1) < schar CHR ''1'' \<or> schar (data ! 1) > schar CHR ''3'')"

text \<open>The loop that reads lines until one is a move or \<open>q\<close>; \<open>None\<close> is the \<open>q\<close>.\<close>

primrec read_move :: "nat \<Rightarrow> int \<Rightarrow> string \<Rightarrow> string option io" where
  "read_move 0 s data = Cut"
| "read_move (Suc k) s data =
     Sys (Fgets 0 10) (\<lambda>r.
       let d = (if rc r = - 1 then data else strcpy_at data 0 (dat r)) in
       if d ! 0 = CHR ''q'' then Sys (Write s (take 1 d)) (\<lambda>_. Ret None)
       else if valid_move d then Ret (Some d)
       else read_move k s d)"

definition goban_my_turn :: "nat \<Rightarrow> string \<Rightarrow> goban \<Rightarrow> (bool \<times> goban) io" where
  "goban_my_turn k junk g =
     io_bind (read_move k (gsoc g) junk) (\<lambda>m.
       case m of
         None \<Rightarrow> Ret (False, g)
       | Some data \<Rightarrow>
           (case put_stone (plane g) (row_of (data ! 0)) (col_of (data ! 1)) (my_stone g) of
              None \<Rightarrow> Undef
            | Some pl \<Rightarrow> Sys (Write (gsoc g) (take 10 data)) (\<lambda>_. Ret (True, g\<lparr>plane := pl\<rparr>))))"

definition goban_destroy :: "goban \<Rightarrow> unit io" where
  "goban_destroy g = one_call (Close (gsoc g))"

section \<open>The two programs\<close>

definition PORT_sanmoku :: int where
  "PORT_sanmoku = 50001"

primrec client_game :: "nat \<Rightarrow> string \<Rightarrow> nat \<Rightarrow> goban \<Rightarrow> unit io" where
  "client_game j junk 0 g = Cut"
| "client_game j junk (Suc k) g =
     io_bind (goban_show g) (\<lambda>_.
     Sys (Out (''Go ahead.'' @ newline)) (\<lambda>_.
     io_bind (goban_my_turn j junk g) (\<lambda>(ok, g1).
       if \<not> ok then goban_destroy g1 else
     io_bind (goban_show g1) (\<lambda>_.
     Sys (Out (''Wait.'' @ newline)) (\<lambda>_.
     io_bind (goban_peer_turn junk g1) (\<lambda>(ok2, g2).
       if \<not> ok2 then goban_destroy g2 else client_game j junk k g2))))))"

primrec server_game :: "nat \<Rightarrow> string \<Rightarrow> nat \<Rightarrow> goban \<Rightarrow> unit io" where
  "server_game j junk 0 g = Cut"
| "server_game j junk (Suc k) g =
     io_bind (goban_show g) (\<lambda>_.
     Sys (Out (''Wait.'' @ newline)) (\<lambda>_.
     io_bind (goban_peer_turn junk g) (\<lambda>(ok, g1).
       if \<not> ok then goban_destroy g1 else
     io_bind (goban_show g1) (\<lambda>_.
     Sys (Out (''Go ahead.'' @ newline)) (\<lambda>_.
     io_bind (goban_my_turn j junk g1) (\<lambda>(ok2, g2).
       if \<not> ok2 then goban_destroy g2 else server_game j junk k g2))))))"

definition sanmoku_client :: "char \<Rightarrow> nat \<Rightarrow> string \<Rightarrow> nat \<Rightarrow> unit io" where
  "sanmoku_client before j junk k =
     Sys (Out ''Input server's hostname: '') (\<lambda>_.
     read_line before 64 (\<lambda>hostname.
     io_bind (setup_client hostname PORT_sanmoku) (\<lambda>s.
       if s = - 1 then Halt 1 else client_game j junk k (goban_init s CHR ''x'' CHR ''o''))))"

definition sanmoku_server :: "nat \<Rightarrow> string \<Rightarrow> nat \<Rightarrow> unit io" where
  "sanmoku_server j junk k =
     io_bind (setup_server PORT_sanmoku) (\<lambda>s.
       if s = - 1 then Halt 1 else server_game j junk k (goban_init s CHR ''o'' CHR ''x''))"

section \<open>Moves\<close>

definition board_ok :: "string list \<Rightarrow> bool" where
  "board_ok pl \<longleftrightarrow> length pl = 5 \<and> (\<forall>r\<in>set pl. length r = 6)"

text \<open>The nine fields.\<close>

definition field :: "int \<times> int \<Rightarrow> bool" where
  "field p \<longleftrightarrow> fst p \<in> {1..3} \<and> snd p \<in> {1..3}"

definition move_text :: "int \<times> int \<Rightarrow> string" where
  "move_text p = [to_char (fst p + 96), to_char (snd p + 48)]"

definition move_read :: "string \<Rightarrow> (int \<times> int) option" where
  "move_read d = (if valid_move d then Some (row_of (d ! 0), col_of (d ! 1)) else None)"

lemma schar_letters: "schar CHR ''a'' = 97" "schar CHR ''c'' = 99" "schar CHR ''0'' = 48"
  "schar CHR ''1'' = 49" "schar CHR ''3'' = 51"
  by (simp_all add: schar_def)

interpretation moves: codec field move_text move_read
  by unfold_locales
     (auto simp: field_def move_text_def move_read_def valid_move_def row_of_def col_of_def schar_to_char schar_letters)

lemma valid_move_field: "valid_move d \<Longrightarrow> field (row_of (d ! 0), col_of (d ! 1))"
  by (auto simp: valid_move_def field_def row_of_def col_of_def schar_letters)

lemma put_stone_field:
  "field (y, x) \<Longrightarrow> put_stone pl y x s = Some (pl[nat y := (pl ! nat y)[nat x := s]])"
  by (simp add: put_stone_def field_def)

lemma board_ok_put: "board_ok pl \<Longrightarrow> put_stone pl y x s = Some pl' \<Longrightarrow> board_ok pl'"
  using nth_mem [of "nat y" pl]
  by (auto simp: board_ok_def put_stone_def split: if_splits dest!: set_update_subset_insert [THEN subsetD])

text \<open>A stone on a field leaves the frame alone: row 0 and 4, column 0 and the right border.\<close>

lemma put_stone_frame:
  assumes "field (y, x)" and "put_stone pl y x s = Some pl'" and "board_ok pl" and "i < 5" "j < 6"
    and "(int i, int j) \<noteq> (y, x)"
  shows "pl' ! i ! j = pl ! i ! j"
  using assms by (auto simp: put_stone_def field_def board_ok_def nth_list_update split: if_splits)

lemma read_move_valid:
  "run os tr (read_move k s data) = (Returned (Some d), tr') \<Longrightarrow> valid_move d"
  by (induction k arbitrary: data tr) (auto simp: Let_def split: if_splits)

lemma read_move_length:
  assumes "length data = 10" and "\<forall>tr. length (dat (os tr (Fgets 0 10))) < 10"
    and "run os tr (read_move k s data) = (Returned (Some d), tr')"
  shows "length d = 10"
  using assms
proof (induction k arbitrary: data tr)
  case (Suc k)
  let ?r = "os tr (Fgets 0 10)"
  let ?d = "if rc ?r = - 1 then data else strcpy_at data 0 (dat ?r)"
  have l: "length ?d = 10" using Suc.prems(1,2) by (simp add: strcpy_at_length)
  show ?case
  proof (cases "valid_move ?d \<or> ?d ! 0 = CHR ''q''")
    case True
    with Suc.prems(3) l show ?thesis by (auto simp: Let_def split: if_splits)
  next
    case False
    then have "run os (tr @ [Fgets 0 10]) (read_move k s ?d) = (Returned (Some d), tr')"
      using Suc.prems(3) by (auto simp: Let_def split: if_splits)
    from Suc.IH [OF l Suc.prems(2) this] show ?thesis .
  qed
qed simp

section \<open>Properties of the game\<close>

text \<open>
  C33: A turn of one player and the other side's reception of it: the stone lies on one of
  the nine fields, both pictures of the board change on that field and nowhere else, and the
  receiver never leaves its array.
\<close>

theorem sanmoku_mirror:
  assumes "run os1 tr1 (goban_my_turn k junk1 a) = (Returned (True, a'), tr1')"
    and "board_ok (plane a)" and "length junk1 = 10" and "\<forall>tr. length (dat (os1 tr (Fgets 0 10))) < 10"
    and "board_ok (plane b)" and "length junk2 = 10" and "peer_stone b = my_stone a"
  shows "\<exists>m y x. last tr1' = Write (gsoc a) m \<and> field (y, x) \<and>
    plane a' = (plane a)[nat y := (plane a ! nat y)[nat x := my_stone a]] \<and> board_ok (plane a') \<and>
    (dat (os2 tr2 (Read (gsoc b) 10)) = m \<longrightarrow>
      run os2 tr2 (goban_peer_turn junk2 b) =
        (Returned (True, b\<lparr>plane := (plane b)[nat y := (plane b ! nat y)[nat x := my_stone a]]\<rparr>),
         tr2 @ [Read (gsoc b) 10]))"
proof -
  obtain r tr where rm: "run os1 tr1 (read_move k (gsoc a) junk1) = (Returned r, tr)"
    using assms(1) by (auto simp: goban_my_turn_def run_bind split: prod.splits ended.splits)
  obtain d where d: "r = Some d"
    using assms(1) rm by (cases r) (auto simp: goban_my_turn_def run_bind)
  have v: "valid_move d" using read_move_valid rm d by blast
  have l: "length d = 10" using read_move_length [of junk1 os1 tr1 k "gsoc a" d tr] assms(3,4) rm d by blast
  let ?y = "row_of (d ! 0)" and ?x = "col_of (d ! 1)"
  have f: "field (?y, ?x)" by (rule valid_move_field [OF v])
  have a': "a' = a\<lparr>plane := (plane a)[nat ?y := (plane a ! nat ?y)[nat ?x := my_stone a]]\<rparr>"
    "tr1' = tr @ [Write (gsoc a) (take 10 d)]"
    using assms(1) rm d put_stone_field [OF f] by (simp_all add: goban_my_turn_def run_bind)
  have "board_ok (plane a')" using board_ok_put [OF assms(2) put_stone_field [OF f]] a' by simp
  moreover have "d ! 0 \<noteq> CHR ''q''" using v by (auto simp: valid_move_def schar_def)
  then have "dat (os2 tr2 (Read (gsoc b) 10)) = take 10 d \<longrightarrow>
      run os2 tr2 (goban_peer_turn junk2 b) =
        (Returned (True, b\<lparr>plane := (plane b)[nat ?y := (plane b ! nat ?y)[nat ?x := my_stone a]]\<rparr>),
         tr2 @ [Read (gsoc b) 10])"
    using l assms(6,7) put_stone_field [OF f] by (simp add: goban_peer_turn_def overlay_def)
  ultimately show ?thesis using f a' l by (intro exI [of _ "take 10 d"] exI [of _ ?y] exI [of _ ?x]) simp
qed

definition b2_os :: os where
  "b2_os tr c = rdat (''b2'' @ newline)"

theorem sanmoku_mirror_witness:
  "\<exists>a' tr' m y x. run b2_os [] (goban_my_turn 1 (replicate 10 NUL) (goban_init 4 CHR ''x'' CHR ''o'')) =
     (Returned (True, a'), tr') \<and> last tr' = Write 4 m \<and> field (y, x)"
proof -
  let ?a = "goban_init 4 CHR ''x'' CHR ''o''" and ?b = "goban_init 5 CHR ''o'' CHR ''x''"
  have ok: "board_ok (plane ?a)" "board_ok (plane ?b)" "peer_stone ?b = my_stone ?a" "gsoc ?a = 4"
    by (simp_all add: board_ok_def goban_init_def goban_plane0_def)
  let ?d = "strcpy_at (replicate 10 NUL) 0 (''b2'' @ newline)"
  have v: "valid_move ?d" "?d ! 0 \<noteq> CHR ''q''"
    by (simp_all add: valid_move_def schar_def strcpy_at_def)
  have f: "field (row_of (?d ! 0), col_of (?d ! 1))" by (rule valid_move_field [OF v(1)])
  have "\<exists>a' tr'. run b2_os [] (goban_my_turn 1 (replicate 10 NUL) ?a) = (Returned (True, a'), tr')"
    using v put_stone_field [OF f] by (simp add: goban_my_turn_def run_bind b2_os_def Let_def)
  then obtain a' tr' where r: "run b2_os [] (goban_my_turn 1 (replicate 10 NUL) ?a) = (Returned (True, a'), tr')"
    by blast
  have len: "\<forall>tr. length (dat (b2_os tr (Fgets 0 10))) < 10" by (simp add: b2_os_def newline_def)
  from sanmoku_mirror [OF r ok(1) _ len ok(2) _ ok(3), of "replicate 10 NUL" b2_os "[]"] r ok(4)
  show ?thesis by auto
qed

end
