(* ===== verification/Chat.thy ===== *)
theory Chat
  imports Mylib
begin

text \<open>
  \<^verbatim>\<open>c/network/simple_chat\<close>, \<^verbatim>\<open>c/network/daemon\<close>: programs that relay bytes between a
  socket, a terminal and files. A count of \<open>-1\<close> that reaches \<^verbatim>\<open>write\<close> is undefined here.
\<close>

section \<open>simple\_chat\<close>

definition CHAT_BUF_LEN :: nat where
  "CHAT_BUF_LEN = 512"

definition PORT_chat :: int where
  "PORT_chat = 50001"

text \<open>\<^verbatim>\<open>n = read(src, buf, BUF_LEN); write(dst, buf, n);\<close>\<close>

definition relay :: "int \<Rightarrow> int \<Rightarrow> nat \<Rightarrow> string \<Rightarrow> string io" where
  "relay src dst n buf =
     Sys (Read src n) (\<lambda>r.
       let b = overlay (dat r) buf in
       if rc r < 0 then Undef else Sys (Write dst (take (nat (rc r)) b)) (\<lambda>_. Ret b))"

definition says_quit :: "string \<Rightarrow> bool" where
  "says_quit buf \<longleftrightarrow> take 4 buf = ''quit''"

primrec chat_client_loop :: "int \<Rightarrow> nat \<Rightarrow> string \<Rightarrow> unit io" where
  "chat_client_loop soc 0 buf = Cut"
| "chat_client_loop soc (Suc k) buf =
     io_bind (relay soc 1 CHAT_BUF_LEN buf) (\<lambda>b1.
     io_bind (relay 0 soc CHAT_BUF_LEN b1) (\<lambda>b2.
       if \<not> says_quit b2 then chat_client_loop soc k b2 else one_call (Close soc)))"

definition chat_exit :: "string \<Rightarrow> 'a io" where
  "chat_exit m = Sys (Perror m) (\<lambda>_. Halt 1)"

definition chat_client :: "string \<Rightarrow> nat \<Rightarrow> unit io" where
  "chat_client junk k =
     Sys (Gethostbyname ''sp.ice.uec.ac.jp'') (\<lambda>h.
       if rc h = - 1 then chat_exit ''gethostbyname'' else
     Sys (Socket ''inet stream'') (\<lambda>s.
       if rc s < 0 then chat_exit ''socket'' else
     Sys (Connect (rc s) (dat h, PORT_chat)) (\<lambda>c.
       if rc c = - 1 then chat_exit ''connect'' else
     Sys (Write 1 (''Wait'' @ newline)) (\<lambda>_. chat_client_loop (rc s) k junk))))"

primrec chat_server_loop :: "int \<Rightarrow> nat \<Rightarrow> string \<Rightarrow> unit io" where
  "chat_server_loop soc 0 buf = Cut"
| "chat_server_loop soc (Suc k) buf =
     io_bind (relay 0 soc CHAT_BUF_LEN buf) (\<lambda>b1.
     io_bind (relay soc 1 CHAT_BUF_LEN b1) (\<lambda>b2.
       if \<not> says_quit b2 then chat_server_loop soc k b2 else one_call (Close soc)))"

definition chat_server :: "string \<Rightarrow> nat \<Rightarrow> unit io" where
  "chat_server junk k =
     Sys (Socket ''inet stream'') (\<lambda>w.
       if rc w < 0 then chat_exit ''socket'' else
     Sys (Bind (rc w) (INADDR_ANY, PORT_chat)) (\<lambda>b.
       if rc b = - 1 then chat_exit ''bind'' else
     Sys (Listen (rc w) 1) (\<lambda>_.
     Sys (Accept (rc w)) (\<lambda>s.
     Sys (Close (rc w)) (\<lambda>_.
     Sys (Write 1 (''Go ahead!'' @ newline)) (\<lambda>_. chat_server_loop (rc s) k junk))))))"

section \<open>daemon: the service\<close>

definition BB_BUF_LENGTH :: nat where
  "BB_BUF_LENGTH = 1024"

definition FILENAME_LENGTH :: nat where
  "FILENAME_LENGTH = 128"

definition PORT_bb :: int where
  "PORT_bb = 50009"

definition DATA_DIR :: string where
  "DATA_DIR = ''/home/tom/src/c/network/daemon/data''"

definition MENUSTRING :: string where
  "MENUSTRING = ''1. call 2. absence 3. circle 4. event 9. quit '' @ newline"

primrec copy_file :: "nat \<Rightarrow> int \<Rightarrow> int \<Rightarrow> unit io" where
  "copy_file 0 src dst = Cut"
| "copy_file (Suc k) src dst =
     Sys (Read src BB_BUF_LENGTH) (\<lambda>r.
       if rc r = 0 then Ret ()
       else if rc r < 0 then Undef
       else Sys (Write dst (take (nat (rc r)) (dat r))) (\<lambda>_. copy_file k src dst))"

definition data_file :: "int \<Rightarrow> string" where
  "data_file item = DATA_DIR @ ''/data'' @ int_str item"

definition process :: "nat \<Rightarrow> int \<Rightarrow> int \<Rightarrow> bool io" where
  "process k soc item =
     (if item = 9 then Ret False else
      Sys (Open (data_file item)) (\<lambda>f.
        if rc f = - 1 then Sys (Write soc (''invalid number.'' @ newline @ [NUL])) (\<lambda>_. Ret True)
        else io_bind (copy_file k (rc f) soc) (\<lambda>_. Sys (Close (rc f)) (\<lambda>_. Ret True))))"

text \<open>
  The menu loop; \<open>item\<close> and \<open>buf\<close> keep their values when the client sends nothing or no
  number. \<open>j\<close> bounds the copying of a file.
\<close>

primrec service_loop :: "nat \<Rightarrow> int \<Rightarrow> nat \<Rightarrow> string \<Rightarrow> int \<Rightarrow> unit io" where
  "service_loop j soc 0 buf item = Cut"
| "service_loop j soc (Suc k) buf item =
     Sys (Write soc MENUSTRING) (\<lambda>_.
     Sys (Read soc 20) (\<lambda>r.
       let b = overlay (dat r) buf;
           it = (case scan_int (takeWhile (\<lambda>c. c \<noteq> NUL) b) of None \<Rightarrow> item | Some (n, _) \<Rightarrow> n) in
       io_bind (process j soc it) (\<lambda>more.
         if more then service_loop j soc k b it else one_call (Close soc))))"

definition greeting :: "string \<Rightarrow> int \<Rightarrow> string" where
  "greeting myname pid = ''This is '' @ myname @ ''['' @ int_str pid @ ''] serving you.'' @ newline"

definition service :: "string \<Rightarrow> int \<Rightarrow> nat \<Rightarrow> nat \<Rightarrow> int \<Rightarrow> string \<Rightarrow> unit io" where
  "service junk jitem j k soc myname =
     Sys Getpid (\<lambda>p.
       if BB_BUF_LENGTH \<le> length (greeting myname (rc p)) then Undef else
       let buf = strcpy_at junk 0 (greeting myname (rc p)) in
       Sys (Write soc (greeting myname (rc p))) (\<lambda>_. service_loop j soc k buf jitem))"

section \<open>daemon: the servers\<close>

text \<open>
  \<^verbatim>\<open>bb0d\<close>: one round of the accept loop. After a \<^verbatim>\<open>fork\<close> the run is that of the process
  the reply tells: 0 is the child.
\<close>

primrec bb0d_loop :: "(int \<Rightarrow> unit io) \<Rightarrow> int \<Rightarrow> nat \<Rightarrow> unit io" where
  "bb0d_loop serve w 0 = Cut"
| "bb0d_loop serve w (Suc k) =
     Sys (Accept w) (\<lambda>s.
     Sys Fork (\<lambda>p.
       if rc p = 0 then Sys (Close w) (\<lambda>_. io_bind (serve (rc s)) (\<lambda>_. Halt 0))
       else Sys (Close (rc s)) (\<lambda>_.
         Sys (Out (''My child ['' @ int_str (rc p) @ ''] now serving'' @ newline)) (\<lambda>_. bb0d_loop serve w k))))"

definition bb0d :: "(int \<Rightarrow> unit io) \<Rightarrow> nat \<Rightarrow> unit io" where
  "bb0d serve k =
     Sys (Socket ''inet stream'') (\<lambda>w.
       if rc w < 0 then chat_exit ''socket'' else
     Sys (Bind (rc w) (INADDR_ANY, PORT_bb)) (\<lambda>b.
       if rc b = - 1 then chat_exit ''bind'' else
     Sys (Listen (rc w) 5) (\<lambda>_.
     Sys (Err (''successfully bound, now waiting.'' @ newline)) (\<lambda>_. bb0d_loop serve (rc w) k))))"

definition syslog :: "string \<Rightarrow> syscall" where
  "syslog m = Misc (''syslog '' @ m)"

primrec bb1d_loop :: "(int \<Rightarrow> unit io) \<Rightarrow> int \<Rightarrow> nat \<Rightarrow> unit io" where
  "bb1d_loop serve w 0 = Cut"
| "bb1d_loop serve w (Suc k) =
     Sys (Accept w) (\<lambda>s.
     Sys Fork (\<lambda>p.
       if rc p = 0 then Sys (Close w) (\<lambda>_. io_bind (serve (rc s)) (\<lambda>_. Halt 0))
       else Sys (Close (rc s)) (\<lambda>_.
         Sys (syslog (''My child ['' @ int_str (rc p) @ ''] now serving'')) (\<lambda>_. bb1d_loop serve w k))))"

definition bb1d :: "(int \<Rightarrow> unit io) \<Rightarrow> nat \<Rightarrow> unit io" where
  "bb1d serve k =
     Sys Fork (\<lambda>p1.
       if rc p1 \<noteq> 0 then Halt 0 else
     Sys (Misc ''setsid'') (\<lambda>_.
     Sys Fork (\<lambda>p2.
       if rc p2 \<noteq> 0 then Halt 0 else
     io_bind (syscalls [Misc ''chdir /'', Close 0, Close 1, Close 2, Misc ''signal SIGTERM ending'', Misc ''openlog'']) (\<lambda>_.
     Sys (Socket ''inet stream'') (\<lambda>w.
       if rc w < 0 then Sys (syslog ''socket failed'') (\<lambda>_. Halt 1) else
     Sys (Bind (rc w) (INADDR_ANY, PORT_bb)) (\<lambda>b.
       if rc b = - 1 then Sys (syslog ''bind failed'') (\<lambda>_. Halt 1) else
     Sys (Listen (rc w) 5) (\<lambda>_.
     Sys (syslog ''listen succeeded'') (\<lambda>_. bb1d_loop serve (rc w) k))))))))"

definition bb1d_ending :: "unit io" where
  "bb1d_ending = Sys (syslog ''service terminated'') (\<lambda>_. Sys (Misc ''closelog'') (\<lambda>_. Halt 0))"

definition bb9d :: "(int \<Rightarrow> unit io) \<Rightarrow> unit io" where
  "bb9d serve =
     io_bind (syscalls [Misc ''openlog'', syslog ''startup experiment'']) (\<lambda>_.
     io_bind (serve 0) (\<lambda>_.
     io_bind (syscalls [syslog ''shutdown experiment'', Misc ''closelog'', Shutdown 0]) (\<lambda>_. Halt 0)))"

section \<open>daemon: the readers\<close>

primrec bb_session :: "int \<Rightarrow> nat \<Rightarrow> string \<Rightarrow> unit io" where
  "bb_session soc 0 buf = Cut"
| "bb_session soc (Suc k) buf =
     Sys (Select [0, soc]) (\<lambda>r.
     io_bind (if soc \<in> set (ready r) then relay soc 1 BB_BUF_LENGTH buf else Ret buf) (\<lambda>b1.
     io_bind (if 0 \<in> set (ready r)
              then io_bind (relay 0 soc 80 b1) (\<lambda>b2. if b2 ! 0 = CHR ''9'' then Halt 1 else Ret b2)
              else Ret b1) (\<lambda>b2. bb_session soc k b2)))"

definition bbreader :: "char \<Rightarrow> nat \<Rightarrow> string \<Rightarrow> unit io" where
  "bbreader before k junk =
     Sys (Out ''input server's hostname: '') (\<lambda>_.
     read_line before 64 (\<lambda>hostname.
     io_bind (setup_client hostname PORT_bb) (\<lambda>soc.
       if soc < 0 then Halt 1 else bb_session soc k junk)))"

definition bb9_setup :: "string \<Rightarrow> int io" where
  "bb9_setup hostname =
     Sys (Getservbyname ''experiment'' ''tcp'') (\<lambda>sv.
       if rc sv = - 1 then fail_with ''getservbyname'' else
     Sys (Gethostbyname hostname) (\<lambda>h.
       if rc h = - 1 then fail_with ''gethostbyname'' else
     Sys (Socket ''inet stream'') (\<lambda>s.
       if rc s < 0 then fail_with ''socket'' else
     Sys (Connect (rc s) (dat h, rc sv)) (\<lambda>c.
       if rc c < 0 then fail_with ''connect'' else
     Sys (Err (''connected'' @ newline)) (\<lambda>_. Ret (rc s))))))"

definition bb9reader :: "char \<Rightarrow> nat \<Rightarrow> string \<Rightarrow> unit io" where
  "bb9reader before k junk =
     Sys (Out ''Input Server's Host Name: '') (\<lambda>_.
     read_line before 64 (\<lambda>hostname.
     io_bind (bb9_setup hostname) (\<lambda>soc.
       if soc < 0 then Halt 1 else bb_session soc k junk)))"

section \<open>Nothing is lost or changed on the way\<close>

text \<open>What a program that ends (or is cut off) added to the trace.\<close>

definition adds :: "os \<Rightarrow> syscall list \<Rightarrow> 'a io \<Rightarrow> syscall list \<Rightarrow> bool" where
  "adds os tr p cs \<longleftrightarrow> snd (run os tr p) = tr @ cs"

lemma relay_run:
  assumes "reads_ok os" and "run os tr (relay src dst n buf) = (e, tr')" and "e \<noteq> Undefined"
  shows "\<exists>b d. e = Returned b \<and> tr' = tr @ [Read src n, Write dst d] \<and> d = dat (os tr (Read src n)) \<and>
    b = overlay d buf"
proof -
  let ?r = "os tr (Read src n)"
  have ok: "read_reply n ?r" using assms(1) by (simp add: reads_ok_def)
  have "rc ?r \<ge> 0" using assms(2,3) by (auto simp: relay_def Let_def split: if_splits)
  then have "rc ?r = int (length (dat ?r))" using ok by (auto simp: read_reply_def)
  then show ?thesis using assms(2) by (auto simp: relay_def Let_def take_overlay)
qed

text \<open>
  For \<open>src \<noteq> dst\<close>, in every prefix of the run: what was written to the socket is what was
  read from the terminal and the other way round.
\<close>

definition faithful :: "os \<Rightarrow> int \<Rightarrow> syscall list \<Rightarrow> syscall list \<Rightarrow> bool" where
  "faithful os soc pre cs \<longleftrightarrow> received soc cs = got os 0 pre cs \<and> received 1 cs = got os soc pre cs"

lemma faithful_append: "faithful os soc pre xs \<Longrightarrow> faithful os soc (pre @ xs) ys \<Longrightarrow> faithful os soc pre (xs @ ys)"
  by (simp add: faithful_def got_append)

lemma faithful_relay:
  assumes "soc \<noteq> 0" and "soc \<noteq> 1"
  shows "faithful os soc pre [Read soc n, Write 1 (dat (os pre (Read soc n)))]"
    and "faithful os soc pre [Read 0 n, Write soc (dat (os pre (Read 0 n)))]"
  using assms by (simp_all add: faithful_def)

lemma chat_client_loop_faithful:
  assumes "reads_ok os" and "soc \<noteq> 0" and "soc \<noteq> 1"
    and "run os tr (chat_client_loop soc k buf) = (e, tr')" and "e \<noteq> Undefined"
  shows "\<exists>cs. tr' = tr @ cs \<and> faithful os soc tr cs"
  using assms(4)
proof (induction k arbitrary: tr buf)
  case 0
  then show ?case by (auto simp: faithful_def)
next
  case (Suc k)
  obtain e1 tr1 where r1: "run os tr (relay soc 1 CHAT_BUF_LEN buf) = (e1, tr1)" by fastforce
  have "e1 \<noteq> Undefined" using Suc.prems assms(5) r1 by (auto simp: run_bind)
  then obtain b1 d1 where s1: "e1 = Returned b1" "tr1 = tr @ [Read soc CHAT_BUF_LEN, Write 1 d1]"
    "d1 = dat (os tr (Read soc CHAT_BUF_LEN))" using relay_run [OF assms(1) r1] by auto
  obtain e2 tr2 where r2: "run os tr1 (relay 0 soc CHAT_BUF_LEN b1) = (e2, tr2)" by fastforce
  have "e2 \<noteq> Undefined" using Suc.prems assms(5) r1 s1(1) r2 by (auto simp: run_bind)
  then obtain b2 d2 where s2: "e2 = Returned b2" "tr2 = tr1 @ [Read 0 CHAT_BUF_LEN, Write soc d2]"
    "d2 = dat (os tr1 (Read 0 CHAT_BUF_LEN))" using relay_run [OF assms(1) r2] by auto
  let ?cs = "[Read soc CHAT_BUF_LEN, Write 1 d1] @ [Read 0 CHAT_BUF_LEN, Write soc d2]"
  have f: "faithful os soc tr ?cs"
    using faithful_relay [OF assms(2,3)] s1 s2 by (intro faithful_append) simp_all
  have t: "tr2 = tr @ ?cs" using s1 s2 by simp
  show ?case
  proof (cases "says_quit b2")
    case True
    have "tr' = tr @ ?cs @ [Close soc]"
      using Suc.prems r1 r2 s1(1) s2(1) True t by (simp add: run_bind)
    moreover have "faithful os soc (tr @ ?cs) [Close soc]" by (simp add: faithful_def)
    ultimately show ?thesis using faithful_append [OF f] by blast
  next
    case False
    then have "run os tr2 (chat_client_loop soc k b2) = (e, tr')"
      using Suc.prems r1 r2 s1(1) s2(1) by (simp add: run_bind)
    from Suc.IH [OF this] obtain cs where "tr' = tr2 @ cs" "faithful os soc tr2 cs" by blast
    then show ?thesis using faithful_append [OF f] t by (intro exI [of _ "?cs @ cs"]) simp
  qed
qed

lemma bb_session_faithful:
  assumes "reads_ok os" and "soc \<noteq> 0" and "soc \<noteq> 1"
    and "run os tr (bb_session soc k buf) = (e, tr')" and "e \<noteq> Undefined"
  shows "\<exists>cs. tr' = tr @ cs \<and> faithful os soc tr cs"
  using assms(4)
proof (induction k arbitrary: tr buf)
  case 0
  then show ?case by (auto simp: faithful_def)
next
  case (Suc k)
  let ?t0 = "tr @ [Select [0, soc]]" and ?rd = "ready (os tr (Select [0, soc]))"
  have f0: "faithful os soc tr [Select [0, soc]]" by (simp add: faithful_def)
  obtain e1 tr1 where r1: "run os ?t0 (if soc \<in> set ?rd then relay soc 1 BB_BUF_LENGTH buf else Ret buf) = (e1, tr1)"
    by fastforce
  have "e1 \<noteq> Undefined" using Suc.prems assms(5) r1 by (auto simp: run_bind)
  then obtain b1 c1 where s1: "e1 = Returned b1" "tr1 = ?t0 @ c1" "faithful os soc ?t0 c1"
    using r1 relay_run [OF assms(1), of ?t0 soc 1 BB_BUF_LENGTH buf] faithful_relay(1) [OF assms(2,3)]
    by (cases "soc \<in> set ?rd") (force, force simp: faithful_def)
  show ?case
  proof (cases "0 \<in> set ?rd")
    case True
    obtain e2 tr2 where r2: "run os tr1 (relay 0 soc 80 b1) = (e2, tr2)" by fastforce
    have "e2 \<noteq> Undefined" using Suc.prems assms(5) r1 s1(1) r2 True by (auto simp: run_bind)
    then obtain b2 c2 where s2: "e2 = Returned b2" "tr2 = tr1 @ c2" "faithful os soc tr1 c2"
      using relay_run [OF assms(1) r2] faithful_relay(2) [OF assms(2,3)] by force
    have f: "faithful os soc tr ([Select [0, soc]] @ c1 @ c2)"
      using f0 s1 s2 by (intro faithful_append) simp_all
    show ?thesis
    proof (cases "b2 ! 0 = CHR ''9''")
      case True
      then have "tr' = tr2" using Suc.prems r1 r2 s1(1) s2(1) \<open>0 \<in> set ?rd\<close> by (simp add: run_bind)
      then show ?thesis using f s1(2) s2(2) by auto
    next
      case False
      then have "run os tr2 (bb_session soc k b2) = (e, tr')"
        using Suc.prems r1 r2 s1(1) s2(1) True by (simp add: run_bind)
      from Suc.IH [OF this] obtain cs where "tr' = tr2 @ cs" "faithful os soc tr2 cs" by blast
      then show ?thesis using faithful_append [OF f] s1(2) s2(2)
        by (intro exI [of _ "([Select [0, soc]] @ c1 @ c2) @ cs"]) simp
    qed
  next
    case False
    have f: "faithful os soc tr ([Select [0, soc]] @ c1)" using f0 s1 by (intro faithful_append) simp_all
    have "run os tr1 (bb_session soc k b1) = (e, tr')" using Suc.prems r1 s1(1) False by (simp add: run_bind)
    from Suc.IH [OF this] obtain cs where "tr' = tr1 @ cs" "faithful os soc tr1 cs" by blast
    then show ?thesis using faithful_append [OF f] s1(2)
      by (intro exI [of _ "([Select [0, soc]] @ c1) @ cs"]) simp
  qed
qed

text \<open>A file is sent completely, as far as the calls to read it returned its contents.\<close>

lemma copy_file_complete:
  assumes "reads_ok os" and "src \<noteq> dst"
    and "run os tr (copy_file k src dst) = (e, tr')" and "e \<noteq> Undefined"
  shows "\<exists>cs. tr' = tr @ cs \<and> received dst cs = got os src tr cs"
  using assms(3)
proof (induction k arbitrary: tr)
  case (Suc k)
  let ?r = "os tr (Read src BB_BUF_LENGTH)"
  have ok: "read_reply BB_BUF_LENGTH ?r" using assms(1) by (simp add: reads_ok_def)
  show ?case
  proof (cases "rc ?r = 0")
    case True
    then have "dat ?r = ''''" using ok by (auto simp: read_reply_def)
    then show ?thesis using Suc.prems True by auto
  next
    case False
    then have p: "rc ?r = int (length (dat ?r))"
      using Suc.prems assms(4) ok by (auto simp: read_reply_def)
    let ?cs = "[Read src BB_BUF_LENGTH, Write dst (dat ?r)]"
    have "run os (tr @ ?cs) (copy_file k src dst) = (e, tr')" using Suc.prems False p by simp
    from Suc.IH [OF this] obtain cs where cs: "tr' = (tr @ ?cs) @ cs" "received dst cs = got os src (tr @ ?cs) cs"
      by blast
    then show ?thesis by (intro exI [of _ "?cs @ cs"]) (simp add: got_append)
  qed
qed auto

text \<open>A file behind a descriptor, read from front to back.\<close>

definition file_at :: "os \<Rightarrow> int \<Rightarrow> string \<Rightarrow> bool" where
  "file_at os f s \<longleftrightarrow> (\<forall>tr. let d = take BB_BUF_LENGTH (drop (length (got os f [] tr)) s) in
     dat (os tr (Read f BB_BUF_LENGTH)) = d \<and> rc (os tr (Read f BB_BUF_LENGTH)) = int (length d))"

lemma copy_file_all:
  assumes "file_at os src s" and "src \<noteq> dst" and "length s - length (got os src [] tr) < k"
  shows "\<exists>cs. run os tr (copy_file k src dst) = (Returned (), tr @ cs) \<and>
    received dst cs = drop (length (got os src [] tr)) s"
  using assms(3)
proof (induction k arbitrary: tr)
  case (Suc k)
  let ?p = "length (got os src [] tr)"
  let ?d = "take BB_BUF_LENGTH (drop ?p s)"
  have r: "dat (os tr (Read src BB_BUF_LENGTH)) = ?d" "rc (os tr (Read src BB_BUF_LENGTH)) = int (length ?d)"
    using assms(1) by (simp_all add: file_at_def Let_def)
  show ?case
  proof (cases "?d = ''''")
    case True
    then have "drop ?p s = ''''" by (simp add: BB_BUF_LENGTH_def)
    with True r show ?thesis by (intro exI [of _ "[Read src BB_BUF_LENGTH]"]) (simp del: drop_eq_Nil drop_eq_Nil2)
  next
    case False
    let ?cs = "[Read src BB_BUF_LENGTH, Write dst ?d]"
    have g: "got os src [] (tr @ ?cs) = got os src [] tr @ ?d" using r by (simp add: got_append)
    have "0 < length ?d" using False by (simp only: length_greater_0_conv simp_thms)
    then have "length s - length (got os src [] (tr @ ?cs)) < k"
      using Suc.prems unfolding g by (auto simp: min_def)
    from Suc.IH [OF this] obtain cs where cs: "run os (tr @ ?cs) (copy_file k src dst) = (Returned (), (tr @ ?cs) @ cs)"
      "received dst cs = drop (length (got os src [] (tr @ ?cs))) s" by blast
    have n: "rc (os tr (Read src BB_BUF_LENGTH)) \<noteq> 0" "\<not> rc (os tr (Read src BB_BUF_LENGTH)) < 0"
      using r(2) False by simp_all
    have w: "take (nat (rc (os tr (Read src BB_BUF_LENGTH)))) ?d = ?d" unfolding r(2) nat_int by (rule take_all) simp
    have "run os tr (copy_file (Suc k) src dst) = (Returned (), tr @ ?cs @ cs)"
      using n w cs(1) r(1) by simp
    moreover have "?d @ drop (length (got os src [] (tr @ ?cs))) s = drop ?p s"
    proof -
      have "drop (length (take n xs)) xs = drop n xs" for n and xs :: string
        by (cases "n \<le> length xs") simp_all
      then have "drop (length ?d) (drop ?p s) = drop BB_BUF_LENGTH (drop ?p s)" by blast
      then have "drop (?p + length ?d) s = drop BB_BUF_LENGTH (drop ?p s)"
        by (simp only: drop_drop add.commute)
      then show ?thesis unfolding g length_append by (simp only: append_take_drop_id)
    qed
    ultimately show ?thesis using cs(2) by (intro exI [of _ "?cs @ cs"]) simp
  qed
qed simp

section \<open>Properties of the relays\<close>

text \<open>
  C34: The chat client and the bulletin-board reader pass every byte on, unchanged and in
  order: at any moment what they wrote to the socket is what they read from the terminal, and
  what they wrote to the terminal is what they read from the socket.
\<close>

theorem relays_faithful:
  assumes "reads_ok os" and "soc \<noteq> 0" and "soc \<noteq> 1" and "e \<noteq> Undefined"
    and "p = chat_client_loop soc k buf \<or> p = bb_session soc k buf" and "run os [] p = (e, cs)"
  shows "received soc cs = got os 0 [] cs \<and> received 1 cs = got os soc [] cs"
  using assms(5)
proof
  assume "p = chat_client_loop soc k buf"
  with chat_client_loop_faithful [OF assms(1-3) _ assms(4), of "[]" k buf cs] assms(6)
  show ?thesis by (auto simp: faithful_def)
next
  assume "p = bb_session soc k buf"
  with bb_session_faithful [OF assms(1-3) _ assms(4), of "[]" k buf cs] assms(6)
  show ?thesis by (auto simp: faithful_def)
qed

definition hi_os :: os where
  "hi_os tr c = (case c of Read f n \<Rightarrow> rdat (take n ''quit'') | Recv f n \<Rightarrow> rdat '''' | _ \<Rightarrow> rint 0)"

theorem relays_faithful_witness:
  "\<exists>cs. run hi_os [] (chat_client_loop 3 1 '''') = (Returned (), cs) \<and> received 3 cs = ''quit'' \<and> received 1 cs = got hi_os 3 [] cs"
proof -
  have ok: "reads_ok hi_os" by (simp add: reads_ok_def read_reply_def hi_os_def)
  have r: "\<exists>cs. run hi_os [] (chat_client_loop 3 1 '''') = (Returned (), cs) \<and> received 3 cs = ''quit''"
    by (simp add: relay_def hi_os_def CHAT_BUF_LEN_def overlay_def says_quit_def Let_def)
  then obtain cs where cs: "run hi_os [] (chat_client_loop 3 1 '''') = (Returned (), cs)" "received 3 cs = ''quit''"
    by blast
  have "received 3 cs = got hi_os 0 [] cs \<and> received 1 cs = got hi_os 3 [] cs"
    by (rule relays_faithful [OF ok _ _ _ disjI1 [OF refl] cs(1)]) simp_all
  with cs show ?thesis by blast
qed

text \<open>
  For an item of the menu whose file exists the service sends the whole file, byte by
  byte, closes the file and goes on; the copying ends.
\<close>

theorem process_sends_file:
  assumes "item \<noteq> 9" and "rc (os tr (Open (data_file item))) = f" and "0 \<le> f" and "f \<noteq> soc"
    and "file_at os f s" and "got os f [] tr = ''''" and "length s < k"
  shows "\<exists>cs. run os tr (process k soc item) = (Returned True, tr @ Open (data_file item) # cs @ [Close f]) \<and>
    received soc (cs @ [Close f]) = s"
proof -
  let ?tr = "tr @ [Open (data_file item)]"
  have g: "got os f [] ?tr = ''''" using assms(6) by (simp add: got_append)
  then obtain cs where c: "run os ?tr (copy_file k f soc) = (Returned (), ?tr @ cs)" "received soc cs = s"
    using copy_file_all [OF assms(5,4), of ?tr k] assms(7) by auto
  have "rc (os tr (Open (data_file item))) \<noteq> - 1" using assms(2,3) by simp
  then have "run os tr (process k soc item) = (Returned True, ?tr @ cs @ [Close f])"
    using assms(1,2) c(1) by (simp add: process_def run_bind)
  then show ?thesis using c(2) by (intro exI [of _ cs]) simp
qed

end
