(* ===== verification/Httpget.thy ===== *)
theory Httpget
  imports Mylib
begin

text \<open>
  \<^verbatim>\<open>c/network/http_simple/httpget.c\<close>: fetches files by HTTP/1.0. \<^verbatim>\<open>errno\<close> after a failed
  \<^verbatim>\<open>select\<close> is the data of its reply; \<open>hostmax\<close> is \<^verbatim>\<open>MAXHOSTNAMELEN\<close>.
\<close>

unbundle bit_operations_syntax

section \<open>Byte order\<close>

text \<open>
  The union of a \<^verbatim>\<open>short\<close> with its two bytes, \<open>a\<close> the first in memory: the low one on a
  little-endian machine.
\<close>

definition short_conv :: "u16 \<Rightarrow> u16" where
  "short_conv s =
     (let a = s AND 0xff; b = drop_bit 8 s in b OR push_bit 8 a)"

lemma short_conv_involution: "short_conv (short_conv s) = s"
proof -
  have m: "(0xff :: u16) = mask 8" by (simp add: mask_eq_exp_minus_1)
  show ?thesis
    unfolding short_conv_def Let_def m
    by (intro bit_word_eqI) (auto simp: bit_simps not_less intro: ccontr dest!: le_add_diff_inverse [OF leI])
qed

section \<open>Searching in memory\<close>

text \<open>
  \<open>mem\<close> is the whole array; a comparison that runs over its end is undefined, \<open>None\<close>. The
  inner loop compares the characters of the target after the first.
\<close>

primrec same_from :: "string \<Rightarrow> nat \<Rightarrow> string \<Rightarrow> bool option" where
  "same_from mem p [] = Some True"
| "same_from mem p (t # ts) =
     (if length mem \<le> p then None
      else if mem ! p \<noteq> t then Some False
      else same_from mem (p + 1) ts)"

primrec memstr_from :: "string \<Rightarrow> string \<Rightarrow> nat \<Rightarrow> nat \<Rightarrow> nat option option" where
  "memstr_from mem target i 0 = Some None"
| "memstr_from mem target i (Suc n) =
     (if length mem \<le> i then None
      else if mem ! i = hd target then
        (case same_from mem (i + 1) (tl target) of
           None \<Rightarrow> None
         | Some ok \<Rightarrow> if ok then Some (Some i) else memstr_from mem target (i + 1) n)
      else memstr_from mem target (i + 1) n)"

definition memstr :: "string \<Rightarrow> nat \<Rightarrow> string \<Rightarrow> nat option option" where
  "memstr mem blen target = memstr_from mem target 0 blen"

section \<open>Sockets\<close>

definition SocketClose :: "int \<Rightarrow> int io" where
  "SocketClose soc = Sys (Shutdown soc) (\<lambda>_. Sys (Close soc) (\<lambda>r. Ret (rc r)))"

definition SOCprintf :: "int \<Rightarrow> string \<Rightarrow> unit io" where
  "SOCprintf soc msg =
     (if 4096 \<le> length msg then Undef
      else Sys (Err msg) (\<lambda>_. Sys (Send soc msg) (\<lambda>_. Ret ())))"

definition SOCrecv :: "int \<Rightarrow> string \<Rightarrow> (int \<times> string) io" where
  "SOCrecv soc buf =
     Sys (Recv soc 1024) (\<lambda>r.
       let b = overlay (dat r) buf in
       if rc r < 0 \<or> int (length buf) \<le> rc r then Undef
       else let b1 = b[nat (rc r) := NUL] in
         Sys (Err (''>>>>>'' @ takeWhile (\<lambda>c. c \<noteq> NUL) b1 @ newline)) (\<lambda>_. Ret (rc r, b1)))"

text \<open>
  The port is kept in network byte order, as the structure has it; the address that is
  contacted has the port that the network reads there.
\<close>

definition ConnectHost :: "string \<Rightarrow> string \<Rightarrow> int \<Rightarrow> int io" where
  "ConnectHost host port portno =
     Sys (Gethostbyname host) (\<lambda>h1.
     io_bind (if rc h1 = - 1 then Sys (Gethostbyaddr host) Ret else Ret h1) (\<lambda>h.
       if rc h = - 1 then fail_with ''Error:gethostbyaddr'' else
     Sys (Getservbyname port ''tcp'') (\<lambda>se.
     Sys (Socket ''inet stream'') (\<lambda>s.
       if rc s < 0 then fail_with ''socket'' else
       let sin_port = (if rc se = - 1
             then short_conv (word_of_int (if atoi port = 0 then portno else atoi port))
             else word_of_int (rc se)) in
     Sys (Connect (rc s) (dat h, uint (short_conv sin_port))) (\<lambda>c.
       if rc c = - 1
       then Sys (Perror ''connect'') (\<lambda>_. io_bind (SocketClose (rc s)) (\<lambda>_. Ret (- 1)))
       else Ret (rc s))))))"

section \<open>Receiving into a file\<close>

definition header_end :: string where
  "header_end = [CHR 0x0D, lf, CHR 0x0D, lf]"

text \<open>
  One chunk of \<open>size > 0\<close> bytes at the front of \<open>b\<close>; 2 is \<^verbatim>\<open>stderr\<close>. When the header has
  been seen nothing is done with the chunk.
\<close>

definition take_chunk :: "int \<Rightarrow> nat \<Rightarrow> bool \<Rightarrow> string \<Rightarrow> bool io" where
  "take_chunk fp sz head b =
     (if \<not> head then
        (case memstr b sz header_end of
           None \<Rightarrow> Undef
         | Some None \<Rightarrow> Sys (Fwrite 2 (take sz b)) (\<lambda>_. Ret False)
         | Some (Some p) \<Rightarrow>
             if sz < p + 4 then Undef
             else Sys (Fwrite 2 (take (p + 4) b)) (\<lambda>_.
                  Sys (Fwrite fp (take (sz - p - 4) (drop (p + 4) b))) (\<lambda>_. Ret True)))
      else Ret head)"

primrec recv_rounds :: "int \<Rightarrow> int \<Rightarrow> nat \<Rightarrow> bool \<Rightarrow> string \<Rightarrow> unit io" where
  "recv_rounds soc fp 0 head buf = Cut"
| "recv_rounds soc fp (Suc k) head buf =
     Sys (Select [soc]) (\<lambda>r.
       if rc r = - 1 then
         (if dat r \<noteq> ''EINTR'' then Sys (Perror ''select'') (\<lambda>_. Ret ())
          else recv_rounds soc fp k head buf)
       else if rc r = 0 then recv_rounds soc fp k head buf
       else if soc \<in> set (ready r) then
         Sys (Recv soc 8192) (\<lambda>d.
           if rc d \<le> 0 then Ret ()
           else let b = overlay (dat d) buf in
             io_bind (take_chunk fp (nat (rc d)) head b) (\<lambda>head1. recv_rounds soc fp k head1 b))
       else recv_rounds soc fp k head buf)"

text \<open>\<open>tmpbuf\<close> is not initialised.\<close>

definition SOCrecvDataToFile :: "string \<Rightarrow> nat \<Rightarrow> int \<Rightarrow> string \<Rightarrow> int io" where
  "SOCrecvDataToFile tmpbuf k soc filename =
     Sys (Fopen filename ''w'') (\<lambda>f.
       if rc f = - 1 then fail_with ''fopen''
       else io_bind (recv_rounds soc (rc f) k False tmpbuf) (\<lambda>_. Sys (Fclose (rc f)) (\<lambda>_. Ret 0)))"

section \<open>The program\<close>

definition crlf :: string where
  "crlf = [CHR 0x0D, lf]"

text \<open>The part of the path behind its last slash, \<open>None\<close> without a slash.\<close>

definition after_slash :: "string \<Rightarrow> string option" where
  "after_slash path =
     (if CHR ''/'' \<in> set path then Some (rev (takeWhile (\<lambda>c. c \<noteq> CHR ''/'') (rev path))) else None)"

definition file_name :: "string \<Rightarrow> string" where
  "file_name path =
     (case after_slash path of
        None \<Rightarrow> path
      | Some s \<Rightarrow> if s = '''' then ''noname'' else s)"

definition request_line :: "string \<Rightarrow> string" where
  "request_line path =
     (if path = '''' \<or> hd path \<noteq> CHR ''/'' then ''GET /'' @ path @ '' HTTP/1.0'' @ crlf @ crlf
      else ''GET '' @ path @ '' HTTP/1.0'' @ crlf @ crlf)"

definition DoHttpGet :: "string \<Rightarrow> nat \<Rightarrow> string \<Rightarrow> string \<Rightarrow> int io" where
  "DoHttpGet tmpbuf k host path =
     Sys (Err (''host='' @ host @ '', path='' @ path @ newline)) (\<lambda>_.
     io_bind (ConnectHost host ''http'' 80) (\<lambda>soc.
       if soc = - 1
       then Sys (Err (''Cannot connect to '' @ host @ '' http.'' @ newline)) (\<lambda>_. Halt (- 1))
       else
     io_bind (SOCprintf soc (request_line path)) (\<lambda>_.
     io_bind (SOCrecvDataToFile tmpbuf k soc (file_name path)) (\<lambda>_.
     io_bind (SocketClose soc) (\<lambda>_. Ret 0)))))"

text \<open>\<^verbatim>\<open>strtok\<close> with the delimiter \<open>:\<close>: the next token and what follows it.\<close>

definition strtok :: "string \<Rightarrow> (string \<times> string) option" where
  "strtok s =
     (case dropWhile (\<lambda>c. c = CHR '':'') s of
        [] \<Rightarrow> None
      | t \<Rightarrow> Some (takeWhile (\<lambda>c. c \<noteq> CHR '':'') t, tl (dropWhile (\<lambda>c. c \<noteq> CHR '':'') t)))"

definition split_arg :: "string \<Rightarrow> (string \<times> string) option" where
  "split_arg arg =
     (case strtok arg of
        None \<Rightarrow> None
      | Some (ptr, rest) \<Rightarrow>
          (case strtok rest of
             None \<Rightarrow> Some (''localhost'', ptr)
           | Some (path, _) \<Rightarrow> Some (ptr, path)))"

primrec http_args :: "nat \<Rightarrow> string \<Rightarrow> nat \<Rightarrow> string list \<Rightarrow> int io" where
  "http_args hostmax tmpbuf k [] = Ret 0"
| "http_args hostmax tmpbuf k (a # as) =
     (if 512 \<le> length a then Undef
      else case split_arg a of
        None \<Rightarrow> Undef
      | Some (host, path) \<Rightarrow>
          if hostmax \<le> length host then Undef
          else io_bind (DoHttpGet tmpbuf k host path) (\<lambda>_. http_args hostmax tmpbuf k as))"

definition http_main :: "nat \<Rightarrow> string \<Rightarrow> nat \<Rightarrow> string list \<Rightarrow> int io" where
  "http_main hostmax tmpbuf k argv =
     (if length argv \<le> 1 then Sys (Err (''httpget host:path ... '' @ newline)) (\<lambda>_. Halt (- 1))
      else http_args hostmax tmpbuf k (tl argv))"

section \<open>What the search finds\<close>

lemma same_from_Some:
  "p + length ts \<le> length mem \<Longrightarrow> same_from mem p ts = Some (take (length ts) (drop p mem) = ts)"
proof (induction ts arbitrary: p)
  case (Cons t ts)
  have "drop p mem = mem ! p # drop (Suc p) mem" using Cons.prems by (simp add: Cons_nth_drop_Suc)
  with Cons show ?case by auto
qed simp

definition occurs_at :: "string \<Rightarrow> string \<Rightarrow> nat \<Rightarrow> bool" where
  "occurs_at t mem i \<longleftrightarrow> take (length t) (drop i mem) = t"

text \<open>
  The first place below \<open>blen\<close> where the target stands, in an array that has room for a target
  that begins at the last one.
\<close>

lemma memstr_from_first:
  assumes "target \<noteq> []" and "i + n + length target \<le> length mem + 1"
  shows "(case memstr_from mem target i n of
      None \<Rightarrow> False
    | Some None \<Rightarrow> \<forall>j. i \<le> j \<and> j < i + n \<longrightarrow> \<not> occurs_at target mem j
    | Some (Some p) \<Rightarrow> i \<le> p \<and> p < i + n \<and> occurs_at target mem p \<and> (\<forall>j. i \<le> j \<and> j < p \<longrightarrow> \<not> occurs_at target mem j))"
  using assms(2)
proof (induction n arbitrary: i)
  case 0
  show ?case by (simp, arith)
next
  case (Suc n)
  obtain t ts where t: "target = t # ts" using assms(1) by (cases target) auto
  have i: "i < length mem" "i + 1 + length ts \<le> length mem" using Suc.prems t by simp_all
  have d: "drop i mem = mem ! i # drop (Suc i) mem" using i by (simp add: Cons_nth_drop_Suc)
  have here: "occurs_at target mem i \<longleftrightarrow> mem ! i = t \<and> take (length ts) (drop (Suc i) mem) = ts"
    by (simp add: occurs_at_def t d)
  have s: "same_from mem (i + 1) ts = Some (take (length ts) (drop (Suc i) mem) = ts)"
    using same_from_Some [of "i + 1" ts mem] i by simp
  note IH = Suc.IH [of "i + 1"]
  show ?case
  proof (cases "occurs_at target mem i")
    case True
    then have "memstr_from mem target i (Suc n) = Some (Some i)" using i here s t by simp
    then show ?thesis using True by (auto simp del: memstr_from.simps)
  next
    case False
    then have e: "memstr_from mem target i (Suc n) = memstr_from mem target (i + 1) n"
      using i here s t by auto
    have j: "i \<le> j \<longleftrightarrow> j = i \<or> i + 1 \<le> j" for j by auto
    show ?thesis
      unfolding e using IH Suc.prems False
      by (auto simp: j split: option.splits)
  qed
qed

section \<open>What reaches the file\<close>

fun to_file :: "int \<Rightarrow> syscall \<Rightarrow> string" where
  "to_file f (Fwrite g s) = (if g = f then s else '''')"
| "to_file f _ = ''''"

definition filed :: "int \<Rightarrow> syscall list \<Rightarrow> string" where
  "filed f tr = concat (map (to_file f) tr)"

lemma filed_simps [simp]:
  "filed f [] = ''''" "filed f (c # tr) = to_file f c @ filed f tr" "filed f (tr @ tr') = filed f tr @ filed f tr'"
  by (simp_all add: filed_def)

text \<open>After the header nothing is written any more.\<close>

lemma recv_rounds_after_header:
  "filed fp (snd (run os tr (recv_rounds soc fp k True buf))) = filed fp tr"
  by (induction k arbitrary: tr buf) (simp_all add: take_chunk_def run_bind Let_def)

text \<open>What stands behind the first header end of a chunk.\<close>

fun behind_header :: "string \<Rightarrow> string option" where
  "behind_header [] = None"
| "behind_header (c # cs) =
     (if take 4 (c # cs) = header_end then Some (drop 4 (c # cs)) else behind_header cs)"

fun first_body :: "string list \<Rightarrow> string" where
  "first_body [] = ''''"
| "first_body (d # ds) = (case behind_header d of None \<Rightarrow> first_body ds | Some b \<Rightarrow> b)"

fun chunk_of :: "int \<Rightarrow> syscall \<Rightarrow> reply \<Rightarrow> string list" where
  "chunk_of f (Recv g n) r = (if g = f then [dat r] else [])"
| "chunk_of f _ r = []"

fun chunks :: "os \<Rightarrow> int \<Rightarrow> syscall list \<Rightarrow> syscall list \<Rightarrow> string list" where
  "chunks os f pre [] = []"
| "chunks os f pre (c # cs) = chunk_of f c (os pre c) @ chunks os f (pre @ [c]) cs"

lemma behind_header_short: "length d < 4 \<Longrightarrow> behind_header d = None"
  by (induction d rule: behind_header.induct) (auto simp: header_end_def)

lemma memstr_from_range: "memstr_from mem t i n = Some (Some p) \<Longrightarrow> i \<le> p \<and> p < i + n"
  by (induction n arbitrary: i) (fastforce split: if_splits option.splits)+

lemma header_end_nonempty: "header_end = hd header_end # tl header_end" "length header_end = 4"
  by (simp_all add: header_end_def)

lemma same_from_header:
  assumes "Suc p + 3 \<le> length mem"
  shows "same_from mem (Suc p) (tl header_end) = Some (take 3 (drop (Suc p) mem) = tl header_end)"
proof -
  have "length (tl header_end) = 3" by (simp add: header_end_def)
  then show ?thesis using same_from_Some [of "Suc p" "tl header_end" mem] assms by simp
qed

lemma memstr_from_behind:
  "mem = pre @ d @ post \<Longrightarrow>
   behind_header d =
     (case memstr_from mem header_end (length pre) (length d) of
        Some (Some p) \<Rightarrow> if p + 4 \<le> length pre + length d then Some (drop (p + 4 - length pre) d) else None
      | _ \<Rightarrow> None)"
proof (induction d arbitrary: pre)
  case Nil
  then show ?case by simp
next
  case (Cons c d)
  show ?case
  proof (cases "length (c # d) < 4")
    case True
    then show ?thesis
      using memstr_from_range [of mem header_end "length pre" "length (c # d)"]
      by (auto simp: behind_header_short simp del: behind_header.simps memstr_from.simps split: option.splits)
  next
    case False
    have at: "mem ! length pre = c" "length pre < length mem"
      "take 3 (drop (Suc (length pre)) mem) = take 3 d" "Suc (length pre) + 3 \<le> length mem"
      using Cons.prems False by (simp_all add: nth_append)
    have here: "take 4 (c # d) = header_end \<longleftrightarrow> c = hd header_end \<and> take 3 d = tl header_end"
      by (simp add: header_end_def numeral_eq_Suc)
    have IH: "behind_header d = (case memstr_from mem header_end (Suc (length pre)) (length d) of
        Some (Some p) \<Rightarrow> if p + 4 \<le> Suc (length pre) + length d then Some (drop (p + 4 - Suc (length pre)) d) else None
      | _ \<Rightarrow> None)"
    proof -
      have "length (pre @ [c]) = Suc (length pre)" by simp
      then show ?thesis using Cons.IH [of "pre @ [c]"] Cons.prems by (simp only: append_assoc append.simps)
    qed
    show ?thesis
    proof (cases "take 4 (c # d) = header_end")
      case True
      then show ?thesis using here at False by (simp add: same_from_header)
    next
      case no: False
      then have e: "memstr_from mem header_end (length pre) (length (c # d)) =
          memstr_from mem header_end (Suc (length pre)) (length d)"
        using here at by (auto simp: same_from_header)
      have "drop (p + 4 - length pre) (c # d) = drop (p + 4 - Suc (length pre)) d"
        if "Suc (length pre) \<le> p" for p
        using that by (auto simp: drop_Cons intro: arg_cong [where f = "\<lambda>n. drop n d"] split: nat.split)
      then show ?thesis
        unfolding e using no IH memstr_from_range [of mem header_end "Suc (length pre)" "length d"]
        by (auto split: option.splits)
    qed
  qed
qed

lemma memstr_overlay:
  "behind_header d =
     (case memstr (overlay d buf) (length d) header_end of
        Some (Some p) \<Rightarrow> if p + 4 \<le> length d then Some (drop (p + 4) d) else None
      | _ \<Rightarrow> None)"
  using memstr_from_behind [of "overlay d buf" "''''" d "drop (length d) buf"]
  by (simp only: memstr_def overlay_def append.simps list.size add_0 diff_zero refl simp_thms)

lemma chunks_append: "chunks os f pre (xs @ ys) = chunks os f pre xs @ chunks os f (pre @ xs) ys"
  by (induction xs arbitrary: pre) simp_all

text \<open>
  What one chunk does: it ends the program, or hands it on with the header found or not; the
  calls receive nothing.
\<close>

lemma take_chunk_cases:
  assumes "fp \<noteq> 2"
  obtains (stop) cs where "run os tr (take_chunk fp (length d) False (overlay d buf)) = (Undefined, tr @ cs)"
      "behind_header d = None" "filed fp cs = ''''" "chunks os soc tr cs = []"
    | (none) cs where "run os tr (take_chunk fp (length d) False (overlay d buf)) = (Returned False, tr @ cs)"
      "behind_header d = None" "filed fp cs = ''''" "chunks os soc tr cs = []"
    | (body) cs b where "run os tr (take_chunk fp (length d) False (overlay d buf)) = (Returned True, tr @ cs)"
      "behind_header d = Some b" "filed fp cs = b" "chunks os soc tr cs = []"
proof (cases "memstr (overlay d buf) (length d) header_end")
  case None
  then show ?thesis using stop [of "[]"] by (simp add: take_chunk_def memstr_overlay [of d buf])
next
  case (Some found)
  show ?thesis
  proof (cases found)
    case None
    then show ?thesis using Some assms none [of "[Fwrite 2 d]"]
      by (simp add: take_chunk_def memstr_overlay [of d buf] overlay_def)
  next
    case p: (Some p)
    show ?thesis
    proof (cases "p + 4 \<le> length d")
      case True
      have rest: "take (length d - p - 4) (drop (p + 4) (overlay d buf)) = drop (p + 4) d"
        using True by (simp add: overlay_def)
      show ?thesis
        using Some p True assms
          body [of "[Fwrite 2 (take (p + 4) (overlay d buf)), Fwrite fp (drop (p + 4) d)]" "drop (p + 4) d"]
        by (simp add: take_chunk_def memstr_overlay [of d buf] rest del: diff_diff_left)
    next
      case False
      then show ?thesis using Some p stop [of "[]"] by (simp add: take_chunk_def memstr_overlay [of d buf])
    qed
  qed
qed

lemma recv_rounds_files:
  assumes "reads_ok os" and "fp \<noteq> 2"
  shows "\<exists>cs. snd (run os tr (recv_rounds soc fp k False buf)) = tr @ cs \<and> filed fp cs = first_body (chunks os soc tr cs)"
proof (induction k arbitrary: tr buf)
  case 0
  show ?case by simp
next
  case (Suc k)
  let ?t1 = "tr @ [Select [soc]]"
  let ?r = "os tr (Select [soc])" and ?d = "os ?t1 (Recv soc 8192)"
  have again: ?case if "run os tr (recv_rounds soc fp (Suc k) False buf) = run os ?t1 (recv_rounds soc fp k False buf)"
  proof -
    obtain cs where "snd (run os ?t1 (recv_rounds soc fp k False buf)) = ?t1 @ cs"
      "filed fp cs = first_body (chunks os soc ?t1 cs)" using Suc.IH [of ?t1 buf] by blast
    then show ?thesis unfolding that by (intro exI [of _ "Select [soc] # cs"]) simp
  qed
  have len: "rc ?d \<le> 0 \<or> rc ?d = int (length (dat ?d))" and bad: "rc ?d \<le> 0 \<longrightarrow> dat ?d = ''''"
  proof -
    have "read_reply 8192 ?d" using assms(1) unfolding reads_ok_def by blast
    then show "rc ?d \<le> 0 \<or> rc ?d = int (length (dat ?d))" "rc ?d \<le> 0 \<longrightarrow> dat ?d = ''''"
      by (auto simp: read_reply_def)
  qed
  show ?case
  proof (cases "rc ?r \<noteq> - 1 \<and> rc ?r \<noteq> 0 \<and> soc \<in> set (ready ?r)")
    case False
    show ?thesis
    proof (cases "rc ?r = - 1 \<and> dat ?r \<noteq> ''EINTR''")
      case True
      then show ?thesis by (intro exI [of _ "[Select [soc], Perror ''select'']"]) simp
    next
      case False
      with \<open>\<not> (rc ?r \<noteq> - 1 \<and> rc ?r \<noteq> 0 \<and> soc \<in> set (ready ?r))\<close> show ?thesis
        by (intro again) auto
    qed
  next
    case True
    show ?thesis
    proof (cases "rc ?d \<le> 0")
      case stop: True
      then show ?thesis using True bad by (intro exI [of _ "[Select [soc], Recv soc 8192]"]) simp
    next
      case False
      define d where "d = dat ?d"
      define t2 where "t2 = ?t1 @ [Recv soc 8192]"
      have n: "nat (rc ?d) = length d" using len False by (simp add: d_def)
      have r: "run os tr (recv_rounds soc fp (Suc k) False buf) =
          run os t2 (io_bind (take_chunk fp (length d) False (overlay d buf))
            (\<lambda>head1. recv_rounds soc fp k head1 (overlay d buf)))"
        using True False n by (simp add: Let_def d_def [symmetric] t2_def)
      have c: "chunks os soc tr ([Select [soc], Recv soc 8192] @ cs) = d # chunks os soc t2 cs" for cs
        by (simp add: d_def t2_def)
      have fin: ?thesis
        if "snd (run os tr (recv_rounds soc fp (Suc k) False buf)) = t2 @ cs"
          "filed fp cs = first_body (d # chunks os soc t2 cs)" for cs
        using that c [of cs] by (intro exI [of _ "[Select [soc], Recv soc 8192] @ cs"]) (simp add: t2_def)
      show ?thesis
      proof (cases rule: take_chunk_cases [OF assms(2), of os t2 d buf soc, case_names stop none body])
        case (stop cs)
        then show ?thesis by (intro fin [of cs]) (simp_all add: r run_bind del: recv_rounds.simps)
      next
        case (none cs)
        obtain cs' where "snd (run os (t2 @ cs) (recv_rounds soc fp k False (overlay d buf))) = (t2 @ cs) @ cs'"
          "filed fp cs' = first_body (chunks os soc (t2 @ cs) cs')" using Suc.IH by blast
        with none show ?thesis by (intro fin [of "cs @ cs'"]) (simp_all add: r run_bind chunks_append del: recv_rounds.simps)
      next
        case (body cs b)
        obtain cs' where "snd (run os (t2 @ cs) (recv_rounds soc fp k True (overlay d buf))) = (t2 @ cs) @ cs'"
          using run_trace by blast
        moreover have "filed fp cs' = ''''"
          using recv_rounds_after_header [of fp os "t2 @ cs" soc k "overlay d buf"] calculation by simp
        ultimately show ?thesis using body by (intro fin [of "cs @ cs'"]) (simp_all add: r run_bind chunks_append del: recv_rounds.simps)
      qed
    qed
  qed
qed

text \<open>
  What a fetch leaves in the file is what stands behind the first header end in the first
  chunk that holds a whole header end: nothing when no chunk holds one, and no later chunk ever
  gets there.
\<close>

theorem fetched_file:
  assumes "reads_ok os" and "rc (os tr (Fopen name ''w'')) = fp" and "fp \<noteq> - 1" and "fp \<noteq> 2"
  shows "\<exists>cs. snd (run os tr (SOCrecvDataToFile tmpbuf k soc name)) = tr @ cs \<and>
    filed fp cs = first_body (chunks os soc tr cs)"
proof -
  let ?t = "tr @ [Fopen name ''w'']"
  obtain cs where cs: "snd (run os ?t (recv_rounds soc fp k False tmpbuf)) = ?t @ cs"
    "filed fp cs = first_body (chunks os soc ?t cs)" using recv_rounds_files [OF assms(1,4)] by blast
  have "snd (run os tr (SOCrecvDataToFile tmpbuf k soc name)) = tr @ Fopen name ''w'' # cs \<or>
      snd (run os tr (SOCrecvDataToFile tmpbuf k soc name)) = tr @ Fopen name ''w'' # cs @ [Fclose fp]"
    using assms(2,3) cs(1) by (auto simp: SOCrecvDataToFile_def run_bind split: prod.splits ended.splits)
  then show ?thesis using cs(2) by (auto simp: chunks_append)
qed

end
