(* ===== verification/CondVar.thy ===== *)
theory CondVar
  imports CText
begin

text \<open>
  \<^verbatim>\<open>c/cvsimple.c\<close> and \<^verbatim>\<open>c/pthread_cond_test.c\<close>: two threads count under a mutex and a third
  waits on a condition variable until the count has reached a threshold. The two programs
  differ in the threshold only. A step is one statement of one thread; which thread makes the
  next step is open. \<^verbatim>\<open>pthread_cond_wait\<close> may also return without a signal.
\<close>

section \<open>The state\<close>

definition TCOUNT :: nat where
  "TCOUNT = 10"

definition COUNT_THRES :: nat where
  "COUNT_THRES = 15"

definition COUNT_THRES_test :: nat where
  "COUNT_THRES_test = 12"

text \<open>Where a counting thread is, with its \<open>i\<close>: what it does next.\<close>

datatype inc_pc = ILock nat | IAdd nat | IPrint nat | ITest nat | ISignal nat | IUnlock nat | IDone

text \<open>Where the waiting thread is; \<open>WSleep\<close> is inside \<^verbatim>\<open>pthread_cond_wait\<close>, \<open>WWoken\<close> its way out.\<close>

datatype watch_pc = WStart | WLock | WTest | WSleep | WWoken | WPrint | WUnlock | WDone

text \<open>The printed lines: thread and count.\<close>

datatype cv_line = Counted nat nat | Hit nat nat | Watching nat | Watched nat nat

primrec line_text :: "cv_line \<Rightarrow> string" where
  "line_text (Counted t c) = ''inc_counter(): thread '' @ nat_str t @ '', count = '' @ nat_str c @ '', unlocking mutex'' @ newline"
| "line_text (Hit t c) = ''inc_count(): Thread '' @ nat_str t @ '', count '' @ nat_str c @ newline"
| "line_text (Watching t) = ''watch_count(): thread '' @ nat_str t @ newline"
| "line_text (Watched t c) = ''watch_count(): thread '' @ nat_str t @ '', count '' @ nat_str c @ newline"

text \<open>\<open>created\<close> and \<open>joined\<close> count the calls that \<^verbatim>\<open>main\<close> has made.\<close>

record cv =
  cnt :: nat
  holder :: "nat option"
  ipc :: "nat \<Rightarrow> inc_pc"
  wpc :: watch_pc
  created :: nat
  joined :: nat
  shown :: "cv_line list"

definition cv0 :: cv where
  "cv0 = \<lparr>cnt = 0, holder = None, ipc = (\<lambda>_. ILock 0), wpc = WStart, created = 0, joined = 0, shown = []\<rparr>"

section \<open>The steps\<close>

text \<open>The threads 0 and 1; a signal wakes the waiting thread when it is asleep.\<close>

definition next_pc :: "nat \<Rightarrow> inc_pc" where
  "next_pc i = (if i < TCOUNT then ILock i else IDone)"

inductive inc_step :: "nat \<Rightarrow> nat \<Rightarrow> cv \<Rightarrow> cv \<Rightarrow> bool" for n t where
  lock: "ipc s t = ILock i \<Longrightarrow> holder s = None \<Longrightarrow>
    inc_step n t s (s\<lparr>holder := Some t, ipc := (ipc s)(t := IAdd i)\<rparr>)"
| add: "ipc s t = IAdd i \<Longrightarrow> inc_step n t s (s\<lparr>cnt := cnt s + 1, ipc := (ipc s)(t := IPrint i)\<rparr>)"
| print: "ipc s t = IPrint i \<Longrightarrow>
    inc_step n t s (s\<lparr>shown := shown s @ [Counted t (cnt s)], ipc := (ipc s)(t := ITest i)\<rparr>)"
| hit: "ipc s t = ITest i \<Longrightarrow> cnt s = n \<Longrightarrow>
    inc_step n t s (s\<lparr>shown := shown s @ [Hit t (cnt s)], ipc := (ipc s)(t := ISignal i)\<rparr>)"
| miss: "ipc s t = ITest i \<Longrightarrow> cnt s \<noteq> n \<Longrightarrow> inc_step n t s (s\<lparr>ipc := (ipc s)(t := IUnlock i)\<rparr>)"
| signal: "ipc s t = ISignal i \<Longrightarrow>
    inc_step n t s (s\<lparr>wpc := (if wpc s = WSleep then WWoken else wpc s), ipc := (ipc s)(t := IUnlock i)\<rparr>)"
| unlock: "ipc s t = IUnlock i \<Longrightarrow>
    inc_step n t s (s\<lparr>holder := None, ipc := (ipc s)(t := next_pc (i + 1))\<rparr>)"

text \<open>Thread 2.\<close>

inductive watch_step :: "nat \<Rightarrow> cv \<Rightarrow> cv \<Rightarrow> bool" for n where
  start: "wpc s = WStart \<Longrightarrow> watch_step n s (s\<lparr>shown := shown s @ [Watching 2], wpc := WLock\<rparr>)"
| lock: "wpc s = WLock \<Longrightarrow> holder s = None \<Longrightarrow> watch_step n s (s\<lparr>holder := Some 2, wpc := WTest\<rparr>)"
| sleep: "wpc s = WTest \<Longrightarrow> cnt s < n \<Longrightarrow> watch_step n s (s\<lparr>holder := None, wpc := WSleep\<rparr>)"
| leave: "wpc s = WTest \<Longrightarrow> \<not> cnt s < n \<Longrightarrow> watch_step n s (s\<lparr>wpc := WUnlock\<rparr>)"
| relock: "wpc s = WWoken \<Longrightarrow> holder s = None \<Longrightarrow> watch_step n s (s\<lparr>holder := Some 2, wpc := WPrint\<rparr>)"
| print: "wpc s = WPrint \<Longrightarrow> watch_step n s (s\<lparr>shown := shown s @ [Watched 2 (cnt s)], wpc := WTest\<rparr>)"
| unlock: "wpc s = WUnlock \<Longrightarrow> watch_step n s (s\<lparr>holder := None, wpc := WDone\<rparr>)"

definition over :: "cv \<Rightarrow> nat \<Rightarrow> bool" where
  "over s t = (if t < 2 then ipc s t = IDone else wpc s = WDone)"

inductive main_step :: "cv \<Rightarrow> cv \<Rightarrow> bool" where
  create: "created s < 3 \<Longrightarrow> main_step s (s\<lparr>created := created s + 1\<rparr>)"
| join: "created s = 3 \<Longrightarrow> joined s < 3 \<Longrightarrow> over s (joined s) \<Longrightarrow> main_step s (s\<lparr>joined := joined s + 1\<rparr>)"

definition cv_work :: "nat \<Rightarrow> cv \<Rightarrow> cv \<Rightarrow> bool" where
  "cv_work n s s' \<longleftrightarrow>
     (\<exists>t<2. t < created s \<and> inc_step n t s s') \<or> 2 < created s \<and> watch_step n s s' \<or> main_step s s'"

text \<open>The waiting thread wakes up without a signal.\<close>

definition wakeup :: "cv \<Rightarrow> cv \<Rightarrow> bool" where
  "wakeup s s' \<longleftrightarrow> wpc s = WSleep \<and> s' = s\<lparr>wpc := WWoken\<rparr>"

definition cv_step :: "nat \<Rightarrow> cv \<Rightarrow> cv \<Rightarrow> bool" where
  "cv_step n s s' \<longleftrightarrow> cv_work n s s' \<or> wakeup s s'"

section \<open>The invariant\<close>

primrec holds_inc :: "inc_pc \<Rightarrow> bool" where
  "holds_inc (ILock i) = False"
| "holds_inc (IAdd i) = True"
| "holds_inc (IPrint i) = True"
| "holds_inc (ITest i) = True"
| "holds_inc (ISignal i) = True"
| "holds_inc (IUnlock i) = True"
| "holds_inc IDone = False"

definition holds_watch :: "watch_pc \<Rightarrow> bool" where
  "holds_watch p \<longleftrightarrow> p = WTest \<or> p = WPrint \<or> p = WUnlock"

text \<open>The increments a thread has made.\<close>

primrec added :: "inc_pc \<Rightarrow> nat" where
  "added (ILock i) = i"
| "added (IAdd i) = i"
| "added (IPrint i) = i + 1"
| "added (ITest i) = i + 1"
| "added (ISignal i) = i + 1"
| "added (IUnlock i) = i + 1"
| "added IDone = TCOUNT"

primrec inc_ok :: "inc_pc \<Rightarrow> bool" where
  "inc_ok (ILock i) = (i < TCOUNT)"
| "inc_ok (IAdd i) = (i < TCOUNT)"
| "inc_ok (IPrint i) = (i < TCOUNT)"
| "inc_ok (ITest i) = (i < TCOUNT)"
| "inc_ok (ISignal i) = (i < TCOUNT)"
| "inc_ok (IUnlock i) = (i < TCOUNT)"
| "inc_ok IDone = True"

text \<open>On the way from the increment to the signal.\<close>

primrec announcing :: "inc_pc \<Rightarrow> bool" where
  "announcing (ILock i) = False"
| "announcing (IAdd i) = False"
| "announcing (IPrint i) = True"
| "announcing (ITest i) = True"
| "announcing (ISignal i) = True"
| "announcing (IUnlock i) = False"
| "announcing IDone = False"

primrec unprinted :: "inc_pc \<Rightarrow> nat" where
  "unprinted (ILock i) = 0"
| "unprinted (IAdd i) = 0"
| "unprinted (IPrint i) = 1"
| "unprinted (ITest i) = 0"
| "unprinted (ISignal i) = 0"
| "unprinted (IUnlock i) = 0"
| "unprinted IDone = 0"

primrec counted :: "cv_line list \<Rightarrow> nat list" where
  "counted [] = []"
| "counted (x # xs) = (case x of Counted t c \<Rightarrow> c # counted xs | _ \<Rightarrow> counted xs)"

lemma counted_append [simp]: "counted (xs @ ys) = counted xs @ counted ys"
  by (induction xs) (simp_all split: cv_line.split)

definition numbers :: "nat \<Rightarrow> nat list" where
  "numbers k = [1..<k + 1]"

lemma numbers_simps [simp]: "numbers 0 = []" "numbers (Suc k) = numbers k @ [Suc k]"
  by (simp_all add: numbers_def)

lemma take_numbers: "take k (numbers c) = numbers (min k c)"
proof (induction c)
  case (Suc c)
  then show ?case by (cases "k \<le> c") (auto simp: min_def le_Suc_eq take_Cons' numbers_def)
qed (simp add: numbers_def)

definition lock_inv :: "cv \<Rightarrow> bool" where
  "lock_inv s \<longleftrightarrow> (\<forall>u<2. holder s = Some u \<longleftrightarrow> holds_inc (ipc s u)) \<and>
     (holder s = Some 2 \<longleftrightarrow> holds_watch (wpc s)) \<and> (\<forall>u. holder s = Some u \<longrightarrow> u < 3)"

definition count_inv :: "cv \<Rightarrow> bool" where
  "count_inv s \<longleftrightarrow> inc_ok (ipc s 0) \<and> inc_ok (ipc s 1) \<and> added (ipc s 0) + added (ipc s 1) = cnt s \<and>
     counted (shown s) @ replicate (unprinted (ipc s 0) + unprinted (ipc s 1)) (cnt s) = numbers (cnt s)"

definition wake_inv :: "nat \<Rightarrow> cv \<Rightarrow> bool" where
  "wake_inv n s \<longleftrightarrow>
     (wpc s = WSleep \<and> n \<le> cnt s \<longrightarrow> cnt s = n \<and> (announcing (ipc s 0) \<or> announcing (ipc s 1))) \<and>
     (wpc s = WUnlock \<or> wpc s = WDone \<longrightarrow> n \<le> cnt s)"

definition join_inv :: "cv \<Rightarrow> bool" where
  "join_inv s \<longleftrightarrow> created s \<le> 3 \<and> joined s \<le> 3 \<and> (joined s \<noteq> 0 \<longrightarrow> created s = 3) \<and> (\<forall>t<joined s. over s t)"

definition cv_inv :: "nat \<Rightarrow> cv \<Rightarrow> bool" where
  "cv_inv n s \<longleftrightarrow> lock_inv s \<and> count_inv s \<and> wake_inv n s \<and> join_inv s"

lemma cv_inv_start: "cv_inv n cv0"
  by (simp add: cv_inv_def lock_inv_def count_inv_def wake_inv_def join_inv_def cv0_def holds_watch_def TCOUNT_def)

lemma holds_watch_simps [simp]:
  "holds_watch WTest" "holds_watch WPrint" "holds_watch WUnlock"
  "\<not> holds_watch WStart" "\<not> holds_watch WLock" "\<not> holds_watch WSleep" "\<not> holds_watch WWoken" "\<not> holds_watch WDone"
  by (simp_all add: holds_watch_def)

lemma next_pc_simps [simp]:
  "\<not> holds_inc (next_pc i)" "inc_ok (next_pc i)" "i \<le> TCOUNT \<Longrightarrow> added (next_pc i) = i"
  "\<not> announcing (next_pc i)" "unprinted (next_pc i) = 0"
  by (simp_all add: next_pc_def)

lemma unprinted_holds: "\<not> holds_inc p \<Longrightarrow> unprinted p = 0 \<and> \<not> announcing p"
  by (cases p) simp_all

lemma less_two_cases: "t < (2::nat) \<longleftrightarrow> t = 0 \<or> t = 1"
  by auto

lemma inc_step_lock:
  assumes "inc_step n t s s'" and "t < 2" and "lock_inv s"
  shows "lock_inv s'"
proof -
  have h: "holder s = Some t \<longleftrightarrow> holds_inc (ipc s t)" "t \<noteq> 2" using assms(2,3) by (simp_all add: lock_inv_def)
  from assms(1) show ?thesis
    using h assms(2,3) by cases (auto simp: lock_inv_def split: if_splits)
qed

lemma watch_step_lock: "watch_step n s s' \<Longrightarrow> lock_inv s \<Longrightarrow> lock_inv s'"
  by (erule watch_step.cases) (auto simp: lock_inv_def)

lemma one_holder:
  assumes "lock_inv s" and "holds_inc (ipc s t)" and "t < 2" and "u < 2" and "u \<noteq> t"
  shows "\<not> holds_inc (ipc s u)"
  using assms unfolding lock_inv_def by (metis option.inject)

lemma inc_step_count:
  assumes "inc_step n t s s'" and "t < 2" and "lock_inv s" and "count_inv s"
  shows "count_inv s'"
proof -
  have other: "holds_inc (ipc s t) \<Longrightarrow> u < 2 \<Longrightarrow> u \<noteq> t \<Longrightarrow> unprinted (ipc s u) = 0" for u
    using one_holder [OF assms(3) _ assms(2)] unprinted_holds by blast
  have "t = 0 \<or> t = 1" using assms(2) by auto
  then show ?thesis
  proof
    assume "t = 0"
    from assms(1) this other [of 1] assms(4) show ?thesis by cases (simp_all add: count_inv_def)
  next
    assume "t = 1"
    from assms(1) this other [of 0] assms(4) show ?thesis by cases (simp_all add: count_inv_def)
  qed
qed

lemma watch_step_count: "watch_step n s s' \<Longrightarrow> count_inv s \<Longrightarrow> count_inv s'"
  by (erule watch_step.cases) (auto simp: count_inv_def)

lemma inc_step_wake:
  assumes "inc_step n t s s'" and "t < 2" and "lock_inv s" and "wake_inv n s"
  shows "wake_inv n s'"
proof -
  have other: "holds_inc (ipc s t) \<Longrightarrow> u < 2 \<Longrightarrow> u \<noteq> t \<Longrightarrow> \<not> announcing (ipc s u)" for u
    using one_holder [OF assms(3) _ assms(2)] unprinted_holds by blast
  have "t = 0 \<or> t = 1" using assms(2) by auto
  then show ?thesis
  proof
    assume "t = 0"
    from assms(1) this other [of 1] assms(4) show ?thesis by cases (simp_all add: wake_inv_def, auto)
  next
    assume "t = 1"
    from assms(1) this other [of 0] assms(4) show ?thesis by cases (simp_all add: wake_inv_def, auto)
  qed
qed

lemma watch_step_wake: "watch_step n s s' \<Longrightarrow> wake_inv n s \<Longrightarrow> wake_inv n s'"
  by (erule watch_step.cases) (auto simp: wake_inv_def)

lemma inc_step_join:
  assumes "inc_step n t s s'" and "t < 2" and "join_inv s"
  shows "join_inv s'"
proof -
  have "over s u \<Longrightarrow> over s' u" for u
    using assms(1,2) by cases (auto simp: over_def)
  moreover have "created s' = created s" "joined s' = joined s" using assms(1) by (cases, auto)+
  ultimately show ?thesis using assms(3) by (auto simp: join_inv_def)
qed

lemma watch_step_join:
  assumes "watch_step n s s'" and "join_inv s"
  shows "join_inv s'"
proof -
  have "over s u \<Longrightarrow> over s' u" for u
    using assms(1) by cases (auto simp: over_def split: if_splits)
  moreover have "created s' = created s" "joined s' = joined s" using assms(1) by (cases, auto)+
  ultimately show ?thesis using assms(2) by (auto simp: join_inv_def)
qed

lemma main_step_inv:
  assumes "main_step s s'" and "cv_inv n s"
  shows "cv_inv n s'"
proof -
  have "over s' u = over s u" for u using assms(1) by cases (auto simp: over_def)
  from assms(1) this assms(2) have "join_inv s'"
    by cases (auto simp: cv_inv_def join_inv_def less_Suc_eq)
  moreover have "holder s' = holder s" "ipc s' = ipc s" "wpc s' = wpc s" "cnt s' = cnt s" "shown s' = shown s"
    using assms(1) by (cases, auto)+
  ultimately show ?thesis using assms(2) by (simp add: cv_inv_def lock_inv_def count_inv_def wake_inv_def)
qed

lemma wakeup_inv: "wakeup s s' \<Longrightarrow> cv_inv n s \<Longrightarrow> cv_inv n s'"
  by (auto simp: wakeup_def cv_inv_def lock_inv_def count_inv_def wake_inv_def join_inv_def over_def split: if_splits)

lemma cv_work_inv: "cv_inv n s \<Longrightarrow> cv_work n s s' \<Longrightarrow> cv_inv n s'"
  unfolding cv_work_def
  by (meson cv_inv_def inc_step_lock inc_step_count inc_step_wake inc_step_join
      watch_step_lock watch_step_count watch_step_wake watch_step_join main_step_inv)

lemma cv_step_inv: "cv_inv n s \<Longrightarrow> cv_step n s s' \<Longrightarrow> cv_inv n s'"
  unfolding cv_step_def using cv_work_inv wakeup_inv by blast

section \<open>Every run ends\<close>

primrec inc_rank :: "inc_pc \<Rightarrow> nat" where
  "inc_rank (ILock i) = 6 * (TCOUNT - i)"
| "inc_rank (IAdd i) = 6 * (TCOUNT - i) - 1"
| "inc_rank (IPrint i) = 6 * (TCOUNT - i) - 2"
| "inc_rank (ITest i) = 6 * (TCOUNT - i) - 3"
| "inc_rank (ISignal i) = 6 * (TCOUNT - i) - 4"
| "inc_rank (IUnlock i) = 6 * (TCOUNT - i) - 5"
| "inc_rank IDone = 0"

primrec watch_rank :: "watch_pc \<Rightarrow> nat" where
  "watch_rank WStart = 7"
| "watch_rank WLock = 6"
| "watch_rank WWoken = 5"
| "watch_rank WPrint = 4"
| "watch_rank WTest = 3"
| "watch_rank WSleep = 2"
| "watch_rank WUnlock = 1"
| "watch_rank WDone = 0"

text \<open>A signal wakes the third thread, but costs a step of a counting one, which weighs more.\<close>

definition cv_rank :: "cv \<Rightarrow> nat" where
  "cv_rank s = 8 * (inc_rank (ipc s 0) + inc_rank (ipc s 1)) + watch_rank (wpc s) + (3 - created s) + (3 - joined s)"

definition cv_final :: "cv \<Rightarrow> bool" where
  "cv_final s \<longleftrightarrow> joined s = 3 \<and> ipc s 0 = IDone \<and> ipc s 1 = IDone \<and> wpc s = WDone \<and>
     holder s = None \<and> cnt s = 2 * TCOUNT"

lemma inc_ok_rank: "i < TCOUNT \<Longrightarrow> 6 \<le> 6 * (TCOUNT - i)"
  by simp

lemma next_pc_rank [simp]: "inc_rank (next_pc i) = 6 * (TCOUNT - i)"
  by (simp add: next_pc_def)

lemma inc_step_rank:
  assumes "inc_step n t s s'" and "t < 2" and "count_inv s"
  shows "cv_rank s' < cv_rank s"
proof -
  have "inc_ok (ipc s 0)" "inc_ok (ipc s 1)" using assms(3) by (simp_all add: count_inv_def)
  moreover have "t = 0 \<or> t = 1" using assms(2) by auto
  ultimately show ?thesis
    using assms(1) by (elim disjE) (erule inc_step.cases; simp add: cv_rank_def; arith)+
qed

lemma watch_step_rank: "watch_step n s s' \<Longrightarrow> cv_rank s' < cv_rank s"
  by (erule watch_step.cases) (simp_all add: cv_rank_def)

lemma main_step_rank: "main_step s s' \<Longrightarrow> cv_rank s' < cv_rank s"
  by (erule main_step.cases) (simp_all add: cv_rank_def)

lemma cv_work_rank: "cv_inv n s \<Longrightarrow> cv_work n s s' \<Longrightarrow> cv_rank s' < cv_rank s"
  unfolding cv_work_def cv_inv_def by (meson inc_step_rank watch_step_rank main_step_rank)

lemma inc_rank_le: "inc_rank p \<le> 6 * TCOUNT"
  by (cases p) auto

lemma cv_rank_le: "cv_rank s \<le> 973"
proof -
  have "watch_rank (wpc s) \<le> 7" by (cases "wpc s") simp_all
  then show ?thesis
    using inc_rank_le [of "ipc s 0"] inc_rank_le [of "ipc s 1"] by (simp add: cv_rank_def TCOUNT_def)
qed

text \<open>A state without a step: nobody holds the mutex, and nobody sleeps through the threshold.\<close>

lemma inc_step_enabled:
  assumes "holds_inc (ipc s t) \<or> holder s = None" and "ipc s t \<noteq> IDone"
  shows "\<exists>s'. inc_step n t s s'"
  using assms by (cases "ipc s t") (auto intro: inc_step.intros, metis inc_step.hit inc_step.miss)

lemma watch_step_enabled:
  assumes "holds_watch (wpc s) \<or> holder s = None" and "wpc s \<noteq> WDone" and "wpc s \<noteq> WSleep"
  shows "\<exists>s'. watch_step n s s'"
  using assms by (cases "wpc s") (auto intro: watch_step.intros, metis watch_step.sleep watch_step.leave)

lemma cv_stuck:
  assumes "cv_inv n s" and "\<forall>s'. \<not> cv_work n s s'" and "n \<le> 2 * TCOUNT"
  shows "cv_final s"
proof -
  have l: "lock_inv s" "count_inv s" "wake_inv n s" "join_inv s" using assms(1) by (simp_all add: cv_inv_def)
  have made: "created s = 3"
    using assms(2) l(4) main_step.create [of s] by (force simp: cv_work_def join_inv_def)
  have i: "\<not> inc_step n t s s'" if "t < 2" for t s' using assms(2) that made by (simp add: cv_work_def)
  have w: "\<not> watch_step n s s'" for s' using assms(2) made by (simp add: cv_work_def)
  have no_inc: "\<not> holds_inc (ipc s t)" if "t < 2" for t
    using inc_step_enabled [of s t n] i [OF that] by (cases "ipc s t") auto
  have no_watch: "\<not> holds_watch (wpc s)"
    using watch_step_enabled [of s n] w by (cases "wpc s") auto
  have free: "holder s = None"
  proof (rule ccontr)
    assume "holder s \<noteq> None"
    then obtain u where u: "holder s = Some u" "u < 3" using l(1) by (auto simp: lock_inv_def)
    then have "u = 2 \<or> u < 2" by auto
    with u l(1) no_inc no_watch show False unfolding lock_inv_def by blast
  qed
  have done_inc: "ipc s 0 = IDone" "ipc s 1 = IDone"
    using inc_step_enabled [of s _ n] i free by (meson zero_less_numeral one_less_numeral_iff semiring_norm(76))+
  then have c: "cnt s = 2 * TCOUNT" using l(2) by (simp add: count_inv_def)
  have "wpc s \<noteq> WSleep" using l(3) c assms(3) done_inc by (auto simp: wake_inv_def)
  then have done_watch: "wpc s = WDone" using watch_step_enabled [of s n] w free by blast
  have "over s t" if "t < 3" for t
    using that done_inc done_watch by (cases "t = 0"; cases "t = 1") (auto simp: over_def)
  then have "joined s = 3"
    using assms(2) l(4) main_step.join [of s] made by (force simp: cv_work_def join_inv_def)
  with done_inc done_watch free c show ?thesis by (simp add: cv_final_def)
qed

section \<open>Properties\<close>

interpretation cond: system "\<lambda>s. s = cv0" "cv_step n" "cv_inv n" for n
  by unfold_locales (auto intro: cv_inv_start cv_step_inv)

text \<open>The steps that are no spurious wake-ups, from any state in which the program can be.\<close>

interpretation work: ending_system "(cv_step n)\<^sup>*\<^sup>* cv0" "cv_work n" "cv_inv n" cv_rank
    "\<lambda>s. n \<le> 2 * TCOUNT \<longrightarrow> cv_final s" for n
proof unfold_locales
  show "cv_inv n s" if "(cv_step n)\<^sup>*\<^sup>* cv0 s" for s
    using cond.inv_reachable [OF refl that] .
qed (auto intro: cv_work_inv cv_work_rank cv_stuck)

definition watched :: "nat \<Rightarrow> bool" where
  "watched n \<longleftrightarrow> n = COUNT_THRES \<or> n = COUNT_THRES_test"

lemma watched_le: "watched n \<Longrightarrow> n \<le> 2 * TCOUNT"
  by (auto simp: watched_def COUNT_THRES_def COUNT_THRES_test_def TCOUNT_def)

text \<open>
  C8: The counting programs cannot hang: from every state that they can reach, after whatever
  spurious wake-ups, they can go on to the end; a state in which no thread can make a step
  is the end, where all threads have been joined and the count is 20; and without further
  spurious wake-ups every schedule gets there within 973 steps.
\<close>

theorem cond_programs_end:
  assumes "watched n" and "(cv_step n)\<^sup>*\<^sup>* cv0 s"
  shows "(\<exists>t. (cv_work n)\<^sup>*\<^sup>* s t \<and> cv_final t) \<and> ((\<forall>t. \<not> cv_work n s t) \<longrightarrow> cv_final s) \<and>
    (\<forall>k t. (cv_work n ^^ k) s t \<longrightarrow> k \<le> 973)"
proof (intro conjI impI allI)
  show "\<exists>t. (cv_work n)\<^sup>*\<^sup>* s t \<and> cv_final t"
    using work.always_ends [OF assms(2), of s] watched_le [OF assms(1)] by blast
  show "cv_final s" if "\<forall>t. \<not> cv_work n s t"
    using work.ends_final [OF assms(2) rtranclp.rtrancl_refl that] watched_le [OF assms(1)] by blast
  show "k \<le> 973" if "(cv_work n ^^ k) s t" for k t
    using work.run_length [OF assms(2) that] cv_rank_le [of s] by linarith
qed

theorem cond_programs_end_witness:
  "\<exists>t. (cv_work COUNT_THRES)\<^sup>*\<^sup>* (cv0\<lparr>created := 1\<rparr>) t \<and> cv_final t"
proof -
  have "cv_step COUNT_THRES cv0 (cv0\<lparr>created := 1\<rparr>)"
    using main_step.create [of cv0] by (simp add: cv_step_def cv_work_def cv0_def)
  then have "(cv_step COUNT_THRES)\<^sup>*\<^sup>* cv0 (cv0\<lparr>created := 1\<rparr>)" by simp
  then show ?thesis using cond_programs_end [of COUNT_THRES "cv0\<lparr>created := 1\<rparr>"] by (simp add: watched_def)
qed

text \<open>
  C35: In every state that the counting programs can reach, whatever the schedule, at most one
  thread is between its locking and its unlocking of the mutex, the counts printed so far are
  1, 2, 3, ... without a gap or a repetition, and the waiting thread has not left its loop
  before the threshold was reached.
\<close>

theorem cond_programs_safe:
  assumes "(cv_step n)\<^sup>*\<^sup>* cv0 s"
  shows "\<not> (holds_inc (ipc s 0) \<and> holds_inc (ipc s 1)) \<and>
    \<not> ((holds_inc (ipc s 0) \<or> holds_inc (ipc s 1)) \<and> holds_watch (wpc s)) \<and>
    (\<exists>k\<le>2 * TCOUNT. counted (shown s) = [1..<k + 1]) \<and>
    (wpc s = WDone \<longrightarrow> n \<le> cnt s \<and> cnt s \<le> 2 * TCOUNT)"
proof -
  have i: "lock_inv s" "count_inv s" "wake_inv n s"
    using cond.inv_reachable [OF refl assms] by (simp_all add: cv_inv_def)
  have a: "added p \<le> TCOUNT" if "inc_ok p" for p using that by (cases p) auto
  have c: "cnt s \<le> 2 * TCOUNT" using i(2) a [of "ipc s 0"] a [of "ipc s 1"] by (simp add: count_inv_def)
  have "counted (shown s) = take (length (counted (shown s))) (numbers (cnt s))"
    using i(2) by (metis append_eq_conv_conj count_inv_def)
  then obtain k where "k \<le> cnt s" "counted (shown s) = numbers k"
    using take_numbers min.cobounded2 by metis
  then have "\<exists>k\<le>2 * TCOUNT. counted (shown s) = [1..<k + 1]"
    using c by (auto simp: numbers_def intro: le_trans)
  moreover have "\<not> (holds_inc (ipc s 0) \<and> holds_inc (ipc s 1))"
    using one_holder [OF i(1), of 0 1] by auto
  moreover have "\<not> ((holds_inc (ipc s 0) \<or> holds_inc (ipc s 1)) \<and> holds_watch (wpc s))"
    using i(1) by (auto simp: lock_inv_def)
  moreover have "wpc s = WDone \<longrightarrow> n \<le> cnt s \<and> cnt s \<le> 2 * TCOUNT"
    using i(3) c by (simp add: wake_inv_def)
  ultimately show ?thesis by blast
qed

theorem cond_programs_safe_witness:
  "\<exists>k\<le>2 * TCOUNT. counted (shown (cv0\<lparr>created := 1\<rparr>)) = [1..<k + 1]"
proof -
  have "cv_step 15 cv0 (cv0\<lparr>created := 1\<rparr>)"
    using main_step.create [of cv0] by (simp add: cv_step_def cv_work_def cv0_def)
  then have "(cv_step 15)\<^sup>*\<^sup>* cv0 (cv0\<lparr>created := 1\<rparr>)" by simp
  from cond_programs_safe [OF this] show ?thesis by blast
qed

end
