(* ===== verification/Threads.thy ===== *)
theory Threads
  imports CText
begin

text \<open>
  Programs of two threads: \<^verbatim>\<open>c/race_condition.c\<close> (a shared counter tested outside the
  mutex), \<^verbatim>\<open>c/thread_test.c\<close> (a counter under one mutex) and \<^verbatim>\<open>c/simple_threads.c\<close>,
  \<^verbatim>\<open>c/simple_processes.c\<close> (a counter for each). A step is one statement of one thread and
  reads or writes shared memory as a whole; the threads are 0 and 1.
\<close>

section \<open>race_condition.c\<close>

definition COM_LIMIT :: nat where
  "COM_LIMIT = 100"

datatype race_pc = RCheck | RLock | RPut nat | RNewline | RFrom | RUnlock | RDone

text \<open>The printed pieces, with the thread that prints them.\<close>

datatype piece = Word nat | Newline | From nat nat

definition thread_name :: "nat \<Rightarrow> string" where
  "thread_name t = (if t = 0 then ''foo'' else ''bar'')"

primrec piece_text :: "piece \<Rightarrow> string" where
  "piece_text (Word t) = thread_name t @ '' ''"
| "piece_text Newline = newline"
| "piece_text (From t n) = ''from '' @ thread_name t @ '' '' @ nat_str n @ newline"

record counter =
  com :: nat
  gm :: "nat option"
  rpc :: "nat \<Rightarrow> race_pc"
  pieces :: "piece list"
  rcreated :: nat
  rjoined :: nat

definition counter0 :: counter where
  "counter0 = \<lparr>com = 0, gm = None, rpc = (\<lambda>_. RCheck), pieces = [], rcreated = 0, rjoined = 0\<rparr>"

text \<open>\<^verbatim>\<open>foo\<close> is thread 0, \<^verbatim>\<open>bar\<close> thread 1; they differ in the word they print.\<close>

inductive loop_step :: "nat \<Rightarrow> counter \<Rightarrow> counter \<Rightarrow> bool" for t where
  enter: "rpc s t = RCheck \<Longrightarrow> com s < COM_LIMIT \<Longrightarrow> loop_step t s (s\<lparr>rpc := (rpc s)(t := RLock)\<rparr>)"
| leave: "rpc s t = RCheck \<Longrightarrow> \<not> com s < COM_LIMIT \<Longrightarrow> loop_step t s (s\<lparr>rpc := (rpc s)(t := RDone)\<rparr>)"
| lock: "rpc s t = RLock \<Longrightarrow> gm s = None \<Longrightarrow> loop_step t s (s\<lparr>gm := Some t, rpc := (rpc s)(t := RPut 0)\<rparr>)"
| put: "rpc s t = RPut i \<Longrightarrow> i < 100 \<Longrightarrow>
    loop_step t s (s\<lparr>pieces := pieces s @ [Word t], rpc := (rpc s)(t := RPut (i + 1))\<rparr>)"
| put_end: "rpc s t = RPut i \<Longrightarrow> \<not> i < 100 \<Longrightarrow> loop_step t s (s\<lparr>rpc := (rpc s)(t := RNewline)\<rparr>)"
| new_line: "rpc s t = RNewline \<Longrightarrow>
    loop_step t s (s\<lparr>pieces := pieces s @ [Newline], rpc := (rpc s)(t := RFrom)\<rparr>)"
| count: "rpc s t = RFrom \<Longrightarrow>
    loop_step t s (s\<lparr>pieces := pieces s @ [From t (com s)], com := com s + 1, rpc := (rpc s)(t := RUnlock)\<rparr>)"
| unlock: "rpc s t = RUnlock \<Longrightarrow> loop_step t s (s\<lparr>gm := None, rpc := (rpc s)(t := RCheck)\<rparr>)"

inductive race_main_step :: "counter \<Rightarrow> counter \<Rightarrow> bool" where
  create: "rcreated s < 2 \<Longrightarrow> race_main_step s (s\<lparr>rcreated := rcreated s + 1\<rparr>)"
| join: "rcreated s = 2 \<Longrightarrow> rjoined s < 2 \<Longrightarrow> rpc s (rjoined s) = RDone \<Longrightarrow>
    race_main_step s (s\<lparr>rjoined := rjoined s + 1\<rparr>)"

definition race_step :: "counter \<Rightarrow> counter \<Rightarrow> bool" where
  "race_step s s' \<longleftrightarrow> (\<exists>t<2. t < rcreated s \<and> loop_step t s s') \<or> race_main_step s s'"

subsection \<open>Invariant\<close>

definition holds_gm :: "race_pc \<Rightarrow> bool" where
  "holds_gm p \<longleftrightarrow> p \<noteq> RCheck \<and> p \<noteq> RLock \<and> p \<noteq> RDone"

text \<open>A thread that has passed the test and has not counted yet.\<close>

primrec passed :: "race_pc \<Rightarrow> nat" where
  "passed RCheck = 0"
| "passed RLock = 1"
| "passed (RPut i) = 1"
| "passed RNewline = 1"
| "passed RFrom = 1"
| "passed RUnlock = 0"
| "passed RDone = 0"

primrec froms :: "piece list \<Rightarrow> nat list" where
  "froms [] = []"
| "froms (x # xs) = (case x of From t n \<Rightarrow> n # froms xs | _ \<Rightarrow> froms xs)"

lemma froms_append [simp]: "froms (xs @ ys) = froms xs @ froms ys"
  by (induction xs) (simp_all split: piece.split)

definition gm_inv :: "counter \<Rightarrow> bool" where
  "gm_inv s \<longleftrightarrow> (\<forall>u<2. gm s = Some u \<longleftrightarrow> holds_gm (rpc s u)) \<and> (\<forall>u. gm s = Some u \<longrightarrow> u < 2)"

definition com_inv :: "counter \<Rightarrow> bool" where
  "com_inv s \<longleftrightarrow> com s + passed (rpc s 0) + passed (rpc s 1) \<le> COM_LIMIT + 1 \<and>
     (rpc s 0 = RDone \<or> rpc s 1 = RDone \<longrightarrow> COM_LIMIT \<le> com s) \<and> froms (pieces s) = [0..<com s]"

definition rjoin_inv :: "counter \<Rightarrow> bool" where
  "rjoin_inv s \<longleftrightarrow> rcreated s \<le> 2 \<and> rjoined s \<le> 2 \<and> (rjoined s \<noteq> 0 \<longrightarrow> rcreated s = 2) \<and>
     (\<forall>u<rjoined s. rpc s u = RDone)"

definition race_inv :: "counter \<Rightarrow> bool" where
  "race_inv s \<longleftrightarrow> gm_inv s \<and> com_inv s \<and> rjoin_inv s"

lemma holds_gm_simps [simp]:
  "\<not> holds_gm RCheck" "\<not> holds_gm RLock" "\<not> holds_gm RDone"
  "holds_gm (RPut i)" "holds_gm RNewline" "holds_gm RFrom" "holds_gm RUnlock"
  by (simp_all add: holds_gm_def)

lemma passed_le: "passed p \<le> 1"
  by (cases p) simp_all

lemma race_inv_start: "race_inv counter0"
  by (simp add: race_inv_def gm_inv_def com_inv_def rjoin_inv_def counter0_def)

lemma loop_step_gm:
  assumes "loop_step t s s'" and "t < 2" and "gm_inv s"
  shows "gm_inv s'"
proof -
  have h: "gm s = Some t \<longleftrightarrow> holds_gm (rpc s t)" using assms(2,3) by (simp add: gm_inv_def)
  from assms(1) show ?thesis
    using h assms(2,3) by cases (auto simp: gm_inv_def split: if_splits)
qed

lemma loop_step_com:
  assumes "loop_step t s s'" and "t < 2" and "com_inv s"
  shows "com_inv s'"
proof -
  have "t = 0 \<or> t = 1" using assms(2) by auto
  then show ?thesis
  proof
    assume "t = 0"
    from assms(1) this passed_le [of "rpc s 1"] assms(3) show ?thesis
      by cases (auto simp: com_inv_def)
  next
    assume "t = 1"
    from assms(1) this passed_le [of "rpc s 0"] assms(3) show ?thesis
      by cases (auto simp: com_inv_def)
  qed
qed

lemma loop_step_join:
  assumes "loop_step t s s'" and "rjoin_inv s"
  shows "rjoin_inv s'"
proof -
  have "rpc s u = RDone \<Longrightarrow> rpc s' u = RDone" for u using assms(1) by cases auto
  moreover have "rcreated s' = rcreated s" "rjoined s' = rjoined s" using assms(1) by (cases, auto)+
  ultimately show ?thesis using assms(2) by (auto simp: rjoin_inv_def)
qed

lemma race_main_inv:
  assumes "race_main_step s s'" and "race_inv s"
  shows "race_inv s'"
  using assms by cases (auto simp: race_inv_def gm_inv_def com_inv_def rjoin_inv_def less_Suc_eq)

lemma race_step_inv: "race_inv s \<Longrightarrow> race_step s s' \<Longrightarrow> race_inv s'"
  unfolding race_step_def
  by (meson race_inv_def loop_step_gm loop_step_com loop_step_join race_main_inv)

subsection \<open>Every run ends\<close>

primrec race_rank_pc :: "race_pc \<Rightarrow> nat" where
  "race_rank_pc RUnlock = 107"
| "race_rank_pc RCheck = 106"
| "race_rank_pc RLock = 105"
| "race_rank_pc (RPut i) = 104 - i"
| "race_rank_pc RNewline = 3"
| "race_rank_pc RFrom = 2"
| "race_rank_pc RDone = 0"

definition race_rank :: "counter \<Rightarrow> nat" where
  "race_rank s = 300 * (COM_LIMIT + 1 - com s) + race_rank_pc (rpc s 0) + race_rank_pc (rpc s 1) +
     (2 - rcreated s) + (2 - rjoined s)"

definition race_final :: "counter \<Rightarrow> bool" where
  "race_final s \<longleftrightarrow> rjoined s = 2 \<and> rpc s 0 = RDone \<and> rpc s 1 = RDone \<and> gm s = None \<and>
     COM_LIMIT \<le> com s \<and> com s \<le> COM_LIMIT + 1"

text \<open>The bound on the loop variable of the words, which the rank needs.\<close>

definition put_inv :: "counter \<Rightarrow> bool" where
  "put_inv s \<longleftrightarrow> (\<forall>u<2. \<forall>i. rpc s u = RPut i \<longrightarrow> i \<le> 100)"

lemma loop_step_put: "loop_step t s s' \<Longrightarrow> put_inv s \<Longrightarrow> put_inv s'"
  by (erule loop_step.cases) (auto simp: put_inv_def split: if_splits)

lemma race_step_put: "race_step s s' \<Longrightarrow> put_inv s \<Longrightarrow> put_inv s'"
  unfolding race_step_def by (auto elim: loop_step_put race_main_step.cases) (auto elim!: race_main_step.cases simp: put_inv_def)

lemma loop_step_rank:
  assumes "loop_step t s s'" and "t < 2" and "com_inv s" and "put_inv s"
  shows "race_rank s' < race_rank s"
proof -
  have t: "t = 0 \<or> t = 1" using assms(2) by auto
  from assms(1) show ?thesis
  proof cases
    case count
    then have "com s \<le> COM_LIMIT" using t assms(3) by (auto simp: com_inv_def)
    then have "COM_LIMIT + 1 - com s = Suc (COM_LIMIT + 1 - com s')" using count by (simp add: Suc_diff_le)
    then show ?thesis using count t by (auto simp: race_rank_def)
  next
    case (put i)
    then show ?thesis using t by (auto simp: race_rank_def)
  next
    case (put_end i)
    then have "i = 100" using assms(2,4) by (force simp: put_inv_def)
    then show ?thesis using put_end t by (auto simp: race_rank_def)
  qed (use t in \<open>auto simp: race_rank_def\<close>)
qed

lemma race_main_rank: "race_main_step s s' \<Longrightarrow> race_rank s' < race_rank s"
  by (erule race_main_step.cases) (simp_all add: race_rank_def)

lemma race_step_rank: "race_inv s \<and> put_inv s \<Longrightarrow> race_step s s' \<Longrightarrow> race_rank s' < race_rank s"
  unfolding race_step_def race_inv_def by (meson loop_step_rank race_main_rank)

lemma loop_step_enabled:
  assumes "holds_gm (rpc s t) \<or> gm s = None" and "rpc s t \<noteq> RDone"
  shows "\<exists>s'. loop_step t s s'"
proof (cases "rpc s t")
  case RCheck
  then show ?thesis by (cases "com s < COM_LIMIT") (auto intro: loop_step.intros)
next
  case (RPut i)
  then show ?thesis by (cases "i < 100") (auto intro: loop_step.intros)
qed (use assms in \<open>auto intro: loop_step.intros\<close>)

lemma race_stuck:
  assumes "race_inv s" and "\<forall>s'. \<not> race_step s s'"
  shows "race_final s"
proof -
  have l: "gm_inv s" "com_inv s" "rjoin_inv s" using assms(1) by (simp_all add: race_inv_def)
  have made: "rcreated s = 2"
    using assms(2) l(3) race_main_step.create [of s] by (force simp: race_step_def rjoin_inv_def)
  have i: "\<not> loop_step t s s'" if "t < 2" for t s' using assms(2) that made by (simp add: race_step_def)
  have no: "\<not> holds_gm (rpc s t)" if "t < 2" for t
    using loop_step_enabled [of s t] i [OF that] by (cases "rpc s t") auto
  have free: "gm s = None"
    using l(1) no unfolding gm_inv_def by (cases "gm s") auto
  have over: "rpc s t = RDone" if "t < 2" for t
    using loop_step_enabled [of s t] i [OF that] free by blast
  then have "rjoined s = 2"
    using assms(2) l(3) race_main_step.join [of s] made by (force simp: race_step_def rjoin_inv_def)
  then show ?thesis using over [of 0] over [of 1] free l(2) by (simp add: race_final_def com_inv_def)
qed

interpretation race_sys: ending_system "\<lambda>s. s = counter0" race_step "\<lambda>s. race_inv s \<and> put_inv s" race_rank race_final
proof unfold_locales
  show "race_inv s \<and> put_inv s" if "s = counter0" for s
    using that race_inv_start by (simp add: put_inv_def counter0_def)
qed (auto intro: race_step_inv race_step_put race_step_rank race_stuck)

subsection \<open>The counter can pass its limit\<close>

lemma race_steps_trans: "race_step\<^sup>*\<^sup>* s t \<Longrightarrow> race_step t u \<Longrightarrow> race_step\<^sup>*\<^sup>* s u"
  by (rule rtranclp.rtrancl_into_rtrancl)

lemma race_loop: "loop_step t s s' \<Longrightarrow> t < 2 \<Longrightarrow> rcreated s = 2 \<Longrightarrow> race_step s s'"
  by (auto simp: race_step_def)

lemma words_steps:
  assumes "t < 2"
  shows "k \<le> 100 \<Longrightarrow> rcreated s = 2 \<Longrightarrow> rpc s t = RPut 0 \<Longrightarrow>
    race_step\<^sup>*\<^sup>* s (s\<lparr>pieces := pieces s @ replicate k (Word t), rpc := (rpc s)(t := RPut k)\<rparr>)"
proof (induction k)
  case 0
  then have "s\<lparr>pieces := pieces s @ replicate 0 (Word t), rpc := (rpc s)(t := RPut 0)\<rparr> = s"
    by (cases s) auto
  then show ?case by (simp only: rtranclp.rtrancl_refl)
next
  case (Suc k)
  let ?s = "s\<lparr>pieces := pieces s @ replicate k (Word t), rpc := (rpc s)(t := RPut k)\<rparr>"
  have "race_step ?s (?s\<lparr>pieces := pieces ?s @ [Word t], rpc := (rpc ?s)(t := RPut (k + 1))\<rparr>)"
    by (rule race_loop [OF loop_step.put [of ?s t k]]) (use Suc.prems assms in simp_all)
  moreover have "?s\<lparr>pieces := pieces ?s @ [Word t], rpc := (rpc ?s)(t := RPut (k + 1))\<rparr> =
      s\<lparr>pieces := pieces s @ replicate (Suc k) (Word t), rpc := (rpc s)(t := RPut (Suc k))\<rparr>"
    by (simp add: replicate_append_same)
  moreover have "race_step\<^sup>*\<^sup>* s ?s" by (rule Suc.IH) (use Suc.prems in simp_all)
  ultimately show ?case by (metis rtranclp.rtrancl_into_rtrancl)
qed

text \<open>From the test or from the lock, one thread alone gets through its loop body.\<close>

lemma body_steps:
  assumes "t < 2" and "rcreated s = 2" and "rpc s t = RLock" and "gm s = None"
  shows "race_step\<^sup>*\<^sup>* s (s\<lparr>pieces := pieces s @ replicate 100 (Word t) @ [Newline, From t (com s)],
    com := com s + 1, rpc := (rpc s)(t := RCheck)\<rparr>)"
proof -
  let ?a = "s\<lparr>gm := Some t, rpc := (rpc s)(t := RPut 0)\<rparr>"
  let ?b = "?a\<lparr>pieces := pieces ?a @ replicate 100 (Word t), rpc := (rpc ?a)(t := RPut 100)\<rparr>"
  let ?c = "?b\<lparr>rpc := (rpc ?b)(t := RNewline)\<rparr>"
  let ?d = "?c\<lparr>pieces := pieces ?c @ [Newline], rpc := (rpc ?c)(t := RFrom)\<rparr>"
  let ?e = "?d\<lparr>pieces := pieces ?d @ [From t (com ?d)], com := com ?d + 1, rpc := (rpc ?d)(t := RUnlock)\<rparr>"
  let ?f = "?e\<lparr>gm := None, rpc := (rpc ?e)(t := RCheck)\<rparr>"
  have "race_step s ?a" by (rule race_loop [OF loop_step.lock [of s t]]) (use assms in simp_all)
  moreover have "race_step\<^sup>*\<^sup>* ?a ?b" by (rule words_steps) (use assms in auto)
  moreover have "race_step ?b ?c" by (rule race_loop [OF loop_step.put_end [of ?b t 100]]) (use assms in simp_all)
  moreover have "race_step ?c ?d" by (rule race_loop [OF loop_step.new_line [of ?c t]]) (use assms in simp_all)
  moreover have "race_step ?d ?e" by (rule race_loop [OF loop_step.count [of ?d t]]) (use assms in simp_all)
  moreover have "race_step ?e ?f" by (rule race_loop [OF loop_step.unlock [of ?e t]]) (use assms in simp_all)
  ultimately have f: "race_step\<^sup>*\<^sup>* s ?f" by (meson converse_rtranclp_into_rtranclp rtranclp.rtrancl_into_rtrancl)
  have eq: "?f = s\<lparr>pieces := pieces s @ replicate 100 (Word t) @ [Newline, From t (com s)],
    com := com s + 1, rpc := (rpc s)(t := RCheck)\<rparr>"
    using assms(4) by (cases s) simp
  show ?thesis using f unfolding eq .
qed

text \<open>Thread 0 counts to 99; then both threads pass the test and count.\<close>

lemma count_steps:
  "k \<le> COM_LIMIT \<Longrightarrow> \<exists>s. race_step\<^sup>*\<^sup>* counter0 s \<and> rcreated s = 2 \<and> rjoined s = 0 \<and> gm s = None \<and>
     rpc s 0 = RCheck \<and> rpc s 1 = RCheck \<and> com s = k"
proof (induction k)
  case 0
  let ?s = "counter0\<lparr>rcreated := 1\<rparr>"
  have "race_step counter0 ?s" "race_step ?s (counter0\<lparr>rcreated := 2\<rparr>)"
    using race_main_step.create [of counter0] race_main_step.create [of ?s]
    by (simp_all add: race_step_def counter0_def numeral_2_eq_2)
  then have "race_step\<^sup>*\<^sup>* counter0 (counter0\<lparr>rcreated := 2\<rparr>)" by simp
  then show ?case by (intro exI [of _ "counter0\<lparr>rcreated := 2\<rparr>"]) (simp add: counter0_def)
next
  case (Suc k)
  then obtain s where s: "race_step\<^sup>*\<^sup>* counter0 s" "rcreated s = 2" "rjoined s = 0" "gm s = None"
    "rpc s 0 = RCheck" "rpc s 1 = RCheck" "com s = k" by auto
  let ?a = "s\<lparr>rpc := (rpc s)(0 := RLock)\<rparr>"
  have "race_step s ?a" by (rule race_loop [OF loop_step.enter [of s 0]]) (use s Suc.prems in simp_all)
  moreover note body_steps [of 0 ?a]
  ultimately show ?case using s
    by (intro exI [of _ "?a\<lparr>pieces := pieces ?a @ replicate 100 (Word 0) @ [Newline, From 0 (com ?a)],
      com := com ?a + 1, rpc := (rpc ?a)(0 := RCheck)\<rparr>"]) auto
qed

lemma limit_passed:
  "\<exists>s. race_step\<^sup>*\<^sup>* counter0 s \<and> race_inv s \<and> put_inv s \<and> com s = COM_LIMIT + 1"
proof -
  obtain s where s: "race_step\<^sup>*\<^sup>* counter0 s" "rcreated s = 2" "gm s = None"
    "rpc s 0 = RCheck" "rpc s 1 = RCheck" "com s = COM_LIMIT - 1"
    using count_steps [of "COM_LIMIT - 1"] by auto
  let ?a = "s\<lparr>rpc := (rpc s)(0 := RLock)\<rparr>"
  let ?b = "?a\<lparr>rpc := (rpc ?a)(1 := RLock)\<rparr>"
  have ab: "race_step s ?a" "race_step ?a ?b"
    by (rule race_loop [OF loop_step.enter [of s 0]] race_loop [OF loop_step.enter [of ?a 1]];
        use s in \<open>simp add: COM_LIMIT_def\<close>)+
  obtain c where c: "race_step\<^sup>*\<^sup>* ?b c" "rcreated c = 2" "gm c = None" "rpc c 1 = RLock" "com c = COM_LIMIT"
    using body_steps [of 0 ?b] s by (force simp: COM_LIMIT_def)
  obtain d where d: "race_step\<^sup>*\<^sup>* c d" "com d = COM_LIMIT + 1" using body_steps [of 1 c] c by force
  have "race_step\<^sup>*\<^sup>* counter0 d" using s(1) ab c(1) d(1) by (meson converse_rtranclp_into_rtranclp rtranclp_trans)
  then show ?thesis using d(2) race_sys.inv_reachable by blast
qed

section \<open>thread_test.c\<close>

text \<open>\<open>QPrint k\<close> is the test of the loop with \<open>i = k\<close>.\<close>

datatype test_pc = QLock | QPrint nat | QUnlock | QDone

record tester =
  xval :: nat
  gmutex :: "nat option"
  qpc :: "nat \<Rightarrow> test_pc"
  said :: "(nat \<times> nat) list"
  qcreated :: nat
  qjoined :: nat

definition tester0 :: tester where
  "tester0 = \<lparr>xval = 0, gmutex = None, qpc = (\<lambda>_. QLock), said = [], qcreated = 0, qjoined = 0\<rparr>"

text \<open>Thread 0 runs \<^verbatim>\<open>f\<close>, thread 1 \<^verbatim>\<open>g\<close>; a line names the thread and the value.\<close>

definition said_text :: "nat \<times> nat \<Rightarrow> string" where
  "said_text q = (if fst q = 0 then ''this is f '' else ''this is g '') @ nat_str (snd q) @ newline"

inductive fg_step :: "nat \<Rightarrow> tester \<Rightarrow> tester \<Rightarrow> bool" for t where
  lock: "qpc s t = QLock \<Longrightarrow> gmutex s = None \<Longrightarrow>
    fg_step t s (s\<lparr>gmutex := Some t, qpc := (qpc s)(t := QPrint 0)\<rparr>)"
| print: "qpc s t = QPrint i \<Longrightarrow> i < 100 \<Longrightarrow>
    fg_step t s (s\<lparr>said := said s @ [(t, xval s)], xval := xval s + 1, qpc := (qpc s)(t := QPrint (i + 1))\<rparr>)"
| print_end: "qpc s t = QPrint i \<Longrightarrow> \<not> i < 100 \<Longrightarrow> fg_step t s (s\<lparr>qpc := (qpc s)(t := QUnlock)\<rparr>)"
| unlock: "qpc s t = QUnlock \<Longrightarrow> fg_step t s (s\<lparr>gmutex := None, qpc := (qpc s)(t := QDone)\<rparr>)"

inductive test_main_step :: "tester \<Rightarrow> tester \<Rightarrow> bool" where
  create: "qcreated s < 2 \<Longrightarrow> test_main_step s (s\<lparr>qcreated := qcreated s + 1\<rparr>)"
| join: "qcreated s = 2 \<Longrightarrow> qjoined s < 2 \<Longrightarrow> qpc s (qjoined s) = QDone \<Longrightarrow>
    test_main_step s (s\<lparr>qjoined := qjoined s + 1\<rparr>)"

definition test_step :: "tester \<Rightarrow> tester \<Rightarrow> bool" where
  "test_step s s' \<longleftrightarrow> (\<exists>t<2. t < qcreated s \<and> fg_step t s s') \<or> test_main_step s s'"

definition block :: "nat \<Rightarrow> nat \<Rightarrow> nat \<Rightarrow> (nat \<times> nat) list" where
  "block t n k = map (\<lambda>i. (t, n + i)) [0..<k]"

lemma block_simps [simp]: "block t n 0 = []" "block t n (Suc k) = block t n k @ [(t, n + k)]"
  by (simp_all add: block_def)

text \<open>
  Thread \<open>t\<close> alone at work, on a counter that was \<open>n\<close> and an output that was \<open>ls\<close> when it
  began. One thread works first and the other follows it.
\<close>

definition alone :: "nat \<Rightarrow> nat \<Rightarrow> (nat \<times> nat) list \<Rightarrow> tester \<Rightarrow> bool" where
  "alone t n ls s \<longleftrightarrow>
     (gmutex s = None \<and> qpc s t = QLock \<and> xval s = n \<and> said s = ls \<or>
      (\<exists>k\<le>100. gmutex s = Some t \<and> qpc s t = QPrint k \<and> xval s = n + k \<and> said s = ls @ block t n k) \<or>
      gmutex s = Some t \<and> qpc s t = QUnlock \<and> xval s = n + 100 \<and> said s = ls @ block t n 100 \<or>
      gmutex s = None \<and> qpc s t = QDone \<and> xval s = n + 100 \<and> said s = ls @ block t n 100)"

definition in_turn :: "tester \<Rightarrow> bool" where
  "in_turn s \<longleftrightarrow> (\<exists>t\<in>{0, 1}. alone t 0 [] s \<and> qpc s (1 - t) = QLock \<or>
     qpc s t = QDone \<and> alone (1 - t) 100 (block t 0 100) s)"

definition test_inv :: "tester \<Rightarrow> bool" where
  "test_inv s \<longleftrightarrow> in_turn s \<and>
     qcreated s \<le> 2 \<and> qjoined s \<le> 2 \<and> (qjoined s \<noteq> 0 \<longrightarrow> qcreated s = 2) \<and> (\<forall>u<qjoined s. qpc s u = QDone)"

lemma alone_step:
  assumes "fg_step t s s'" and "alone t n ls s"
  shows "alone t n ls s'"
  using assms by cases (auto simp: alone_def)

lemma alone_other:
  assumes "fg_step u s s'" and "alone t n ls s" and "u \<noteq> t" and "qpc s u = QLock"
  shows "gmutex s = None \<and> s' = s\<lparr>gmutex := Some u, qpc := (qpc s)(u := QPrint 0)\<rparr>"
  using assms by cases auto

lemma fg_step_done: "fg_step u s s' \<Longrightarrow> qpc s t = QDone \<Longrightarrow> qpc s' t = QDone \<and> t \<noteq> u"
  by (erule fg_step.cases) auto

lemma fg_step_other: "fg_step u s s' \<Longrightarrow> t \<noteq> u \<Longrightarrow> qpc s' t = qpc s t"
  by (erule fg_step.cases) auto

lemma alone_free:
  assumes "alone t n ls s"
  shows "qpc s t = QLock \<Longrightarrow> gmutex s = None" and "qpc s t = QDone \<Longrightarrow> gmutex s = None"
  using assms by (auto simp: alone_def)

lemma fg_step_test:
  assumes "fg_step u s s'" and "u \<in> {0, 1}" and "in_turn s"
  shows "in_turn s'"
proof -
  obtain t where t: "t \<in> {0, 1}"
    "alone t 0 [] s \<and> qpc s (1 - t) = QLock \<or> qpc s t = QDone \<and> alone (1 - t) 100 (block t 0 100) s"
    using assms(3) unfolding in_turn_def by blast
  have two: "u = t \<or> u = 1 - t" "t \<noteq> 1 - t" "1 - t \<in> {0, 1}" "1 - (1 - t) = t" using t(1) assms(2) by auto
  from t(2) show ?thesis
  proof
    assume a: "alone t 0 [] s \<and> qpc s (1 - t) = QLock"
    show ?thesis
    proof (cases "u = t")
      case True
      then have "alone t 0 [] s'" using a alone_step assms(1) by blast
      moreover have "qpc s' (1 - t) = QLock" using a fg_step_other [OF assms(1), of "1 - t"] True two(2) by simp
      ultimately show ?thesis unfolding in_turn_def using t(1) by blast
    next
      case False
      then have u: "u = 1 - t" using two(1) by blast
      have s': "gmutex s = None" "s' = s\<lparr>gmutex := Some u, qpc := (qpc s)(u := QPrint 0)\<rparr>"
        using alone_other [OF assms(1) _ False] a u by blast+
      consider (new) "qpc s t = QLock" "xval s = 0" "said s = []"
        | (old) "qpc s t = QDone" "xval s = 100" "said s = block t 0 100"
        using a s'(1) by (auto simp: alone_def)
      then show ?thesis
      proof cases
        case new
        then have "alone u 0 [] s'" "qpc s' (1 - u) = QLock" using s' u two by (auto simp: alone_def)
        then show ?thesis unfolding in_turn_def using assms(2) by blast
      next
        case old
        then have "qpc s' t = QDone" "alone (1 - t) 100 (block t 0 100) s'"
          using s' u two by (auto simp: alone_def)
        then show ?thesis unfolding in_turn_def using t(1) by blast
      qed
    qed
  next
    assume a: "qpc s t = QDone \<and> alone (1 - t) 100 (block t 0 100) s"
    then have "u = 1 - t" "qpc s' t = QDone" using fg_step_done [OF assms(1)] two(1) by blast+
    then show ?thesis unfolding in_turn_def using a alone_step assms(1) t(1) by blast
  qed
qed

lemma test_inv_start: "test_inv tester0"
  by (auto simp: test_inv_def in_turn_def tester0_def alone_def)

lemma test_main_same:
  "test_main_step s s' \<Longrightarrow> qpc s' = qpc s \<and> xval s' = xval s \<and> said s' = said s \<and> gmutex s' = gmutex s"
  by (erule test_main_step.cases) auto

lemma test_step_inv:
  assumes "test_inv s" and "test_step s s'"
  shows "test_inv s'"
  using assms(2) unfolding test_step_def
proof (elim disjE exE conjE)
  fix u assume u: "u < 2" "fg_step u s s'"
  then have "qcreated s' = qcreated s" "qjoined s' = qjoined s" by (auto elim: fg_step.cases)
  moreover have "qpc s v = QDone \<Longrightarrow> qpc s' v = QDone" for v using fg_step_done u(2) by blast
  moreover have "u \<in> {0, 1}" using u(1) by auto
  ultimately show ?thesis using fg_step_test [OF u(2)] assms(1) unfolding test_inv_def by auto
next
  assume m: "test_main_step s s'"
  then have a: "alone t n ls s' = alone t n ls s" for t n ls using test_main_same by (simp add: alone_def)
  from m show ?thesis using assms(1) test_main_same [OF m] a
    by cases (auto simp: test_inv_def in_turn_def less_Suc_eq)
qed

primrec test_rank_pc :: "test_pc \<Rightarrow> nat" where
  "test_rank_pc QLock = 103"
| "test_rank_pc (QPrint k) = 102 - k"
| "test_rank_pc QUnlock = 1"
| "test_rank_pc QDone = 0"

definition test_rank :: "tester \<Rightarrow> nat" where
  "test_rank s = test_rank_pc (qpc s 0) + test_rank_pc (qpc s 1) + (2 - qcreated s) + (2 - qjoined s)"

definition test_final :: "tester \<Rightarrow> bool" where
  "test_final s \<longleftrightarrow> qjoined s = 2 \<and> xval s = 200 \<and>
     (said s = block 0 0 100 @ block 1 100 100 \<or> said s = block 1 0 100 @ block 0 100 100)"

lemma alone_print: "alone t n ls s \<Longrightarrow> qpc s t = QPrint k \<Longrightarrow> k \<le> 100"
  by (auto simp: alone_def)

lemma test_inv_print:
  assumes "test_inv s" and "u < 2" and "qpc s u = QPrint k"
  shows "k \<le> 100"
proof -
  obtain t where t: "t \<in> {0, 1}"
    "alone t 0 [] s \<and> qpc s (1 - t) = QLock \<or> qpc s t = QDone \<and> alone (1 - t) 100 (block t 0 100) s"
    using assms(1) unfolding test_inv_def in_turn_def by blast
  have "u = t \<or> u = 1 - t" using t(1) assms(2) by auto
  then show ?thesis using t(2) assms(3) alone_print by fastforce
qed

lemma test_step_rank:
  assumes "test_inv s" and "test_step s s'"
  shows "test_rank s' < test_rank s"
  using assms(2) unfolding test_step_def
proof (elim disjE exE conjE)
  fix u assume u: "u < 2" "fg_step u s s'"
  have t: "u = 0 \<or> u = 1" using u(1) by auto
  from u(2) show ?thesis
  proof cases
    case (print_end i)
    then have "i = 100" using test_inv_print [OF assms(1) u(1)] by force
    then show ?thesis using print_end t by (auto simp: test_rank_def)
  qed (use t in \<open>auto simp: test_rank_def\<close>)
qed (auto elim!: test_main_step.cases simp: test_rank_def)

lemma fg_step_enabled:
  assumes "qpc s t \<noteq> QDone" and "qpc s t = QLock \<Longrightarrow> gmutex s = None"
  shows "\<exists>s'. fg_step t s s'"
proof (cases "qpc s t")
  case (QPrint i)
  then show ?thesis by (cases "i < 100") (auto intro: fg_step.intros)
qed (use assms in \<open>auto intro: fg_step.intros\<close>)

lemma test_stuck:
  assumes "test_inv s" and "\<forall>s'. \<not> test_step s s'"
  shows "test_final s"
proof -
  have made: "qcreated s = 2"
    using assms test_main_step.create [of s] by (force simp: test_step_def test_inv_def)
  have i: "\<not> fg_step t s s'" if "t < 2" for t s' using assms(2) that made by (simp add: test_step_def)
  obtain t where t: "t \<in> {0, 1}"
    "alone t 0 [] s \<and> qpc s (1 - t) = QLock \<or> qpc s t = QDone \<and> alone (1 - t) 100 (block t 0 100) s"
    using assms(1) unfolding test_inv_def in_turn_def by blast
  have lt: "t < 2" "1 - t < 2" using t(1) by auto
  have e: "alone u n ls s \<Longrightarrow> u < 2 \<Longrightarrow> qpc s u = QDone" for u n ls
    using fg_step_enabled [of s u] alone_free(1) i by blast
  from t(2) have d: "qpc s t = QDone \<and> alone (1 - t) 100 (block t 0 100) s"
  proof
    assume a: "alone t 0 [] s \<and> qpc s (1 - t) = QLock"
    then have "gmutex s = None" using e lt(1) alone_free(2) by blast
    then show ?thesis using a fg_step_enabled [of s "1 - t"] i [OF lt(2)] by auto
  qed
  then have d2: "qpc s (1 - t) = QDone" using e lt(2) by blast
  then have "qpc s u = QDone" if "u < 2" for u using d t(1) that by (cases "u = t") (auto simp: less_Suc_eq numeral_2_eq_2)
  then have "qjoined s = 2"
    using assms test_main_step.join [of s] made by (force simp: test_step_def test_inv_def)
  then show ?thesis using d d2 t(1) by (auto simp: test_final_def alone_def)
qed

interpretation tester_sys: ending_system "\<lambda>s. s = tester0" test_step test_inv test_rank test_final
  by unfold_locales (auto intro: test_inv_start test_step_inv test_step_rank test_stuck)

section \<open>simple_threads.c and simple_processes.c\<close>

text \<open>
  Each thread or child process counts in its own variable (of shared memory, for processes).
  \<open>limit\<close> is the number of rounds, 100 for the threads and 4 for the processes. The inner
  loops only change the local \<^verbatim>\<open>x\<close>, which is not initialised and never used.
\<close>

definition THREAD_ROUNDS :: nat where
  "THREAD_ROUNDS = 100"

definition PROCESS_ROUNDS :: nat where
  "PROCESS_ROUNDS = 4"

datatype own_pc = OPrint nat | OAdd nat | ODone

record own =
  num :: "nat \<Rightarrow> nat"
  opc :: "nat \<Rightarrow> own_pc"
  olines :: "string list"
  ocreated :: nat
  ojoined :: nat
  wrapped :: bool

definition own0 :: own where
  "own0 = \<lparr>num = (\<lambda>_. 0), opc = (\<lambda>_. OPrint 0), olines = [], ocreated = 0, ojoined = 0, wrapped = False\<rparr>"

text \<open>
  The segment is made with the permissions 0: when it cannot be attached \<^verbatim>\<open>shmat\<close> returns
  \<open>-1\<close>, and the two stores through that pointer are undefined.
\<close>

definition processes_start :: "bool \<Rightarrow> own option" where
  "processes_start attached = (if attached then Some own0 else None)"

definition own_line :: "nat \<Rightarrow> string" where
  "own_line t = (if t = 0 then ''doing one thing'' else ''doing another'') @ newline"

inductive own_thread :: "nat \<Rightarrow> nat \<Rightarrow> own \<Rightarrow> own \<Rightarrow> bool" for n t where
  print: "opc s t = OPrint i \<Longrightarrow> i < n \<Longrightarrow>
    own_thread n t s (s\<lparr>olines := olines s @ [own_line t], opc := (opc s)(t := OAdd i)\<rparr>)"
| leave: "opc s t = OPrint i \<Longrightarrow> \<not> i < n \<Longrightarrow> own_thread n t s (s\<lparr>opc := (opc s)(t := ODone)\<rparr>)"
| add: "opc s t = OAdd i \<Longrightarrow>
    own_thread n t s (s\<lparr>num := (num s)(t := num s t + 1), opc := (opc s)(t := OPrint (i + 1))\<rparr>)"

definition do_wrap_up :: "nat \<Rightarrow> nat \<Rightarrow> string" where
  "do_wrap_up one another = ''All done,  one thing '' @ nat_str one @ '', another '' @ nat_str another @
     '' for a total '' @ nat_str (one + another) @ newline"

inductive own_main :: "own \<Rightarrow> own \<Rightarrow> bool" where
  create: "ocreated s < 2 \<Longrightarrow> own_main s (s\<lparr>ocreated := ocreated s + 1\<rparr>)"
| join: "ocreated s = 2 \<Longrightarrow> ojoined s < 2 \<Longrightarrow> opc s (ojoined s) = ODone \<Longrightarrow>
    own_main s (s\<lparr>ojoined := ojoined s + 1\<rparr>)"
| wrap_up: "ojoined s = 2 \<Longrightarrow> \<not> wrapped s \<Longrightarrow>
    own_main s (s\<lparr>olines := olines s @ [do_wrap_up (num s 0) (num s 1)], wrapped := True\<rparr>)"

definition own_step :: "nat \<Rightarrow> own \<Rightarrow> own \<Rightarrow> bool" where
  "own_step n s s' \<longleftrightarrow> (\<exists>t<2. t < ocreated s \<and> own_thread n t s s') \<or> own_main s s'"

definition own_pc_ok :: "nat \<Rightarrow> nat \<Rightarrow> own_pc \<Rightarrow> bool" where
  "own_pc_ok n c p = (case p of OPrint i \<Rightarrow> i \<le> n \<and> c = i | OAdd i \<Rightarrow> i < n \<and> c = i | ODone \<Rightarrow> c = n)"

definition own_inv :: "nat \<Rightarrow> own \<Rightarrow> bool" where
  "own_inv n s \<longleftrightarrow> (\<forall>u<2. own_pc_ok n (num s u) (opc s u)) \<and> ocreated s \<le> 2 \<and> ojoined s \<le> 2 \<and>
     (ojoined s \<noteq> 0 \<longrightarrow> ocreated s = 2) \<and> (\<forall>u<ojoined s. opc s u = ODone) \<and>
     (wrapped s \<longrightarrow> ojoined s = 2 \<and> last (olines s) = do_wrap_up n n)"

primrec own_rank_pc :: "nat \<Rightarrow> own_pc \<Rightarrow> nat" where
  "own_rank_pc n (OPrint i) = 2 * (n - i) + 1"
| "own_rank_pc n (OAdd i) = 2 * (n - i)"
| "own_rank_pc n ODone = 0"

definition own_rank :: "nat \<Rightarrow> own \<Rightarrow> nat" where
  "own_rank n s = own_rank_pc n (opc s 0) + own_rank_pc n (opc s 1) + (2 - ocreated s) + (2 - ojoined s) +
     (if wrapped s then 0 else 1)"

definition own_final :: "nat \<Rightarrow> own \<Rightarrow> bool" where
  "own_final n s \<longleftrightarrow> num s 0 = n \<and> num s 1 = n \<and> wrapped s \<and> last (olines s) = do_wrap_up n n"

lemma own_inv_start: "own_inv n own0"
  by (simp add: own_inv_def own0_def own_pc_ok_def)

lemma own_thread_inv:
  assumes "own_thread n t s s'" and "t < 2" and "own_inv n s"
  shows "own_inv n s' \<and> own_rank n s' < own_rank n s"
proof -
  have p: "own_pc_ok n (num s t) (opc s t)" using assms(2,3) by (simp add: own_inv_def)
  have t: "t = 0 \<or> t = 1" using assms(2) by auto
  have w: "opc s t \<noteq> ODone \<Longrightarrow> \<not> wrapped s" using assms(2,3) by (auto simp: own_inv_def)
  from assms(1) show ?thesis
  proof cases
    case (print i)
    then show ?thesis using p w assms(2,3) t by (auto simp: own_inv_def own_pc_ok_def own_rank_def)
  next
    case (leave i)
    then show ?thesis using p w assms(2,3) t by (auto simp: own_inv_def own_pc_ok_def own_rank_def)
  next
    case (add i)
    then show ?thesis using p w assms(2,3) t by (auto simp: own_inv_def own_pc_ok_def own_rank_def)
  qed
qed

lemma own_main_inv:
  assumes "own_main s s'" and "own_inv n s"
  shows "own_inv n s' \<and> own_rank n s' < own_rank n s"
  using assms by cases (auto simp: own_inv_def own_rank_def less_Suc_eq own_pc_ok_def)

lemma own_step_inv: "own_inv n s \<Longrightarrow> own_step n s s' \<Longrightarrow> own_inv n s' \<and> own_rank n s' < own_rank n s"
  unfolding own_step_def using own_thread_inv own_main_inv by blast

lemma own_stuck:
  assumes "own_inv n s" and "\<forall>s'. \<not> own_step n s s'"
  shows "own_final n s"
proof -
  have made: "ocreated s = 2"
    using assms own_main.create [of s] by (force simp: own_step_def own_inv_def)
  have over: "opc s t = ODone" if "t < 2" for t
  proof (rule ccontr)
    assume "opc s t \<noteq> ODone"
    then have "\<exists>s'. own_thread n t s s'" by (cases "opc s t") (meson own_thread.intros)+
    then show False using assms(2) that made by (auto simp: own_step_def)
  qed
  then have j: "ojoined s = 2"
    using assms own_main.join [of s] made by (force simp: own_step_def own_inv_def)
  then have "wrapped s" using assms(2) own_main.wrap_up [of s] by (auto simp: own_step_def)
  moreover have "num s t = n" if "t < 2" for t
    using assms(1) over [OF that] that by (auto simp: own_inv_def own_pc_ok_def)
  ultimately show ?thesis using assms(1) by (simp add: own_final_def own_inv_def)
qed

interpretation own_sys: ending_system "\<lambda>s. s = own0" "own_step n" "own_inv n" "own_rank n" "own_final n" for n
proof unfold_locales
  show "own_inv n s" if "s = own0" for s using that own_inv_start by simp
qed (use own_step_inv own_stuck in blast)+

section \<open>raceconditioned.c\<close>

text \<open>
  Child and parent write one character at a time to the same unbuffered output. What is left of
  each one's string, up to its NUL, and the output.
\<close>

record pair =
  child :: string
  parent :: string
  screen :: string

definition child_text :: string where
  "child_text = ''output from child'' @ newline"

definition parent_text :: string where
  "parent_text = ''output from parent'' @ newline"

inductive put_step :: "pair \<Rightarrow> pair \<Rightarrow> bool" where
  child: "child s = c # cs \<Longrightarrow> put_step s (s\<lparr>child := cs, screen := screen s @ [c]\<rparr>)"
| parent: "parent s = c # cs \<Longrightarrow> put_step s (s\<lparr>parent := cs, screen := screen s @ [c]\<rparr>)"

inductive_cases put_stepE: "put_step s s'"

definition pair_at :: "string \<Rightarrow> string \<Rightarrow> string \<Rightarrow> pair" where
  "pair_at xs ys out = \<lparr>child = xs, parent = ys, screen = out\<rparr>"

lemma put_step_pair:
  "put_step (pair_at xs ys out) s \<longleftrightarrow>
     (\<exists>c cs. xs = c # cs \<and> s = pair_at cs ys (out @ [c])) \<or> (\<exists>c cs. ys = c # cs \<and> s = pair_at xs cs (out @ [c]))"
  by (auto simp: pair_at_def put_step.simps)

lemma shuffles_reached:
  "zs \<in> shuffles xs ys \<Longrightarrow> put_step\<^sup>*\<^sup>* (pair_at xs ys out) (pair_at [] [] (out @ zs))"
proof (induction zs arbitrary: xs ys out)
  case Nil
  then show ?case by simp
next
  case (Cons z zs)
  then consider (left) xs' where "xs = z # xs'" "zs \<in> shuffles xs' ys"
    | (right) ys' where "ys = z # ys'" "zs \<in> shuffles xs ys'" by (auto simp: Cons_in_shuffles_iff neq_Nil_conv)
  then show ?case
  proof cases
    case left
    then have "put_step (pair_at xs ys out) (pair_at xs' ys (out @ [z]))" by (simp add: put_step_pair)
    with Cons.IH [OF left(2), of "out @ [z]"] show ?thesis by (simp add: converse_rtranclp_into_rtranclp)
  next
    case right
    then have "put_step (pair_at xs ys out) (pair_at xs ys' (out @ [z]))" by (simp add: put_step_pair)
    with Cons.IH [OF right(2), of "out @ [z]"] show ?thesis by (simp add: converse_rtranclp_into_rtranclp)
  qed
qed

lemma reached_shuffles:
  "put_step\<^sup>*\<^sup>* s (pair_at [] [] w) \<Longrightarrow> \<exists>zs\<in>shuffles (child s) (parent s). w = screen s @ zs"
proof (induction rule: converse_rtranclp_induct)
  case base
  then show ?case by (simp add: pair_at_def)
next
  case (step s t)
  then obtain zs where zs: "zs \<in> shuffles (child t) (parent t)" "w = screen t @ zs" by blast
  from step.hyps(1) show ?case
    by (rule put_stepE) (use zs in \<open>auto intro!: bexI [of _ "_ # zs"] simp: Cons_in_shuffles_iff\<close>)
qed

section \<open>Properties\<close>

lemma race_step_com: "race_step s s' \<Longrightarrow> com s \<le> com s'"
  unfolding race_step_def by (auto elim!: loop_step.cases race_main_step.cases)

lemma race_steps_com: "race_step\<^sup>*\<^sup>* s s' \<Longrightarrow> com s \<le> com s'"
  by (induction rule: rtranclp_induct) (auto dest: race_step_com)



text \<open>
  The limit of 100 is tested outside the mutex: there are schedules in which both threads
  pass the test at 99, and the program ends with the counter at 101, having printed the number
  100.
\<close>

theorem race_condition_overruns:
  "\<exists>s. race_step\<^sup>*\<^sup>* counter0 s \<and> race_final s \<and> com s = 101 \<and> 100 \<in> set (froms (pieces s))"
proof -
  obtain s where s: "race_step\<^sup>*\<^sup>* counter0 s" "com s = COM_LIMIT + 1" using limit_passed by blast
  obtain t where t: "race_step\<^sup>*\<^sup>* s t" "race_final t" using race_sys.always_ends [OF refl s(1)] by blast
  have r: "race_step\<^sup>*\<^sup>* counter0 t" using s(1) t(1) by simp
  then have "com_inv t" using race_sys.inv_reachable [OF refl r] by (simp add: race_inv_def)
  moreover have "com t = 101"
    using race_steps_com [OF t(1)] s(2) t(2) by (simp add: race_final_def COM_LIMIT_def)
  ultimately show ?thesis using r t(2) by (intro exI [of _ t]) (simp add: com_inv_def)
qed

text \<open>
  \<^verbatim>\<open>thread_test.c\<close>: every schedule ends, within 210 steps, with the counter at 200 and
  the hundred lines of one thread before those of the other, the values in order.
\<close>

theorem thread_test_ends:
  assumes "test_step\<^sup>*\<^sup>* tester0 s"
  shows "(\<exists>t. test_step\<^sup>*\<^sup>* s t \<and> test_final t) \<and> ((\<forall>t. \<not> test_step s t) \<longrightarrow> test_final s) \<and>
    (\<forall>k t. (test_step ^^ k) tester0 t \<longrightarrow> k \<le> 210)"
proof (intro conjI allI impI)
  show "\<exists>t. test_step\<^sup>*\<^sup>* s t \<and> test_final t" by (rule tester_sys.always_ends [OF refl assms])
  show "test_final s" if "\<forall>t. \<not> test_step s t" by (rule tester_sys.ends_final [OF refl assms that])
  show "k \<le> 210" if "(test_step ^^ k) tester0 t" for k t
    using tester_sys.run_length [OF refl that] by (simp add: test_rank_def tester0_def)
qed

text \<open>
  \<^verbatim>\<open>simple_threads.c\<close> and \<^verbatim>\<open>simple_processes.c\<close>: every schedule ends with both
  counters at the number of rounds and the summary, with their sum, as the last line.
\<close>

theorem own_counters_end:
  assumes "(own_step n)\<^sup>*\<^sup>* own0 s" and "n = THREAD_ROUNDS \<or> n = PROCESS_ROUNDS"
  shows "(\<exists>t. (own_step n)\<^sup>*\<^sup>* s t \<and> own_final n t) \<and> ((\<forall>t. \<not> own_step n s t) \<longrightarrow> own_final n s) \<and>
    (\<forall>k t. (own_step n ^^ k) own0 t \<longrightarrow> k \<le> 407)"
proof (intro conjI allI impI)
  show "\<exists>t. (own_step n)\<^sup>*\<^sup>* s t \<and> own_final n t" by (rule own_sys.always_ends [OF refl assms(1)])
  show "own_final n s" if "\<forall>t. \<not> own_step n s t" by (rule own_sys.ends_final [OF refl assms(1) that])
  show "k \<le> 407" if "(own_step n ^^ k) own0 t" for k t
    using own_sys.run_length [OF refl that] assms(2)
    by (auto simp: own_rank_def own0_def THREAD_ROUNDS_def PROCESS_ROUNDS_def)
qed


end
