(* ===== verification/Samples.thy ===== *)
theory Samples
  imports Os Complex_Main
begin

text \<open>
  Small programs: two versions of \<^verbatim>\<open>strlen\<close> (\<^verbatim>\<open>c/loop.c\<close>, \<^verbatim>\<open>c/recursion.c\<close>), a sum
  (\<^verbatim>\<open>c/sum.c\<close>), nested tokenizers (\<^verbatim>\<open>c/strtoken.c\<close>), the decomposition of a double
  (\<^verbatim>\<open>c/frexp.c\<close>), \<^verbatim>\<open>c/fread.c\<close> and \<^verbatim>\<open>c/fwrite.c\<close>. \<open>None\<close> is
  undefined behaviour: a read or write outside an array, or a signed overflow.
\<close>

unbundle bit_operations_syntax

section \<open>Lengths of strings\<close>

definition INT_MAX :: int where
  "INT_MAX = 2147483647"

text \<open>
  The loop of \<^verbatim>\<open>loop.c\<close> reads and advances \<open>ptr\<close>, an index in the memory; the memory is
  finite, so the loop ends.
\<close>

function strlen_loop :: "string \<Rightarrow> nat \<Rightarrow> int \<Rightarrow> int option" where
  "strlen_loop mem ptr counter =
     (if length mem \<le> ptr then None
      else if mem ! ptr \<noteq> NUL then
        (if counter = INT_MAX then None else strlen_loop mem (ptr + 1) (counter + 1))
      else Some counter)"
  by pat_completeness auto
termination by (relation "measure (\<lambda>(mem, ptr, counter). length mem - ptr)") auto

declare strlen_loop.simps [simp del]

definition mystrlen_loop :: "string \<Rightarrow> nat \<Rightarrow> int option" where
  "mystrlen_loop mem str = strlen_loop mem str 0"

text \<open>\<^verbatim>\<open>recursion.c\<close>: the pointer is what is left of the memory.\<close>

primrec mystrlen_helper :: "string \<Rightarrow> int \<Rightarrow> int option" where
  "mystrlen_helper [] count = None"
| "mystrlen_helper (c # str) count =
     (if c = NUL then Some count
      else if count = INT_MAX then None
      else mystrlen_helper str (count + 1))"

definition mystrlen_rec :: "string \<Rightarrow> int option" where
  "mystrlen_rec str = mystrlen_helper str 0"

definition hoges :: string where
  "hoges = concat (replicate 1010 ''hogehoge'') @ [NUL]"

primrec print_times :: "nat \<Rightarrow> int option \<Rightarrow> unit io" where
  "print_times 0 n = Ret ()"
| "print_times (Suc k) n =
     (case n of None \<Rightarrow> Undef | Some v \<Rightarrow> Sys (Out (int_str v @ newline)) (\<lambda>_. print_times k n))"

definition loop_main :: "int io" where
  "loop_main = io_bind (print_times 100000 (mystrlen_loop hoges 0)) (\<lambda>_. Ret 0)"

definition recursion_main :: "int io" where
  "recursion_main = io_bind (print_times 100000 (mystrlen_rec hoges)) (\<lambda>_. Ret 0)"

text \<open>The two agree on every memory, wherever they begin.\<close>

lemma strlen_loop_helper: "strlen_loop mem ptr counter = mystrlen_helper (drop ptr mem) counter"
proof (induction mem ptr counter rule: strlen_loop.induct)
  case (1 mem ptr counter)
  show ?case
  proof (cases "ptr < length mem")
    case True
    then have "drop ptr mem = mem ! ptr # drop (Suc ptr) mem" by (rule Cons_nth_drop_Suc [symmetric])
    with True 1 show ?thesis by (simp add: strlen_loop.simps [of mem ptr])
  qed (simp add: strlen_loop.simps [of mem ptr])
qed

lemma mystrlen_helper_value:
  assumes "NUL \<notin> set s" and "c + int (length s) \<le> INT_MAX"
  shows "mystrlen_helper (s @ NUL # rest) c = Some (c + int (length s))"
  using assms by (induction s arbitrary: c) auto

lemma mystrlen_helper_too_long:
  assumes "NUL \<notin> set s" and "c \<le> INT_MAX" and "INT_MAX < c + int (length s)"
  shows "mystrlen_helper (s @ rest) c = None"
  using assms by (induction s arbitrary: c) auto

lemma mystrlen_helper_no_end:
  assumes "NUL \<notin> set s"
  shows "mystrlen_helper s c = None"
  using assms by (induction s arbitrary: c) auto

lemma run_print_times:
  "run os tr (print_times k (Some v)) = (Returned (), tr @ replicate k (Out (int_str v @ newline)))"
  by (induction k arbitrary: tr) (simp_all add: append_assoc [symmetric] del: append_assoc)

lemma hoges_length:
  assumes "8 * int n \<le> INT_MAX"
  shows "mystrlen_rec (concat (replicate n ''hogehoge'') @ [NUL]) = Some (8 * int n)"
proof -
  have "length (concat (replicate n ''hogehoge'')) = 8 * n" by (induction n) simp_all
  moreover have "NUL \<notin> set (concat (replicate n ''hogehoge''))" by (auto simp: NUL_def)
  ultimately show ?thesis
    using mystrlen_helper_value [of "concat (replicate n ''hogehoge'')" 0 "[]"] assms
    by (simp add: mystrlen_rec_def)
qed

lemma run_print_main:
  "run os tr (io_bind (print_times k (Some v)) (\<lambda>_. Ret n)) = (Returned n, tr @ replicate k (Out (int_str v @ newline)))"
  by (simp add: run_bind run_print_times)

section \<open>A sum\<close>

text \<open>\<open>data\<close> is the memory from the array on; the index is the pointer.\<close>

definition int_add :: "int \<Rightarrow> int \<Rightarrow> int option" where
  "int_add a b = (if - INT_MAX - 1 \<le> a + b \<and> a + b \<le> INT_MAX then Some (a + b) else None)"

primrec sum_loop :: "int list \<Rightarrow> nat \<Rightarrow> nat \<Rightarrow> int \<Rightarrow> int option" where
  "sum_loop data p 0 x = Some x"
| "sum_loop data p (Suc len) x =
     (if length data \<le> p + 1 then None
      else case int_add x (data ! (p + 1)) of
        None \<Rightarrow> None
      | Some y \<Rightarrow> sum_loop data (p + 1) len y)"

definition sum_ints :: "int list \<Rightarrow> nat \<Rightarrow> int option" where
  "sum_ints data len = (if data = [] then None else sum_loop data 0 len (data ! 0))"

definition sum_main :: "int list \<Rightarrow> int option" where
  "sum_main beyond = sum_ints ([1, 2, 3, 4, 5, 6, 7, 8, 9, 10, 11] @ beyond) 11"

lemma sum_loop_sum:
  "sum_loop data p len x = Some y \<Longrightarrow> p + len < length data \<and> y = x + sum_list (take len (drop (p + 1) data))
     \<or> len = 0 \<and> y = x"
proof (induction len arbitrary: p x)
  case (Suc len)
  then obtain z where z: "p + 1 < length data" "z = x + data ! (p + 1)" "sum_loop data (p + 1) len z = Some y"
    by (auto simp: int_add_def split: if_splits option.splits)
  have "drop (p + 1) data = data ! (p + 1) # drop (p + 2) data"
    using z(1) Cons_nth_drop_Suc [of "p + 1" data] by simp
  with z Suc.IH [OF z(3)] show ?case by auto
qed simp

text \<open>The call in \<^verbatim>\<open>sum.c\<close>, with the length of the array, reads one element too many.\<close>

lemma sum_ints_reads_beyond: "sum_ints data (length data) = None"
proof (cases "sum_ints data (length data)")
  case (Some y)
  then have "data \<noteq> []" "sum_loop data 0 (length data) (data ! 0) = Some y"
    by (auto simp: sum_ints_def split: if_splits)
  with sum_loop_sum [of data 0 "length data" "data ! 0" y] show ?thesis by simp
qed

section \<open>Tokenizers\<close>

text \<open>
  \<^verbatim>\<open>strtok_r\<close>: the next token and what is left behind the separator that ended it.
\<close>

definition strtok_r :: "string \<Rightarrow> string \<Rightarrow> (string \<times> string) option" where
  "strtok_r sep s =
     (case dropWhile (\<lambda>c. c \<in> set sep) s of
        [] \<Rightarrow> None
      | t \<Rightarrow> Some (takeWhile (\<lambda>c. c \<notin> set sep) t, tl (dropWhile (\<lambda>c. c \<notin> set sep) t)))"

lemma strtok_r_shorter: "strtok_r sep s = Some (w, rest) \<Longrightarrow> length rest < length s"
proof -
  assume a: "strtok_r sep s = Some (w, rest)"
  then obtain c t where t: "dropWhile (\<lambda>c. c \<in> set sep) s = c # t"
    "rest = tl (dropWhile (\<lambda>c. c \<notin> set sep) (c # t))" by (auto simp: strtok_r_def split: list.splits)
  have "length (c # t) \<le> length s" using length_dropWhile_le [of "\<lambda>c. c \<in> set sep" s] by (simp add: t(1))
  moreover have "length rest < length (c # t)"
    using length_dropWhile_le [of "\<lambda>c. c \<notin> set sep" "c # t"] unfolding t(2) by (simp del: dropWhile.simps)
  ultimately show ?thesis by simp
qed

function tokens :: "string \<Rightarrow> string \<Rightarrow> string list" where
  "tokens sep s = (case strtok_r sep s of None \<Rightarrow> [] | Some (w, rest) \<Rightarrow> w # tokens sep rest)"
  by pat_completeness auto
termination by (relation "measure (\<lambda>(sep, s). length s)") (auto dest: strtok_r_shorter)

declare tokens.simps [simp del]

definition SEP :: string where
  "SEP = [CHR 0x5C, CHR ''/'', CHR '':'', CHR '';'', CHR ''='', CHR ''-'']"

definition strtoken_test :: string where
  "strtoken_test = ''This;is.a:test:of=the/string'' @ [CHR 0x5C] @ ''tokenizer-function.''"

definition strtoken_blah :: string where
  "strtoken_blah = ''blah:blat:blab:blag''"

primrec phrase_lines :: "string \<Rightarrow> string list \<Rightarrow> unit io" where
  "phrase_lines word [] = Ret ()"
| "phrase_lines word (p # ps) =
     Sys (Out (''So far we're at '' @ word @ '':'' @ p @ newline)) (\<lambda>_. phrase_lines word ps)"

primrec word_lines :: "string list \<Rightarrow> unit io" where
  "word_lines [] = Ret ()"
| "word_lines (w # ws) = io_bind (phrase_lines w (tokens SEP strtoken_blah)) (\<lambda>_. word_lines ws)"

definition strtoken_main :: "int io" where
  "strtoken_main = io_bind (word_lines (tokens SEP strtoken_test)) (\<lambda>_. Ret 0)"

text \<open>The tokens are the fields between separators that are not empty.\<close>

primrec fields :: "string \<Rightarrow> string \<Rightarrow> string list" where
  "fields sep [] = [[]]"
| "fields sep (c # cs) =
     (if c \<in> set sep then [] # fields sep cs
      else case fields sep cs of [] \<Rightarrow> [[c]] | w # ws \<Rightarrow> (c # w) # ws)"

lemma fields_nonempty [simp]: "fields sep s \<noteq> []"
  by (cases s) (simp_all split: list.split)

lemma fields_skip:
  "filter (\<lambda>w. w \<noteq> []) (fields sep (dropWhile (\<lambda>c. c \<in> set sep) s)) = filter (\<lambda>w. w \<noteq> []) (fields sep s)"
  by (induction s) simp_all

lemma fields_word:
  "fields sep s = takeWhile (\<lambda>c. c \<notin> set sep) s #
     (if \<exists>c\<in>set s. c \<in> set sep then fields sep (tl (dropWhile (\<lambda>c. c \<notin> set sep) s)) else [])"
  by (induction s) auto

lemma tokens_fields: "tokens sep s = filter (\<lambda>w. w \<noteq> []) (fields sep s)"
proof (induction sep s rule: tokens.induct)
  case (1 sep s)
  show ?case
  proof (cases "dropWhile (\<lambda>c. c \<in> set sep) s")
    case Nil
    then have "fields sep (dropWhile (\<lambda>c. c \<in> set sep) s) = [[]]" by (simp only: Nil fields.simps)
    then have "filter (\<lambda>w. w \<noteq> []) (fields sep s) = []" using fields_skip [of sep s] by simp
    moreover have "strtok_r sep s = None" by (simp only: strtok_r_def Nil list.case)
    ultimately show ?thesis by (simp add: tokens.simps [of sep s])
  next
    case (Cons c t)
    let ?w = "takeWhile (\<lambda>c. c \<notin> set sep) (c # t)" and ?r = "tl (dropWhile (\<lambda>c. c \<notin> set sep) (c # t))"
    have k: "strtok_r sep s = Some (?w, ?r)" using Cons by (simp add: strtok_r_def)
    have "c \<notin> set sep" using Cons hd_dropWhile [of "\<lambda>c. c \<in> set sep" s] by simp
    then have w: "?w \<noteq> []" by simp
    have "tokens sep s = ?w # tokens sep ?r" using k by (simp add: tokens.simps [of sep s])
    also have "tokens sep ?r = filter (\<lambda>w. w \<noteq> []) (fields sep ?r)" by (rule 1 [OF k refl])
    also have "?w # \<dots> = filter (\<lambda>w. w \<noteq> []) (fields sep (c # t))"
    proof (cases "\<exists>d\<in>set (c # t). d \<in> set sep")
      case False
      then have "?r = []" by (metis dropWhile_eq_Nil_conv list.sel(2))
      then show ?thesis using w False fields_word [of sep "c # t"] by simp
    qed (use w fields_word [of sep "c # t"] in simp)
    also have "\<dots> = filter (\<lambda>w. w \<noteq> []) (fields sep s)" using fields_skip [of sep s] by (simp only: Cons)
    finally show ?thesis .
  qed
qed

section \<open>The parts of a double\<close>

text \<open>
  The union of a \<^verbatim>\<open>double\<close> with its fields: the fraction in the bits 0 to 51, the exponent in
  the bits 52 to 62, the sign in bit 63 (a little-endian machine fills bit fields from below).
\<close>

type_synonym u64 = "64 word"

definition u_mant :: "u64 \<Rightarrow> nat" where
  "u_mant x = unat (take_bit 52 x)"

definition u_exp :: "u64 \<Rightarrow> nat" where
  "u_exp x = unat (take_bit 11 (drop_bit 52 x))"

definition u_sign :: "u64 \<Rightarrow> bool" where
  "u_sign x = bit x 63"

definition set_exp :: "u64 \<Rightarrow> u64 \<Rightarrow> u64" where
  "set_exp e x = (x AND NOT (push_bit 52 (mask 11))) OR push_bit 52 (take_bit 11 e)"

text \<open>Both zeros are false as a condition; the result is a double and the exponent.\<close>

definition frexp :: "u64 \<Rightarrow> u64 \<times> int" where
  "frexp value = (if take_bit 63 value \<noteq> 0 then (set_exp 1023 value, int (u_exp value) - 1023) else (0, 0))"

text \<open>The number that a finite double stands for.\<close>

definition double_val :: "u64 \<Rightarrow> real" where
  "double_val x = (if u_sign x then - 1 else 1) *
     (if u_exp x = 0 then real (u_mant x) / 2 ^ 52 * 2 powi - 1022
      else (1 + real (u_mant x) / 2 ^ 52) * 2 powi (int (u_exp x) - 1023))"

lemma set_exp_fields:
  "u_mant (set_exp e x) = u_mant x" "u_sign (set_exp e x) = u_sign x" "u_exp (set_exp e x) = unat (take_bit 11 e)"
proof -
  have "take_bit 52 (set_exp e x) = take_bit 52 x"
    by (intro bit_word_eqI) (auto simp: set_exp_def bit_simps)
  then show "u_mant (set_exp e x) = u_mant x" by (simp add: u_mant_def)
  show "u_sign (set_exp e x) = u_sign x" by (simp add: u_sign_def set_exp_def bit_simps)
  have "take_bit 11 (drop_bit 52 (set_exp e x)) = take_bit 11 e"
    by (intro bit_word_eqI) (auto simp: set_exp_def bit_simps)
  then show "u_exp (set_exp e x) = unat (take_bit 11 e)" by (simp add: u_exp_def)
qed

lemma u_mant_less: "u_mant x < 2 ^ 52"
  unfolding u_mant_def unsigned_take_bit_eq by (rule take_bit_nat_less_exp)

lemma mant_part: "0 \<le> real (u_mant x) / 2 ^ 52" "real (u_mant x) / 2 ^ 52 < 1"
proof -
  have "real (u_mant x) < 2 ^ 52" using u_mant_less [of x] by (metis of_nat_less_iff of_nat_numeral of_nat_power)
  then show "real (u_mant x) / 2 ^ 52 < 1" by simp
qed simp

lemma fields_zero:
  "take_bit 63 x = 0 \<longleftrightarrow> u_exp x = 0 \<and> u_mant x = 0"
proof -
  have "take_bit 63 x = 0 \<longleftrightarrow> take_bit 11 (drop_bit 52 x) = 0 \<and> take_bit 52 x = 0"
  proof (intro iffI conjI)
    assume z: "take_bit 63 x = 0"
    have b: "\<not> bit x i" if "i < 63" for i using that arg_cong [OF z, of "\<lambda>w. bit w i"] by (simp add: bit_take_bit_iff)
    show "take_bit 11 (drop_bit 52 x) = 0" "take_bit 52 x = 0" by (intro bit_word_eqI; use b in \<open>simp add: bit_simps\<close>)+
  next
    assume a: "take_bit 11 (drop_bit 52 x) = 0 \<and> take_bit 52 x = 0"
    note a1 = conjunct1 [OF a] and a2 = conjunct2 [OF a]
    have "\<not> bit x i" if "i < 52" for i
      using that arg_cong [of _ _ "\<lambda>w. bit w i", OF a2] by (simp add: bit_take_bit_iff)
    moreover have "\<not> bit x i" if "52 \<le> i" "i < 63" for i
      using that arg_cong [of _ _ "\<lambda>w. bit w (i - 52)", OF a1] by (simp add: bit_simps)
    ultimately have "\<not> bit x i" if "i < 63" for i using that by (meson not_le)
    then show "take_bit 63 x = 0" by (intro bit_word_eqI) (simp add: bit_simps)
  qed
  then show ?thesis by (simp add: u_exp_def u_mant_def unat_eq_0)
qed

lemma frexp_nonzero:
  assumes "u_exp x \<noteq> 0 \<or> u_mant x \<noteq> 0"
  shows "frexp x = (set_exp 1023 x, int (u_exp x) - 1023)"
    and "double_val (set_exp 1023 x) = (if u_sign x then - 1 else 1) * (1 + real (u_mant x) / 2 ^ 52)"
proof -
  show "frexp x = (set_exp 1023 x, int (u_exp x) - 1023)"
    using assms fields_zero [of x] by (auto simp: frexp_def)
  have "unat (take_bit 11 (1023 :: u64)) = 1023" by simp
  then show "double_val (set_exp 1023 x) = (if u_sign x then - 1 else 1) * (1 + real (u_mant x) / 2 ^ 52)"
    by (simp add: double_val_def set_exp_fields)
qed

text \<open>
  For every double that is normal, of either sign, the two results of \<^verbatim>\<open>frexp\<close> make up the
  argument, and the first lies between 1 and 2 in absolute value; for a zero both are zero.
\<close>

theorem frexp_normal:
  assumes "frexp x = (r, e)"
  shows "(0 < u_exp x \<and> u_exp x < 2047 \<longrightarrow>
      double_val x = double_val r * 2 powi e \<and> 1 \<le> \<bar>double_val r\<bar> \<and> \<bar>double_val r\<bar> < 2) \<and>
    (u_exp x = 0 \<and> u_mant x = 0 \<longrightarrow> double_val x = 0 \<and> double_val r = 0 \<and> e = 0)"
proof (intro conjI impI; elim conjE)
  assume n: "0 < u_exp x"
  then have "r = set_exp 1023 x" "e = int (u_exp x) - 1023" using frexp_nonzero(1) [of x] assms by simp_all
  moreover note frexp_nonzero(2) [of x] mant_part [of x] n
  ultimately show "double_val x = double_val r * 2 powi e" "1 \<le> \<bar>double_val r\<bar>" "\<bar>double_val r\<bar> < 2"
    by (simp_all add: double_val_def)
next
  assume z: "u_exp x = 0" "u_mant x = 0"
  then show "double_val x = 0" "double_val r = 0" "e = 0"
    using assms fields_zero [of x] by (auto simp: frexp_def double_val_def u_mant_def u_exp_def)
qed

text \<open>
  The exponent field 0 is taken for an exponent like any other: for every subnormal number
  but zero the results do not make up the argument.
\<close>

theorem frexp_subnormal_wrong:
  assumes "u_exp x = 0" and "u_mant x \<noteq> 0" and "frexp x = (r, e)"
  shows "e = - 1023 \<and> double_val x \<noteq> double_val r * 2 powi e"
proof -
  let ?f = "real (u_mant x) / 2 ^ 52"
  have re: "r = set_exp 1023 x" "e = - 1023" using frexp_nonzero(1) [of x] assms by simp_all
  have p: "(2 :: real) powi - 1022 = 2 * 2 powi - 1023" using power_int_add [of "2 :: real" 1 "- 1023"] by simp
  have "double_val x = (if u_sign x then - 1 else 1) * (2 * ?f) * 2 powi - 1023"
    using assms(1) by (simp add: double_val_def p)
  moreover have "double_val r * 2 powi e = (if u_sign x then - 1 else 1) * (1 + ?f) * 2 powi - 1023"
    using frexp_nonzero(2) [of x] assms(2) re by simp
  moreover have "2 * ?f \<noteq> 1 + ?f" using mant_part(2) [of x] by simp
  ultimately show ?thesis using re by (auto split: if_splits)
qed

section \<open>Lengths, sums and tokens: properties\<close>

text \<open>
  The two versions of \<^verbatim>\<open>strlen\<close> agree on every memory and every place to start from,
  including the cases without a terminating NUL and with more characters than an \<open>int\<close> can
  count; and both programs print 8080 a hundred thousand times.
\<close>

theorem mystrlen_versions:
  "mystrlen_loop mem p = mystrlen_rec (drop p mem) \<and>
   run os tr loop_main = (Returned 0, tr @ replicate 100000 (Out (''8080'' @ newline))) \<and>
   run os tr recursion_main = run os tr loop_main"
proof -
  have eq: "mystrlen_loop mem p = mystrlen_rec (drop p mem)" for mem p
    by (simp add: mystrlen_loop_def mystrlen_rec_def strlen_loop_helper)
  have v: "mystrlen_rec hoges = Some 8080"
  proof -
    have "mystrlen_rec hoges = Some (8 * int 1010)"
      unfolding hoges_def by (rule hoges_length) (simp add: INT_MAX_def)
    also have "8 * int 1010 = 8080" by simp
    finally show ?thesis .
  qed
  have s: "int_str 8080 = ''8080''" by (simp add: int_str_def nat_str.simps dec_digit_simps)
  have l: "mystrlen_loop hoges 0 = Some 8080" using eq [of hoges 0] v by (simp only: drop_0)
  have "run os tr loop_main = (Returned 0, tr @ replicate 100000 (Out (''8080'' @ newline)))"
    by (simp only: loop_main_def l run_print_main s)
  moreover have "run os tr recursion_main = run os tr loop_main" by (simp only: loop_main_def recursion_main_def l v)
  ultimately show ?thesis using eq [of mem p] by (intro conjI)
qed

text \<open>
  Tokenizing with \<^verbatim>\<open>strtok_r\<close> until it returns no token gives the fields between
  separators that are not empty; and the nested loops of \<^verbatim>\<open>strtoken.c\<close>, with a state for
  each, print every phrase for every word.
\<close>

theorem strtoken_prints:
  "tokens sep s = filter (\<lambda>w. w \<noteq> []) (fields sep s) \<and>
   run os tr strtoken_main = (Returned 0, tr @
     concat (map (\<lambda>w. map (\<lambda>p. Out (''So far we're at '' @ w @ '':'' @ p @ newline)) [''blah'', ''blat'', ''blab'', ''blag''])
       [''This'', ''is.a'', ''test'', ''of'', ''the'', ''string'', ''tokenizer'', ''function.'']))"
proof -
  have p: "run os tr (phrase_lines w ps) = (Returned (), tr @ map (\<lambda>p. Out (''So far we're at '' @ w @ '':'' @ p @ newline)) ps)"
    for os tr w ps by (induction ps arbitrary: tr) simp_all
  have w: "run os tr (word_lines ws) = (Returned (), tr @ concat (map (\<lambda>w. map (\<lambda>p. Out (''So far we're at '' @ w @ '':'' @ p @ newline))
    (tokens SEP strtoken_blah)) ws))" for os tr ws
    by (induction ws arbitrary: tr) (simp_all add: run_bind p)
  have t: "tokens SEP strtoken_test = [''This'', ''is.a'', ''test'', ''of'', ''the'', ''string'', ''tokenizer'', ''function.'']"
    "tokens SEP strtoken_blah = [''blah'', ''blat'', ''blab'', ''blag'']"
    unfolding tokens_fields by code_simp+
  show ?thesis by (simp add: tokens_fields [of sep s] strtoken_main_def run_bind w t)
qed

text \<open>
  \<^verbatim>\<open>sum\<close> called with the length of its array always reads the element behind the array
  (and is undefined where there is none); what the program prints is 66 plus that element. Called
  with one less it returns the sum, when no partial sum overflows.
\<close>

theorem sum_reads_beyond:
  "sum_ints data (length data) = None \<and> sum_main (y # ys) = int_add 66 y \<and>
   (sum_ints data (length data - 1) = Some z \<longrightarrow> z = sum_list data)"
proof (intro conjI impI)
  show "sum_ints data (length data) = None" by (rule sum_ints_reads_beyond)
  show "sum_main (y # ys) = int_add 66 y"
    by (simp add: sum_main_def sum_ints_def eval_nat_numeral int_add_def INT_MAX_def)
  assume z: "sum_ints data (length data - 1) = Some z"
  then obtain x xs where d: "data = x # xs" by (cases data) (simp_all add: sum_ints_def)
  with z sum_loop_sum [of data 0 "length xs" x z] show "z = sum_list data" by (auto simp: sum_ints_def)
qed

section \<open>Input and output of words\<close>

text \<open>
  \<^verbatim>\<open>fread.c\<close>: each round stores at most two bytes at the low end of an \<open>int\<close>, which is not
  initialised, and keeps its upper half; the shift is arithmetic.
\<close>

definition store_low :: "string \<Rightarrow> u32 \<Rightarrow> u32" where
  "store_low d w =
     (case d of
        [] \<Rightarrow> w
      | [a] \<Rightarrow> (w AND NOT (mask 8)) OR of_char a
      | a # b # _ \<Rightarrow> (w AND NOT (mask 16)) OR of_char a OR push_bit 8 (of_char b))"

primrec fread_rounds :: "u32 \<Rightarrow> string list \<Rightarrow> int list" where
  "fread_rounds buf [] = []"
| "fread_rounds buf (d # ds) =
     (let b = store_low d buf in sint (signed_drop_bit 16 b) # fread_rounds b ds)"

definition fread_main :: "u32 \<Rightarrow> string list \<Rightarrow> string" where
  "fread_main junk ds = concat (map (\<lambda>v. int_str v @ newline) (fread_rounds junk (take 100 ds)))"

text \<open>\<^verbatim>\<open>fwrite.c\<close>: the two bytes at the low end of an \<open>int\<close>.\<close>

definition low_bytes :: "u32 \<Rightarrow> string" where
  "low_bytes w = [char_of (uint (w AND 0xff)), char_of (uint (drop_bit 8 w AND 0xff))]"

definition fwrite_main :: string where
  "fwrite_main = low_bytes (push_bit 16 16)"

lemma signed_drop_low:
  assumes "\<And>i. 16 \<le> i \<Longrightarrow> i < 32 \<Longrightarrow> bit v i = bit w i"
  shows "signed_drop_bit 16 (v :: u32) = signed_drop_bit 16 w"
  by (intro bit_word_eqI) (auto simp: bit_signed_drop_bit_iff assms min_def)

lemma char_word_bit:
  assumes "8 \<le> i"
  shows "\<not> bit (of_char c :: u32) i"
proof -
  have "of_char c < (2 :: nat) ^ 8" using of_char_less [of c] by simp
  then have "take_bit 8 (of_char c :: nat) = of_char c" by (rule take_bit_nat_eq_self)
  then have "\<not> bit (of_char c :: nat) i" using assms by (metis bit_take_bit_iff not_less)
  then show ?thesis by (metis bit_of_nat_iff of_nat_of_char)
qed

lemma store_low_upper: "16 \<le> i \<Longrightarrow> i < 32 \<Longrightarrow> bit (store_low d w) i = bit w i"
  by (auto simp: store_low_def bit_simps char_word_bit simp del: mask_numeral split: list.split)

text \<open>What is read never reaches the output.\<close>

lemma fread_rounds_const: "fread_rounds buf ds = replicate (length ds) (sint (signed_drop_bit 16 buf))"
proof (induction ds arbitrary: buf)
  case (Cons d ds)
  have "signed_drop_bit 16 (store_low d buf) = signed_drop_bit 16 buf"
    by (rule signed_drop_low) (rule store_low_upper)
  with Cons show ?case by (simp add: Let_def)
qed simp

text \<open>
  The output of \<^verbatim>\<open>fread.c\<close> does not depend on its input: all hundred numbers are the
  upper half of the uninitialised buffer; and what \<^verbatim>\<open>fwrite.c\<close> writes are two zero bytes.
\<close>

theorem fread_ignores_input:
  "fread_main junk ds = concat (replicate (min 100 (length ds)) (int_str (sint (signed_drop_bit 16 junk)) @ newline)) \<and>
   fwrite_main = [NUL, NUL]"
proof
  show "fread_main junk ds = concat (replicate (min 100 (length ds)) (int_str (sint (signed_drop_bit 16 junk)) @ newline))"
    by (simp add: fread_main_def fread_rounds_const map_replicate min.commute)
  show "fwrite_main = [NUL, NUL]"
    by (simp add: fwrite_main_def low_bytes_def push_bit_eq_mult drop_bit_eq_div NUL_def char_of_def)
qed

end
