(* ===== verification/Processes.thy ===== *)
theory Processes
  imports Os
begin

text \<open>
  The programs around \<^verbatim>\<open>fork\<close>: \<^verbatim>\<open>c/include/convenience.h\<close> (error messages),
  \<^verbatim>\<open>c/mysh.c\<close>, \<^verbatim>\<open>c/doublefork.c\<close>, \<^verbatim>\<open>c/vfork.c\<close> and \<^verbatim>\<open>c/exitstatus.c\<close>. The branch
  where \<^verbatim>\<open>fork\<close> returned 0 is the child, any other the parent.
\<close>

unbundle bit_operations_syntax

section \<open>convenience.h\<close>

definition MAXLINE :: nat where
  "MAXLINE = 4096"

text \<open>
  \<open>Some e\<close> stands for \<^verbatim>\<open>errnoflag\<close> set, \<open>e\<close> being the text for \<^verbatim>\<open>errno\<close>. Every string
  with its NUL has to fit in \<^verbatim>\<open>buf\<close>; the \<^verbatim>\<open>fflush\<close> calls only keep the order of the output.
\<close>

definition err_doit :: "string option \<Rightarrow> string \<Rightarrow> unit io" where
  "err_doit errno msg =
     (let buf = msg @ (case errno of None \<Rightarrow> '''' | Some e \<Rightarrow> '': '' @ e) @ newline in
      if MAXLINE \<le> length buf then Undef else one_call (Err buf))"

definition err_ret :: "string \<Rightarrow> string \<Rightarrow> unit io" where
  "err_ret e msg = err_doit (Some e) msg"

definition err_quit :: "string \<Rightarrow> 'a io" where
  "err_quit msg = io_bind (err_doit None msg) (\<lambda>_. Halt 1)"

definition err_sys :: "string \<Rightarrow> string \<Rightarrow> 'a io" where
  "err_sys e msg = io_bind (err_doit (Some e) msg) (\<lambda>_. Halt 1)"

definition err_dump :: "string \<Rightarrow> string \<Rightarrow> 'a io" where
  "err_dump e msg = io_bind (err_doit (Some e) msg) (\<lambda>_. Sys (Kernel Abort) (\<lambda>_. Halt 1))"

section \<open>mysh.c\<close>

text \<open>
  The child: \<^verbatim>\<open>execlp\<close> comes back only when it failed. The line is stored without its last
  character, whatever that is.
\<close>

definition exec_command :: "string \<Rightarrow> int io" where
  "exec_command cmd =
     Sys (Kernel (Execlp [cmd, cmd])) (\<lambda>r. io_bind (err_ret (dat r) (''couldn't execute: '' @ cmd)) (\<lambda>_. Halt 127))"

primrec mysh_loop :: "nat \<Rightarrow> int io" where
  "mysh_loop 0 = Cut"
| "mysh_loop (Suc k) =
     Sys (Fgets 0 MAXLINE) (\<lambda>l.
       if rc l = - 1 then Halt 0
       else let buf = takeWhile (\<lambda>c. c \<noteq> NUL) (dat l) in
         if buf = '''' then Undef
         else Sys Fork (\<lambda>f.
           if rc f < 0 then err_sys (dat f) ''fork error''
           else if rc f = 0 then exec_command (butlast buf)
           else Sys (Kernel (Waitpid (rc f))) (\<lambda>w.
             if rc w < 0 then err_sys (dat w) ''waitpid error''
             else Sys (Out ''% '') (\<lambda>_. mysh_loop k))))"

definition mysh :: "nat \<Rightarrow> int io" where
  "mysh k = Sys (Out ''% '') (\<lambda>_. mysh_loop k)"

section \<open>doublefork.c\<close>

definition second_fork :: "int io" where
  "second_fork =
     Sys Fork (\<lambda>f.
       if rc f < 0 then err_sys (dat f) ''fork error''
       else if 0 < rc f then Halt 0
       else Sys (Kernel (Sleep 2)) (\<lambda>_. Sys (Kernel Getppid) (\<lambda>p.
         Sys (Out (''second child, parent pid = '' @ int_str (rc p) @ newline)) (\<lambda>_. Halt 0))))"

definition doublefork :: "int io" where
  "doublefork =
     Sys Fork (\<lambda>f.
       if rc f < 0 then err_sys (dat f) ''fork error''
       else if rc f = 0 then second_fork
       else Sys (Kernel (Waitpid (rc f))) (\<lambda>w.
         if rc w \<noteq> rc f then err_sys (dat w) ''waitpid error'' else Ret 0))"

section \<open>vfork.c\<close>

text \<open>
  \<^verbatim>\<open>vfork\<close>: the child runs first, in the memory of its parent, until it executes a program;
  then the parent goes on behind the call, with what the child left in \<^verbatim>\<open>hoge\<close>. When
  \<^verbatim>\<open>execlp\<close> fails the child itself goes on and returns from \<^verbatim>\<open>main\<close>, which is undefined.
\<close>

definition vfork_main :: "int io" where
  "vfork_main =
     (let hoge = 100 in
      Sys (Out (''Before fork hoge is '' @ int_str hoge)) (\<lambda>_.
      Sys (Kernel Vfork) (\<lambda>f.
        if rc f < 0 then err_sys (dat f) ''vfork error''
        else Sys (Out (''Hello'' @ newline)) (\<lambda>_.
          let hoge = 200 in
          Sys (Kernel (Execlp [''ls'', ''-l'', ''-al''])) (\<lambda>e.
            if rc e = - 1 then Undef
            else Sys Wait (\<lambda>_. Sys (Out (''After fork hoge is '' @ int_str hoge)) (\<lambda>_. Ret 0)))))))"

section \<open>exitstatus.c\<close>

text \<open>The macros for the status of a child, in the encoding of Linux; \<open>s\<close> is not negative.\<close>

definition WTERMSIG :: "int \<Rightarrow> int" where
  "WTERMSIG s = s AND 0x7f"

definition WEXITSTATUS :: "int \<Rightarrow> int" where
  "WEXITSTATUS s = drop_bit 8 (s AND 0xff00)"

definition WIFEXITED :: "int \<Rightarrow> bool" where
  "WIFEXITED s \<longleftrightarrow> WTERMSIG s = 0"

definition WIFSIGNALED :: "int \<Rightarrow> bool" where
  "WIFSIGNALED s \<longleftrightarrow> WTERMSIG s \<noteq> 0 \<and> WTERMSIG s \<noteq> 0x7f"

definition WIFSTOPPED :: "int \<Rightarrow> bool" where
  "WIFSTOPPED s \<longleftrightarrow> s AND 0xff = 0x7f"

definition WCOREDUMP :: "int \<Rightarrow> bool" where
  "WCOREDUMP s \<longleftrightarrow> s AND 0x80 \<noteq> 0"

definition pr_exit :: "int \<Rightarrow> unit io" where
  "pr_exit s =
     (if WIFEXITED s
      then one_call (Out (''normal termination, exit status = '' @ int_str (WEXITSTATUS s) @ newline))
      else if WIFSIGNALED s
      then one_call (Out (''abnormal termination, signal number = '' @ int_str (WTERMSIG s) @
        (if WCOREDUMP s then '' (core file generated)'' else '''') @ newline))
      else if WIFSTOPPED s
      then one_call (Out (''child stopped, signal number = '' @ int_str (WEXITSTATUS s) @ newline))
      else Ret ())"

text \<open>One of the three rounds of \<^verbatim>\<open>main\<close>; the status is what \<^verbatim>\<open>wait\<close> stores.\<close>

definition run_child :: "unit io \<Rightarrow> unit io" where
  "run_child body =
     Sys Fork (\<lambda>f.
       if rc f < 0 then err_sys (dat f) ''fork error''
       else if rc f = 0 then body
       else Sys Wait (\<lambda>w.
         if rc w \<noteq> rc f then err_sys (dat w) ''wait error''
         else pr_exit (hd (ready w))))"

text \<open>The third child divides by zero, which is undefined.\<close>

definition exitstatus_main :: "int io" where
  "exitstatus_main =
     io_bind (run_child (Halt 7)) (\<lambda>_.
     io_bind (run_child (Sys (Kernel Abort) (\<lambda>_. Undef))) (\<lambda>_.
     io_bind (run_child Undef) (\<lambda>_. Ret 0)))"

section \<open>What the programs do\<close>

lemma err_doit_fits:
  "length msg + (case errno of None \<Rightarrow> 0 | Some e \<Rightarrow> 2 + length e) + 1 < MAXLINE \<Longrightarrow>
   run os tr (err_doit errno msg) =
     (Returned (), tr @ [Err (msg @ (case errno of None \<Rightarrow> '''' | Some e \<Rightarrow> '': '' @ e) @ newline)])"
  by (simp add: err_doit_def newline_def Let_def split: option.splits)

lemma err_sys_halts:
  "run os tr (err_sys e msg) = (Undefined, tr) \<or> run os tr (err_sys e msg) = (Exited 1, tr @ [Err (msg @ '': '' @ e @ newline)])"
  by (simp add: err_sys_def err_doit_def Let_def one_call_def)

text \<open>The macros as arithmetic.\<close>

lemma int_masks:
  "(s::int) AND 0x7f = s mod 128" "s AND 0xff = s mod 256"
  "s AND 0x80 = 0 \<longleftrightarrow> even (s div 128)" "drop_bit 8 (s AND 0xff00) = s div 256 mod 256"
proof -
  have m: "(0x7f :: int) = mask 7" "(0xff :: int) = mask 8" by (simp_all add: mask_eq_exp_minus_1)
  show "s AND 0x7f = s mod 128" "s AND 0xff = s mod 256"
    unfolding m by (simp_all flip: take_bit_eq_mask add: take_bit_eq_mod)
  have "s AND 2 ^ 7 = 0 \<longleftrightarrow> \<not> bit s 7" by (rule and_exp_eq_0_iff_not_bit)
  then show "s AND 0x80 = 0 \<longleftrightarrow> even (s div 128)" by (simp add: bit_iff_odd)
  have "drop_bit 8 (s AND 0xff00) = drop_bit 8 s AND drop_bit 8 0xff00" by (rule drop_bit_and)
  also have "drop_bit 8 (0xff00 :: int) = mask 8" by (simp add: mask_eq_exp_minus_1 drop_bit_eq_div)
  also have "drop_bit 8 s AND mask 8 = s div 256 mod 256"
    by (simp flip: take_bit_eq_mask add: take_bit_eq_mod drop_bit_eq_div)
  finally show "drop_bit 8 (s AND 0xff00) = s div 256 mod 256" .
qed

lemma macro_values:
  "WTERMSIG s = s mod 128" "WEXITSTATUS s = s div 256 mod 256" "WIFEXITED s \<longleftrightarrow> s mod 128 = 0"
  "WIFSIGNALED s \<longleftrightarrow> s mod 128 \<noteq> 0 \<and> s mod 128 \<noteq> 127" "WIFSTOPPED s \<longleftrightarrow> s mod 256 = 127"
  "WCOREDUMP s \<longleftrightarrow> odd (s div 128)"
  unfolding WTERMSIG_def WEXITSTATUS_def WIFEXITED_def WIFSIGNALED_def WIFSTOPPED_def WCOREDUMP_def int_masks
  by simp_all

text \<open>The status words of the kernel.\<close>

datatype ending = Normal int | Killed int bool | Stopped int

primrec status_word :: "ending \<Rightarrow> int" where
  "status_word (Normal n) = 256 * n"
| "status_word (Killed n core) = n + (if core then 128 else 0)"
| "status_word (Stopped n) = 256 * n + 127"

primrec ending_line :: "ending \<Rightarrow> string" where
  "ending_line (Normal n) = ''normal termination, exit status = '' @ int_str n @ newline"
| "ending_line (Killed n core) =
     ''abnormal termination, signal number = '' @ int_str n @ (if core then '' (core file generated)'' else '''') @ newline"
| "ending_line (Stopped n) = ''child stopped, signal number = '' @ int_str n @ newline"

primrec ending_ok :: "ending \<Rightarrow> bool" where
  "ending_ok (Normal n) = (0 \<le> n \<and> n < 256)"
| "ending_ok (Killed n core) = (0 < n \<and> n < 127)"
| "ending_ok (Stopped n) = (0 \<le> n \<and> n < 256)"

lemma stopped_word:
  "(256 * n + 127) mod 128 = (127 :: int)" "(256 * n + 127) mod 256 = (127 :: int)" "(256 * n + 127) div 256 = (n :: int)"
proof -
  have "256 * n + 127 = 127 + (2 * n) * 128" by simp
  then show "(256 * n + 127) mod 128 = (127 :: int)" by (simp only: mod_mult_self1) simp
  have "256 * n + 127 = 127 + n * 256" by simp
  then show "(256 * n + 127) mod 256 = (127 :: int)" "(256 * n + 127) div 256 = n"
    by simp_all
qed

lemma pr_exit_line:
  assumes "ending_ok e"
  shows "run os tr (pr_exit (status_word e)) = (Returned (), tr @ [Out (ending_line e)])"
proof (cases e)
  case (Normal n)
  then have "(256 * n) mod 128 = 0" using mod_mult_self1 [of 0 "2 * n" 128] by simp
  with Normal assms show ?thesis by (simp add: pr_exit_def macro_values)
next
  case (Killed n core)
  then have n: "n mod 128 = n" "n div 128 = 0" using assms by simp_all
  then have "(n + 128) mod 128 = n" "(n + 128) div 128 = 1"
    using div_add_self2 [of 128 n] by simp_all
  with n Killed assms show ?thesis by (simp add: pr_exit_def macro_values)
next
  case (Stopped n)
  with assms stopped_word [of n] show ?thesis by (simp add: pr_exit_def macro_values)
qed

section \<open>The shell\<close>

text \<open>The lines that the user types, one for each \<^verbatim>\<open>fgets\<close>; behind the last one the end of file.\<close>

definition n_lines :: "syscall list \<Rightarrow> nat" where
  "n_lines tr = length (filter (\<lambda>c. c = Fgets 0 MAXLINE) tr)"

lemma n_lines_simps [simp]:
  "n_lines [] = 0" "n_lines (xs @ ys) = n_lines xs + n_lines ys"
  "n_lines (c # xs) = (if c = Fgets 0 MAXLINE then 1 else 0) + n_lines xs"
  by (simp_all add: n_lines_def)

definition typed :: "os \<Rightarrow> string list \<Rightarrow> bool" where
  "typed os ls \<longleftrightarrow> (\<forall>l\<in>set ls. l \<noteq> '''' \<and> NUL \<notin> set l) \<and>
     (\<forall>tr. os tr (Fgets 0 MAXLINE) = (if n_lines tr < length ls then rdat (ls ! n_lines tr) else rint (- 1)))"

text \<open>What the parent does for a line: one child, waited for before the next prompt.\<close>

definition served :: "int \<Rightarrow> syscall list" where
  "served p = [Fgets 0 MAXLINE, Fork, Kernel (Waitpid p), Out ''% '']"

lemma served_lines: "n_lines (concat (map served ps)) = length ps"
  by (induction ps) (simp_all add: served_def)

lemma takeWhile_line: "NUL \<notin> set l \<Longrightarrow> takeWhile (\<lambda>c. c \<noteq> NUL) l = l"
  by (auto simp: takeWhile_eq_all_conv)

lemma mysh_round:
  assumes "typed os ls" and "n_lines tr < length ls" and "0 < rc (os (tr @ [Fgets 0 MAXLINE]) Fork)"
    and "0 \<le> rc (os (tr @ [Fgets 0 MAXLINE, Fork]) (Kernel (Waitpid (rc (os (tr @ [Fgets 0 MAXLINE]) Fork)))))"
  shows "run os tr (mysh_loop (Suc k)) = run os (tr @ served (rc (os (tr @ [Fgets 0 MAXLINE]) Fork))) (mysh_loop k)"
proof -
  have l: "os tr (Fgets 0 MAXLINE) = rdat (ls ! n_lines tr)" "ls ! n_lines tr \<noteq> ''''" "NUL \<notin> set (ls ! n_lines tr)"
    using assms(1,2) by (simp_all add: typed_def)
  then show ?thesis using assms(3,4) by (simp add: takeWhile_line served_def)
qed

lemma mysh_loop_serves:
  assumes "typed os ls" and "\<forall>tr. 0 < rc (os tr Fork)" and "\<forall>tr p. 0 \<le> rc (os tr (Kernel (Waitpid p)))"
  shows "n_lines tr + n = length ls \<Longrightarrow>
    \<exists>ps. run os tr (mysh_loop (n + 1)) = (Exited 0, tr @ concat (map served ps) @ [Fgets 0 MAXLINE]) \<and> length ps = n"
proof (induction n arbitrary: tr)
  case 0
  then have "os tr (Fgets 0 MAXLINE) = rint (- 1)" using assms(1) by (simp add: typed_def)
  then show ?case by (intro exI [of _ "[]"]) simp
next
  case (Suc n)
  let ?p = "rc (os (tr @ [Fgets 0 MAXLINE]) Fork)"
  have r: "run os tr (mysh_loop (Suc (n + 1))) = run os (tr @ served ?p) (mysh_loop (n + 1))"
    by (rule mysh_round [OF assms(1)]) (use Suc.prems assms(2,3) in simp_all)
  have "n_lines (tr @ served ?p) + n = length ls" using Suc.prems by (simp add: served_def)
  from Suc.IH [OF this] obtain ps where "run os (tr @ served ?p) (mysh_loop (n + 1)) =
      (Exited 0, (tr @ served ?p) @ concat (map served ps) @ [Fgets 0 MAXLINE])" "length ps = n" by blast
  with r show ?case by (intro exI [of _ "?p # ps"]) (simp del: mysh_loop.simps)
qed


definition user_os :: os where
  "user_os tr c = (case c of
     Fgets _ _ \<Rightarrow> if n_lines tr < 1 then rdat (''ls'' @ newline) else rint (- 1)
   | Fork \<Rightarrow> rint 42
   | _ \<Rightarrow> rint 0)"


text \<open>
  The child of the shell executes the line without its last character, which is the
  newline when there is one; when that fails it says so and exits with 127.
\<close>

theorem mysh_child:
  assumes "typed os ls" and "n_lines tr < length ls" and "rc (os (tr @ [Fgets 0 MAXLINE]) Fork) = 0"
    and "cmd = butlast (ls ! n_lines tr)" and "os (tr @ [Fgets 0 MAXLINE, Fork]) (Kernel (Execlp [cmd, cmd])) = r"
    and "length cmd + length (dat r) + 22 < MAXLINE"
  shows "run os tr (mysh_loop (Suc k)) = (Exited 127, tr @ [Fgets 0 MAXLINE, Fork, Kernel (Execlp [cmd, cmd]),
    Err (''couldn't execute: '' @ cmd @ '': '' @ dat r @ newline)])"
proof -
  have l: "os tr (Fgets 0 MAXLINE) = rdat (ls ! n_lines tr)" "ls ! n_lines tr \<noteq> ''''" "NUL \<notin> set (ls ! n_lines tr)"
    using assms(1,2) by (simp_all add: typed_def)
  have "length (''couldn't execute: '' @ cmd) + (2 + length (dat r)) + 1 < MAXLINE" using assms(6) by simp
  then show ?thesis
    using l assms(3-5) err_doit_fits [of "''couldn't execute: '' @ cmd" "Some (dat r)"]
    by (simp add: takeWhile_line exec_command_def err_ret_def run_bind)
qed

definition no_prog_os :: os where
  "no_prog_os tr c = (case c of
     Fgets _ _ \<Rightarrow> if n_lines tr < 1 then rdat (''xx'' @ newline) else rint (- 1)
   | Fork \<Rightarrow> rint 0
   | _ \<Rightarrow> \<lparr>rc = - 1, dat = ''No such file'', ready = [], sender = ('''', 0)\<rparr>)"

text \<open>
  For every way in which a child can end, \<^verbatim>\<open>pr_exit\<close> prints the line for it, with the
  number that the status word carries.
\<close>

theorem pr_exit_decodes:
  assumes "ending_ok e"
  shows "run os tr (pr_exit (status_word e)) = (Returned (), tr @ [Out (ending_line e)])"
  using assms by (rule pr_exit_line)

end
