(* ===== verification/Sysinfo.thy ===== *)
theory Sysinfo
  imports Processes
begin

text \<open>
  Programs that ask the system and print what they get: \<^verbatim>\<open>c/conf.c\<close>, \<^verbatim>\<open>c/fcntl.c\<close>,
  \<^verbatim>\<open>c/fileno.c\<close>, \<^verbatim>\<open>c/myls.c\<close>, \<^verbatim>\<open>c/mychmod.c\<close>, \<^verbatim>\<open>c/stat.c\<close>,
  \<^verbatim>\<open>c/gethost.c\<close>, \<^verbatim>\<open>c/procs/procs.c\<close>, \<^verbatim>\<open>c/kqueue\<close>, \<^verbatim>\<open>c/libevent\<close>, and a
  few that only print: \<^verbatim>\<open>c/memory_map.c\<close>, \<^verbatim>\<open>c/rake_sample\<close>, the C parts of
  \<^verbatim>\<open>haskell/ffi\<close>.
\<close>

unbundle bit_operations_syntax

section \<open>conf.c\<close>

text \<open>
  \<open>errno\<close> is the text for \<^verbatim>\<open>errno\<close>, empty for 0; a call whose reply has no text left it
  alone. \<^verbatim>\<open>pr_sysconf\<close> does not reset it.
\<close>

definition errno_after :: "string \<Rightarrow> reply \<Rightarrow> string" where
  "errno_after errno r = (if dat r = '''' then errno else dat r)"

definition pr_sysconf :: "string \<Rightarrow> string \<Rightarrow> string \<Rightarrow> string io" where
  "pr_sysconf errno mesg name =
     Sys (Out mesg) (\<lambda>_. Sys (Kernel (Sysconf name)) (\<lambda>r.
       let e = errno_after errno r in
       if rc r < 0 then
         (if e \<noteq> '''' then err_sys e ''sysconf error''
          else Sys (Out ('' (not defined)'' @ newline)) (\<lambda>_. Ret e))
       else Sys (Out ('' '' @ int_str (rc r) @ newline)) (\<lambda>_. Ret e)))"

definition pr_pathconf :: "string \<Rightarrow> string \<Rightarrow> string \<Rightarrow> string io" where
  "pr_pathconf mesg path name =
     Sys (Out mesg) (\<lambda>_. Sys (Kernel (Pathconf path name)) (\<lambda>r.
       let e = errno_after '''' r in
       if rc r < 0 then
         (if e \<noteq> '''' then err_sys e ('' pathconf error, path = '' @ path)
          else Sys (Out ('' (no limit)'' @ newline)) (\<lambda>_. Ret e))
       else Sys (Out ('' '' @ int_str (rc r) @ newline)) (\<lambda>_. Ret e)))"

definition sys_limits :: "(string \<times> string) list" where
  "sys_limits =
     [(''ARG_MAX            ='', ''_SC_ARG_MAX''), (''CHILD_MAX          ='', ''_SC_CHILD_MAX''),
      (''clock ticks/second ='', ''_SC_CLK_TCK''), (''NGROUPS_MAX        ='', ''_SC_NGROUPS_MAX''),
      (''OPEN_MAX           ='', ''_SC_OPEN_MAX''), (''STREAM_MAX         ='', ''_SC_STREAM_MAX''),
      (''TZNAME_MAX         ='', ''_SC_TZNAME_MAX''), (''_POSIX_JOB_CONTROL ='', ''_SC_JOB_CONTROL''),
      (''_POSIX_SAVED_IDS   ='', ''_SC_SAVED_IDS''), (''_POSIX_VERSION     ='', ''_SC_VERSION'')]"

definition path_limits :: "string \<Rightarrow> (string \<times> string \<times> string) list" where
  "path_limits dir =
     [(''MAX_CANON       ='', ''/dev/tty'', ''_PC_MAX_CANON''), (''MAX_INPUT       ='', ''/dev/tty'', ''_PC_MAX_INPUT''),
      (''_POSIX_VDISABLE ='', ''/dev/tty'', ''_PC_VDISABLE''), (''LINK_MAX        ='', dir, ''_PC_LINK_MAX''),
      (''NAME_MAX        ='', dir, ''_PC_NAME_MAX''), (''PATH_MAX        ='', dir, ''_PC_PATH_MAX''),
      (''PIPE_BUF        ='', dir, ''_PC_PIPE_BUF'')]"

primrec print_sys :: "string \<Rightarrow> (string \<times> string) list \<Rightarrow> string io" where
  "print_sys errno [] = Ret errno"
| "print_sys errno (q # qs) = io_bind (pr_sysconf errno (fst q) (snd q)) (\<lambda>e. print_sys e qs)"

primrec print_paths :: "(string \<times> string \<times> string) list \<Rightarrow> unit io" where
  "print_paths [] = Ret ()"
| "print_paths (q # qs) = io_bind (pr_pathconf (fst q) (fst (snd q)) (snd (snd q))) (\<lambda>_. print_paths qs)"

definition conf_main :: "string list \<Rightarrow> int io" where
  "conf_main argv =
     (if length argv \<noteq> 2 then err_quit ''usage: conf <dirname>''
      else io_bind (print_sys '''' sys_limits) (\<lambda>_. io_bind (print_paths (path_limits (argv ! 1))) (\<lambda>_. Halt 0)))"

section \<open>fcntl.c\<close>

text \<open>The flags of Linux.\<close>

definition O_ACCMODE :: int where "O_ACCMODE = 3"
definition O_APPEND :: int where "O_APPEND = 0x400"
definition O_NONBLOCK :: int where "O_NONBLOCK = 0x800"
definition O_SYNC :: int where "O_SYNC = 0x101000"

definition flag_text :: "int \<Rightarrow> int \<Rightarrow> string \<Rightarrow> string" where
  "flag_text val flag s = (if val AND flag \<noteq> 0 then s else '''')"

definition fcntl_main :: "string list \<Rightarrow> int io" where
  "fcntl_main argv =
     (if length argv \<noteq> 2 then err_quit ''usage: fcntl <descriptor#>''
      else Sys (Kernel (Fcntl (atoi (argv ! 1)))) (\<lambda>r.
        let val = rc r; accmode = val AND O_ACCMODE in
        if val < 0 then err_sys (dat r) (''fcnrl error for fd '' @ int_str (atoi (argv ! 1)))
        else io_bind
          (if accmode = 0 then one_call (Out ''read only'')
           else if accmode = 1 then one_call (Out ''write only'')
           else if accmode = 2 then one_call (Out ''read write'')
           else err_dump (dat r) ''unknown access mdoe'') (\<lambda>_.
          Sys (Out (flag_text val O_APPEND '', append'' @ flag_text val O_NONBLOCK '', nonblocking'' @
            flag_text val O_SYNC '', synchronous writes'' @ newline)) (\<lambda>_. Halt 0))))"

section \<open>fileno.c\<close>

text \<open>
  \<^verbatim>\<open>_flags\<close> of a stream, and the values of \<^verbatim>\<open>_IONBF\<close> and \<^verbatim>\<open>_IOLBF\<close>, belong to the C
  library: the call \<open>_flags\<close> and the parameters.
\<close>

definition pr_stdio :: "int \<Rightarrow> int \<Rightarrow> string \<Rightarrow> unit io" where
  "pr_stdio ionbf iolbf name =
     Sys (Out (''stream '' @ name @ '', '')) (\<lambda>_. Sys (Misc (''_flags '' @ name)) (\<lambda>r.
       one_call (Out ((if rc r AND ionbf \<noteq> 0 then ''unbufferd''
         else if rc r AND iolbf \<noteq> 0 then ''line buffered'' else ''fully buffered'') @ newline))))"

definition fileno_main :: "int \<Rightarrow> int \<Rightarrow> int io" where
  "fileno_main ionbf iolbf =
     Sys (Out (''enter any charcter'' @ newline)) (\<lambda>_. Sys Getchar (\<lambda>c.
       if rc c = - 1 then err_sys (dat c) ''getchar error''
       else Sys (Err (''one line to standard error'' @ newline)) (\<lambda>_.
         io_bind (pr_stdio ionbf iolbf ''stdin'') (\<lambda>_.
         io_bind (pr_stdio ionbf iolbf ''stdout'') (\<lambda>_.
         io_bind (pr_stdio ionbf iolbf ''stderr'') (\<lambda>_.
         Sys (Fopen ''/etc/hosts'' ''r'') (\<lambda>f.
           if rc f = - 1 then err_sys (dat f) ''fopen error''
           else Sys (Read (rc f) 1) (\<lambda>d.
             if rc d \<le> 0 then err_sys (dat d) ''getc error''
             else io_bind (pr_stdio ionbf iolbf ''/etc/hosts'') (\<lambda>_. Halt 0)))))))))"

section \<open>myls.c\<close>

primrec list_entries :: "nat \<Rightarrow> int \<Rightarrow> unit io" where
  "list_entries 0 dp = Cut"
| "list_entries (Suc k) dp =
     Sys (Kernel (Readdir dp)) (\<lambda>d.
       if rc d = - 1 then Ret ()
       else Sys (Out (dat d @ newline)) (\<lambda>_. list_entries k dp))"

definition myls_main :: "nat \<Rightarrow> string list \<Rightarrow> int io" where
  "myls_main k argv =
     (if length argv \<noteq> 2 then err_quit ''a single argument (the directory name) is required''
      else Sys (Kernel (Opendir (argv ! 1))) (\<lambda>d.
        if rc d = - 1 then err_sys (dat d) (''can't open '' @ argv ! 1)
        else io_bind (list_entries k (rc d)) (\<lambda>_. Sys (Kernel (Closedir (rc d))) (\<lambda>_. Ret 0))))"

section \<open>mychmod.c and stat.c\<close>

definition S_IXGRP :: int where "S_IXGRP = 0x8"
definition S_ISGID :: int where "S_ISGID = 0x400"
definition S_IFMT :: int where "S_IFMT = 0xf000"
definition S_IFREG :: int where "S_IFREG = 0x8000"
definition S_IFDIR :: int where "S_IFDIR = 0x4000"

text \<open>\<^verbatim>\<open>stat\<close> stores the mode, the size and the times of access, modification and change.\<close>

definition new_mode :: "int \<Rightarrow> int" where
  "new_mode st_mode = (st_mode AND NOT S_IXGRP) OR S_ISGID"

definition mychmod_main :: "int io" where
  "mychmod_main =
     Sys (Kernel (Stat ''foo'')) (\<lambda>s.
       if rc s < 0 then err_sys (dat s) ''stat error for foo''
       else Sys (Kernel (Chmod ''foo'' (new_mode (hd (ready s))))) (\<lambda>c.
         if rc c < 0 then err_sys (dat c) ''chmod error for foo'' else Halt 0))"

definition stat_main :: "string \<Rightarrow> int io" where
  "stat_main path =
     Sys (Kernel (Lstat path)) (\<lambda>s.
       if rc s < 0 then err_sys (dat s) ''stat failed''
       else let st = ready s; fmt = st ! 0 AND S_IFMT in
         Sys (Out (''file size = '' @ int_str (st ! 1) @ '' Byte'' @ newline)) (\<lambda>_.
         io_bind (if fmt = S_IFREG then one_call (Out (''regular file!!'' @ newline))
           else if fmt = S_IFDIR then one_call (Out (''directory!!'' @ newline)) else Ret ()) (\<lambda>_.
         io_bind (syscalls [Out (''access time is '' @ int_str (st ! 2) @ newline),
           Out (''modification time is '' @ int_str (st ! 3) @ newline),
           Out (''change time is '' @ int_str (st ! 4) @ newline)]) (\<lambda>_. Halt 0))))"

section \<open>gethost.c and procs.c\<close>

text \<open>The first four bytes of the address.\<close>

definition addr2str :: "string \<Rightarrow> string" where
  "addr2str a = nat_str (of_char (a ! 0)) @ ''.'' @ nat_str (of_char (a ! 1)) @ ''.'' @
     nat_str (of_char (a ! 2)) @ ''.'' @ nat_str (of_char (a ! 3))"

definition gethost_main :: "int io" where
  "gethost_main =
     Sys (Gethostbyname ''www.yahoo.co.jp'') (\<lambda>r.
       if rc r = - 1 then Sys (Perror ''Error: gethostbyname'') (\<lambda>_. Ret (- 1))
       else Sys (Out (addr2str (dat r) @ newline)) (\<lambda>_. Ret 0))"

text \<open>
  The variant for BSD: the size of the table, then the table, whose numbers are the process
  ids; the allocation is taken to succeed.
\<close>

definition print_process_id_list_bsd :: "string \<Rightarrow> int io" where
  "print_process_id_list_bsd progname =
     Sys (Kernel (Sysctl ''size'')) (\<lambda>s.
       if rc s \<noteq> 0 then Sys (Perror progname) (\<lambda>_. Ret 1)
       else Sys (Kernel (Sysctl ''items'')) (\<lambda>t.
         if rc t \<noteq> 0 then Sys (Perror progname) (\<lambda>_. Ret 1)
         else io_bind (syscalls (map (\<lambda>p. Out (int_str p @ newline)) (ready t))) (\<lambda>_. Ret 0)))"

text \<open>
  The variant for \<^verbatim>\<open>/proc\<close>: entries that begin with a number. The result is what \<^verbatim>\<open>errno\<close>
  is at the end, which the code does not reset at the beginning.
\<close>

primrec proc_entries :: "nat \<Rightarrow> int \<Rightarrow> string \<Rightarrow> string io" where
  "proc_entries 0 dir errno = Cut"
| "proc_entries (Suc k) dir errno =
     Sys (Kernel (Readdir dir)) (\<lambda>d.
       if rc d = - 1 then Ret (errno_after errno d)
       else (case scan_int (dat d) of
           None \<Rightarrow> proc_entries k dir errno
         | Some (pid, rest) \<Rightarrow> Sys (Out (int_str pid @ newline)) (\<lambda>_. proc_entries k dir errno)))"

definition print_process_id_list :: "nat \<Rightarrow> string \<Rightarrow> string \<Rightarrow> int io" where
  "print_process_id_list k errno progname =
     Sys (Kernel (Opendir ''/proc'')) (\<lambda>d.
       if rc d = - 1 then Sys (Perror progname) (\<lambda>_. Ret 1)
       else io_bind (proc_entries k (rc d) errno) (\<lambda>e.
         if e \<noteq> '''' then Sys (Perror progname) (\<lambda>_. Sys (Kernel (Closedir (rc d))) (\<lambda>_. Ret 1))
         else Sys (Kernel (Closedir (rc d))) (\<lambda>_. Ret 0)))"

definition procs_main :: "nat \<Rightarrow> int io" where
  "procs_main k = io_bind (print_process_id_list k '''' ''procs'') (\<lambda>_. Ret 0)"

section \<open>Timers\<close>

text \<open>
  \<^verbatim>\<open>kqueue/timer.c\<close>: the loop ends when the counter was 10 at the end of a round; the
  \<open>events\<close> of a round are counted in \<open>nevent\<close>.
\<close>

fun sec_loop :: "nat \<Rightarrow> int \<Rightarrow> nat \<Rightarrow> unit io" where
  "sec_loop 0 queue count = Cut"
| "sec_loop (Suc k) queue count =
     Sys (Kernel (Kevent queue)) (\<lambda>r.
       io_bind (syscalls (replicate (nat (rc r)) (Out (nat_str count @ '' sec'' @ newline)))) (\<lambda>_.
         if count = 10 then Ret () else sec_loop k queue (count + 1)))"

definition kqueue_timer :: "nat \<Rightarrow> int io" where
  "kqueue_timer k =
     Sys (Kernel Kqueue) (\<lambda>q. io_bind (sec_loop k (rc q) 1) (\<lambda>_. Sys (Close (rc q)) (\<lambda>_. Ret 0)))"

definition kqueue_vnode :: "int io" where
  "kqueue_vnode =
     Sys (Open ''vnode.c'') (\<lambda>f. Sys (Kernel Kqueue) (\<lambda>q. Sys (Kernel (Kevent (rc q))) (\<lambda>r.
       io_bind (syscalls (replicate (nat (rc r)) (Out (''link count changed'' @ newline)))) (\<lambda>_.
         Sys (Close (rc q)) (\<lambda>_. Sys (Close (rc f)) (\<lambda>_. Ret 0))))))"

text \<open>
  \<^verbatim>\<open>libevent/timer.c\<close>: the handler prints and adds its event again, unless its counter was
  100. \<^verbatim>\<open>event_dispatch\<close> runs handlers while an event is pending.
\<close>

record foo_timer =
  msg :: string
  tick :: nat

definition timer_handler :: "foo_timer \<Rightarrow> (bool \<times> foo_timer) io" where
  "timer_handler f =
     Sys (Out (msg f @ newline)) (\<lambda>_.
       let f1 = f\<lparr>tick := tick f + 1\<rparr> in Ret (tick f \<noteq> 100, f1))"

primrec event_dispatch :: "nat \<Rightarrow> bool \<Rightarrow> foo_timer \<Rightarrow> foo_timer io" where
  "event_dispatch 0 pending f = Cut"
| "event_dispatch (Suc k) pending f =
     (if \<not> pending then Ret f
      else Sys (Misc ''timeout'') (\<lambda>_. io_bind (timer_handler f) (\<lambda>(again, f1). event_dispatch k again f1)))"

definition libevent_timer :: "nat \<Rightarrow> int io" where
  "libevent_timer k = io_bind (event_dispatch k True \<lparr>msg = ''foo'', tick = 0\<rparr>) (\<lambda>_. Ret 0)"

section \<open>Programs that print\<close>

definition memory_map_main :: "int io" where
  "memory_map_main =
     (let a = [''abc'', ''def'', ''ghi''] in
      io_bind (syscalls [Out (concat a), Out ([a ! 0 ! 1] @ newline)]) (\<lambda>_. Ret 0))"

definition greet :: "string \<Rightarrow> unit io" where
  "greet who = one_call (Out (''Hello '' @ who @ newline))"

definition greet_main :: "int io" where
  "greet_main = io_bind (greet ''World!'') (\<lambda>_. Ret 0)"

text \<open>\<^verbatim>\<open>charatatime\<close>: one write for each character up to the NUL.\<close>

definition charatatime :: "string \<Rightarrow> unit io" where
  "charatatime str = syscalls (map (\<lambda>c. Out [c]) (takeWhile (\<lambda>c. c \<noteq> NUL) str))"

definition raceconditioned_main :: "int io" where
  "raceconditioned_main =
     Sys Fork (\<lambda>f.
       if rc f < 0 then err_sys (dat f) ''fork error''
       else if rc f = 0 then io_bind (charatatime (''output from child'' @ newline)) (\<lambda>_. Ret 0)
       else io_bind (charatatime (''output from parent'' @ newline)) (\<lambda>_. Ret 0))"

text \<open>
  \<^verbatim>\<open>pthread_cancel.c\<close>: the thread prints until the cancellation is pending at a
  \<^verbatim>\<open>pthread_testcancel\<close>, in the round number \<open>m\<close>.
\<close>

primrec cancel_rounds :: "nat \<Rightarrow> nat \<Rightarrow> string" where
  "cancel_rounds i 0 = ''canceled!!'' @ newline"
| "cancel_rounds i (Suc m) = ''a'' @ (if i mod 30 = 0 then ''OK'' @ newline else '''') @ cancel_rounds (i + 1) m"

definition pthread_cancel_main :: "nat \<Rightarrow> string" where
  "pthread_cancel_main m = cancel_rounds 0 m"

text \<open>\<^verbatim>\<open>haskell/ffi\<close>: a structure of two numbers, and a buffer filled from \<open>A\<close> on.\<close>

record foo =
  foo_x :: int
  foo_y :: int

definition foo_init :: "int \<Rightarrow> int \<Rightarrow> foo io" where
  "foo_init x y = Sys (Out (int_str x @ '' '' @ int_str y @ newline)) (\<lambda>_. Ret \<lparr>foo_x = x, foo_y = y\<rparr>)"

definition foo_destroy :: "string \<Rightarrow> foo \<Rightarrow> unit io" where
  "foo_destroy pointer f =
     one_call (Err (''free '' @ pointer @ '': '' @ int_str (foo_x f) @ '', '' @ int_str (foo_y f) @ newline))"

definition setString :: string where
  "setString = ''string.'' @ newline"

primrec fill_from :: "nat \<Rightarrow> nat \<Rightarrow> nat \<Rightarrow> string \<Rightarrow> string option" where
  "fill_from i at 0 p = (if length p \<le> at then None else Some (p[at := NUL]))"
| "fill_from i at (Suc n) p =
     (if length p \<le> at then None
      else fill_from (i + 1) (at + 1) n (p[at := to_char (of_char CHR ''A'' + int i)]))"

definition fill :: "string \<Rightarrow> int \<Rightarrow> string option" where
  "fill p n = fill_from 0 0 (nat n) p"

section \<open>What they print\<close>

definition limit_line :: "string \<Rightarrow> int \<Rightarrow> string" where
  "limit_line none v = (if v < 0 then none else '' '' @ int_str v) @ newline"

text \<open>When no call fails with an error, every limit is shown with its value.\<close>

lemma print_sys_lines:
  assumes "\<forall>tr n. os tr (Kernel (Sysconf n)) = rint (v n)"
  shows "run os tr (print_sys '''' qs) = (Returned '''', tr @ concat (map (\<lambda>q. [Out (fst q), Kernel (Sysconf (snd q)),
    Out (limit_line '' (not defined)'' (v (snd q)))]) qs))"
proof (induction qs arbitrary: tr)
  case (Cons q qs)
  have "dat (rint x) = ''''" for x by simp
  with Cons show ?case
    using assms by (simp add: run_bind pr_sysconf_def errno_after_def limit_line_def Let_def)
qed simp

lemma print_paths_lines:
  assumes "\<forall>tr p n. os tr (Kernel (Pathconf p n)) = rint (v p n)"
  shows "run os tr (print_paths qs) = (Returned (), tr @ concat (map (\<lambda>(m, p, n). [Out m, Kernel (Pathconf p n),
    Out (limit_line '' (no limit)'' (v p n))]) qs))"
proof (induction qs arbitrary: tr)
  case (Cons q qs)
  then show ?case
    using assms by (cases q) (simp add: run_bind pr_pathconf_def errno_after_def limit_line_def Let_def)
qed simp

lemma conf_lines:
  assumes "\<forall>tr n. os tr (Kernel (Sysconf n)) = rint (v n)" and "\<forall>tr p n. os tr (Kernel (Pathconf p n)) = rint (w p n)"
  shows "run os tr (conf_main [prog, dir]) = (Exited 0, tr @
    concat (map (\<lambda>q. [Out (fst q), Kernel (Sysconf (snd q)), Out (limit_line '' (not defined)'' (v (snd q)))]) sys_limits) @
    concat (map (\<lambda>(m, p, n). [Out m, Kernel (Pathconf p n), Out (limit_line '' (no limit)'' (w p n))]) (path_limits dir)))"
  by (simp add: conf_main_def run_bind print_sys_lines [OF assms(1)] print_paths_lines [OF assms(2)])

text \<open>
  A limit that is not defined is reported as an error when \<^verbatim>\<open>errno\<close> was set by something
  before: \<^verbatim>\<open>pr_sysconf\<close> does not reset it.
\<close>

lemma pr_sysconf_stale_errno:
  assumes "os (tr @ [Out mesg]) (Kernel (Sysconf name)) = rint (- 1)" and "e \<noteq> ''''" and "length e < 4000"
  shows "run os tr (pr_sysconf e mesg name) =
    (Exited 1, tr @ [Out mesg, Kernel (Sysconf name), Err (''sysconf error: '' @ e @ newline)])"
  using assms err_doit_fits [of "''sysconf error''" "Some e"]
  by (simp add: pr_sysconf_def errno_after_def err_sys_def run_bind MAXLINE_def Let_def)

text \<open>The entries of a directory, by the number of reads so far.\<close>

definition holds_entries :: "os \<Rightarrow> int \<Rightarrow> string list \<Rightarrow> bool" where
  "holds_entries os dp es \<longleftrightarrow> (\<forall>tr. os tr (Kernel (Readdir dp)) =
     (let n = count_list tr (Kernel (Readdir dp)) in if n < length es then rdat (es ! n) else rint (- 1)))"

lemma list_entries_all:
  assumes "holds_entries os dp es"
  shows "count_list tr (Kernel (Readdir dp)) + n = length es \<Longrightarrow>
    run os tr (list_entries (n + 1) dp) = (Returned (), tr @
      concat (map (\<lambda>e. [Kernel (Readdir dp), Out (e @ newline)]) (drop (count_list tr (Kernel (Readdir dp))) es)) @
      [Kernel (Readdir dp)])"
proof (induction n arbitrary: tr)
  case 0
  then show ?case using assms by (simp add: holds_entries_def)
next
  case (Suc n)
  let ?k = "count_list tr (Kernel (Readdir dp))"
  have r: "os tr (Kernel (Readdir dp)) = rdat (es ! ?k)"
    using assms Suc.prems by (simp add: holds_entries_def Let_def)
  have d: "drop ?k es = es ! ?k # drop (Suc ?k) es" using Suc.prems by (simp add: Cons_nth_drop_Suc)
  have "run os tr (list_entries (Suc (n + 1)) dp) =
      run os (tr @ [Kernel (Readdir dp), Out (es ! ?k @ newline)]) (list_entries (n + 1) dp)"
    using r by simp
  with Suc.IH [of "tr @ [Kernel (Readdir dp), Out (es ! ?k @ newline)]"] Suc.prems d show ?case
    by (simp del: list_entries.simps)
qed

lemma new_mode_bits: "bit (new_mode m) i \<longleftrightarrow> i = 10 \<or> i \<noteq> 3 \<and> bit m i"
proof -
  have e: "bit ((2 :: int) ^ k) i \<longleftrightarrow> i = k" for k by (simp only: bit_exp_iff) auto
  have f: "S_IXGRP = 2 ^ 3" "S_ISGID = 2 ^ 10" by (simp_all add: S_IXGRP_def S_ISGID_def)
  show ?thesis unfolding new_mode_def f by (simp only: bit_or_iff bit_and_iff bit_not_iff e) auto
qed

lemma fill_from_value:
  "at + n < length p \<Longrightarrow> fill_from i at n p =
     Some (take at p @ map (\<lambda>j. to_char (65 + int i + int j)) [0..<n] @ NUL # drop (at + n + 1) p)"
proof (induction n arbitrary: i at p)
  case 0
  then show ?case by (simp add: upd_conv_take_nth_drop)
next
  case (Suc n)
  let ?q = "p[at := to_char (of_char CHR ''A'' + int i)]"
  have m: "map (\<lambda>j. to_char (65 + int i + int j)) [0..<Suc n] =
      to_char (65 + int i) # map (\<lambda>j. to_char (65 + int (i + 1) + int j)) [0..<n]"
    unfolding map_upt_Suc by (simp add: ac_simps)
  have t: "take (at + 1) ?q = take at p @ [to_char (65 + int i)]"
    using Suc.prems by (simp add: take_Suc_conv_app_nth)
  show ?case
    using Suc.IH [of "at + 1" ?q "i + 1"] Suc.prems unfolding m t by simp
qed

text \<open>One character too many for the buffer is a write outside it.\<close>

lemma fill_value:
  "fill p n = (if nat n < length p
     then Some (map (\<lambda>j. to_char (65 + int j)) [0..<nat n] @ NUL # drop (nat n + 1) p) else None)"
proof -
  have none: "length q \<le> at + k \<Longrightarrow> fill_from i at k q = None" for i at k q
    by (induction k arbitrary: i at q) auto
  show ?thesis using fill_from_value [of 0 "nat n" p 0] none [of p 0 "nat n" 0] by (simp add: fill_def)
qed

text \<open>The loops of the timers.\<close>

lemma sec_loop_counts:
  assumes "\<forall>tr. rc (os tr (Kernel (Kevent q))) = 1"
  shows "1 \<le> c \<Longrightarrow> c + n = 11 \<Longrightarrow> run os tr (sec_loop n q c) =
    (if n = 0 then (Running, tr)
     else (Returned (), tr @ concat (map (\<lambda>i. [Kernel (Kevent q), Out (nat_str i @ '' sec'' @ newline)]) [c..<11])))"
proof (induction n arbitrary: c tr)
  case (Suc n)
  show ?case
  proof (cases "c = 10")
    case True
    then show ?thesis using assms by (simp add: run_bind upt_rec [of 10])
  next
    case False
    then have "[c..<11] = c # [Suc c..<11]" using Suc.prems by (simp add: upt_conv_Cons)
    with Suc.IH [of "c + 1"] Suc.prems False assms show ?thesis by (simp add: run_bind)
  qed
qed simp

lemma event_dispatch_counts:
  "t + n = 101 \<Longrightarrow> run os tr (event_dispatch (n + 1) True \<lparr>msg = m, tick = t\<rparr>) =
    (if n = 0 then run os tr (event_dispatch 1 True \<lparr>msg = m, tick = t\<rparr>)
     else (Returned \<lparr>msg = m, tick = 101\<rparr>, tr @ concat (replicate n [Misc ''timeout'', Out (m @ newline)])))"
proof (induction n arbitrary: t tr)
  case (Suc n)
  note IH = Suc.IH [of "t + 1"] and prems = Suc.prems
  show ?case
  proof (cases n)
    case 0
    then show ?thesis using prems by (simp add: timer_handler_def Let_def)
  next
    case (Suc l)
    have "t \<noteq> 100" using prems Suc by simp
    then have "run os tr (event_dispatch (Suc (n + 1)) True \<lparr>msg = m, tick = t\<rparr>) =
        run os (tr @ [Misc ''timeout'', Out (m @ newline)]) (event_dispatch (n + 1) True \<lparr>msg = m, tick = t + 1\<rparr>)"
      by (simp add: timer_handler_def Let_def)
    then show ?thesis using IH prems Suc by (simp del: event_dispatch.simps)
  qed
qed simp

text \<open>
  The timer of \<^verbatim>\<open>libevent\<close> prints its text exactly 101 times and ends; the one of
  \<^verbatim>\<open>kqueue\<close>, when each wait reports one event, counts from 1 to 10 and ends.
\<close>

theorem timers_end:
  assumes "\<forall>tr. rc (os tr (Kernel (Kevent q))) = 1" and "rc (os tr (Kernel Kqueue)) = q"
  shows "run os tr (kqueue_timer 10) = (Returned 0, tr @ [Kernel Kqueue] @
      concat (map (\<lambda>i. [Kernel (Kevent q), Out (nat_str i @ '' sec'' @ newline)]) [1..<11]) @ [Close q]) \<and>
    run os tr (libevent_timer 102) = (Returned 0, tr @ concat (replicate 101 [Misc ''timeout'', Out (''foo'' @ newline)]))"
proof
  have "run os tr' (sec_loop 10 q 1) = (Returned (), tr' @
      concat (map (\<lambda>i. [Kernel (Kevent q), Out (nat_str i @ '' sec'' @ newline)]) [1..<11]))" for tr'
    using sec_loop_counts [of os q 1 10 tr'] assms(1) by simp
  then show "run os tr (kqueue_timer 10) = (Returned 0, tr @ [Kernel Kqueue] @
      concat (map (\<lambda>i. [Kernel (Kevent q), Out (nat_str i @ '' sec'' @ newline)]) [1..<11]) @ [Close q])"
    using assms(2) by (simp only: kqueue_timer_def run.simps run_bind prod.case ended.case) simp
  have "run os tr (event_dispatch 102 True \<lparr>msg = ''foo'', tick = 0\<rparr>) =
      (Returned \<lparr>msg = ''foo'', tick = 101\<rparr>, tr @ concat (replicate 101 [Misc ''timeout'', Out (''foo'' @ newline)]))"
    using event_dispatch_counts [of 0 101 os tr "''foo''"] by simp
  then show "run os tr (libevent_timer 102) =
      (Returned 0, tr @ concat (replicate 101 [Misc ''timeout'', Out (''foo'' @ newline)]))"
    by (simp only: libevent_timer_def run_bind prod.case ended.case run.simps)
qed

definition clock_os :: os where
  "clock_os tr c = (if c = Kernel Kqueue then rint 5 else rint 1)"

end
