(* ===== verification/Svd.thy ===== *)
theory Svd
  imports Prelude "HOL-Library.Multiset"
begin

text \<open>
  \<^verbatim>\<open>c/SVDLIBC/svdlib.c\<close>: dense matrices, sparse matrices in the Harwell-Boeing layout, their
  conversions into each other and transposition. The elements are of any type that has what the operation needs of
  it (zero, addition, multiplication, an order), without laws: the definitions are the C
  programs for whatever arithmetic, the laws are asked for by the theorems. A double is meant
  with its two zeros taken as one and without the values that are not numbers.

  \<open>None\<close> is an access outside an array. Memory that \<^verbatim>\<open>malloc\<close> leaves uninitialised is a
  parameter; allocation succeeds, and sizes fit in an \<open>int\<close>.
\<close>

section \<open>Matrices\<close>

record 'v smat =
  srows :: nat
  scols :: nat
  svals :: nat
  pointr :: "nat list"
  rowind :: "nat list"
  svalue :: "'v list"

record 'v dmat =
  drows :: nat
  dcols :: nat
  dvalue :: "'v list list"

text \<open>The contents of fresh memory.\<close>

record 'v heap =
  wild_row :: "nat \<Rightarrow> nat"
  wild_value :: "nat \<Rightarrow> 'v"

text \<open>
  \<^verbatim>\<open>svdNewDMat\<close> stores the pointer to its elements in \<open>value[0]\<close>: without a row that is
  outside the array of row pointers.
\<close>

definition svdNewDMat :: "nat \<Rightarrow> nat \<Rightarrow> ('v :: zero) dmat option" where
  "svdNewDMat rows cols =
     (if rows = 0 then None
      else Some \<lparr>drows = rows, dcols = cols, dvalue = replicate rows (replicate cols 0)\<rparr>)"

definition svdNewSMat :: "'v heap \<Rightarrow> nat \<Rightarrow> nat \<Rightarrow> nat \<Rightarrow> 'v smat" where
  "svdNewSMat h rows cols vals =
     \<lparr>srows = rows, scols = cols, svals = vals, pointr = replicate (cols + 1) 0,
      rowind = map (wild_row h) [0..<vals], svalue = map (wild_value h) [0..<vals]\<rparr>"

section \<open>Conversions\<close>

text \<open>\<^verbatim>\<open>while (S->pointr[c + 1] <= i) c++\<close>.\<close>

function next_col :: "nat list \<Rightarrow> nat \<Rightarrow> nat \<Rightarrow> nat option" where
  "next_col p i c =
     (if length p \<le> c + 1 then None
      else if p ! (c + 1) \<le> i then next_col p i (c + 1) else Some c)"
  by pat_completeness auto
termination
  by (relation "measure (\<lambda>(p, i, c). length p - c)") auto

declare next_col.simps [simp del]

definition put2 :: "'v list list \<Rightarrow> nat \<Rightarrow> nat \<Rightarrow> 'v \<Rightarrow> 'v list list option" where
  "put2 D r c v = (if r < length D \<and> c < length (D ! r) then Some (D[r := (D ! r)[c := v]]) else None)"

definition get2 :: "'v list list \<Rightarrow> nat \<Rightarrow> nat \<Rightarrow> 'v option" where
  "get2 D r c = (if r < length D \<and> c < length (D ! r) then Some (D ! r ! c) else None)"

text \<open>The loop of \<^verbatim>\<open>svdConvertStoD\<close> with \<open>n\<close> rounds to go.\<close>

primrec stod_loop :: "'v smat \<Rightarrow> nat \<Rightarrow> nat \<Rightarrow> nat \<Rightarrow> 'v list list \<Rightarrow> 'v list list option" where
  "stod_loop S 0 i c D = Some D"
| "stod_loop S (Suc n) i c D =
     (case next_col (pointr S) i c of
        None \<Rightarrow> None
      | Some c' \<Rightarrow>
          if length (rowind S) \<le> i \<or> length (svalue S) \<le> i then None
          else (case put2 D (rowind S ! i) c' (svalue S ! i) of
                  None \<Rightarrow> None
                | Some D' \<Rightarrow> stod_loop S n (i + 1) c' D'))"

definition svdConvertStoD :: "('v :: zero) smat \<Rightarrow> 'v dmat option" where
  "svdConvertStoD S =
     (case svdNewDMat (srows S) (scols S) of
        None \<Rightarrow> None
      | Some D \<Rightarrow> map_option (\<lambda>x. D\<lparr>dvalue := x\<rparr>) (stod_loop S (svals S) 0 0 (dvalue D)))"

text \<open>
  \<^verbatim>\<open>svdConvertDtoS\<close> counts the elements that are not zero row by row, then stores them column
  by column.
\<close>

definition count_row :: "('v :: zero) list \<Rightarrow> nat \<Rightarrow> nat \<Rightarrow> nat" where
  "count_row row cols n = foldl (\<lambda>n j. if row ! j \<noteq> 0 then n + 1 else n) n [0..<cols]"

definition count_nonzero :: "('v :: zero) dmat \<Rightarrow> nat" where
  "count_nonzero D = foldl (\<lambda>n i. count_row (dvalue D ! i) (dcols D) n) 0 [0..<drows D]"

definition dtos_cell :: "('v :: zero) dmat \<Rightarrow> nat \<Rightarrow> 'v smat \<times> nat \<Rightarrow> nat \<Rightarrow> 'v smat \<times> nat" where
  "dtos_cell D j Sn i =
     (let (S, n) = Sn; x = dvalue D ! i ! j in
      if x \<noteq> 0 then (S\<lparr>rowind := (rowind S)[n := i], svalue := (svalue S)[n := x]\<rparr>, n + 1) else (S, n))"

definition dtos_col :: "('v :: zero) dmat \<Rightarrow> 'v smat \<times> nat \<Rightarrow> nat \<Rightarrow> 'v smat \<times> nat" where
  "dtos_col D Sn j =
     (let (S, n) = Sn in foldl (dtos_cell D j) (S\<lparr>pointr := (pointr S)[j := n]\<rparr>, n) [0..<drows D])"

definition svdConvertDtoS :: "'v heap \<Rightarrow> ('v :: zero) dmat \<Rightarrow> 'v smat" where
  "svdConvertDtoS h D =
     (let S = svdNewSMat h (drows D) (dcols D) (count_nonzero D);
          (S', n) = foldl (dtos_col D) (S, 0) [0..<dcols D]
      in S'\<lparr>pointr := (pointr S')[scols S' := svals S']\<rparr>)"

section \<open>Transposition\<close>

definition svdTransposeD :: "('v :: zero) dmat \<Rightarrow> 'v dmat option" where
  "svdTransposeD D =
     (case svdNewDMat (dcols D) (drows D) of
        None \<Rightarrow> None
      | Some N \<Rightarrow>
          Some (N\<lparr>dvalue :=
            foldl (\<lambda>V r. foldl (\<lambda>V c. V[c := (V ! c)[r := dvalue D ! r ! c]]) V [0..<dcols D])
              (dvalue N) [0..<drows D]\<rparr>))"

text \<open>The first loop of \<^verbatim>\<open>svdTransposeS\<close>: how often a row occurs.\<close>

primrec count_rows :: "nat list \<Rightarrow> nat list \<Rightarrow> nat list option" where
  "count_rows [] p = Some p"
| "count_rows (r # rs) p = (if r < length p then count_rows rs (p[r := p ! r + 1]) else None)"

text \<open>\<^verbatim>\<open>for (r = S->rows - 1; r > 0; r--) N->pointr[r] = N->pointr[r+1] - N->pointr[r-1]\<close>.\<close>

primrec shift_starts :: "nat \<Rightarrow> nat list \<Rightarrow> nat list" where
  "shift_starts 0 p = p"
| "shift_starts (Suc r) p = shift_starts r (p[Suc r := p ! (Suc r + 1) - p ! r])"

definition row_starts :: "nat \<Rightarrow> nat \<Rightarrow> nat list \<Rightarrow> nat list option" where
  "row_starts rows vals p =
     (if rows = 0 then None
      else Some ((shift_starts (rows - 1) (p[rows := vals - p ! (rows - 1)]))[0 := 0]))"

text \<open>One entry is moved to its place; then a column, \<open>n\<close> entries of it from the \<open>i\<close>-th.\<close>

definition move_entry :: "'v smat \<Rightarrow> nat \<Rightarrow> 'v smat \<Rightarrow> nat \<Rightarrow> 'v smat option" where
  "move_entry S c N i =
     (if length (rowind S) \<le> i \<or> length (svalue S) \<le> i then None
      else let r = rowind S ! i in
        if length (pointr N) \<le> r + 1 then None
        else let j = pointr N ! (r + 1) in
          if length (rowind N) \<le> j \<or> length (svalue N) \<le> j then None
          else Some (N\<lparr>pointr := (pointr N)[r + 1 := j + 1], rowind := (rowind N)[j := c],
                      svalue := (svalue N)[j := svalue S ! i]\<rparr>))"

primrec move_column :: "'v smat \<Rightarrow> nat \<Rightarrow> nat \<Rightarrow> nat \<Rightarrow> 'v smat \<Rightarrow> 'v smat option" where
  "move_column S c 0 i N = Some N"
| "move_column S c (Suc n) i N =
     (case move_entry S c N i of None \<Rightarrow> None | Some N' \<Rightarrow> move_column S c n (i + 1) N')"

primrec move_columns :: "'v smat \<Rightarrow> nat \<Rightarrow> nat \<Rightarrow> nat \<Rightarrow> 'v smat \<Rightarrow> 'v smat option" where
  "move_columns S 0 c i N = Some N"
| "move_columns S (Suc m) c i N =
     (if length (pointr S) \<le> c + 1 then None
      else let e = pointr S ! (c + 1) in
        case move_column S c (e - i) i N of
          None \<Rightarrow> None
        | Some N' \<Rightarrow> move_columns S m (c + 1) (max i e) N')"

definition svdTransposeS :: "'v heap \<Rightarrow> 'v smat \<Rightarrow> 'v smat option" where
  "svdTransposeS h S =
     (let N = svdNewSMat h (scols S) (srows S) (svals S) in
      if length (rowind S) < svals S then None
      else case count_rows (take (svals S) (rowind S)) (pointr N) of
        None \<Rightarrow> None
      | Some p1 \<Rightarrow>
          (case row_starts (srows S) (svals S) p1 of
             None \<Rightarrow> None
           | Some p2 \<Rightarrow> move_columns S (scols S) 0 0 (N\<lparr>pointr := p2\<rparr>)))"

section \<open>Well-formed matrices and their entries\<close>

definition wf_smat :: "'v smat \<Rightarrow> bool" where
  "wf_smat S \<longleftrightarrow> length (pointr S) = scols S + 1 \<and> sorted (pointr S) \<and> pointr S ! 0 = 0 \<and>
     pointr S ! scols S = svals S \<and> length (rowind S) = svals S \<and> length (svalue S) = svals S \<and>
     (\<forall>r\<in>set (rowind S). r < srows S)"

definition wf_dmat :: "'v dmat \<Rightarrow> bool" where
  "wf_dmat D \<longleftrightarrow> length (dvalue D) = drows D \<and> (\<forall>row\<in>set (dvalue D). length row = dcols D)"

text \<open>The entries of a column, and of the matrix, in the order in which they are stored.\<close>

definition nz_entry :: "'v smat \<Rightarrow> nat \<Rightarrow> nat \<Rightarrow> nat \<times> nat \<times> 'v" where
  "nz_entry S c i = (rowind S ! i, c, svalue S ! i)"

definition col_entries :: "'v smat \<Rightarrow> nat \<Rightarrow> (nat \<times> nat \<times> 'v) list" where
  "col_entries S c = map (nz_entry S c) [pointr S ! c..<pointr S ! (c + 1)]"

definition entries :: "'v smat \<Rightarrow> (nat \<times> nat \<times> 'v) list" where
  "entries S = concat (map (col_entries S) [0..< scols S])"

lemma wf_pointr_le:
  assumes "wf_smat S" and "c \<le> d" and "d \<le> scols S"
  shows "pointr S ! c \<le> pointr S ! d"
  using assms by (auto simp: wf_smat_def intro: sorted_nth_mono)

lemma wf_pointr_vals: "wf_smat S \<Longrightarrow> c \<le> scols S \<Longrightarrow> pointr S ! c \<le> svals S"
  using wf_pointr_le [of S c "scols S"] by (simp add: wf_smat_def)

lemma entries_upto:
  assumes "wf_smat S" and "m \<le> scols S"
  shows "length (concat (map (col_entries S) [0..<m])) = pointr S ! m"
  using assms(2)
proof (induction m)
  case 0
  then show ?case using assms(1) by (simp add: wf_smat_def)
next
  case (Suc m)
  then show ?case using wf_pointr_le [OF assms(1), of m "m + 1"] by (simp add: col_entries_def)
qed

lemma length_entries: "wf_smat S \<Longrightarrow> length (entries S) = svals S"
  using entries_upto [of S "scols S"] by (simp add: entries_def wf_smat_def)

lemma entries_in:
  assumes "wf_smat S" and "(r, c, v) \<in> set (entries S)"
  shows "r < srows S" "c < scols S"
proof -
  obtain i where i: "c < scols S" "i < pointr S ! (c + 1)" "r = rowind S ! i"
    using assms(2) by (auto simp: entries_def col_entries_def nz_entry_def)
  then have "i < svals S" using wf_pointr_vals [OF assms(1), of "c + 1"] by simp
  with i assms(1) show "r < srows S" "c < scols S" by (simp_all add: wf_smat_def)
qed

lemma map_rows_entries:
  assumes "wf_smat S"
  shows "map fst (entries S) = rowind S" "map (snd \<circ> snd) (entries S) = svalue S"
proof -
  have "\<forall>m\<le> scols S. map fst (concat (map (col_entries S) [0..<m])) = take (pointr S ! m) (rowind S) \<and>
     map (snd \<circ> snd) (concat (map (col_entries S) [0..<m])) = take (pointr S ! m) (svalue S)"
  proof (intro allI impI)
    fix m
    show "m \<le> scols S \<Longrightarrow> map fst (concat (map (col_entries S) [0..<m])) = take (pointr S ! m) (rowind S) \<and>
       map (snd \<circ> snd) (concat (map (col_entries S) [0..<m])) = take (pointr S ! m) (svalue S)"
    proof (induction m)
      case 0
      then show ?case using assms by (simp add: wf_smat_def)
    next
      case (Suc m)
      have p: "pointr S ! m \<le> pointr S ! (m + 1)" "pointr S ! (m + 1) \<le> svals S"
        using Suc.prems wf_pointr_le [OF assms, of m "m + 1"] wf_pointr_vals [OF assms, of "m + 1"] by simp_all
      have l: "length (rowind S) = svals S" "length (svalue S) = svals S" using assms by (simp_all add: wf_smat_def)
      have t: "take (pointr S ! (m + 1)) xs = take (pointr S ! m) xs @ map ((!) xs) [pointr S ! m..<pointr S ! (m + 1)]"
        if "length xs = svals S" for xs :: "'b list"
        using p that by (intro nth_equalityI) (auto simp: nth_append)
      show ?case using Suc t [OF l(1)] t [OF l(2)] by (simp add: col_entries_def nz_entry_def comp_def)
    qed
  qed
  then show "map fst (entries S) = rowind S" "map (snd \<circ> snd) (entries S) = svalue S"
    using assms by (simp_all add: entries_def wf_smat_def)
qed

text \<open>A loop over the columns, and in a column over its entries, is a fold over the entries.\<close>

lemma fold_upt_Suc: "j < k \<Longrightarrow> foldl f s [j..<k] = foldl f (f s j) [Suc j..<k]"
  by (simp add: upt_conv_Cons)

lemma concat_upt_split:
  "i < m \<Longrightarrow> concat (map f [i..<m]) = f i @ concat (map f [Suc i..<m])"
  by (simp add: upt_conv_Cons)

section \<open>From sparse to dense\<close>

definition put_entry :: "'v list list \<Rightarrow> nat \<times> nat \<times> 'v \<Rightarrow> 'v list list" where
  "put_entry D e = (case e of (r, c, v) \<Rightarrow> D[r := (D ! r)[c := v]])"

definition shaped :: "nat \<Rightarrow> nat \<Rightarrow> 'v list list \<Rightarrow> bool" where
  "shaped rows cols D \<longleftrightarrow> length D = rows \<and> (\<forall>row\<in>set D. length row = cols)"

lemma shaped_put: "shaped rows cols D \<Longrightarrow> r < rows \<Longrightarrow> shaped rows cols (put_entry D (r, c, v))"
  by (auto simp: shaped_def put_entry_def dest!: set_update_subset_insert [THEN subsetD])

lemma shaped_row: "shaped rows cols D \<Longrightarrow> r < rows \<Longrightarrow> length (D ! r) = cols"
  by (simp add: shaped_def)

lemma shaped_zero: "shaped rows cols (replicate rows (replicate cols 0))"
  by (simp add: shaped_def)

text \<open>What \<open>entries\<close> store at a place: the last one counts.\<close>

fun stored :: "(nat \<times> nat \<times> 'v) list \<Rightarrow> nat \<Rightarrow> nat \<Rightarrow> 'v \<Rightarrow> 'v" where
  "stored [] r c d = d"
| "stored ((r', c', v) # es) r c d = stored es r c (if r' = r \<and> c' = c then v else d)"

lemma stored_filter: "stored es r c d = stored (filter (\<lambda>(r', c', v). r' = r \<and> c' = c) es) r c d"
  by (induction es r c d rule: stored.induct) auto

lemma stored_append: "stored (xs @ ys) r c d = stored ys r c (stored xs r c d)"
  by (induction xs r c d rule: stored.induct) auto

lemma fold_put_entries:
  "shaped rows cols D \<Longrightarrow> \<forall>(r, c, v)\<in>set es. r < rows \<and> c < cols \<Longrightarrow>
    shaped rows cols (foldl put_entry D es) \<and>
    (\<forall>r<rows. \<forall>c<cols. foldl put_entry D es ! r ! c = stored es r c (D ! r ! c))"
proof (induction es arbitrary: D)
  case (Cons e es)
  obtain r' c' v where e: "e = (r', c', v)" by (cases e)
  have s: "shaped rows cols (put_entry D e)" using shaped_put Cons.prems e by auto
  have "put_entry D e ! r ! c = (if r' = r \<and> c' = c then v else D ! r ! c)" if "r < rows" "c < cols" for r c
    using that e Cons.prems shaped_row [of rows cols D r'] by (auto simp: put_entry_def nth_list_update shaped_def)
  then show ?case using Cons.IH [OF s] Cons.prems e by simp
qed simp

text \<open>The search for the column of the next entry.\<close>

lemma next_col_finds:
  assumes "sorted p" and "k + 1 < length p" and "p ! k \<le> i" and "i < p ! (k + 1)"
  shows "c \<le> k \<Longrightarrow> next_col p i c = Some k"
proof (induction "k - c" arbitrary: c)
  case 0
  then show ?case using assms by (subst next_col.simps) simp
next
  case (Suc n)
  then have "c < k" by simp
  then have "p ! (c + 1) \<le> p ! k" using assms(1,2) by (simp add: sorted_nth_mono)
  then show ?case using Suc assms(2,3) \<open>c < k\<close> by (subst next_col.simps) simp
qed

lemma put2_entry:
  "shaped rows cols D \<Longrightarrow> r < rows \<Longrightarrow> c < cols \<Longrightarrow> put2 D r c v = Some (put_entry D (r, c, v))"
  by (simp add: put2_def put_entry_def shaped_def)

lemma stod_chunk:
  assumes "wf_smat S" and "k < scols S"
  shows "shaped (srows S) (scols S) D \<Longrightarrow> c \<le> k \<Longrightarrow> pointr S ! k \<le> i \<Longrightarrow> i + n \<le> pointr S ! (k + 1) \<Longrightarrow>
    \<exists>c'\<le>k. stod_loop S (n + m) i c D = stod_loop S m (i + n) c' (foldl put_entry D (map (nz_entry S k) [i..<i + n]))"
proof (induction n arbitrary: i c D)
  case 0
  then show ?case by auto
next
  case (Suc n)
  have w: "length (pointr S) = scols S + 1" "sorted (pointr S)" "length (rowind S) = svals S" "length (svalue S) = svals S"
    using assms(1) by (simp_all add: wf_smat_def)
  have i: "i < svals S" using Suc.prems(4) wf_pointr_vals [OF assms(1), of "k + 1"] assms(2) by simp
  have r: "rowind S ! i < srows S" using assms(1) i by (simp add: wf_smat_def)
  have k: "k + 1 < length (pointr S)" "i < pointr S ! (k + 1)" using Suc.prems(4) w(1) assms(2) by simp_all
  note nc = next_col_finds [OF w(2) k(1) Suc.prems(3) k(2) Suc.prems(2)]
  let ?D = "put_entry D (nz_entry S k i)"
  have "stod_loop S (Suc n + m) i c D = stod_loop S (n + m) (i + 1) k ?D"
    using nc i w put2_entry [OF Suc.prems(1) r assms(2)] by (simp add: nz_entry_def)
  moreover have "shaped (srows S) (scols S) ?D" using shaped_put [OF Suc.prems(1) r] by (simp add: nz_entry_def)
  moreover have "[i..<i + Suc n] = i # [Suc i..<Suc i + n]" by (subst upt_rec) simp
  ultimately show ?case using Suc.IH [of ?D k "i + 1"] Suc.prems by (simp del: upt_Suc stod_loop.simps)
qed

lemma foldl_concat_upt:
  "foldl f s (concat (map g [0..<Suc m])) = foldl f (foldl f s (concat (map g [0..<m]))) (g m)"
  by simp

lemma entries_prefix: "m \<le> scols S \<Longrightarrow> set (concat (map (col_entries S) [0..<m])) \<subseteq> set (entries S)"
  by (force simp: entries_def)

lemma entries_range: "wf_smat S \<Longrightarrow> \<forall>(r, c, v)\<in>set (entries S). r < srows S \<and> c < scols S"
  using entries_in by fastforce

lemma stod_columns:
  assumes "wf_smat S" and "shaped (srows S) (scols S) D"
  shows "m \<le> scols S \<Longrightarrow> \<exists>c'\<le>m. stod_loop S (svals S) 0 0 D =
    stod_loop S (svals S - pointr S ! m) (pointr S ! m) c' (foldl put_entry D (concat (map (col_entries S) [0..<m])))"
proof (induction m)
  case 0
  then show ?case using assms(1) by (simp add: wf_smat_def)
next
  case (Suc m)
  then obtain c' where c: "c' \<le> m" "stod_loop S (svals S) 0 0 D =
    stod_loop S (svals S - pointr S ! m) (pointr S ! m) c' (foldl put_entry D (concat (map (col_entries S) [0..<m])))"
    by auto
  let ?D = "foldl put_entry D (concat (map (col_entries S) [0..<m]))"
  let ?n = "pointr S ! (m + 1) - pointr S ! m" and ?r = "svals S - pointr S ! (m + 1)"
  have p: "pointr S ! m \<le> pointr S ! (m + 1)" "pointr S ! (m + 1) \<le> svals S"
    using Suc.prems wf_pointr_le [OF assms(1), of m "m + 1"] wf_pointr_vals [OF assms(1), of "m + 1"] by simp_all
  have "\<forall>(r, c, v)\<in>set (concat (map (col_entries S) [0..<m])). r < srows S \<and> c < scols S"
    using entries_prefix [of m S] Suc.prems entries_range [OF assms(1)] by (metis (no_types, lifting) Suc_leD subsetD)
  then have s: "shaped (srows S) (scols S) ?D" using fold_put_entries [OF assms(2)] by blast
  have n: "svals S - pointr S ! m = ?n + ?r" "pointr S ! m + ?n = pointr S ! (m + 1)" using p by simp_all
  obtain c2 where d: "c2 \<le> m" "stod_loop S (?n + ?r) (pointr S ! m) c' ?D =
      stod_loop S ?r (pointr S ! m + ?n) c2 (foldl put_entry ?D (map (nz_entry S m) [pointr S ! m..<pointr S ! m + ?n]))"
    using stod_chunk [OF assms(1), of m ?D c' "pointr S ! m" ?n ?r] s c(1) p Suc.prems by auto
  have "foldl put_entry ?D (map (nz_entry S m) [pointr S ! m..<pointr S ! (m + 1)]) =
      foldl put_entry D (concat (map (col_entries S) [0..<Suc m]))"
    by (simp add: col_entries_def)
  then show ?case using c(2) d(2) unfolding n by (metis (no_types, lifting) Suc_eq_plus1 d(1) le_SucI)
qed

theorem svdConvertStoD_entries:
  assumes "wf_smat S" and "0 < srows S"
  shows "\<exists>D. svdConvertStoD S = Some D \<and> wf_dmat D \<and> drows D = srows S \<and> dcols D = scols S \<and>
    (\<forall>r< srows S. \<forall>c< scols S. dvalue D ! r ! c = stored (entries S) r c 0)"
proof -
  let ?Z = "replicate (srows S) (replicate (scols S) 0)"
  let ?V = "foldl put_entry ?Z (entries S)"
  have z: "shaped (srows S) (scols S) ?Z" by (rule shaped_zero)
  obtain c' where "stod_loop S (svals S) 0 0 ?Z = stod_loop S (svals S - svals S) (svals S) c' ?V"
    using stod_columns [OF assms(1) z, of "scols S"] assms(1) by (auto simp: entries_def wf_smat_def)
  then have "svdConvertStoD S = Some \<lparr>drows = srows S, dcols = scols S, dvalue = ?V\<rparr>"
    using assms(2) by (simp add: svdConvertStoD_def svdNewDMat_def)
  moreover have "shaped (srows S) (scols S) ?V \<and>
      (\<forall>r< srows S. \<forall>c< scols S. ?V ! r ! c = stored (entries S) r c (?Z ! r ! c))"
    by (rule fold_put_entries [OF z entries_range [OF assms(1)]])
  ultimately show ?thesis by (simp add: wf_dmat_def shaped_def)
qed

section \<open>Transposing a dense matrix\<close>

lemma transpose_row:
  assumes "r < m"
  shows "shaped n m V \<Longrightarrow> k \<le> n \<Longrightarrow>
    shaped n m (foldl (\<lambda>V c. V[c := (V ! c)[r := f c]]) V [0..<k]) \<and>
    (\<forall>c<n. \<forall>q<m. foldl (\<lambda>V c. V[c := (V ! c)[r := f c]]) V [0..<k] ! c ! q =
       (if q = r \<and> c < k then f c else V ! c ! q))"
proof (induction k)
  case (Suc k)
  let ?W = "foldl (\<lambda>V c. V[c := (V ! c)[r := f c]]) V [0..<k]"
  have w: "shaped n m ?W" "\<forall>c<n. \<forall>q<m. ?W ! c ! q = (if q = r \<and> c < k then f c else V ! c ! q)"
    using Suc by simp_all
  have "shaped n m (?W[k := (?W ! k)[r := f k]])"
    using shaped_put [OF w(1), of k r "f k"] Suc.prems by (simp add: put_entry_def)
  moreover have "\<forall>c<n. \<forall>q<m. ?W[k := (?W ! k)[r := f k]] ! c ! q = (if q = r \<and> c < Suc k then f c else V ! c ! q)"
    using w Suc.prems assms shaped_row [OF w(1), of k] by (auto simp: nth_list_update shaped_def)
  ultimately show ?case by simp
qed simp

lemma transpose_rows:
  assumes "shaped n m V"
  shows "k \<le> m \<Longrightarrow>
    shaped n m (foldl (\<lambda>V r. foldl (\<lambda>V c. V[c := (V ! c)[r := g r c]]) V [0..<n]) V [0..<k]) \<and>
    (\<forall>c<n. \<forall>q<m. foldl (\<lambda>V r. foldl (\<lambda>V c. V[c := (V ! c)[r := g r c]]) V [0..<n]) V [0..<k] ! c ! q =
       (if q < k then g q c else V ! c ! q))"
proof (induction k)
  case 0
  then show ?case using assms by simp
next
  case (Suc k)
  let ?W = "foldl (\<lambda>V r. foldl (\<lambda>V c. V[c := (V ! c)[r := g r c]]) V [0..<n]) V [0..<k]"
  have w: "shaped n m ?W" "\<forall>c<n. \<forall>q<m. ?W ! c ! q = (if q < k then g q c else V ! c ! q)"
    using Suc by simp_all
  with transpose_row [of k m n ?W n "g k"] Suc.prems show ?case by (auto simp: less_Suc_eq)
qed

theorem svdTransposeD_transposes:
  assumes "0 < dcols D"
  shows "\<exists>N. svdTransposeD D = Some N \<and> wf_dmat N \<and> drows N = dcols D \<and> dcols N = drows D \<and>
    (\<forall>c<dcols D. \<forall>r<drows D. dvalue N ! c ! r = dvalue D ! r ! c)"
proof -
  let ?V = "foldl (\<lambda>V r. foldl (\<lambda>V c. V[c := (V ! c)[r := dvalue D ! r ! c]]) V [0..<dcols D])
    (replicate (dcols D) (replicate (drows D) 0)) [0..<drows D]"
  have "svdTransposeD D = Some \<lparr>drows = dcols D, dcols = drows D, dvalue = ?V\<rparr>"
    using assms by (simp add: svdTransposeD_def svdNewDMat_def)
  moreover have "shaped (dcols D) (drows D) ?V \<and> (\<forall>c<dcols D. \<forall>r<drows D. ?V ! c ! r = dvalue D ! r ! c)"
    using transpose_rows [OF shaped_zero, of "drows D" "drows D" "dcols D" "\<lambda>r c. dvalue D ! r ! c"] by simp
  ultimately show ?thesis by (simp add: wf_dmat_def shaped_def)
qed

section \<open>Transposing a sparse matrix\<close>

definition of_row :: "nat \<Rightarrow> (nat \<times> 'b) list \<Rightarrow> (nat \<times> 'b) list" where
  "of_row r es = filter (\<lambda>e. fst e = r) es"

definition before_row :: "nat \<Rightarrow> (nat \<times> 'b) list \<Rightarrow> nat" where
  "before_row r es = length (filter (\<lambda>e. fst e < r) es)"

lemma before_row_0 [simp]: "before_row 0 es = 0"
  by (simp add: before_row_def)

lemma before_row_Suc: "before_row (Suc r) es = before_row r es + length (of_row r es)"
  unfolding before_row_def of_row_def by (induction es) (auto simp: less_Suc_eq)

lemma before_row_mono: "q \<le> r \<Longrightarrow> before_row q es \<le> before_row r es"
  by (induction r rule: dec_induct) (simp_all add: before_row_Suc)

lemma before_row_all: "\<forall>e\<in>set es. fst e < r \<Longrightarrow> before_row r es = length es"
  by (simp add: before_row_def)

lemma of_row_append: "of_row r (xs @ ys) = of_row r xs @ of_row r ys"
  by (simp add: of_row_def)

text \<open>The block of a row in the new arrays; blocks of different rows do not meet.\<close>

lemma block_end:
  assumes "r < n" and "k < length (of_row r es)" and "\<forall>e\<in>set es. fst e < n"
  shows "before_row r es + k < before_row (Suc r) es" "before_row r es + k < length es"
proof -
  show a: "before_row r es + k < before_row (Suc r) es" using assms(2) by (simp add: before_row_Suc)
  have "before_row (Suc r) es \<le> before_row n es" using assms(1) by (simp add: before_row_mono)
  then show "before_row r es + k < length es" using a before_row_all [OF assms(3)] by simp
qed

lemma blocks_disjoint:
  assumes "q \<noteq> r" and "j < length (of_row q es)" and "k < length (of_row r es)"
  shows "before_row q es + j \<noteq> before_row r es + k"
proof (cases "q < r")
  case True
  then have "before_row (Suc q) es \<le> before_row r es" by (simp add: before_row_mono)
  then show ?thesis using assms(2) by (simp add: before_row_Suc)
next
  case False
  then have "before_row (Suc r) es \<le> before_row q es" using assms(1) by (simp add: before_row_mono)
  then show ?thesis using assms(3) by (simp add: before_row_Suc)
qed

text \<open>Counting, and turning the counts into the starts of the blocks.\<close>

lemma count_rows_counts:
  "\<forall>e\<in>set es. fst e < length p \<Longrightarrow>
    \<exists>p'. count_rows (map fst es) p = Some p' \<and> length p' = length p \<and>
      (\<forall>r<length p. p' ! r = p ! r + length (of_row r es))"
proof (induction es arbitrary: p)
  case (Cons e es)
  let ?p = "p[fst e := p ! fst e + 1]"
  obtain p' where "count_rows (map fst es) ?p = Some p'" "length p' = length p"
    "\<forall>r<length p. p' ! r = ?p ! r + length (of_row r es)"
    using Cons.IH [of ?p] Cons.prems by auto
  then show ?case using Cons.prems by (auto simp: of_row_def nth_list_update)
qed (simp add: of_row_def)

lemma shift_starts_starts:
  "Suc k < length p \<Longrightarrow> p ! Suc k = before_row k es \<Longrightarrow> \<forall>j<k. p ! j = length (of_row j es) \<Longrightarrow>
    length (shift_starts k p) = length p \<and>
    (\<forall>j<length p. shift_starts k p ! j =
       (if 0 < j \<and> j \<le> k then before_row (j - 1) es else p ! j))"
proof (induction k arbitrary: p)
  case (Suc k)
  let ?p = "p[Suc k := p ! (Suc k + 1) - p ! k]"
  have "?p ! Suc k = before_row k es" using Suc.prems by (simp add: before_row_Suc)
  with Suc.IH [of ?p] Suc.prems
  have "length (shift_starts k ?p) = length p"
    "\<forall>j<length p. shift_starts k ?p ! j = (if 0 < j \<and> j \<le> k then before_row (j - 1) es else ?p ! j)"
    by simp_all
  then show ?case using Suc.prems by (auto simp: nth_list_update le_Suc_eq before_row_Suc)
qed simp

lemma row_starts_starts:
  assumes "0 < rows" and "length p = rows + 1" and "\<forall>j<rows. p ! j = length (of_row j es)"
    and "\<forall>e\<in>set es. fst e < rows"
  shows "\<exists>q. row_starts rows (length es) p = Some q \<and> length q = rows + 1 \<and> q ! 0 = 0 \<and>
    (\<forall>r<rows. q ! (r + 1) = before_row r es)"
proof -
  obtain k where k: "rows = Suc k" using assms(1) by (cases rows) auto
  have "before_row rows es = length es" by (rule before_row_all [OF assms(4)])
  then have b: "length es - p ! k = before_row k es" using assms(3) k by (simp add: before_row_Suc)
  let ?p = "p[rows := length es - p ! k]"
  let ?q = "shift_starts k ?p"
  have q: "length ?q = length p" "\<forall>j<length p. ?q ! j = (if 0 < j \<and> j \<le> k then before_row (j - 1) es else ?p ! j)"
    using shift_starts_starts [of k ?p es] b assms(2,3) k by simp_all
  have "?q[0 := 0] ! (r + 1) = before_row r es" if "r < rows" for r
  proof (cases "r = k")
    case True
    then show ?thesis using q(2) assms(2) b k by simp
  next
    case False
    then show ?thesis using q(2) assms(2) k that by simp
  qed
  moreover have "row_starts rows (length es) p = Some (?q[0 := 0])" using k by (simp add: row_starts_def)
  ultimately show ?thesis using q(1) assms(2) by simp
qed

text \<open>What has been moved after the entries \<open>xs\<close> of all the entries \<open>es\<close>.\<close>

definition moved :: "nat \<Rightarrow> (nat \<times> nat \<times> 'v) list \<Rightarrow> (nat \<times> nat \<times> 'v) list \<Rightarrow> 'v smat \<Rightarrow> bool" where
  "moved rows es xs N \<longleftrightarrow> length (pointr N) = rows + 1 \<and> length (rowind N) = length es \<and>
     length (svalue N) = length es \<and> pointr N ! 0 = 0 \<and>
     (\<forall>r<rows. pointr N ! (r + 1) = before_row r es + length (of_row r xs) \<and>
       (\<forall>k<length (of_row r xs). snd (of_row r xs ! k) =
          (rowind N ! (before_row r es + k), svalue N ! (before_row r es + k))))"

definition move_step :: "'v smat \<Rightarrow> nat \<times> nat \<times> 'v \<Rightarrow> 'v smat" where
  "move_step N e = (case e of (r, c, v) \<Rightarrow>
     let j = pointr N ! (r + 1) in
       N\<lparr>pointr := (pointr N)[r + 1 := j + 1], rowind := (rowind N)[j := c], svalue := (svalue N)[j := v]\<rparr>)"

lemma moved_step:
  assumes "moved rows es xs N" and "es = xs @ e # ys" and "\<forall>e\<in>set es. fst e < rows"
  shows "moved rows es (xs @ [e]) (move_step N e)" and "pointr N ! (fst e + 1) < length es"
proof -
  obtain r c v where e: "e = (r, c, v)" by (cases e)
  let ?j = "before_row r es + length (of_row r xs)"
  have r: "r < rows" using assms(2,3) e by simp
  have lr: "length (of_row q xs) \<le> length (of_row q es)" for q using assms(2) by (simp add: of_row_append)
  have lt: "length (of_row r xs) < length (of_row r es)" using assms(2) e by (simp add: of_row_def)
  note m = assms(1) [unfolded moved_def]
  have j: "?j < length es" using block_end(2) [OF r lt assms(3)] .
  then show "pointr N ! (fst e + 1) < length es" using m r e by simp
  have o: "of_row q (xs @ [e]) = (if q = r then of_row q xs @ [e] else of_row q xs)" for q
    using e by (simp add: of_row_def)
  have other: "before_row q es + k \<noteq> ?j" if "q \<noteq> r \<or> k < length (of_row r xs)" "k < length (of_row q xs)" for q k
    using that lt lr [of q] blocks_disjoint [of q r k es "length (of_row r xs)"] by (cases "q = r") auto
  show "moved rows es (xs @ [e]) (move_step N e)"
    unfolding moved_def
  proof (intro conjI allI impI)
    show "length (pointr (move_step N e)) = rows + 1" "length (rowind (move_step N e)) = length es"
      "length (svalue (move_step N e)) = length es" "pointr (move_step N e) ! 0 = 0"
      using m e by (simp_all add: move_step_def Let_def)
  next
    fix q assume q: "q < rows"
    show "pointr (move_step N e) ! (q + 1) = before_row q es + length (of_row q (xs @ [e]))"
      using m q r e o [of q] by (simp add: move_step_def Let_def nth_list_update)
  next
    fix q k assume q: "q < rows" and k: "k < length (of_row q (xs @ [e]))"
    show "snd (of_row q (xs @ [e]) ! k) =
        (rowind (move_step N e) ! (before_row q es + k), svalue (move_step N e) ! (before_row q es + k))"
    proof (cases "q = r \<and> k = length (of_row r xs)")
      case True
      then show ?thesis using m r e j o [of q] by (simp add: move_step_def Let_def)
    next
      case False
      then have k': "k < length (of_row q xs)" using k o [of q] by (auto split: if_splits)
      then have n: "before_row q es + k \<noteq> ?j" using other [of q k] False by (cases "q = r") auto
      have "snd (of_row q xs ! k) = (rowind N ! (before_row q es + k), svalue N ! (before_row q es + k))"
        using m q k' by blast
      moreover have "of_row q (xs @ [e]) ! k = of_row q xs ! k" using o [of q] k' by (cases "q = r") (simp_all add: nth_append)
      ultimately show ?thesis using n m r e by (simp add: move_step_def Let_def)
    qed
  qed
qed

lemma moved_start:
  assumes "length p = rows + 1" and "p ! 0 = 0" and "\<forall>r<rows. p ! (r + 1) = before_row r es"
    and "length (rowind N) = length es" and "length (svalue N) = length es"
  shows "moved rows es [] (N\<lparr>pointr := p\<rparr>)"
  using assms by (simp add: moved_def of_row_def)

lemma move_entry_step:
  assumes "i < length (rowind S)" and "i < length (svalue S)" and "rowind S ! i + 1 < length (pointr N)"
    and "pointr N ! (rowind S ! i + 1) < length (rowind N)" and "length (svalue N) = length (rowind N)"
  shows "move_entry S c N i = Some (move_step N (nz_entry S c i))"
  using assms by (simp add: move_entry_def move_step_def nz_entry_def Let_def)

lemma move_column_moves:
  assumes "wf_smat S" and "c < scols S"
  shows "i + n \<le> svals S \<Longrightarrow> moved (srows S) (entries S) xs N \<Longrightarrow>
    entries S = xs @ map (nz_entry S c) [i..<i + n] @ ys \<Longrightarrow>
    \<exists>N'. move_column S c n i N = Some N' \<and> moved (srows S) (entries S) (xs @ map (nz_entry S c) [i..<i + n]) N' \<and>
      srows N' = srows N \<and> scols N' = scols N \<and> svals N' = svals N"
proof (induction n arbitrary: i xs N)
  case (Suc n)
  have u: "[i..<i + Suc n] = i # [Suc i..<Suc i + n]" by (subst upt_rec) simp
  let ?e = "nz_entry S c i"
  have es: "entries S = xs @ ?e # (map (nz_entry S c) [Suc i..<Suc i + n] @ ys)"
    using Suc.prems(3) unfolding u by simp
  have rng: "\<forall>e\<in>set (entries S). fst e < srows S" using entries_range [OF assms(1)] by fastforce
  have s: "length (rowind S) = svals S" "length (svalue S) = svals S" using assms(1) by (simp_all add: wf_smat_def)
  have m: "length (pointr N) = srows S + 1" "length (rowind N) = svals S" "length (svalue N) = svals S"
    using Suc.prems(2) length_entries [OF assms(1)] by (simp_all add: moved_def)
  note st = moved_step [OF Suc.prems(2) es rng]
  have "rowind S ! i < srows S" using assms(1) s Suc.prems(1) by (simp add: wf_smat_def)
  then have "move_entry S c N i = Some (move_step N ?e)"
    using st(2) s m Suc.prems(1) length_entries [OF assms(1)] by (intro move_entry_step) (simp_all add: nz_entry_def)
  moreover have "\<exists>N'. move_column S c n (Suc i) (move_step N ?e) = Some N' \<and>
      moved (srows S) (entries S) ((xs @ [?e]) @ map (nz_entry S c) [Suc i..<Suc i + n]) N' \<and>
      srows N' = srows (move_step N ?e) \<and> scols N' = scols (move_step N ?e) \<and> svals N' = svals (move_step N ?e)"
    using Suc.prems(1) es by (intro Suc.IH [OF _ st(1)]) (simp_all del: upt_Suc)
  ultimately show ?case unfolding u by (simp add: move_step_def Let_def split_beta del: upt_Suc)
qed simp

lemma entries_split:
  "m < scols S \<Longrightarrow> entries S = concat (map (col_entries S) [0..<m]) @ col_entries S m @
     concat (map (col_entries S) [Suc m..< scols S])"
proof -
  assume m: "m < scols S"
  have "[0..< scols S] = [0..<m] @ m # [Suc m..< scols S]"
    using upt_add_eq_append [of 0 m "scols S - m"] m by (simp add: upt_conv_Cons)
  then show ?thesis by (simp add: entries_def)
qed

lemma move_columns_moves:
  assumes "wf_smat S"
  shows "c + m = scols S \<Longrightarrow> moved (srows S) (entries S) (concat (map (col_entries S) [0..<c])) N \<Longrightarrow>
    \<exists>N'. move_columns S m c (pointr S ! c) N = Some N' \<and> moved (srows S) (entries S) (entries S) N' \<and>
      srows N' = srows N \<and> scols N' = scols N \<and> svals N' = svals N"
proof (induction m arbitrary: c N)
  case 0
  then show ?case by (simp add: entries_def)
next
  case (Suc m)
  let ?a = "pointr S ! c" and ?b = "pointr S ! (c + 1)"
  let ?xs = "concat (map (col_entries S) [0..<c])"
  have c: "c < scols S" using Suc.prems(1) by simp
  have p: "?a \<le> ?b" "?b \<le> svals S"
    using c wf_pointr_le [OF assms, of c "c + 1"] wf_pointr_vals [OF assms, of "c + 1"] by simp_all
  have n: "?a + (?b - ?a) = ?b" using p by simp
  have es: "entries S = ?xs @ map (nz_entry S c) [?a..<?a + (?b - ?a)] @ concat (map (col_entries S) [Suc c..< scols S])"
    using entries_split [OF c] unfolding n by (simp add: col_entries_def)
  have "?a + (?b - ?a) \<le> svals S" using p by simp
  from move_column_moves [OF assms c this Suc.prems(2) es] obtain N1 where N1:
    "move_column S c (?b - ?a) ?a N = Some N1" "moved (srows S) (entries S) (concat (map (col_entries S) [0..<Suc c])) N1"
    "srows N1 = srows N" "scols N1 = scols N" "svals N1 = svals N"
    unfolding n by (auto simp: col_entries_def)
  from Suc.IH [of "Suc c" N1] N1 Suc.prems(1) obtain N' where
    "move_columns S m (Suc c) ?b N1 = Some N'" "moved (srows S) (entries S) (entries S) N'"
    "srows N' = srows N" "scols N' = scols N" "svals N' = svals N"
    by auto
  moreover have "length (pointr S) = scols S + 1" using assms by (simp add: wf_smat_def)
  ultimately show ?case using N1(1) c p(1) by (simp add: max_def)
qed

lemma in_a_block:
  "j < before_row n es \<Longrightarrow> \<exists>r<n. \<exists>k<length (of_row r es). j = before_row r es + k"
proof (induction n)
  case (Suc n)
  show ?case
  proof (cases "j < before_row n es")
    case True
    with Suc.IH show ?thesis using less_Suc_eq by blast
  next
    case False
    then have "j - before_row n es < length (of_row n es)" using Suc.prems by (simp add: before_row_Suc)
    moreover have "j = before_row n es + (j - before_row n es)" using False by simp
    ultimately show ?thesis by blast
  qed
qed simp

definition swap_entry :: "nat \<times> nat \<times> 'v \<Rightarrow> nat \<times> nat \<times> 'v" where
  "swap_entry e = (case e of (r, c, v) \<Rightarrow> (c, r, v))"

lemma moved_all:
  assumes "moved rows es es N" and "\<forall>(r, c, v)\<in>set es. r < rows \<and> c < cols"
    and "srows N = cols" and "scols N = rows" and "svals N = length es"
  shows "wf_smat N \<and> (\<forall>r<rows. col_entries N r = map swap_entry (of_row r es))"
proof -
  have rng: "\<forall>e\<in>set es. fst e < rows" using assms(2) by fastforce
  have m: "length (pointr N) = rows + 1" "length (rowind N) = length es" "length (svalue N) = length es"
    "pointr N ! 0 = 0" using assms(1) by (simp_all add: moved_def)
  have blk: "snd (of_row r es ! k) = (rowind N ! (before_row r es + k), svalue N ! (before_row r es + k))"
    if "r < rows" "k < length (of_row r es)" for r k using assms(1) that by (simp add: moved_def)
  have p: "pointr N ! r = before_row r es" if "r \<le> rows" for r
    using assms(1) that by (cases r) (simp_all add: moved_def before_row_Suc)
  have el: "e \<in> set es \<and> fst e = r" if "e \<in> set (of_row r es)" for e r using that by (simp add: of_row_def)
  have "sorted (pointr N)" using m(1) p by (auto simp: sorted_iff_nth_mono intro: before_row_mono)
  moreover have "pointr N ! rows = length es" using p [of rows] before_row_all [OF rng] by simp
  moreover have "\<forall>c\<in>set (rowind N). c < cols"
  proof
    fix c assume "c \<in> set (rowind N)"
    then obtain j where j: "j < length es" "c = rowind N ! j" using m(2) by (auto simp: in_set_conv_nth)
    then have "j < before_row rows es" using before_row_all [OF rng] by simp
    then obtain r k where "r < rows" "k < length (of_row r es)" "j = before_row r es + k" using in_a_block by blast
    moreover from this have "of_row r es ! k \<in> set es" using el [of "of_row r es ! k" r] by simp
    ultimately show "c < cols" using blk [of r k] j(2) assms(2) by fastforce
  qed
  moreover have "col_entries N r = map swap_entry (of_row r es)" if r: "r < rows" for r
  proof (rule nth_equalityI)
    have pr: "pointr N ! r = before_row r es" "pointr N ! (r + 1) = before_row r es + length (of_row r es)"
      using p [of r] p [of "r + 1"] r by (simp_all add: before_row_Suc)
    then show "length (col_entries N r) = length (map swap_entry (of_row r es))" by (simp add: col_entries_def)
    fix k assume "k < length (col_entries N r)"
    then have k: "k < length (of_row r es)" using pr by (simp add: col_entries_def)
    then have "fst (of_row r es ! k) = r" using el [of "of_row r es ! k" r] by simp
    then show "col_entries N r ! k = map swap_entry (of_row r es) ! k"
      using blk [OF r k] pr k by (cases "of_row r es ! k") (simp add: col_entries_def nz_entry_def swap_entry_def)
  qed
  ultimately show ?thesis using m assms(3-5) by (simp add: wf_smat_def)
qed

lemma svdTransposeS_entries:
  assumes "wf_smat S" and "0 < srows S"
  shows "\<exists>N. svdTransposeS h S = Some N \<and> wf_smat N \<and> srows N = scols S \<and> scols N = srows S \<and> svals N = svals S \<and>
    (\<forall>r< scols N. col_entries N r = map swap_entry (of_row r (entries S)))"
proof -
  let ?N = "svdNewSMat h (scols S) (srows S) (svals S)"
  have s: "length (rowind S) = svals S" "length (entries S) = svals S"
    using assms(1) length_entries by (simp_all add: wf_smat_def)
  have rng: "\<forall>e\<in>set (entries S). fst e < srows S" using entries_range [OF assms(1)] by fastforce
  then have "\<forall>e\<in>set (entries S). fst e < length (pointr ?N)" by (auto simp: svdNewSMat_def)
  from count_rows_counts [OF this] obtain p1 where p1: "count_rows (rowind S) (pointr ?N) = Some p1"
    "length p1 = srows S + 1" "\<forall>r< srows S. p1 ! r = length (of_row r (entries S))"
    using map_rows_entries(1) [OF assms(1)] by (auto simp: svdNewSMat_def nth_append simp del: replicate_Suc)
  from row_starts_starts [OF assms(2) p1(2,3) rng] obtain p2 where p2: "row_starts (srows S) (svals S) p1 = Some p2"
    "length p2 = srows S + 1" "p2 ! 0 = 0" "\<forall>r< srows S. p2 ! (r + 1) = before_row r (entries S)"
    using s(2) by auto
  have "moved (srows S) (entries S) [] (?N\<lparr>pointr := p2\<rparr>)"
    using p2 s(2) by (intro moved_start) (simp_all add: svdNewSMat_def)
  moreover have "pointr S ! 0 = 0" using assms(1) by (simp add: wf_smat_def)
  ultimately obtain N where N: "move_columns S (scols S) 0 0 (?N\<lparr>pointr := p2\<rparr>) = Some N"
    "moved (srows S) (entries S) (entries S) N" "srows N = scols S" "scols N = srows S" "svals N = svals S"
    using move_columns_moves [OF assms(1), of 0 "scols S" "?N\<lparr>pointr := p2\<rparr>"] by (auto simp: svdNewSMat_def)
  have "wf_smat N \<and> (\<forall>r< srows S. col_entries N r = map swap_entry (of_row r (entries S)))"
    using moved_all [OF N(2) entries_range [OF assms(1)] N(3,4)] N(5) s(2) by simp
  moreover have "svdTransposeS h S = Some N" using p1(1) p2(1) N(1) s(1) by (simp add: svdTransposeS_def Let_def)
  ultimately show ?thesis using N by auto
qed

section \<open>Transposition is what it is for dense matrices\<close>

lemma dmat_eqI:
  assumes "wf_dmat D" and "wf_dmat E" and "drows D = drows E" and "dcols D = dcols E"
    and "\<forall>r<drows D. \<forall>c<dcols D. dvalue D ! r ! c = dvalue E ! r ! c"
  shows "D = (E :: 'v dmat)"
proof -
  have "dvalue D ! r = dvalue E ! r" if "r < drows D" for r
    using assms that by (intro nth_equalityI) (auto simp: wf_dmat_def)
  then have "dvalue D = dvalue E" using assms by (intro nth_equalityI) (auto simp: wf_dmat_def)
  then show ?thesis using assms(3,4) by simp
qed

lemma stored_other: "\<forall>e\<in>set es. fst (snd e) \<noteq> c \<Longrightarrow> stored es r c d = d"
  by (induction es r c d rule: stored.induct) auto

lemma stored_columns:
  assumes "\<And>q e. e \<in> set (f q) \<Longrightarrow> fst (snd e) = q"
  shows "c < n \<Longrightarrow> stored (concat (map f [0..<n])) r c d = stored (f c) r c d"
proof (induction n)
  case (Suc n)
  show ?case
  proof (cases "c = n")
    case True
    have "stored (concat (map f [0..<n])) r c d = d"
      using assms True by (intro stored_other) auto
    then show ?thesis using True by (simp add: stored_append)
  next
    case False
    then have "stored (f n) r c x = x" for x using assms by (intro stored_other) auto
    then show ?thesis using Suc False by (simp add: stored_append)
  qed
qed simp

lemma stored_swap: "stored (map swap_entry es) c r d = stored es r c d"
  by (induction es r c d rule: stored.induct) (auto simp: swap_entry_def)

lemma stored_of_row: "stored (of_row r es) r c d = stored es r c d"
  unfolding of_row_def by (induction es r c d rule: stored.induct) auto

lemma entries_transposed:
  assumes "\<forall>r< scols N. col_entries N r = map swap_entry (of_row r (entries S))"
  shows "entries N = concat (map (\<lambda>r. map swap_entry (of_row r (entries S))) [0..< scols N])"
  unfolding entries_def [of N] using assms by (intro arg_cong [of _ _ concat] map_cong) auto

lemma stored_transposed:
  assumes "entries N = concat (map (\<lambda>r. map swap_entry (of_row r (entries S))) [0..<n])" and "r < n"
  shows "stored (entries N) c r d = stored (entries S) r c d"
proof -
  have "fst (snd e) = q" if "e \<in> set (map swap_entry (of_row q (entries S)))" for q e
    using that by (auto simp: of_row_def swap_entry_def)
  from stored_columns [of "\<lambda>r. map swap_entry (of_row r (entries S))", OF this assms(2)] assms(1)
  show ?thesis by (simp add: stored_swap stored_of_row)
qed

lemma transpose_agrees:
  assumes "wf_smat S" and "0 < srows S" and "0 < scols S"
  shows "\<exists>N D T. svdTransposeS h S = Some N \<and> wf_smat N \<and> svdConvertStoD S = Some D \<and> wf_dmat D \<and>
    svdTransposeD D = Some T \<and> svdConvertStoD N = Some T"
proof -
  obtain N where N: "svdTransposeS h S = Some N" "wf_smat N" "srows N = scols S" "scols N = srows S"
    "\<forall>r< scols N. col_entries N r = map swap_entry (of_row r (entries S))"
    using svdTransposeS_entries [OF assms(1,2)] by blast
  obtain D where D: "svdConvertStoD S = Some D" "wf_dmat D" "drows D = srows S" "dcols D = scols S"
    "\<forall>r< srows S. \<forall>c< scols S. dvalue D ! r ! c = stored (entries S) r c 0"
    using svdConvertStoD_entries [OF assms(1,2)] by blast
  obtain E where E: "svdConvertStoD N = Some E" "wf_dmat E" "drows E = srows N" "dcols E = scols N"
    "\<forall>r< srows N. \<forall>c< scols N. dvalue E ! r ! c = stored (entries N) r c 0"
    using svdConvertStoD_entries [OF N(2)] N(3) assms(3) by auto
  obtain T where T: "svdTransposeD D = Some T" "wf_dmat T" "drows T = dcols D" "dcols T = drows D"
    "\<forall>c<dcols D. \<forall>r<drows D. dvalue T ! c ! r = dvalue D ! r ! c"
    using svdTransposeD_transposes [of D] D(4) assms(3) by auto
  have "E = T"
  proof (rule dmat_eqI [OF E(2) T(2)])
    show "\<forall>r<drows E. \<forall>c<dcols E. dvalue E ! r ! c = dvalue T ! r ! c"
      using E T D N(3,4) stored_transposed [OF entries_transposed [OF N(5)]] by simp
  qed (use E T D N in simp_all)
  with N D E T show ?thesis by blast
qed

section \<open>Transposing twice\<close>

lemma filter_less_Suc:
  assumes "sorted (map fst xs)"
  shows "filter (\<lambda>e. fst e < Suc n) xs = filter (\<lambda>e. fst e < n) xs @ of_row n xs"
  using assms
proof (induction xs)
  case (Cons x xs)
  show ?case
  proof (cases "fst x < n")
    case False
    then have "filter (\<lambda>e. fst e < n) (x # xs) = []" using Cons.prems by (auto simp: filter_empty_conv)
    moreover have "filter (\<lambda>e. fst e < n) xs = []" using calculation False by simp
    ultimately show ?thesis using Cons False by (auto simp: of_row_def)
  qed (use Cons in \<open>auto simp: of_row_def\<close>)
qed (simp add: of_row_def)

lemma concat_of_rows:
  assumes "sorted (map fst xs)"
  shows "concat (map (\<lambda>r. of_row r xs) [0..<n]) = filter (\<lambda>e. fst e < n) xs"
  using filter_less_Suc [OF assms] by (induction n) simp_all

lemma swap_swap [simp]: "swap_entry (swap_entry e) = e"
  by (simp add: swap_entry_def split: prod.splits)

lemma of_row_concat: "of_row r (concat xss) = concat (map (of_row r) xss)"
  by (simp add: of_row_def [abs_def] filter_concat)

lemma of_row_entries:
  assumes "c < scols S"
  shows "filter (\<lambda>e. fst (snd e) = c) (entries S) = col_entries S c"
proof -
  have "filter (\<lambda>e. fst (snd e) = c) (concat (map (col_entries S) [0..<n])) = (if c < n then col_entries S c else [])" for n
  proof (induction n)
    case (Suc n)
    have "filter (\<lambda>e. fst (snd e) = c) (col_entries S n) = (if c = n then col_entries S n else [])"
      by (auto simp: col_entries_def nz_entry_def filter_empty_conv comp_def)
    with Suc show ?case by auto
  qed simp
  with assms show ?thesis by (simp add: entries_def)
qed

lemma col_of_transposed:
  assumes "entries N = concat (map (\<lambda>r. map swap_entry (of_row r (entries S))) [0..<n])" and "c < scols S"
  shows "map swap_entry (of_row c (entries N)) = concat (map (\<lambda>r. of_row r (col_entries S c)) [0..<n])"
proof -
  have "map swap_entry (of_row c (map swap_entry (of_row r (entries S)))) = of_row r (col_entries S c)" for r
  proof -
    have "map swap_entry (of_row c (map swap_entry es)) = filter (\<lambda>e. fst (snd e) = c) es" for es :: "(nat \<times> nat \<times> 'a) list"
      by (induction es) (auto simp: of_row_def swap_entry_def)
    then show ?thesis unfolding of_row_entries [OF assms(2), symmetric] by (simp add: of_row_def filter_filter conj_commute)
  qed
  then show ?thesis unfolding assms(1) by (simp add: of_row_concat map_concat comp_def)
qed

lemma smat_eqI:
  assumes "wf_smat S" and "wf_smat T" and "srows S = srows T" and "scols S = scols T"
    and "\<forall>c< scols S. col_entries S c = col_entries T c"
  shows "S = (T :: 'v smat)"
proof -
  have c: "concat (map (col_entries S) [0..<m]) = concat (map (col_entries T) [0..<m])" if "m \<le> scols S" for m
    using that assms(5) by (intro arg_cong [of _ _ concat] map_cong) auto
  have "pointr S ! m = pointr T ! m" if "m \<le> scols S" for m
    using entries_upto [OF assms(1) that] entries_upto [OF assms(2), of m] that assms(4) c [OF that] by simp
  then have p: "pointr S = pointr T"
    using assms(1,2,4) by (intro nth_equalityI) (auto simp: wf_smat_def)
  have "entries S = entries T" using c [of "scols S"] assms(4) by (simp add: entries_def)
  then have "rowind S = rowind T" "svalue S = svalue T"
    using map_rows_entries [OF assms(1)] map_rows_entries [OF assms(2)] by simp_all
  moreover have "svals S = svals T" using assms(1,2,4) p by (simp add: wf_smat_def)
  ultimately show ?thesis using p assms(3,4) by simp
qed

definition sorted_columns :: "'v smat \<Rightarrow> bool" where
  "sorted_columns S \<longleftrightarrow> (\<forall>c< scols S. sorted (map fst (col_entries S c)))"

lemma transpose_twice:
  assumes "wf_smat S" and "sorted_columns S" and "0 < srows S" and "0 < scols S"
  shows "\<exists>N. svdTransposeS h S = Some N \<and> svdTransposeS h' N = Some (S :: 'v smat)"
proof -
  obtain N where N: "svdTransposeS h S = Some N" "wf_smat N" "srows N = scols S" "scols N = srows S"
    "\<forall>r< scols N. col_entries N r = map swap_entry (of_row r (entries S))"
    using svdTransposeS_entries [OF assms(1,3)] by blast
  obtain U where U: "svdTransposeS h' N = Some U" "wf_smat U" "srows U = scols N" "scols U = srows N"
    "\<forall>c< scols U. col_entries U c = map swap_entry (of_row c (entries N))"
    using svdTransposeS_entries [OF N(2), of h'] N(3) assms(4) by auto
  have "col_entries U c = col_entries S c" if c: "c < scols U" for c
  proof -
    have c': "c < scols S" using c U(4) N(3) by simp
    have "col_entries U c = concat (map (\<lambda>r. of_row r (col_entries S c)) [0..< srows S])"
      using U(5) c col_of_transposed [OF entries_transposed [OF N(5)] c'] N(4) by simp
    also have "\<dots> = filter (\<lambda>e. fst e < srows S) (col_entries S c)"
      using assms(2) c' by (simp add: concat_of_rows sorted_columns_def)
    also have "\<dots> = col_entries S c"
      using entries_range [OF assms(1)] c' by (intro filter_True) (fastforce simp: entries_def)
    finally show ?thesis .
  qed
  then have "U = S" using U N by (intro smat_eqI [OF U(2) assms(1)]) simp_all
  with N(1) U(1) show ?thesis by blast
qed

section \<open>From dense to sparse and back\<close>

definition dcol :: "('v :: zero) dmat \<Rightarrow> nat \<Rightarrow> nat \<Rightarrow> (nat \<times> nat \<times> 'v) list" where
  "dcol D j m = map (\<lambda>i. (i, j, dvalue D ! i ! j)) (filter (\<lambda>i. dvalue D ! i ! j \<noteq> 0) [0..<m])"

definition dcols_upto :: "('v :: zero) dmat \<Rightarrow> nat \<Rightarrow> (nat \<times> nat \<times> 'v) list" where
  "dcols_upto D m = concat (map (\<lambda>j. dcol D j (drows D)) [0..<m])"

lemma length_filter_upt: "length (filter P [0..<n]) = (\<Sum>i<n. if P i then 1 else 0)"
  by (induction n) auto

lemma count_row_sum: "count_row row cols n = n + (\<Sum>j<cols. if row ! j \<noteq> 0 then 1 else 0)"
  unfolding count_row_def by (induction cols arbitrary: n) auto

lemma count_nonzero_columns: "count_nonzero D = length (dcols_upto D (dcols D))"
proof -
  have "foldl (\<lambda>n i. count_row (dvalue D ! i) (dcols D) n) 0 [0..<m] =
      (\<Sum>i<m. \<Sum>j<dcols D. if dvalue D ! i ! j \<noteq> 0 then 1 else 0)" for m
    by (induction m) (simp_all add: count_row_sum)
  then have "count_nonzero D = (\<Sum>i<drows D. \<Sum>j<dcols D. if dvalue D ! i ! j \<noteq> 0 then 1 else 0)"
    by (simp add: count_nonzero_def)
  also have "\<dots> = (\<Sum>j<dcols D. \<Sum>i<drows D. if dvalue D ! i ! j \<noteq> 0 then 1 else 0)"
    by (rule sum.swap)
  also have "\<dots> = (\<Sum>j<dcols D. length (dcol D j (drows D)))"
    by (simp add: dcol_def length_filter_upt)
  also have "\<dots> = length (dcols_upto D (dcols D))"
  proof -
    have "(\<Sum>j<m. length (dcol D j (drows D))) = length (dcols_upto D m)" for m
      by (induction m) (simp_all add: dcols_upto_def)
    then show ?thesis .
  qed
  finally show ?thesis .
qed

lemma dcols_upto_mono: "m \<le> n \<Longrightarrow> length (dcols_upto D m) \<le> length (dcols_upto D n)"
  by (induction n rule: dec_induct) (simp_all add: dcols_upto_def)

lemma dcol_mono: "k \<le> m \<Longrightarrow> length (dcol D j k) \<le> length (dcol D j m)"
  by (induction m rule: dec_induct) (simp_all add: dcol_def)

text \<open>The entries \<open>es\<close> have been stored.\<close>

definition filled :: "nat \<Rightarrow> nat \<Rightarrow> nat \<Rightarrow> (nat \<times> nat \<times> 'v) list \<Rightarrow> 'v smat \<times> nat \<Rightarrow> bool" where
  "filled rows cols vals es Sn \<longleftrightarrow> (let (S, n) = Sn in
     srows S = rows \<and> scols S = cols \<and> svals S = vals \<and> length (pointr S) = cols + 1 \<and>
     length (rowind S) = vals \<and> length (svalue S) = vals \<and> n = length es \<and>
     take n (rowind S) = map fst es \<and> take n (svalue S) = map (snd \<circ> snd) es)"

lemma take_Suc_put: "n < length xs \<Longrightarrow> take (Suc n) (xs[n := x]) = take n xs @ [x]"
  by (rule take_Suc_update)

lemma dtos_cells:
  assumes "filled rows cols vals es (S, n)"
  shows "length es + length (dcol D j m) \<le> vals \<Longrightarrow>
    filled rows cols vals (es @ dcol D j m) (foldl (dtos_cell D j) (S, n) [0..<m]) \<and>
    pointr (fst (foldl (dtos_cell D j) (S, n) [0..<m])) = pointr S"
proof (induction m)
  case 0
  then show ?case using assms by (simp add: dcol_def)
next
  case (Suc m)
  obtain T k where t: "foldl (dtos_cell D j) (S, n) [0..<m] = (T, k)" by fastforce
  have l: "length es + length (dcol D j m) \<le> vals" using Suc.prems dcol_mono [of m "Suc m" D j] by simp
  from Suc.IH [OF l] t have f: "filled rows cols vals (es @ dcol D j m) (T, k)" "pointr T = pointr S" by simp_all
  have st: "foldl (dtos_cell D j) (S, n) [0..<Suc m] = dtos_cell D j (T, k) m" using t by simp
  have "filled rows cols vals (es @ dcol D j (Suc m)) (dtos_cell D j (T, k) m) \<and>
      pointr (fst (dtos_cell D j (T, k) m)) = pointr S"
  proof (cases "dvalue D ! m ! j \<noteq> 0")
    case True
    then have d: "dcol D j (Suc m) = dcol D j m @ [(m, j, dvalue D ! m ! j)]" by (simp add: dcol_def)
    then have "k < vals" using f(1) Suc.prems by (simp add: filled_def)
    with f True d show ?thesis by (auto simp: dtos_cell_def filled_def take_Suc_put)
  next
    case False
    then have "dcol D j (Suc m) = dcol D j m" by (simp add: dcol_def)
    with f False show ?thesis by (simp add: dtos_cell_def)
  qed
  then show ?case unfolding st .
qed

lemma dtos_cols:
  assumes "filled rows cols (length (dcols_upto D cols)) [] (S, 0)" and "rows = drows D"
  shows "m \<le> cols \<Longrightarrow>
    filled rows cols (length (dcols_upto D cols)) (dcols_upto D m) (foldl (dtos_col D) (S, 0) [0..<m]) \<and>
    (\<forall>k<m. pointr (fst (foldl (dtos_col D) (S, 0) [0..<m])) ! k = length (dcols_upto D k))"
proof (induction m)
  case 0
  then show ?case using assms by (simp add: dcols_upto_def)
next
  case (Suc m)
  let ?V = "length (dcols_upto D cols)"
  obtain T k where t: "foldl (dtos_col D) (S, 0) [0..<m] = (T, k)" by fastforce
  with Suc have f: "filled rows cols ?V (dcols_upto D m) (T, k)" "\<forall>i<m. pointr T ! i = length (dcols_upto D i)" by simp_all
  have d: "dcols_upto D (Suc m) = dcols_upto D m @ dcol D m (drows D)" by (simp add: dcols_upto_def)
  have l: "length (dcols_upto D m) + length (dcol D m (drows D)) \<le> ?V"
    using dcols_upto_mono [OF Suc.prems, of D] d by simp
  let ?T = "T\<lparr>pointr := (pointr T)[m := k]\<rparr>"
  have "filled rows cols ?V (dcols_upto D m) (?T, k)" using f(1) by (auto simp: filled_def)
  from dtos_cells [OF this l] have
    "filled rows cols ?V (dcols_upto D (Suc m)) (foldl (dtos_cell D m) (?T, k) [0..<drows D])"
    "pointr (fst (foldl (dtos_cell D m) (?T, k) [0..<drows D])) = (pointr T)[m := k]"
    unfolding d by simp_all
  moreover have "k = length (dcols_upto D m)" "m < length (pointr T)" using f(1) Suc.prems by (simp_all add: filled_def)
  moreover have "foldl (dtos_col D) (S, 0) [0..<Suc m] = foldl (dtos_cell D m) (?T, k) [0..<drows D]"
    using t by (simp add: dtos_col_def)
  ultimately show ?case using f(2) by (simp del: upt_Suc) (auto simp: nth_list_update less_Suc_eq)
qed

lemma svdConvertDtoS_entries:
  shows "wf_smat (svdConvertDtoS h D)" "srows (svdConvertDtoS h D) = drows D" "scols (svdConvertDtoS h D) = dcols D"
    and "c < dcols D \<Longrightarrow> col_entries (svdConvertDtoS h D) c = dcol D c (drows D)"
proof -
  let ?V = "length (dcols_upto D (dcols D))"
  obtain T k where t: "foldl (dtos_col D) (svdNewSMat h (drows D) (dcols D) ?V, 0) [0..<dcols D] = (T, k)" by fastforce
  have "filled (drows D) (dcols D) ?V [] (svdNewSMat h (drows D) (dcols D) ?V, 0)"
    by (simp add: filled_def svdNewSMat_def)
  from dtos_cols [OF this refl order_refl] t
  have f: "filled (drows D) (dcols D) ?V (dcols_upto D (dcols D)) (T, k)"
    "\<forall>i<dcols D. pointr T ! i = length (dcols_upto D i)" by simp_all
  let ?S = "T\<lparr>pointr := (pointr T)[scols T := svals T]\<rparr>"
  have S: "svdConvertDtoS h D = ?S" using t by (simp add: svdConvertDtoS_def count_nonzero_columns)
  have p: "pointr ?S ! i = length (dcols_upto D i)" if "i \<le> dcols D" for i
    using f that by (cases "i = dcols D") (simp_all add: filled_def)
  have s: "length (pointr ?S) = dcols D + 1" "rowind ?S = map fst (dcols_upto D (dcols D))"
    "svalue ?S = map (snd \<circ> snd) (dcols_upto D (dcols D))" "srows ?S = drows D" "scols ?S = dcols D" "svals ?S = ?V"
    using f(1) by (auto simp: filled_def)
  have "sorted (pointr ?S)" using p s(1) by (auto simp: sorted_iff_nth_mono intro: dcols_upto_mono)
  moreover have "\<forall>r\<in>set (rowind ?S). r < drows D" unfolding s(2) by (auto simp: dcols_upto_def dcol_def)
  moreover have "pointr ?S ! 0 = 0" using p [of 0] by (simp add: dcols_upto_def)
  moreover have "pointr ?S ! dcols D = ?V" using p by simp
  ultimately show "wf_smat (svdConvertDtoS h D)" unfolding S wf_smat_def s by simp
  show "srows (svdConvertDtoS h D) = drows D" "scols (svdConvertDtoS h D) = dcols D" unfolding S using s by simp_all
  show "col_entries (svdConvertDtoS h D) c = dcol D c (drows D)" if c: "c < dcols D"
  proof -
    have d: "dcols_upto D (dcols D) = dcols_upto D c @ dcol D c (drows D) @
        concat (map (\<lambda>j. dcol D j (drows D)) [Suc c..<dcols D])"
    proof -
      have "[0..<dcols D] = [0..<c] @ c # [Suc c..<dcols D]"
        using upt_add_eq_append [of 0 c "dcols D - c"] c by (simp add: upt_conv_Cons)
      then show ?thesis by (simp add: dcols_upto_def)
    qed
    have n: "pointr ?S ! (c + 1) = length (dcols_upto D c) + length (dcol D c (drows D))"
      using p [of "c + 1"] c by (simp add: dcols_upto_def)
    have "col_entries ?S c ! i = dcol D c (drows D) ! i" if "i < length (dcol D c (drows D))" for i
    proof -
      have "rowind ?S ! (length (dcols_upto D c) + i) = fst (dcol D c (drows D) ! i)"
        "svalue ?S ! (length (dcols_upto D c) + i) = snd (snd (dcol D c (drows D) ! i))"
        unfolding s(2,3) d using that by (simp_all add: nth_append)
      moreover have "fst (snd (dcol D c (drows D) ! i)) = c"
        using that nth_mem [OF that] by (auto simp: dcol_def)
      ultimately show ?thesis using p [of c] n c that
        by (cases "dcol D c (drows D) ! i") (simp add: col_entries_def nz_entry_def)
    qed
    moreover have "length (col_entries ?S c) = length (dcol D c (drows D))"
      using p [of c] n c by (simp add: col_entries_def)
    ultimately show ?thesis unfolding S by (intro nth_equalityI) simp_all
  qed
qed

lemma stored_dcol: "stored (dcol D c n) r c 0 = (if r < n then dvalue D ! r ! c else 0)"
proof (induction n)
  case (Suc n)
  have d: "dcol D c (Suc n) = dcol D c n @ (if dvalue D ! n ! c \<noteq> 0 then [(n, c, dvalue D ! n ! c)] else [])"
    by (simp add: dcol_def)
  show ?case unfolding d using Suc by (auto simp: stored_append less_Suc_eq)
qed (simp add: dcol_def)

lemma dtos_sorted: "sorted_columns (svdConvertDtoS h D)"
proof -
  have "sorted (map fst (dcol D c n))" for c n
    by (induction n) (auto simp: dcol_def sorted_append)
  then show ?thesis using svdConvertDtoS_entries(3) [of h D] svdConvertDtoS_entries(4) [of _ D h]
    by (simp add: sorted_columns_def)
qed

lemma dense_sparse_dense:
  assumes "wf_dmat D" and "0 < drows D"
  shows "svdConvertStoD (svdConvertDtoS h D) = Some D"
proof -
  let ?S = "svdConvertDtoS h D"
  note e = svdConvertDtoS_entries(1-3) [of h D] svdConvertDtoS_entries(4) [of _ D h]
  obtain E where E: "svdConvertStoD ?S = Some E" "wf_dmat E" "drows E = drows D" "dcols E = dcols D"
    "\<forall>r<drows D. \<forall>c<dcols D. dvalue E ! r ! c = stored (entries ?S) r c 0"
    using svdConvertStoD_entries [OF e(1)] e(2,3) assms(2) by auto
  have "entries ?S = concat (map (\<lambda>c. dcol D c (drows D)) [0..<dcols D])"
    unfolding entries_def e(3) using e(4) by (intro arg_cong [of _ _ concat] map_cong) auto
  moreover have "fst (snd x) = q" if "x \<in> set (dcol D q (drows D))" for q x using that by (auto simp: dcol_def)
  ultimately have "stored (entries ?S) r c 0 = dvalue D ! r ! c" if "r < drows D" "c < dcols D" for r c
    using stored_columns [of "\<lambda>c. dcol D c (drows D)", OF _ that(2), of r 0] that(1) by (simp add: stored_dcol)
  then have "E = D" using E by (intro dmat_eqI [OF E(2) assms(1)]) simp_all
  with E(1) show ?thesis by simp
qed

section \<open>Properties\<close>

text \<open>
  C9: Transposing a sparse matrix by counting agrees with transposing the dense matrix it stands
  for: for every well-formed sparse matrix with a row and a column, no step reads or writes
  outside its arrays, the result is well-formed, and its dense form is the transpose of the dense
  form of the argument. What fresh memory holds does not matter.
\<close>

theorem svd_transpose_agrees:
  assumes "wf_smat S" and "0 < srows S" and "0 < scols S"
  shows "\<exists>N D T. svdTransposeS h S = Some N \<and> wf_smat N \<and> svdConvertStoD S = Some D \<and> wf_dmat D \<and>
    svdTransposeD D = Some T \<and> svdConvertStoD N = Some T"
  by (rule transpose_agrees [OF assms])

definition sample_heap :: "int heap" where
  "sample_heap = \<lparr>wild_row = (\<lambda>i. 77), wild_value = (\<lambda>i. 99)\<rparr>"

text \<open>The rows (5, 0, 0) and (7, 0, 8).\<close>

definition sample_smat :: "int smat" where
  "sample_smat = \<lparr>srows = 2, scols = 3, svals = 3, pointr = [0, 2, 2, 3], rowind = [0, 1, 1], svalue = [5, 7, 8]\<rparr>"

lemma sample_wf: "wf_smat sample_smat" "0 < srows sample_smat" "0 < scols sample_smat" "sorted_columns sample_smat"
proof -
  show "wf_smat sample_smat" by (auto simp: wf_smat_def sample_smat_def)
  have "[0..<3] = [0, 1, 2 :: nat]" by code_simp
  then show "sorted_columns sample_smat"
    by (auto simp: sorted_columns_def sample_smat_def col_entries_def nz_entry_def numeral_3_eq_3 numeral_2_eq_2 less_Suc_eq)
qed (simp_all add: sample_smat_def)

lemma sample_dense: "svdConvertStoD sample_smat = Some \<lparr>drows = 2, dcols = 3, dvalue = [[5, 0, 0], [7, 0, 8]]\<rparr>"
  by code_simp

theorem svd_transpose_agrees_witness:
  "\<exists>N T. svdTransposeS sample_heap sample_smat = Some N \<and>
    svdTransposeD \<lparr>drows = 2, dcols = 3, dvalue = [[5, 0, 0], [7, 0, 8 :: int]]\<rparr> = Some T \<and> svdConvertStoD N = Some T"
  using svd_transpose_agrees [OF sample_wf(1-3), of sample_heap] unfolding sample_dense by blast

text \<open>
  Transposing a sparse matrix twice gives the same matrix back, down to the order in which its
  entries are stored, when the rows of every column are in increasing order.
\<close>

theorem svd_transpose_twice:
  assumes "wf_smat S" and "sorted_columns S" and "0 < srows S" and "0 < scols S"
  shows "\<exists>N. svdTransposeS h S = Some N \<and> svdTransposeS h' N = Some S"
  by (rule transpose_twice [OF assms])

text \<open>
  A dense matrix with a row that is converted to a sparse one is well-formed there, its
  columns are sorted by row and hold what is not zero, and converting it back gives the dense
  matrix again.
\<close>

theorem svd_dense_sparse_dense:
  assumes "wf_dmat D" and "0 < drows D"
  shows "wf_smat (svdConvertDtoS h D) \<and> sorted_columns (svdConvertDtoS h D) \<and> 0 \<notin> set (svalue (svdConvertDtoS h D)) \<and>
    svdConvertStoD (svdConvertDtoS h D) = Some D"
proof -
  let ?S = "svdConvertDtoS h D"
  note e = svdConvertDtoS_entries(1-3) [of h D] svdConvertDtoS_entries(4) [of _ D h]
  have "snd (snd x) \<noteq> 0" if "x \<in> set (entries ?S)" for x
    using that e(4) unfolding entries_def e(3) by (auto simp: dcol_def)
  then have "0 \<notin> set (svalue ?S)" unfolding map_rows_entries(2) [OF e(1), symmetric] by auto
  with dense_sparse_dense [OF assms] e(1) dtos_sorted show ?thesis by blast
qed

end
