(* ===== verification/SvdProducts.thy ===== *)
theory SvdProducts
  imports Svd
begin

text \<open>
  The products of a sparse matrix with a vector, \<^verbatim>\<open>svd_opa\<close> and \<^verbatim>\<open>svd_opb\<close> of
  \<^verbatim>\<open>c/SVDLIBC/svdutil.c\<close>: their values, and that the second is the first twice, with the
  matrix and with its transpose, in whatever arithmetic.
\<close>

section \<open>Products with a vector\<close>

text \<open>
  The counter of the products is the first component. \<open>y\<close> is cleared up to the size that is
  written; arrays longer than that keep their rest.
\<close>

definition zeroed :: "nat \<Rightarrow> ('v :: zero) list \<Rightarrow> 'v list" where
  "zeroed n y = replicate n 0 @ drop n y"

primrec opa_entries :: "('v :: {plus, times}) smat \<Rightarrow> 'v \<Rightarrow> nat \<Rightarrow> nat \<Rightarrow> 'v list \<Rightarrow> 'v list option" where
  "opa_entries A x 0 j y = Some y"
| "opa_entries A x (Suc n) j y =
     (if length (rowind A) \<le> j \<or> length (svalue A) \<le> j then None
      else let r = rowind A ! j in
        if length y \<le> r then None
        else opa_entries A x n (j + 1) (y[r := y ! r + svalue A ! j * x]))"

primrec opa_cols :: "('v :: {plus, times}) smat \<Rightarrow> 'v list \<Rightarrow> nat \<Rightarrow> nat \<Rightarrow> 'v list \<Rightarrow> 'v list option" where
  "opa_cols A x 0 i y = Some y"
| "opa_cols A x (Suc m) i y =
     (if length (pointr A) \<le> i + 1 \<or> length x \<le> i then None
      else case opa_entries A (x ! i) (pointr A ! (i + 1) - pointr A ! i) (pointr A ! i) y of
        None \<Rightarrow> None
      | Some y' \<Rightarrow> opa_cols A x m (i + 1) y')"

definition svd_opa :: "('v :: {zero, plus, times}) smat \<Rightarrow> 'v list \<Rightarrow> 'v list \<Rightarrow> nat \<Rightarrow> (nat \<times> 'v list) option" where
  "svd_opa A x y mxv =
     (if length y < srows A then None
      else map_option (Pair (mxv + 1)) (opa_cols A x (scols A) 0 (zeroed (srows A) y)))"

primrec opb_entries :: "('v :: {plus, times}) smat \<Rightarrow> 'v list \<Rightarrow> nat \<Rightarrow> nat \<Rightarrow> 'v \<Rightarrow> 'v option" where
  "opb_entries A temp 0 j y = Some y"
| "opb_entries A temp (Suc n) j y =
     (if length (rowind A) \<le> j \<or> length (svalue A) \<le> j then None
      else let r = rowind A ! j in
        if length temp \<le> r then None
        else opb_entries A temp n (j + 1) (y + svalue A ! j * temp ! r))"

primrec opb_cols :: "('v :: {plus, times}) smat \<Rightarrow> 'v list \<Rightarrow> nat \<Rightarrow> nat \<Rightarrow> 'v list \<Rightarrow> 'v list option" where
  "opb_cols A temp 0 i y = Some y"
| "opb_cols A temp (Suc m) i y =
     (if length (pointr A) \<le> i + 1 \<or> length y \<le> i then None
      else case opb_entries A temp (pointr A ! (i + 1) - pointr A ! i) (pointr A ! i) (y ! i) of
        None \<Rightarrow> None
      | Some v \<Rightarrow> opb_cols A temp m (i + 1) (y[i := v]))"

definition svd_opb ::
  "('v :: {zero, plus, times}) smat \<Rightarrow> 'v list \<Rightarrow> 'v list \<Rightarrow> 'v list \<Rightarrow> nat \<Rightarrow> (nat \<times> 'v list \<times> 'v list) option" where
  "svd_opb A x y temp mxv =
     (if length y < scols A \<or> length temp < srows A then None
      else case opa_cols A x (scols A) 0 (zeroed (srows A) temp) of
        None \<Rightarrow> None
      | Some t \<Rightarrow> map_option (\<lambda>y'. (mxv + 2, y', t)) (opb_cols A t (scols A) 0 (zeroed (scols A) y)))"

section \<open>The products as folds over the entries\<close>

definition acc_entry :: "('v :: {plus, times}) list \<Rightarrow> 'v list \<Rightarrow> nat \<times> nat \<times> 'v \<Rightarrow> 'v list" where
  "acc_entry x y e = (case e of (r, c, v) \<Rightarrow> y[r := y ! r + v * x ! c])"

lemma length_acc: "length (foldl (acc_entry x) y es) = length y"
  by (induction es arbitrary: y) (auto simp: acc_entry_def)

lemma opa_entries_fold:
  assumes "wf_smat A" and "c < scols A"
  shows "j + n \<le> svals A \<Longrightarrow> srows A \<le> length y \<Longrightarrow>
    opa_entries A (x ! c) n j y = Some (foldl (acc_entry x) y (map (nz_entry A c) [j..<j + n]))"
proof (induction n arbitrary: j y)
  case (Suc n)
  have l: "length (rowind A) = svals A" "length (svalue A) = svals A" using assms(1) by (simp_all add: wf_smat_def)
  then have "rowind A ! j < srows A" using assms(1) Suc.prems(1) by (simp add: wf_smat_def)
  moreover have "[j..<j + Suc n] = j # [Suc j..<Suc j + n]" by (subst upt_rec) simp
  ultimately show ?case using Suc l by (simp add: acc_entry_def nz_entry_def Let_def del: upt_Suc)
qed simp

lemma opa_cols_fold:
  assumes "wf_smat A" and "length x = scols A"
  shows "i + m = scols A \<Longrightarrow> srows A \<le> length y \<Longrightarrow>
    opa_cols A x m i y = Some (foldl (acc_entry x) y (concat (map (col_entries A) [i..< scols A])))"
proof (induction m arbitrary: i y)
  case (Suc m)
  let ?a = "pointr A ! i" and ?b = "pointr A ! (i + 1)"
  have i: "i < scols A" "i + 1 < length (pointr A)" "i < length x"
    using Suc.prems(1) assms by (simp_all add: wf_smat_def)
  have p: "?a \<le> ?b" "?b \<le> svals A"
    using i wf_pointr_le [OF assms(1), of i "i + 1"] wf_pointr_vals [OF assms(1), of "i + 1"] by simp_all
  then have "opa_entries A (x ! i) (?b - ?a) ?a y = Some (foldl (acc_entry x) y (col_entries A i))"
    using opa_entries_fold [OF assms(1) i(1), of ?a "?b - ?a" y x] Suc.prems(2) by (simp add: col_entries_def)
  moreover have "[i..< scols A] = i # [Suc i..< scols A]" using i(1) by (rule upt_conv_Cons)
  moreover have "srows A \<le> length (foldl (acc_entry x) y (col_entries A i))" using Suc.prems(2) by (simp add: length_acc)
  ultimately show ?case using Suc.IH [of "Suc i"] Suc.prems(1) i by simp
qed simp

lemma length_zeroed: "n \<le> length y \<Longrightarrow> length (zeroed n y) = length y"
  by (simp add: zeroed_def)

lemma nth_zeroed: "n \<le> length y \<Longrightarrow> zeroed n y ! i = (if i < n then 0 else y ! i)"
  by (auto simp: zeroed_def nth_append)

lemma svd_opa_fold:
  assumes "wf_smat A" and "length x = scols A" and "srows A \<le> length y"
  shows "svd_opa A x y k = Some (k + 1, foldl (acc_entry x) (zeroed (srows A) y) (entries A))"
  using opa_cols_fold [OF assms(1,2), of 0 "scols A" "zeroed (srows A) y"] assms(3)
  by (simp add: svd_opa_def length_zeroed entries_def)

lemma opb_entries_fold:
  assumes "wf_smat A"
  shows "j + n \<le> svals A \<Longrightarrow> srows A \<le> length t \<Longrightarrow>
    opb_entries A t n j a = Some (foldl (\<lambda>a e. a + snd (snd e) * t ! fst e) a (map (nz_entry A c) [j..<j + n]))"
proof (induction n arbitrary: j a)
  case (Suc n)
  have l: "length (rowind A) = svals A" "length (svalue A) = svals A" using assms by (simp_all add: wf_smat_def)
  then have "rowind A ! j < srows A" using assms Suc.prems(1) by (simp add: wf_smat_def)
  moreover have "[j..<j + Suc n] = j # [Suc j..<Suc j + n]" by (subst upt_rec) simp
  ultimately show ?case using Suc l by (simp add: nz_entry_def Let_def del: upt_Suc)
qed simp

definition col_product :: "('v :: {plus, times}) smat \<Rightarrow> 'v list \<Rightarrow> nat \<Rightarrow> 'v \<Rightarrow> 'v" where
  "col_product A t c a = foldl (\<lambda>a e. a + snd (snd e) * t ! fst e) a (col_entries A c)"

lemma opb_cols_fold:
  assumes "wf_smat A" and "srows A \<le> length t"
  shows "i + m = scols A \<Longrightarrow> scols A \<le> length y \<Longrightarrow>
    \<exists>y'. opb_cols A t m i y = Some y' \<and> length y' = length y \<and>
      (\<forall>c<length y. y' ! c = (if i \<le> c \<and> c < scols A then col_product A t c (y ! c) else y ! c))"
proof (induction m arbitrary: i y)
  case (Suc m)
  let ?a = "pointr A ! i" and ?b = "pointr A ! (i + 1)"
  have i: "i < scols A" "i + 1 < length (pointr A)" "i < length y"
    using Suc.prems assms by (simp_all add: wf_smat_def)
  have p: "?a \<le> ?b" "?b \<le> svals A"
    using i wf_pointr_le [OF assms(1), of i "i + 1"] wf_pointr_vals [OF assms(1), of "i + 1"] by simp_all
  let ?v = "col_product A t i (y ! i)"
  have e: "opb_entries A t (?b - ?a) ?a (y ! i) = Some ?v"
    using opb_entries_fold [OF assms(1), of ?a "?b - ?a" t "y ! i" i] assms(2) p
    by (simp add: col_product_def col_entries_def)
  obtain y' where y: "opb_cols A t m (Suc i) (y[i := ?v]) = Some y'" "length y' = length y"
    "\<forall>c<length y. y' ! c = (if Suc i \<le> c \<and> c < scols A then col_product A t c (y[i := ?v] ! c) else y[i := ?v] ! c)"
    using Suc.IH [of "Suc i" "y[i := ?v]"] Suc.prems by auto
  have "y' ! c = (if i \<le> c \<and> c < scols A then col_product A t c (y ! c) else y ! c)" if "c < length y" for c
    using y(3) that i by (cases "c = i") auto
  with y(1,2) e i show ?case by simp
qed auto

lemma acc_nth:
  "r < length y \<Longrightarrow> foldl (acc_entry x) y es ! r =
    foldl (\<lambda>a e. a + snd (snd e) * x ! fst (snd e)) (y ! r) (of_row r es)"
proof (induction es arbitrary: y)
  case (Cons e es)
  then show ?case by (cases e) (auto simp: acc_entry_def of_row_def nth_list_update)
qed (simp add: of_row_def)

lemma acc_nth_other:
  "\<forall>e\<in>set es. fst e < n \<Longrightarrow> n \<le> r \<Longrightarrow> r < length y \<Longrightarrow> foldl (acc_entry x) y es ! r = y ! r"
proof -
  assume "\<forall>e\<in>set es. fst e < n" "n \<le> r" and r: "r < length y"
  then have "of_row r es = []" by (fastforce simp: of_row_def filter_empty_conv)
  then show ?thesis using acc_nth [OF r, of x es] by simp
qed

section \<open>The product with the transpose\<close>

lemma transposed_column:
  assumes "wf_smat A" and "sorted_columns A" and "wf_smat N" and "scols N = srows A"
    and "\<forall>r< scols N. col_entries N r = map swap_entry (of_row r (entries A))" and "c < scols A"
  shows "map swap_entry (of_row c (entries N)) = col_entries A c"
proof -
  have "map swap_entry (of_row c (entries N)) = filter (\<lambda>e. fst e < srows A) (col_entries A c)"
    using col_of_transposed [OF entries_transposed [OF assms(5)] assms(6)] assms(2,4,6)
    by (simp add: concat_of_rows sorted_columns_def)
  also have "\<dots> = col_entries A c"
    using entries_range [OF assms(1)] assms(6) by (intro filter_True) (fastforce simp: entries_def)
  finally show ?thesis .
qed

lemma opb_is_opa_twice:
  assumes "wf_smat A" and "sorted_columns A" and "0 < srows A" and "length x = scols A"
    and "scols A \<le> length y" and "length temp = srows A"
  shows "\<exists>N t y'. svdTransposeS h A = Some N \<and> svd_opa A x temp k = Some (k + 1, t) \<and>
    svd_opa N t y (k + 1) = Some (k + 2, y') \<and> svd_opb A x y temp k = Some (k + 2, y', t)"
proof -
  obtain N where N: "svdTransposeS h A = Some N" "wf_smat N" "srows N = scols A" "scols N = srows A"
    "\<forall>r< scols N. col_entries N r = map swap_entry (of_row r (entries A))"
    using svdTransposeS_entries [OF assms(1,3)] by blast
  let ?t = "foldl (acc_entry x) (zeroed (srows A) temp) (entries A)"
  have t: "length ?t = srows A" using assms(6) by (simp add: length_acc length_zeroed)
  have a: "svd_opa A x temp k = Some (k + 1, ?t)" using svd_opa_fold [OF assms(1,4)] assms(6) by simp
  let ?y = "foldl (acc_entry ?t) (zeroed (scols A) y) (entries N)"
  have n: "svd_opa N ?t y (k + 1) = Some (k + 2, ?y)" using svd_opa_fold [OF N(2), of ?t y "k + 1"] t N(3,4) assms(5) by simp
  obtain y' where y': "opb_cols A ?t (scols A) 0 (zeroed (scols A) y) = Some y'" "length y' = length y"
    "\<forall>c<length y. y' ! c = (if c < scols A then col_product A ?t c (zeroed (scols A) y ! c) else zeroed (scols A) y ! c)"
    using opb_cols_fold [OF assms(1), of ?t 0 "scols A" "zeroed (scols A) y"] t assms(5) by (auto simp: length_zeroed)
  have "y' = ?y"
  proof (rule nth_equalityI)
    show "length y' = length ?y" using y'(2) assms(5) by (simp add: length_acc length_zeroed)
    fix c assume "c < length y'"
    then have c: "c < length y" "c < length (zeroed (scols A) y)" using y'(2) assms(5) by (simp_all add: length_zeroed)
    show "y' ! c = ?y ! c"
    proof (cases "c < scols A")
      case True
      note tc = transposed_column [OF assms(1,2) N(2,4,5) True]
      have "col_product A ?t c a = foldl (\<lambda>a e. a + snd (snd e) * ?t ! fst (snd e)) a (of_row c (entries N))" for a
        unfolding col_product_def tc [symmetric] by (simp add: foldl_map swap_entry_def split_beta)
      with y'(3) c acc_nth [OF c(2), of ?t "entries N"] True show ?thesis by simp
    next
      case False
      have "\<forall>e\<in>set (entries N). fst e < scols A" using entries_range [OF N(2)] N(3) by fastforce
      with acc_nth_other [of "entries N" "scols A" c "zeroed (scols A) y" ?t] False c y'(3) show ?thesis by simp
    qed
  qed
  moreover have "opa_cols A x (scols A) 0 (zeroed (srows A) temp) = Some ?t"
    using a assms(6) by (simp add: svd_opa_def)
  ultimately have "svd_opb A x y temp k = Some (k + 2, ?y, ?t)"
    using y'(1) assms(5,6) by (simp add: svd_opb_def)
  with N(1) a n show ?thesis by blast
qed

section \<open>The values\<close>

lemma fold_plus: "foldl (\<lambda>a e. a + f e) (s :: 'b :: comm_monoid_add) es = s + sum_list (map f es)"
  by (induction es arbitrary: s) (simp_all add: add.assoc)

text \<open>A column with one entry for a row at most.\<close>

definition distinct_columns :: "'v smat \<Rightarrow> bool" where
  "distinct_columns S \<longleftrightarrow> (\<forall>c< scols S. distinct (map fst (col_entries S c)))"

lemma row_of_column:
  assumes "distinct (map fst xs)" and "\<forall>e\<in>set xs. fst (snd e) = c"
  shows "sum_list (map (\<lambda>e. snd (snd e) * g (fst (snd e))) (of_row r xs)) =
    (stored xs r c 0 :: 'v :: semiring_0) * g c"
  using assms
proof (induction xs)
  case (Cons e xs)
  obtain r' v where e: "e = (r', c, v)" using Cons.prems(2) by (cases e) auto
  show ?case
  proof (cases "r' = r")
    case True
    then have "of_row r xs = []" using Cons.prems(1) e by (force simp: of_row_def filter_empty_conv)
    moreover from this have "stored xs r c v = v" using stored_of_row [of r xs c v] by simp
    ultimately show ?thesis using True e by (simp add: of_row_def)
  next
    case False
    then show ?thesis using Cons e by (simp add: of_row_def)
  qed
qed (simp add: of_row_def)

lemma sum_of_row:
  assumes "\<forall>c<n. distinct (map fst (f c))" and "\<And>c e. e \<in> set (f c) \<Longrightarrow> fst (snd e) = c"
  shows "sum_list (map (\<lambda>e. snd (snd e) * x ! fst (snd e)) (of_row r (concat (map f [0..<n])))) =
    (\<Sum>c<n. (stored (f c) r c 0 :: 'v :: semiring_0) * x ! c)"
  using assms(1)
proof (induction n)
  case (Suc n)
  then show ?case using row_of_column [of "f n" n "(!) x" r] assms(2) by (simp add: of_row_append)
qed (simp add: of_row_def)

lemma svd_opa_value:
  assumes "wf_smat A" and "distinct_columns A" and "length x = scols A" and "length y = srows A" and "0 < srows A"
  shows "\<exists>D y'. svdConvertStoD A = Some D \<and> svd_opa A x y k = Some (k + 1, y') \<and> length y' = srows A \<and>
    (\<forall>r< srows A. y' ! r = (\<Sum>c< scols A. dvalue D ! r ! c * (x ! c :: 'v :: semiring_0)))"
proof -
  obtain D where D: "svdConvertStoD A = Some D" "wf_dmat D" "drows D = srows A" "dcols D = scols A"
    "\<forall>r< srows A. \<forall>c< scols A. dvalue D ! r ! c = stored (entries A) r c 0"
    using svdConvertStoD_entries [OF assms(1,5)] by blast
  let ?y = "foldl (acc_entry x) (zeroed (srows A) y) (entries A)"
  have k: "fst (snd e) = c" if "e \<in> set (col_entries A c)" for e c using that by (auto simp: col_entries_def nz_entry_def)
  have "?y ! r = (\<Sum>c< scols A. dvalue D ! r ! c * x ! c)" if r: "r < srows A" for r
  proof -
    have "?y ! r = sum_list (map (\<lambda>e. snd (snd e) * x ! fst (snd e)) (of_row r (entries A)))"
      using acc_nth [of r "zeroed (srows A) y" x "entries A"] r assms(4)
      by (simp add: length_zeroed nth_zeroed fold_plus)
    also have "\<dots> = (\<Sum>c< scols A. stored (col_entries A c) r c 0 * x ! c)"
      unfolding entries_def using assms(2) k by (intro sum_of_row) (auto simp: distinct_columns_def)
    also have "\<dots> = (\<Sum>c< scols A. dvalue D ! r ! c * x ! c)"
      using D(5) r stored_columns [of "col_entries A", OF k] by (intro sum.cong) (simp_all add: entries_def)
    finally show ?thesis .
  qed
  moreover have "svd_opa A x y k = Some (k + 1, ?y)" using svd_opa_fold [OF assms(1,3)] assms(4) by simp
  moreover have "length ?y = srows A" using assms(4) by (simp add: length_acc length_zeroed)
  ultimately show ?thesis using D(1) by blast
qed

section \<open>Properties\<close>

text \<open>
  C19: The product with the matrix and then with its transpose in one pass, svd\_opb, computes
  what svd\_opa computes with the matrix and then with the matrix that svdTransposeS makes, and
  counts two products like the two calls. This holds in every arithmetic, with whatever rounding:
  the additions are made in the same order when the columns are sorted.
\<close>

theorem svd_opb_is_opa_twice:
  assumes "wf_smat A" and "sorted_columns A" and "0 < srows A" and "length x = scols A"
    and "scols A \<le> length y" and "length temp = srows A"
  shows "\<exists>N t y'. svdTransposeS h A = Some N \<and> svd_opa A x temp k = Some (k + 1, t) \<and>
    svd_opa N t y (k + 1) = Some (k + 2, y') \<and> svd_opb A x y temp k = Some (k + 2, y', t)"
  by (rule opb_is_opa_twice [OF assms])

theorem svd_opb_is_opa_twice_witness:
  "\<exists>N t. svdTransposeS sample_heap sample_smat = Some N \<and>
    svd_opa sample_smat [1, 2, 3] [9, 9] 0 = Some (1, t) \<and> svd_opa N t [0, 0, 0] 1 = Some (2, [242, 0, 248])"
proof -
  have b: "svd_opb sample_smat [1, 2, 3] [0, 0, 0] [9, 9] 0 = Some (2, [242, 0, 248], [5, 31])" by code_simp
  have "length [1, 2, 3 :: int] = scols sample_smat" "scols sample_smat \<le> length [0, 0, 0 :: int]"
    "length [9, 9 :: int] = srows sample_smat" by (simp_all add: sample_smat_def)
  from svd_opb_is_opa_twice [OF sample_wf(1,4,2) this, of sample_heap 0] b show ?thesis
    by (auto simp: numeral_2_eq_2)
qed

text \<open>
  C26: svd\_opa computes the product of the matrix and the vector: for a well-formed matrix whose
  columns have one entry for a row at most, the element of every row is the sum, over the columns,
  of the element of the dense form times the element of the vector, when addition and
  multiplication are exact. No access is outside an array.
\<close>

theorem svd_opa_product:
  assumes "wf_smat A" and "distinct_columns A" and "length x = scols A" and "length y = srows A" and "0 < srows A"
  shows "\<exists>D y'. svdConvertStoD A = Some D \<and> svd_opa A x y k = Some (k + 1, y') \<and> length y' = srows A \<and>
    (\<forall>r< srows A. y' ! r = (\<Sum>c< scols A. dvalue D ! r ! c * (x ! c :: 'v :: semiring_0)))"
  by (rule svd_opa_value [OF assms])

theorem svd_opa_product_witness:
  "\<exists>y'. svd_opa sample_smat [1, 2, 3] [9, 9] 0 = Some (1, y') \<and>
    y' ! 1 = (\<Sum>c<3. [7, 0, 8 :: int] ! c * [1, 2, 3] ! c)"
proof -
  have "distinct_columns sample_smat"
    by (auto simp: distinct_columns_def sample_smat_def col_entries_def nz_entry_def numeral_3_eq_3 numeral_2_eq_2 less_Suc_eq)
  moreover have "length [1, 2, 3 :: int] = scols sample_smat" "length [9, 9 :: int] = srows sample_smat"
    by (simp_all add: sample_smat_def)
  ultimately show ?thesis
    using svd_opa_product [OF sample_wf(1) _ _ _ sample_wf(2), of "[1, 2, 3]" "[9, 9]" 0] sample_dense
    by (fastforce simp: sample_smat_def)
qed

end
