(* ===== verification/SvdFormats.thy ===== *)
theory SvdFormats
  imports Svd CText
begin

text \<open>
  The file formats of \<^verbatim>\<open>c/SVDLIBC/svdlib.c\<close>: dense and sparse matrices as text and as
  bytes in network order, and the Harwell-Boeing text. A file is a string; writing gives the
  string, \<open>None\<close> for an access outside an array, and loading takes it.

  How \<^verbatim>\<open>printf("%g")\<close> shows a double, what \<^verbatim>\<open>scanf("%lf")\<close> makes of a text, and the
  bits of a \<^verbatim>\<open>float\<close> that a double is cast to and cast back from are parameters.
\<close>

record 'v numfmt =
  show_g :: "'v \<Rightarrow> string"
  scan_lf :: "string \<Rightarrow> ('v \<times> string) option"
  to_float :: "'v \<Rightarrow> u32"
  of_float :: "u32 \<Rightarrow> 'v"

text \<open>
  A loader returns a matrix, or prints an error and returns \<^verbatim>\<open>NULL\<close>; \<open>Wild\<close> is an access
  outside an array, and what a file leads to whose sizes or indices are negative or do not fit
  in an \<open>int\<close>.
\<close>

datatype 'a loaded = Loaded 'a | Failed string | Wild

primrec and_then :: "'a loaded \<Rightarrow> ('a \<Rightarrow> 'b loaded) \<Rightarrow> 'b loaded" where
  "and_then (Loaded x) f = f x"
| "and_then (Failed m) f = Failed m"
| "and_then Wild f = Wild"

definition need :: "string \<Rightarrow> 'a option \<Rightarrow> 'a loaded" where
  "need msg x = (case x of None \<Rightarrow> Failed msg | Some y \<Rightarrow> Loaded y)"

definition size_ok :: "int \<Rightarrow> bool" where
  "size_ok n \<longleftrightarrow> 0 \<le> n \<and> n < 2147483648"

definition new_smat :: "'v heap \<Rightarrow> int \<Rightarrow> int \<Rightarrow> int \<Rightarrow> 'v smat loaded" where
  "new_smat h rows cols vals =
     (if size_ok rows \<and> size_ok cols \<and> size_ok vals
      then Loaded (svdNewSMat h (nat rows) (nat cols) (nat vals)) else Wild)"

definition new_dmat :: "int \<Rightarrow> int \<Rightarrow> ('v :: zero) dmat loaded" where
  "new_dmat rows cols =
     (if size_ok rows \<and> size_ok cols
      then (case svdNewDMat (nat rows) (nat cols) of None \<Rightarrow> Wild | Some D \<Rightarrow> Loaded D) else Wild)"

definition cell :: "'a list \<Rightarrow> nat \<Rightarrow> 'a option" where
  "cell xs i = (if i < length xs then Some (xs ! i) else None)"

definition append_out :: "string option \<Rightarrow> string option \<Rightarrow> string option" where
  "append_out a b = (case a of None \<Rightarrow> None | Some s \<Rightarrow> map_option ((@) s) b)"

section \<open>Sparse text\<close>

text \<open>
  The two sparse formats have the same loops; they differ in how a count (\<open>pn\<close>) and an entry
  (\<open>pc\<close>) are written, how an integer and a value are read, and in that the text loader stores
  the row of an entry before it reads the value (\<open>early\<close>).
\<close>

primrec write_cells :: "(int \<Rightarrow> 'v \<Rightarrow> string) \<Rightarrow> 'v smat \<Rightarrow> nat \<Rightarrow> nat \<Rightarrow> string option" where
  "write_cells pc S 0 v = Some ''''"
| "write_cells pc S (Suc n) v =
     append_out
       (case cell (rowind S) v of None \<Rightarrow> None | Some r \<Rightarrow> map_option (pc (int r)) (cell (svalue S) v))
       (write_cells pc S n (v + 1))"

primrec write_cols ::
  "(int \<Rightarrow> string) \<Rightarrow> (int \<Rightarrow> 'v \<Rightarrow> string) \<Rightarrow> 'v smat \<Rightarrow> nat \<Rightarrow> nat \<Rightarrow> nat \<Rightarrow> string option"
where
  "write_cols pn pc S 0 c v = Some ''''"
| "write_cols pn pc S (Suc m) c v =
     (case (cell (pointr S) c, cell (pointr S) (c + 1)) of
        (Some a, Some b) \<Rightarrow>
          append_out (append_out (Some (pn (int b - int a))) (write_cells pc S (b - v) v))
            (write_cols pn pc S m (c + 1) (max v b))
      | _ \<Rightarrow> None)"

definition svdWriteSparseTextFile :: "'v numfmt \<Rightarrow> 'v smat \<Rightarrow> string option" where
  "svdWriteSparseTextFile F S =
     append_out
       (Some (int_str (int (srows S)) @ '' '' @ int_str (int (scols S)) @ '' '' @ int_str (int (svals S)) @ newline))
       (write_cols (\<lambda>n. int_str n @ newline) (\<lambda>r x. int_str r @ '' '' @ show_g F x @ newline) S (scols S) 0 0)"

definition put_cell :: "nat \<Rightarrow> int \<Rightarrow> 'v \<Rightarrow> 'v smat \<Rightarrow> 'v smat" where
  "put_cell v r x S = S\<lparr>rowind := (rowind S)[v := nat r], svalue := (svalue S)[v := x]\<rparr>"

type_synonym 'a get = "string \<Rightarrow> ('a \<times> string) option"

primrec load_cells ::
  "string \<Rightarrow> int get \<Rightarrow> 'v get \<Rightarrow> bool \<Rightarrow> nat \<Rightarrow> nat \<Rightarrow> string \<Rightarrow> 'v smat \<Rightarrow> (nat \<times> string \<times> 'v smat) loaded"
where
  "load_cells msg geti getx early 0 v txt S = Loaded (v, txt, S)"
| "load_cells msg geti getx early (Suc n) v txt S =
     and_then (need msg (geti txt)) (\<lambda>(r, t1).
       let wild = length (rowind S) \<le> v \<or> length (svalue S) \<le> v \<or> \<not> size_ok r in
       if early \<and> wild then Wild
       else and_then (need msg (getx t1)) (\<lambda>(x, t2).
         if wild then Wild
         else load_cells msg geti getx early n (v + 1) t2 (put_cell v r x S)))"

primrec load_cols ::
  "string \<Rightarrow> int get \<Rightarrow> 'v get \<Rightarrow> bool \<Rightarrow> nat \<Rightarrow> nat \<Rightarrow> nat \<Rightarrow> string \<Rightarrow> 'v smat \<Rightarrow> 'v smat loaded"
where
  "load_cols msg geti getx early 0 c v txt S = Loaded S"
| "load_cols msg geti getx early (Suc m) c v txt S =
     and_then (need msg (geti txt)) (\<lambda>(n, t1).
     and_then (load_cells msg geti getx early (nat n) v t1 (S\<lparr>pointr := (pointr S)[c := v]\<rparr>)) (\<lambda>(v', t2, S').
       load_cols msg geti getx early m (c + 1) v' t2 S'))"

definition close_cols :: "'v smat \<Rightarrow> 'v smat" where
  "close_cols S = S\<lparr>pointr := (pointr S)[scols S := svals S]\<rparr>"

definition get3 :: "int get \<Rightarrow> (int \<times> int \<times> int) get" where
  "get3 geti s =
     (case geti s of None \<Rightarrow> None | Some (a, s1) \<Rightarrow>
        case geti s1 of None \<Rightarrow> None | Some (b, s2) \<Rightarrow>
          case geti s2 of None \<Rightarrow> None | Some (c, s3) \<Rightarrow> Some ((a, b, c), s3))"

definition load_sparse :: "'v heap \<Rightarrow> string \<Rightarrow> int get \<Rightarrow> 'v get \<Rightarrow> bool \<Rightarrow> string \<Rightarrow> 'v smat loaded" where
  "load_sparse h msg geti getx early txt =
     and_then (need msg (get3 geti txt)) (\<lambda>((rows, cols, vals), t1).
     and_then (new_smat h rows cols vals) (\<lambda>S.
     and_then (load_cols msg geti getx early (nat cols) 0 0 t1 S) (\<lambda>S'. Loaded (close_cols S'))))"

definition svdLoadSparseTextFile :: "'v heap \<Rightarrow> 'v numfmt \<Rightarrow> string \<Rightarrow> 'v smat loaded" where
  "svdLoadSparseTextFile h F =
     load_sparse h ''svdLoadSparseTextFile: bad file format'' scan_int (scan_lf F) True"

section \<open>Numbers as bytes\<close>

text \<open>\<^verbatim>\<open>svd_writeBinInt\<close> and \<^verbatim>\<open>svd_readBinInt\<close>: the four bytes of an \<open>int\<close>, the high one first.\<close>

definition be_bytes :: "u32 \<Rightarrow> string" where
  "be_bytes w = map (\<lambda>k. char_of (nat (uint w div 2 ^ k mod 256))) [24, 16, 8, 0]"

definition be_word :: "string \<Rightarrow> u32" where
  "be_word bs = word_of_int (horner_sum (\<lambda>c. int (of_char c)) 256 (rev bs))"

definition fread4 :: "u32 get" where
  "fread4 s = (if length s < 4 then None else Some (be_word (take 4 s), drop 4 s))"

definition svd_writeBinInt :: "int \<Rightarrow> string" where
  "svd_writeBinInt x = be_bytes (word_of_int x)"

definition svd_readBinInt :: "int get" where
  "svd_readBinInt s = map_option (\<lambda>(w, t). (sint w, t)) (fread4 s)"

definition svd_writeBinFloat :: "'v numfmt \<Rightarrow> 'v \<Rightarrow> string" where
  "svd_writeBinFloat F x = be_bytes (to_float F x)"

definition svd_readBinFloat :: "'v numfmt \<Rightarrow> 'v get" where
  "svd_readBinFloat F s = map_option (\<lambda>(w, t). (of_float F w, t)) (fread4 s)"

section \<open>Sparse binary\<close>

definition svdWriteSparseBinaryFile :: "'v numfmt \<Rightarrow> 'v smat \<Rightarrow> string option" where
  "svdWriteSparseBinaryFile F S =
     append_out
       (Some (svd_writeBinInt (int (srows S)) @ svd_writeBinInt (int (scols S)) @ svd_writeBinInt (int (svals S))))
       (write_cols svd_writeBinInt (\<lambda>r x. svd_writeBinInt r @ svd_writeBinFloat F x) S (scols S) 0 0)"

definition svdLoadSparseBinaryFile :: "'v heap \<Rightarrow> 'v numfmt \<Rightarrow> string \<Rightarrow> 'v smat loaded" where
  "svdLoadSparseBinaryFile h F =
     load_sparse h ''svdLoadSparseBinaryFile: bad file format'' svd_readBinInt (svd_readBinFloat F) False"

section \<open>Dense text and binary\<close>

definition dense_cell :: "'v dmat \<Rightarrow> nat \<Rightarrow> nat \<Rightarrow> 'v option" where
  "dense_cell D i j = get2 (dvalue D) i j"

primrec write_row :: "('v \<Rightarrow> nat \<Rightarrow> string) \<Rightarrow> 'v dmat \<Rightarrow> nat \<Rightarrow> nat \<Rightarrow> nat \<Rightarrow> string option" where
  "write_row f D i 0 j = Some ''''"
| "write_row f D i (Suc n) j =
     append_out (map_option (\<lambda>x. f x j) (dense_cell D i j)) (write_row f D i n (j + 1))"

primrec write_rows :: "('v \<Rightarrow> nat \<Rightarrow> string) \<Rightarrow> 'v dmat \<Rightarrow> nat \<Rightarrow> nat \<Rightarrow> string option" where
  "write_rows f D 0 i = Some ''''"
| "write_rows f D (Suc m) i = append_out (write_row f D i (dcols D) 0) (write_rows f D m (i + 1))"

definition svdWriteDenseTextFile :: "'v numfmt \<Rightarrow> 'v dmat \<Rightarrow> string option" where
  "svdWriteDenseTextFile F D =
     append_out (Some (int_str (int (drows D)) @ '' '' @ int_str (int (dcols D)) @ newline))
       (write_rows (\<lambda>x j. show_g F x @ (if int j = int (dcols D) - 1 then newline else '' '')) D (drows D) 0)"

definition svdWriteDenseBinaryFile :: "'v numfmt \<Rightarrow> 'v dmat \<Rightarrow> string option" where
  "svdWriteDenseBinaryFile F D =
     append_out (Some (svd_writeBinInt (int (drows D)) @ svd_writeBinInt (int (dcols D))))
       (write_rows (\<lambda>x j. svd_writeBinFloat F x) D (drows D) 0)"

text \<open>The two nested loops of the dense loaders; they differ in how an element is read.\<close>

primrec load_row ::
  "string \<Rightarrow> 'v get \<Rightarrow> nat \<Rightarrow> nat \<Rightarrow> nat \<Rightarrow> string \<Rightarrow> 'v list list \<Rightarrow> (string \<times> 'v list list) loaded"
where
  "load_row msg get i 0 j txt V = Loaded (txt, V)"
| "load_row msg get i (Suc n) j txt V =
     and_then (need msg (get txt)) (\<lambda>(x, t1).
       case put2 V i j x of None \<Rightarrow> Wild | Some V' \<Rightarrow> load_row msg get i n (j + 1) t1 V')"

primrec load_rows ::
  "string \<Rightarrow> 'v get \<Rightarrow> nat \<Rightarrow> nat \<Rightarrow> nat \<Rightarrow> string \<Rightarrow> 'v list list \<Rightarrow> 'v list list loaded"
where
  "load_rows msg get cols 0 i txt V = Loaded V"
| "load_rows msg get cols (Suc m) i txt V =
     and_then (load_row msg get i cols 0 txt V) (\<lambda>(t1, V'). load_rows msg get cols m (i + 1) t1 V')"

definition load_dense ::
  "string \<Rightarrow> int get \<Rightarrow> ('v :: zero) get \<Rightarrow> string \<Rightarrow> 'v dmat loaded"
where
  "load_dense msg geti getx txt =
     and_then (need msg (geti txt)) (\<lambda>(rows, t1).
     and_then (need msg (geti t1)) (\<lambda>(cols, t2).
     and_then (new_dmat rows cols) (\<lambda>D.
     and_then (load_rows msg getx (nat cols) (nat rows) 0 t2 (dvalue D)) (\<lambda>V. Loaded (D\<lparr>dvalue := V\<rparr>)))))"

definition svdLoadDenseTextFile :: "('v :: zero) numfmt \<Rightarrow> string \<Rightarrow> 'v dmat loaded" where
  "svdLoadDenseTextFile F = load_dense ''svdLoadDenseTextFile: bad file format'' scan_int (scan_lf F)"

definition svdLoadDenseBinaryFile :: "('v :: zero) numfmt \<Rightarrow> string \<Rightarrow> 'v dmat loaded" where
  "svdLoadDenseBinaryFile F = load_dense ''svdLoadDenseBinaryFile: bad file format'' svd_readBinInt (svd_readBinFloat F)"

section \<open>Harwell-Boeing text\<close>

definition pad_left :: "nat \<Rightarrow> string \<Rightarrow> string" where
  "pad_left n s = replicate (n - length s) CHR '' '' @ s"

definition pad_right :: "nat \<Rightarrow> string \<Rightarrow> string" where
  "pad_right n s = s @ replicate (n - length s) CHR '' ''"

definition lines8 :: "nat \<Rightarrow> nat" where
  "lines8 n = n div 8 + (if n mod 8 \<noteq> 0 then 1 else 0)"

definition num14 :: "int \<Rightarrow> string" where
  "num14 n = pad_left 14 (int_str n)"

definition hb_header :: "'v smat \<Rightarrow> string" where
  "hb_header S =
     (let col_lines = int (lines8 (scols S + 1)); row_lines = int (lines8 (svals S)) in
        pad_right 72 ''SVDLIBC v. 1.34'' @ pad_right 8 ''<key>'' @ newline @
        num14 (col_lines + 2 * row_lines) @ num14 col_lines @ num14 row_lines @ num14 row_lines @ num14 0 @ newline @
        pad_right 14 ''rra'' @ num14 (int (srows S)) @ num14 (int (scols S)) @ num14 (int (svals S)) @ num14 0 @ newline @
        pad_left 16 ''(8i)'' @ pad_left 16 ''(8i)'' @ pad_left 16 ''(8e)'' @ pad_left 16 ''(8e)'' @ newline)"

definition hb_end :: "nat \<Rightarrow> string" where
  "hb_end i = (if (i + 1) mod 8 = 0 then newline else '' '')"

primrec hb_items :: "(nat \<Rightarrow> string option) \<Rightarrow> nat \<Rightarrow> nat \<Rightarrow> string option" where
  "hb_items f 0 i = Some ''''"
| "hb_items f (Suc n) i = append_out (map_option (\<lambda>s. s @ hb_end i) (f i)) (hb_items f n (i + 1))"

definition svdWriteSparseTextHBFile :: "'v numfmt \<Rightarrow> 'v smat \<Rightarrow> string option" where
  "svdWriteSparseTextHBFile F S =
     append_out (Some (hb_header S))
    (append_out (hb_items (\<lambda>i. map_option (\<lambda>p. int_str (int p + 1)) (cell (pointr S) i)) (scols S + 1) 0)
    (append_out (Some newline)
    (append_out (hb_items (\<lambda>i. map_option (\<lambda>r. int_str (int r + 1)) (cell (rowind S) i)) (svals S) 0)
    (append_out (Some newline)
    (append_out (hb_items (\<lambda>i. map_option (show_g F) (cell (svalue S) i)) (svals S) 0)
       (Some newline))))))"

text \<open>\<^verbatim>\<open>fgets(line, 128, file)\<close>: a line, or 127 characters of a longer one.\<close>

definition skip_line :: "string \<Rightarrow> string" where
  "skip_line s = drop (min 127 (length (takeWhile (\<lambda>c. c \<noteq> lf) s) + 1)) s"

definition hb_word :: "string \<Rightarrow> string option" where
  "hb_word s =
     (case dropWhile c_isspace s of [] \<Rightarrow> None | c # cs \<Rightarrow> Some (dropWhile (\<lambda>c. \<not> c_isspace c) (c # cs)))"

text \<open>\<^verbatim>\<open>fscanf(file, "%*s%ld%ld%ld%ld\\n", &rows, &cols, &vals, &num_mat)\<close>.\<close>

definition scan_dims :: "string \<Rightarrow> ((int \<times> int \<times> int \<times> int) \<times> string) option" where
  "scan_dims s =
     (case hb_word s of None \<Rightarrow> None | Some s1 \<Rightarrow>
        case get3 scan_int s1 of None \<Rightarrow> None | Some ((a, b, c), s2) \<Rightarrow>
          case scan_int s2 of None \<Rightarrow> None | Some (d, s3) \<Rightarrow> Some ((a, b, c, d), dropWhile c_isspace s3))"

primrec load_hb_longs :: "string \<Rightarrow> nat \<Rightarrow> nat \<Rightarrow> string \<Rightarrow> nat list \<Rightarrow> (string \<times> nat list) loaded" where
  "load_hb_longs what 0 i txt xs = Loaded (txt, xs)"
| "load_hb_longs what (Suc n) i txt xs =
     and_then (need (''svdLoadSparseTextHBFile: error reading '' @ what @ '' '' @ nat_str i) (scan_int txt)) (\<lambda>(x, t1).
       if size_ok (x - 1) then load_hb_longs what n (i + 1) t1 (xs[i := nat (x - 1)]) else Wild)"

primrec load_hb_values :: "'v numfmt \<Rightarrow> nat \<Rightarrow> nat \<Rightarrow> string \<Rightarrow> 'v list \<Rightarrow> 'v list loaded" where
  "load_hb_values F 0 i txt xs = Loaded xs"
| "load_hb_values F (Suc n) i txt xs =
     and_then (need (''svdLoadSparseTextHBFile: error reading value '' @ nat_str i) (scan_lf F txt)) (\<lambda>(x, t1).
       load_hb_values F n (i + 1) t1 (xs[i := x]))"

definition svdLoadSparseTextHBFile :: "'v heap \<Rightarrow> 'v numfmt \<Rightarrow> string \<Rightarrow> 'v smat loaded" where
  "svdLoadSparseTextHBFile h F txt =
     and_then (need ''svdLoadSparseTextHBFile: bad file format on line 3'' (scan_dims (skip_line (skip_line txt))))
       (\<lambda>((rows, cols, vals, num_mat), t1).
     if num_mat \<noteq> 0
     then Failed (''svdLoadSparseTextHBFile: I don't know how to handle a file with elemental matrices '' @
                  ''(last entry on header line 3)'')
     else
     and_then (new_smat h rows cols vals) (\<lambda>S.
     and_then (load_hb_longs ''pointr'' (nat cols + 1) 0 (skip_line t1) (pointr S)) (\<lambda>(t2, ps).
     and_then (load_hb_longs ''rowind'' (nat vals) 0 t2 (rowind S)) (\<lambda>(t3, rs).
     and_then (load_hb_values F (nat vals) 0 t3 (svalue S)) (\<lambda>xs.
       Loaded (close_cols (S\<lparr>pointr := ps, rowind := rs, svalue := xs\<rparr>)))))))"

section \<open>The formats\<close>

datatype file_format = SVD_F_STH | SVD_F_ST | SVD_F_SB | SVD_F_DT | SVD_F_DB

text \<open>\<^verbatim>\<open>SVD_IS_SPARSE\<close>, the first three of the enumeration.\<close>

definition SVD_IS_SPARSE :: "file_format \<Rightarrow> bool" where
  "SVD_IS_SPARSE f \<longleftrightarrow> f = SVD_F_STH \<or> f = SVD_F_ST \<or> f = SVD_F_SB"

definition dense_of :: "('v :: zero) smat loaded \<Rightarrow> 'v dmat loaded" where
  "dense_of l = and_then l (\<lambda>S. case svdConvertStoD S of None \<Rightarrow> Wild | Some D \<Rightarrow> Loaded D)"

definition sparse_of :: "'v heap \<Rightarrow> ('v :: zero) dmat loaded \<Rightarrow> 'v smat loaded" where
  "sparse_of h l = and_then l (\<lambda>D. Loaded (svdConvertDtoS h D))"

primrec parse_sparse :: "'v heap \<Rightarrow> ('v :: zero) numfmt \<Rightarrow> file_format \<Rightarrow> string \<Rightarrow> 'v smat loaded" where
  "parse_sparse h F SVD_F_STH = svdLoadSparseTextHBFile h F"
| "parse_sparse h F SVD_F_ST = svdLoadSparseTextFile h F"
| "parse_sparse h F SVD_F_SB = svdLoadSparseBinaryFile h F"
| "parse_sparse h F SVD_F_DT = (\<lambda>txt. sparse_of h (svdLoadDenseTextFile F txt))"
| "parse_sparse h F SVD_F_DB = (\<lambda>txt. sparse_of h (svdLoadDenseBinaryFile F txt))"

primrec parse_dense :: "'v heap \<Rightarrow> ('v :: zero) numfmt \<Rightarrow> file_format \<Rightarrow> string \<Rightarrow> 'v dmat loaded" where
  "parse_dense h F SVD_F_STH = (\<lambda>txt. dense_of (svdLoadSparseTextHBFile h F txt))"
| "parse_dense h F SVD_F_ST = (\<lambda>txt. dense_of (svdLoadSparseTextFile h F txt))"
| "parse_dense h F SVD_F_SB = (\<lambda>txt. dense_of (svdLoadSparseBinaryFile h F txt))"
| "parse_dense h F SVD_F_DT = svdLoadDenseTextFile F"
| "parse_dense h F SVD_F_DB = svdLoadDenseBinaryFile F"

definition via_dense :: "(('v :: zero) dmat \<Rightarrow> string option) \<Rightarrow> 'v smat \<Rightarrow> string option" where
  "via_dense w S = (case svdConvertStoD S of None \<Rightarrow> None | Some D \<Rightarrow> w D)"

primrec print_sparse :: "('v :: zero) numfmt \<Rightarrow> file_format \<Rightarrow> 'v smat \<Rightarrow> string option" where
  "print_sparse F SVD_F_STH = svdWriteSparseTextHBFile F"
| "print_sparse F SVD_F_ST = svdWriteSparseTextFile F"
| "print_sparse F SVD_F_SB = svdWriteSparseBinaryFile F"
| "print_sparse F SVD_F_DT = via_dense (svdWriteDenseTextFile F)"
| "print_sparse F SVD_F_DB = via_dense (svdWriteDenseBinaryFile F)"

primrec print_dense :: "'v heap \<Rightarrow> ('v :: zero) numfmt \<Rightarrow> file_format \<Rightarrow> 'v dmat \<Rightarrow> string option" where
  "print_dense h F SVD_F_STH = (\<lambda>D. svdWriteSparseTextHBFile F (svdConvertDtoS h D))"
| "print_dense h F SVD_F_ST = (\<lambda>D. svdWriteSparseTextFile F (svdConvertDtoS h D))"
| "print_dense h F SVD_F_SB = (\<lambda>D. svdWriteSparseBinaryFile F (svdConvertDtoS h D))"
| "print_dense h F SVD_F_DT = svdWriteDenseTextFile F"
| "print_dense h F SVD_F_DB = svdWriteDenseBinaryFile F"

end
