(* ===== verification/SvdRoundtrip.thy ===== *)
theory SvdRoundtrip
  imports SvdFormats
begin

text \<open>
  Every matrix that \<^verbatim>\<open>c/SVDLIBC/svdlib.c\<close> writes it loads again, in each of its five
  formats, sparse or dense, as the matrix it was. What the text and the binary formats have in
  common is the interface \<open>matrix_format\<close>.
\<close>

section \<open>Copying through a format\<close>

text \<open>The arrays hold the first \<open>v\<close> entries of \<open>S\<close>.\<close>

definition copied :: "'v smat \<Rightarrow> nat \<Rightarrow> 'v smat \<Rightarrow> bool" where
  "copied S v T \<longleftrightarrow> length (rowind T) = svals S \<and> length (svalue T) = svals S \<and>
     srows T = srows S \<and> scols T = scols S \<and> svals T = svals S \<and> length (pointr T) = scols S + 1 \<and>
     take v (rowind T) = take v (rowind S) \<and> take v (svalue T) = take v (svalue S)"

lemma copied_put:
  assumes "copied S v T" and "wf_smat S" and "v < svals S"
  shows "copied S (Suc v) (put_cell v (int (rowind S ! v)) (svalue S ! v) T)"
  using assms by (simp add: copied_def put_cell_def take_Suc_update take_Suc_conv_app_nth wf_smat_def)

definition dims_ok :: "'v smat \<Rightarrow> bool" where
  "dims_ok S \<longleftrightarrow> size_ok (int (srows S)) \<and> size_ok (int (scols S)) \<and> size_ok (int (svals S))"

definition read_upto :: "'v dmat \<Rightarrow> nat \<Rightarrow> nat \<Rightarrow> 'v list list \<Rightarrow> bool" where
  "read_upto D i j V \<longleftrightarrow> shaped (drows D) (dcols D) V \<and>
     (\<forall>r<drows D. \<forall>c<dcols D. r < i \<or> r = i \<and> c < j \<longrightarrow> V ! r ! c = dvalue D ! r ! c)"

lemma read_upto_put:
  assumes "read_upto D i j V" and "i < drows D" and "j < dcols D"
  shows "read_upto D i (Suc j) (put_entry V (i, j, dvalue D ! i ! j))"
  using assms shaped_put [of "drows D" "dcols D" V i j "dvalue D ! i ! j"] shaped_row [of "drows D" "dcols D" V i]
  by (auto simp: read_upto_def put_entry_def nth_list_update shaped_def less_Suc_eq)

lemma read_upto_Suc: "read_upto D i (dcols D) V \<Longrightarrow> read_upto D (Suc i) 0 V"
  by (auto simp: read_upto_def less_Suc_eq)

text \<open>
  A format: how a count, a row number and a value are written (a value at the end of a line, or
  inside it), and how they are read. \<open>same\<close> says that the reader cannot tell two inputs apart.
\<close>

locale matrix_format =
  fixes same :: "string \<Rightarrow> string \<Rightarrow> bool"
    and pn :: "int \<Rightarrow> string"
    and pr :: "int \<Rightarrow> string"
    and px :: "'f \<Rightarrow> bool \<Rightarrow> ('v :: zero) \<Rightarrow> string"
    and geti :: "int get"
    and getx :: "'f \<Rightarrow> ('v :: zero) get"
    and okx :: "'f \<Rightarrow> 'v \<Rightarrow> bool"
  assumes same_refl: "same t t"
    and get_count: "size_ok n \<Longrightarrow> same t (pn n @ rest) \<Longrightarrow> \<exists>t'. geti t = Some (n, t') \<and> same t' rest"
    and get_row: "size_ok n \<Longrightarrow> same t (pr n @ rest) \<Longrightarrow> \<exists>t'. geti t = Some (n, t') \<and> same t' rest"
    and get_value: "okx F x \<Longrightarrow> same t (px F b x @ rest) \<Longrightarrow> \<exists>t'. getx F t = Some (x, t') \<and> same t' rest"
begin

lemma cells_copied:
  assumes "wf_smat S" and "dims_ok S" and "\<forall>x\<in>set (svalue S). okx F x"
  shows "v + n \<le> svals S \<Longrightarrow> \<exists>out. write_cells (\<lambda>r x. pr r @ px F True x) S n v = Some out \<and>
    (\<forall>t rest T. same t (out @ rest) \<longrightarrow> copied S v T \<longrightarrow>
      (\<exists>t' T'. load_cells msg geti (getx F) early n v t T = Loaded (v + n, t', T') \<and> same t' rest \<and>
        copied S (v + n) T' \<and> pointr T' = pointr T))"
proof (induction n arbitrary: v)
  case (Suc n)
  have l: "v < length (rowind S)" "v < length (svalue S)" "rowind S ! v < srows S"
    using Suc.prems assms(1) by (simp_all add: wf_smat_def)
  have r: "size_ok (int (rowind S ! v))" using l(3) assms(2) by (simp add: dims_ok_def size_ok_def)
  have x: "okx F (svalue S ! v)" using assms(3) l(2) by simp
  have v1: "v + 1 + n \<le> svals S" using Suc.prems by simp
  obtain out where out: "write_cells (\<lambda>r x. pr r @ px F True x) S n (v + 1) = Some out"
    and ih: "\<forall>t rest T. same t (out @ rest) \<longrightarrow> copied S (v + 1) T \<longrightarrow>
      (\<exists>t' T'. load_cells msg geti (getx F) early n (v + 1) t T = Loaded (v + 1 + n, t', T') \<and> same t' rest \<and>
        copied S (v + 1 + n) T' \<and> pointr T' = pointr T)"
    using Suc.IH [OF v1] by (elim exE conjE) (rule that)
  let ?o = "pr (int (rowind S ! v)) @ px F True (svalue S ! v) @ out"
  have w: "write_cells (\<lambda>r x. pr r @ px F True x) S (Suc n) v = Some ?o"
    using out l by (simp add: cell_def append_out_def)
  have "\<exists>t' T'. load_cells msg geti (getx F) early (Suc n) v t T = Loaded (v + Suc n, t', T') \<and> same t' rest \<and>
      copied S (v + Suc n) T' \<and> pointr T' = pointr T" if t: "same t (?o @ rest)" and c: "copied S v T" for t rest T
  proof -
    obtain t1 where t1: "geti t = Some (int (rowind S ! v), t1)" "same t1 (px F True (svalue S ! v) @ out @ rest)"
      using get_row [OF r, of t "px F True (svalue S ! v) @ out @ rest"] t by auto
    obtain t2 where t2: "getx F t1 = Some (svalue S ! v, t2)" "same t2 (out @ rest)"
      using get_value [OF x t1(2)] by blast
    let ?T = "put_cell v (int (rowind S ! v)) (svalue S ! v) T"
    have "copied S (v + 1) ?T" using copied_put [OF c assms(1)] Suc.prems by simp
    then obtain t' T' where "load_cells msg geti (getx F) early n (v + 1) t2 ?T = Loaded (v + 1 + n, t', T')" "same t' rest"
      "copied S (v + 1 + n) T'" "pointr T' = pointr ?T"
      using ih t2(2) by blast
    then show ?thesis using t1(1) t2(1) r c Suc.prems by (simp add: need_def copied_def put_cell_def)
  qed
  with w show ?case by blast
qed (auto simp: copied_def)

lemma cols_copied:
  assumes "wf_smat S" and "dims_ok S" and "\<forall>x\<in>set (svalue S). okx F x"
  shows "c + m = scols S \<Longrightarrow> \<exists>out. write_cols pn (\<lambda>r x. pr r @ px F True x) S m c (pointr S ! c) = Some out \<and>
    (\<forall>t rest T. same t (out @ rest) \<longrightarrow> copied S (pointr S ! c) T \<longrightarrow> take c (pointr T) = take c (pointr S) \<longrightarrow>
      (\<exists>T'. load_cols msg geti (getx F) early m c (pointr S ! c) t T = Loaded T' \<and>
        copied S (svals S) T' \<and> take (scols S) (pointr T') = take (scols S) (pointr S)))"
proof (induction m arbitrary: c)
  case 0
  then have "pointr S ! c = svals S" using assms(1) by (simp add: wf_smat_def)
  with 0 show ?case by simp
next
  case (Suc m)
  let ?a = "pointr S ! c" and ?b = "pointr S ! (c + 1)" and ?pc = "\<lambda>r x. pr r @ px F True x"
  have c: "c < length (pointr S)" "c + 1 < length (pointr S)" using Suc.prems assms(1) by (simp_all add: wf_smat_def)
  have ab: "?a \<le> ?b" "?b \<le> svals S"
    using Suc.prems wf_pointr_le [OF assms(1), of c "c + 1"] wf_pointr_vals [OF assms(1), of "c + 1"] by simp_all
  have ab': "?a + (?b - ?a) \<le> svals S" and c1: "c + 1 + m = scols S" using ab Suc.prems by simp_all
  have n: "size_ok (int ?b - int ?a)" using ab assms(2) by (simp add: dims_ok_def size_ok_def)
  obtain o1 where o1: "write_cells ?pc S (?b - ?a) ?a = Some o1"
    and cells: "\<forall>t rest T. same t (o1 @ rest) \<longrightarrow> copied S ?a T \<longrightarrow>
      (\<exists>t' T'. load_cells msg geti (getx F) early (?b - ?a) ?a t T = Loaded (?a + (?b - ?a), t', T') \<and> same t' rest \<and>
        copied S (?a + (?b - ?a)) T' \<and> pointr T' = pointr T)"
    using cells_copied [OF assms ab', where msg = msg and early = early] by (elim exE conjE) (rule that)
  obtain o2 where o2: "write_cols pn ?pc S m (c + 1) ?b = Some o2"
    and cols: "\<forall>t rest T. same t (o2 @ rest) \<longrightarrow> copied S ?b T \<longrightarrow> take (c + 1) (pointr T) = take (c + 1) (pointr S) \<longrightarrow>
      (\<exists>T'. load_cols msg geti (getx F) early m (c + 1) ?b t T = Loaded T' \<and>
        copied S (svals S) T' \<and> take (scols S) (pointr T') = take (scols S) (pointr S))"
    using Suc.IH [OF c1] by (elim exE conjE) (rule that)
  let ?o = "pn (int ?b - int ?a) @ o1 @ o2"
  have w: "write_cols pn ?pc S (Suc m) c ?a = Some ?o"
    using o1 o2 c ab by (simp add: cell_def append_out_def max_def)
  have "\<exists>T'. load_cols msg geti (getx F) early (Suc m) c ?a t T = Loaded T' \<and>
      copied S (svals S) T' \<and> take (scols S) (pointr T') = take (scols S) (pointr S)"
    if t: "same t (?o @ rest)" and T: "copied S ?a T" "take c (pointr T) = take c (pointr S)" for t rest T
  proof -
    obtain t1 where t1: "geti t = Some (int ?b - int ?a, t1)" "same t1 (o1 @ o2 @ rest)"
      using get_count [OF n, of t "o1 @ o2 @ rest"] t by auto
    let ?T = "T\<lparr>pointr := (pointr T)[c := ?a]\<rparr>"
    have "copied S ?a ?T" using T(1) by (simp add: copied_def)
    then obtain t2 T2 where T2: "load_cells msg geti (getx F) early (?b - ?a) ?a t1 ?T = Loaded (?a + (?b - ?a), t2, T2)"
      "same t2 (o2 @ rest)" "copied S (?a + (?b - ?a)) T2" "pointr T2 = (pointr T)[c := ?a]"
      using cells t1(2) by fastforce
    have k: "?a + (?b - ?a) = ?b" using ab by simp
    have "c < length (pointr T)" using T(1) Suc.prems by (simp add: copied_def)
    then have "take (c + 1) (pointr T2) = take (c + 1) (pointr S)"
      using T2(4) T(2) c by (simp add: take_Suc_update take_Suc_conv_app_nth)
    then obtain T' where "load_cols msg geti (getx F) early m (c + 1) ?b t2 T2 = Loaded T'" "copied S (svals S) T'"
      "take (scols S) (pointr T') = take (scols S) (pointr S)"
      using cols T2(2,3) unfolding k by blast
    moreover have "nat (int ?b - int ?a) = ?b - ?a" by simp
    ultimately show ?thesis using t1(1) T2(1) k by (simp add: need_def)
  qed
  with w show ?case by blast
qed

lemma sparse_copied:
  assumes "wf_smat S" and "dims_ok S" and "\<forall>x\<in>set (svalue S). okx F x"
  shows "\<exists>out. append_out (Some (pr (int (srows S)) @ pr (int (scols S)) @ pn (int (svals S))))
      (write_cols pn (\<lambda>r x. pr r @ px F True x) S (scols S) 0 0) = Some out \<and>
    load_sparse h msg geti (getx F) early out = Loaded (S :: 'v smat)"
proof -
  have p0: "pointr S ! 0 = 0" using assms(1) by (simp add: wf_smat_def)
  obtain out where out: "write_cols pn (\<lambda>r x. pr r @ px F True x) S (scols S) 0 0 = Some out"
    and cols: "\<forall>t rest T. same t (out @ rest) \<longrightarrow> copied S 0 T \<longrightarrow> take 0 (pointr T) = take 0 (pointr S) \<longrightarrow>
      (\<exists>T'. load_cols msg geti (getx F) early (scols S) 0 0 t T = Loaded T' \<and>
        copied S (svals S) T' \<and> take (scols S) (pointr T') = take (scols S) (pointr S))"
    using cols_copied [OF assms add_0, where msg = msg and early = early] unfolding p0 by (elim exE conjE) (rule that)
  let ?o = "pr (int (srows S)) @ pr (int (scols S)) @ pn (int (svals S)) @ out"
  have s: "size_ok (int (srows S))" "size_ok (int (scols S))" "size_ok (int (svals S))"
    using assms(2) by (simp_all add: dims_ok_def)
  obtain t1 where t1: "geti ?o = Some (int (srows S), t1)" "same t1 (pr (int (scols S)) @ pn (int (svals S)) @ out)"
    using get_row [OF s(1) same_refl] by auto
  obtain t2 where t2: "geti t1 = Some (int (scols S), t2)" "same t2 (pn (int (svals S)) @ out)"
    using get_row [OF s(2) t1(2)] by auto
  obtain t3 where t3: "geti t2 = Some (int (svals S), t3)" "same t3 (out @ '''')"
    using get_count [OF s(3) t2(2)] by auto
  let ?T = "svdNewSMat h (srows S) (scols S) (svals S)"
  have "copied S 0 ?T" by (simp add: copied_def svdNewSMat_def)
  then obtain T' where T': "load_cols msg geti (getx F) early (scols S) 0 0 t3 ?T = Loaded T'" "copied S (svals S) T'"
    "take (scols S) (pointr T') = take (scols S) (pointr S)"
    using cols t3(2) by fastforce
  have "length (pointr S) = scols S + 1" "pointr S ! scols S = svals S" using assms(1) by (simp_all add: wf_smat_def)
  then have "(pointr T')[scols S := svals S] = pointr S"
    using T'(2,3) take_Suc_update [of "scols S" "pointr T'" "svals S"] take_Suc_conv_app_nth [of "scols S" "pointr S"]
    by (simp add: copied_def)
  then have "close_cols T' = S"
    using T'(2) assms(1) by (auto simp: close_cols_def copied_def wf_smat_def intro!: smat.equality)
  then have "load_sparse h msg geti (getx F) early ?o = Loaded S"
    using t1(1) t2(1) t3(1) s T'(1) by (simp add: load_sparse_def get3_def need_def new_smat_def)
  with out show ?thesis by (simp add: append_out_def)
qed

text \<open>Dense matrices: the elements before row \<open>i\<close>, column \<open>j\<close> have been read.\<close>

lemma row_copied:
  assumes "wf_dmat D" and "i < drows D" and "\<forall>row\<in>set (dvalue D). \<forall>x\<in>set row. okx F x"
  shows "j + n = dcols D \<Longrightarrow> \<exists>out. write_row (\<lambda>x j. px F (b j) x) D i n j = Some out \<and>
    (\<forall>t rest V. same t (out @ rest) \<longrightarrow> read_upto D i j V \<longrightarrow>
      (\<exists>t' V'. load_row msg (getx F) i n j t V = Loaded (t', V') \<and> same t' rest \<and> read_upto D i (dcols D) V'))"
proof (induction n arbitrary: j)
  case (Suc n)
  have r: "dvalue D ! i \<in> set (dvalue D)" "length (dvalue D ! i) = dcols D" "i < length (dvalue D)"
    using assms(1,2) by (simp_all add: wf_dmat_def)
  have j: "j < dcols D" "Suc j + n = dcols D" using Suc.prems by simp_all
  let ?x = "dvalue D ! i ! j"
  have x: "okx F ?x" using assms(3) r(1,2) j(1) by (metis nth_mem)
  obtain out where out: "write_row (\<lambda>x j. px F (b j) x) D i n (Suc j) = Some out"
    and ih: "\<forall>t rest V. same t (out @ rest) \<longrightarrow> read_upto D i (Suc j) V \<longrightarrow>
      (\<exists>t' V'. load_row msg (getx F) i n (Suc j) t V = Loaded (t', V') \<and> same t' rest \<and> read_upto D i (dcols D) V')"
    using Suc.IH [OF j(2)] by (elim exE conjE) (rule that)
  have w: "write_row (\<lambda>x j. px F (b j) x) D i (Suc n) j = Some (px F (b j) ?x @ out)"
    using out r j by (simp add: dense_cell_def get2_def append_out_def)
  have "\<exists>t' V'. load_row msg (getx F) i (Suc n) j t V = Loaded (t', V') \<and> same t' rest \<and> read_upto D i (dcols D) V'"
    if t: "same t ((px F (b j) ?x @ out) @ rest)" and V: "read_upto D i j V" for t rest V
  proof -
    obtain t1 where t1: "getx F t = Some (?x, t1)" "same t1 (out @ rest)"
      using get_value [OF x, of t "b j" "out @ rest"] t by auto
    have p: "put2 V i j ?x = Some (put_entry V (i, j, ?x))"
      using V j(1) assms(2) by (intro put2_entry) (auto simp: read_upto_def)
    obtain t' V' where "load_row msg (getx F) i n (Suc j) t1 (put_entry V (i, j, ?x)) = Loaded (t', V')" "same t' rest"
      "read_upto D i (dcols D) V'"
      using ih t1(2) read_upto_put [OF V assms(2) j(1)] by blast
    then show ?thesis using t1(1) p by (simp add: need_def)
  qed
  with w show ?case by blast
qed auto

lemma rows_copied:
  assumes "wf_dmat D" and "\<forall>row\<in>set (dvalue D). \<forall>x\<in>set row. okx F x"
  shows "i + m = drows D \<Longrightarrow> \<exists>out. write_rows (\<lambda>x j. px F (b j) x) D m i = Some out \<and>
    (\<forall>t rest V. same t (out @ rest) \<longrightarrow> read_upto D i 0 V \<longrightarrow>
      (\<exists>V'. load_rows msg (getx F) (dcols D) m i t V = Loaded V' \<and> read_upto D (drows D) 0 V'))"
proof (induction m arbitrary: i)
  case (Suc m)
  have i: "i < drows D" "Suc i + m = drows D" using Suc.prems by simp_all
  obtain o1 where o1: "write_row (\<lambda>x j. px F (b j) x) D i (dcols D) 0 = Some o1"
    and row: "\<forall>t rest V. same t (o1 @ rest) \<longrightarrow> read_upto D i 0 V \<longrightarrow>
      (\<exists>t' V'. load_row msg (getx F) i (dcols D) 0 t V = Loaded (t', V') \<and> same t' rest \<and> read_upto D i (dcols D) V')"
    using row_copied [OF assms(1) i(1) assms(2) add_0, where b = b and msg = msg] by (elim exE conjE) (rule that)
  obtain o2 where o2: "write_rows (\<lambda>x j. px F (b j) x) D m (Suc i) = Some o2"
    and rows: "\<forall>t rest V. same t (o2 @ rest) \<longrightarrow> read_upto D (Suc i) 0 V \<longrightarrow>
      (\<exists>V'. load_rows msg (getx F) (dcols D) m (Suc i) t V = Loaded V' \<and> read_upto D (drows D) 0 V')"
    using Suc.IH [OF i(2)] by (elim exE conjE) (rule that)
  have w: "write_rows (\<lambda>x j. px F (b j) x) D (Suc m) i = Some (o1 @ o2)" using o1 o2 by (simp add: append_out_def)
  have "\<exists>V'. load_rows msg (getx F) (dcols D) (Suc m) i t V = Loaded V' \<and> read_upto D (drows D) 0 V'"
    if t: "same t ((o1 @ o2) @ rest)" and V: "read_upto D i 0 V" for t rest V
  proof -
    have "same t (o1 @ o2 @ rest)" using t by simp
    then obtain t1 V1 where r: "load_row msg (getx F) i (dcols D) 0 t V = Loaded (t1, V1)" "same t1 (o2 @ rest)"
      "read_upto D i (dcols D) V1"
      using row V by blast
    then obtain V' where "load_rows msg (getx F) (dcols D) m (Suc i) t1 V1 = Loaded V'" "read_upto D (drows D) 0 V'"
      using rows read_upto_Suc by blast
    then show ?thesis using r(1) by simp
  qed
  with w show ?case by blast
qed auto

lemma dense_copied:
  assumes "wf_dmat D" and "0 < drows D" and "size_ok (int (drows D))" and "size_ok (int (dcols D))"
    and "\<forall>row\<in>set (dvalue D). \<forall>x\<in>set row. okx F x"
  shows "\<exists>out. append_out (Some (pr (int (drows D)) @ pn (int (dcols D)))) (write_rows (\<lambda>x j. px F (b j) x) D (drows D) 0) =
      Some out \<and> load_dense msg geti (getx F) out = Loaded (D :: 'v dmat)"
proof -
  obtain out where out: "write_rows (\<lambda>x j. px F (b j) x) D (drows D) 0 = Some out"
    and rows: "\<forall>t rest V. same t (out @ rest) \<longrightarrow> read_upto D 0 0 V \<longrightarrow>
      (\<exists>V'. load_rows msg (getx F) (dcols D) (drows D) 0 t V = Loaded V' \<and> read_upto D (drows D) 0 V')"
    using rows_copied [OF assms(1,5) add_0, where b = b and msg = msg] by (elim exE conjE) (rule that)
  let ?o = "pr (int (drows D)) @ pn (int (dcols D)) @ out"
  obtain t1 where t1: "geti ?o = Some (int (drows D), t1)" "same t1 (pn (int (dcols D)) @ out)"
    using get_row [OF assms(3) same_refl] by auto
  obtain t2 where t2: "geti t1 = Some (int (dcols D), t2)" "same t2 (out @ '''')"
    using get_count [OF assms(4) t1(2)] by auto
  let ?Z = "replicate (drows D) (replicate (dcols D) 0)"
  have "read_upto D 0 0 ?Z" by (simp add: read_upto_def shaped_def)
  then obtain V' where V': "load_rows msg (getx F) (dcols D) (drows D) 0 t2 ?Z = Loaded V'" "read_upto D (drows D) 0 V'"
    using rows t2(2) by blast
  have "\<lparr>drows = drows D, dcols = dcols D, dvalue = V'\<rparr> = D"
    using V'(2) assms(1) by (intro dmat_eqI) (simp_all add: read_upto_def shaped_def wf_dmat_def)
  then have "load_dense msg geti (getx F) ?o = Loaded D"
    using t1(1) t2(1) V'(1) assms(2,3,4) by (simp add: load_dense_def need_def new_dmat_def svdNewDMat_def)
  with out show ?thesis by (simp add: append_out_def)
qed

end

section \<open>The text formats\<close>

definition same_input :: "string \<Rightarrow> string \<Rightarrow> bool" where
  "same_input s t \<longleftrightarrow> dropWhile c_isspace s = dropWhile c_isspace t"

lemma same_input_space: "c_isspace c \<Longrightarrow> same_input (c # s) s"
  by (simp add: same_input_def)

lemma scan_int_same: "same_input s t \<Longrightarrow> scan_int s = scan_int t"
  by (simp add: same_input_def scan_int_def)

lemma space_chars: "c_isspace lf" "c_isspace CHR '' ''" "\<not> c_isdigit lf" "\<not> c_isdigit CHR '' ''"
  by (simp_all add: c_isspace_def c_isdigit_def lf_def)

text \<open>
  What the loaders rely on: reading a number skips white space, and reads back what was printed
  of \<open>x\<close> when white space follows, as it does for a value that \<^verbatim>\<open>%g\<close> shows exactly.
\<close>

definition text_ok :: "'v numfmt \<Rightarrow> 'v \<Rightarrow> bool" where
  "text_ok F x \<longleftrightarrow> (\<forall>s t. same_input s t \<longrightarrow> scan_lf F s = scan_lf F t) \<and>
     (\<forall>c rest. c_isspace c \<longrightarrow> scan_lf F (show_g F x @ c # rest) = Some (x, c # rest))"

definition text_count :: "int \<Rightarrow> string" where
  "text_count n = int_str n @ newline"

definition text_row :: "int \<Rightarrow> string" where
  "text_row n = int_str n @ '' ''"

definition text_value :: "'v numfmt \<Rightarrow> bool \<Rightarrow> 'v \<Rightarrow> string" where
  "text_value F b x = show_g F x @ (if b then newline else '' '')"

lemma text_get_int:
  assumes "c_isspace c" and "\<not> c_isdigit c" and "same_input t (int_str n @ c # rest)"
  shows "\<exists>t'. scan_int t = Some (n, t') \<and> same_input t' rest"
proof -
  have "no_digit (c # rest)" using assms(2) by (simp add: no_digit_def)
  then have "scan_int t = Some (n, c # rest)" using scan_int_same [OF assms(3)] scan_int_int_str by simp
  then show ?thesis using same_input_space [OF assms(1)] by blast
qed

interpretation text_file: matrix_format same_input text_count text_row text_value scan_int scan_lf text_ok
proof
  show "same_input t t" for t by (simp add: same_input_def)
  show "\<exists>t'. scan_int t = Some (n, t') \<and> same_input t' rest" if "same_input t (text_count n @ rest)" for n t rest
    using that text_get_int [OF space_chars(1,3)] by (simp add: text_count_def newline_lf)
  show "\<exists>t'. scan_int t = Some (n, t') \<and> same_input t' rest" if "same_input t (text_row n @ rest)" for n t rest
    using that text_get_int [OF space_chars(2,4)] by (simp add: text_row_def)
  fix F :: "'a numfmt" and x b t rest
  assume ok: "text_ok F x" and t: "same_input t (text_value F b x @ rest)"
  let ?c = "if b then lf else CHR '' ''"
  have c: "c_isspace ?c" using space_chars by simp
  have "text_value F b x @ rest = show_g F x @ ?c # rest" by (simp add: text_value_def newline_lf)
  then have "scan_lf F t = Some (x, ?c # rest)" using ok t c unfolding text_ok_def by metis
  then show "\<exists>t'. scan_lf F t = Some (x, t') \<and> same_input t' rest" using same_input_space [OF c] by blast
qed

section \<open>The binary formats\<close>

lemma bytes_value:
  assumes "0 \<le> n" and "n < 4294967296"
  shows "n div 2 ^ 0 mod 256 + 256 * (n div 2 ^ 8 mod 256 + 256 * (n div 2 ^ 16 mod 256 + 256 * (n div 2 ^ 24 mod 256))) = (n :: int)"
proof -
  have m: "n div 16777216 mod 256 = n div 16777216" using assms by (intro mod_pos_pos_trivial) auto
  have d: "n div 256 div 256 = n div 65536" "n div 65536 div 256 = n div 16777216"
    using zdiv_zmult2_eq [of 256 n 256] zdiv_zmult2_eq [of 256 n 65536] by simp_all
  have p: "n div 2 ^ 0 = n" "n div 2 ^ 8 = n div 256" "n div 2 ^ 16 = n div 256 div 256"
    "n div 2 ^ 24 mod 256 = n div 256 div 256 div 256"
    unfolding d using m by simp_all
  show ?thesis unfolding p by (simp only: mod_mult_div_eq)
qed

lemma byte_value: "int (of_char (char_of (nat (k mod 256)))) = k mod 256"
proof -
  have "nat (k mod 256) < 256" by (simp add: nat_less_iff)
  then have "(of_char (char_of (nat (k mod 256)) :: char) :: nat) = nat (k mod 256)" by simp
  then show ?thesis by (simp only: int_nat_eq pos_mod_sign zero_less_numeral if_True)
qed

lemma horner_bytes:
  "horner_sum (\<lambda>c. int (of_char c)) 256 (rev (map (\<lambda>k. char_of (nat (n div 2 ^ k mod 256))) [24, 16, 8, 0])) =
    n div 2 ^ 0 mod 256 + 256 * (n div 2 ^ 8 mod 256 + 256 * (n div 2 ^ 16 mod 256 + 256 * (n div 2 ^ 24 mod 256)))"
  by (simp only: list.map rev.simps append.simps horner_sum_simps byte_value mult_zero_right add_0_right)

lemma be_word_bytes: "be_word (be_bytes w) = w"
  unfolding be_word_def be_bytes_def horner_bytes bytes_value [OF uint_ge_0 uint_less_u32] by (rule word_of_int_uint)

lemma be_bytes_length [simp]: "length (be_bytes w) = 4"
  by (simp add: be_bytes_def)

lemma fread4_bytes: "fread4 (be_bytes w @ rest) = Some (w, rest)"
  by (simp add: fread4_def be_word_bytes)

lemma sint_small: "size_ok n \<Longrightarrow> sint (word_of_int n :: u32) = n"
  by (simp add: size_ok_def signed_of_int signed_take_bit_int_eq_self)

lemma bin_int_back: "size_ok n \<Longrightarrow> svd_readBinInt (svd_writeBinInt n @ rest) = Some (n, rest)"
  by (simp add: svd_readBinInt_def svd_writeBinInt_def fread4_bytes sint_small)

text \<open>A value that a \<^verbatim>\<open>float\<close> holds exactly.\<close>

definition float_ok :: "'v numfmt \<Rightarrow> 'v \<Rightarrow> bool" where
  "float_ok F x \<longleftrightarrow> of_float F (to_float F x) = x"

definition binary_value :: "'v numfmt \<Rightarrow> bool \<Rightarrow> 'v \<Rightarrow> string" where
  "binary_value F b x = svd_writeBinFloat F x"

interpretation binary_file: matrix_format "(=)" svd_writeBinInt svd_writeBinInt binary_value svd_readBinInt svd_readBinFloat float_ok
  by unfold_locales
    (simp_all add: svd_writeBinInt_def svd_readBinInt_def svd_readBinFloat_def binary_value_def svd_writeBinFloat_def
      fread4_bytes sint_small float_ok_def)

section \<open>The Harwell-Boeing text\<close>

lemma same_input_trans: "same_input s t \<Longrightarrow> same_input t u \<Longrightarrow> same_input s u"
  by (simp add: same_input_def)

lemma same_input_spaces: "same_input (replicate k CHR '' '' @ s) s"
  by (induction k) (simp_all add: same_input_def space_chars)

lemma nat_str_length: "n < 10 ^ Suc k \<Longrightarrow> length (nat_str n) \<le> Suc k"
proof (induction k arbitrary: n)
  case 0
  then show ?case by (subst nat_str.simps) simp
next
  case (Suc k)
  have "n div 10 < 10 ^ Suc k" using Suc.prems by (intro div_less_iff_less_mult [THEN iffD2]) simp_all
  from Suc.IH [OF this] show ?case by (subst nat_str.simps) simp
qed

lemma nat_str_length14: "n < 10 ^ 13 \<Longrightarrow> length (nat_str n) \<le> 13"
  using nat_str_length [of n 12] by (simp only: Suc_eq_plus1 numeral_plus_one semiring_norm)

lemma num14_nat: "num14 (int n) = replicate (14 - length (nat_str n)) CHR '' '' @ nat_str n"
  by (simp add: num14_def pad_left_def int_str_def)

lemma num14_length: "n < 10 ^ 13 \<Longrightarrow> length (num14 (int n)) = 14"
  using nat_str_length14 [of n] by (simp add: num14_nat)

lemma num14_no_lf: "lf \<notin> set (num14 (int n))"
  using nat_str_digits [of lf n] space_chars by (auto simp: num14_nat lf_def)

lemma num14_starts: "n < 10 ^ 13 \<Longrightarrow> \<exists>s. num14 (int n) = CHR '' '' # s"
  using nat_str_length14 [of n] by (cases "14 - length (nat_str n)") (simp_all add: num14_nat)

lemma scan_num14:
  assumes "no_digit rest" and "same_input t (num14 (int n) @ rest)"
  shows "scan_int t = Some (int n, rest)"
proof -
  have "same_input (num14 (int n) @ rest) (nat_str n @ rest)"
    using same_input_spaces [of "14 - length (nat_str n)" "nat_str n @ rest"] by (simp add: num14_nat)
  then have "scan_int t = scan_int (nat_str n @ rest)" using scan_int_same same_input_trans [OF assms(2)] by blast
  also have "\<dots> = Some (int n, rest)" using scan_int_int_str [OF assms(1), of "int n"] by (simp add: int_str_def)
  finally show ?thesis .
qed

lemma skip_line_line:
  assumes "lf \<notin> set l" and "length l \<le> 126"
  shows "skip_line (l @ lf # rest) = rest"
proof -
  have "takeWhile (\<lambda>c. c \<noteq> lf) (l @ lf # rest) = l" using assms(1) by (subst takeWhile_append2) auto
  then show ?thesis using assms(2) by (simp add: skip_line_def)
qed

lemma lines8_le: "lines8 n \<le> n + 1"
  using div_le_dividend [of n 8] by (simp add: lines8_def le_SucI del: div_le_dividend)

definition hb_line1 :: string where
  "hb_line1 = pad_right 72 ''SVDLIBC v. 1.34'' @ pad_right 8 ''<key>''"

definition hb_line4 :: string where
  "hb_line4 = pad_left 16 ''(8i)'' @ pad_left 16 ''(8e)'' @ pad_left 16 ''(8e)''"

lemma hb_line1_ok: "lf \<notin> set hb_line1" "length hb_line1 \<le> 126"
  by (auto simp: hb_line1_def pad_right_def lf_def)

lemma hb_line4_ok: "lf \<notin> set (''(8i)'' @ hb_line4)" "length (''(8i)'' @ hb_line4) \<le> 126"
  by (auto simp: hb_line4_def pad_left_def lf_def)

lemma space_line4: "dropWhile c_isspace (lf # pad_left 16 ''(8i)'' @ rest) = ''(8i)'' @ rest"
proof -
  have "same_input (pad_left 16 ''(8i)'' @ rest) (''(8i)'' @ rest)"
    using same_input_spaces [of 12 "''(8i)'' @ rest"] by (simp add: pad_left_def)
  then have "dropWhile c_isspace (pad_left 16 ''(8i)'' @ rest) = dropWhile c_isspace (''(8i)'' @ rest)"
    by (simp add: same_input_def)
  then show ?thesis by (simp add: space_chars) (simp add: c_isspace_def)
qed

lemma scan_rra: "hb_word (pad_right 14 ''rra'' @ rest) = Some (replicate 11 CHR '' '' @ rest)"
  by (simp add: hb_word_def pad_right_def numeral_eq_Suc c_isspace_def)

lemma hb_header_read:
  assumes "dims_ok S"
  shows "scan_dims (skip_line (skip_line (hb_header S @ rest))) =
    Some ((int (srows S), int (scols S), int (svals S), 0), ''(8i)'' @ hb_line4 @ lf # rest)"
proof -
  let ?c = "lines8 (scols S + 1)" and ?r = "lines8 (svals S)"
  have d: "srows S < 10 ^ 13" "scols S < 10 ^ 13" "svals S < 10 ^ 13" "?c < 10 ^ 13" "?r < 10 ^ 13" "?c + 2 * ?r < 10 ^ 13"
    using assms lines8_le [of "scols S + 1"] lines8_le [of "svals S"] by (simp_all add: dims_ok_def size_ok_def)
  let ?l2 = "num14 (int (?c + 2 * ?r)) @ num14 (int ?c) @ num14 (int ?r) @ num14 (int ?r) @ num14 (int 0)"
  let ?l3 = "num14 (int (srows S)) @ num14 (int (scols S)) @ num14 (int (svals S)) @ num14 (int 0)"
  let ?l4 = "lf # pad_left 16 ''(8i)'' @ hb_line4 @ lf # rest"
  have h: "hb_header S @ rest = hb_line1 @ lf # ?l2 @ lf # pad_right 14 ''rra'' @ ?l3 @ ?l4"
    by (simp add: hb_header_def hb_line1_def hb_line4_def newline_lf Let_def)
  have "lf \<notin> set ?l2" unfolding set_append Un_iff using num14_no_lf by blast
  moreover have "length ?l2 \<le> 126"
    using num14_length [OF d(6)] num14_length [OF d(4)] num14_length [OF d(5)] num14_length [of 0]
    by (simp del: of_nat_add of_nat_mult of_nat_0)
  ultimately have s: "skip_line (skip_line (hb_header S @ rest)) = pad_right 14 ''rra'' @ ?l3 @ ?l4"
    unfolding h skip_line_line [OF hb_line1_ok] by (rule skip_line_line)
  have nd: "no_digit (num14 (int n) @ x)" if "n < 10 ^ 13" for n x
    using num14_starts [OF that] space_chars(4) by (auto simp: no_digit_def)
  have r: "same_input (replicate 11 CHR '' '' @ ?l3 @ ?l4) (?l3 @ ?l4)" by (rule same_input_spaces)
  have e: "no_digit ?l4" using space_chars(3) by (simp add: no_digit_def)
  have refl: "same_input x x" for x by (simp add: same_input_def)
  have z: "num14 (int 0) = num14 0" by simp
  have i1: "scan_int (replicate 11 CHR '' '' @ ?l3 @ ?l4) =
      Some (int (srows S), num14 (int (scols S)) @ num14 (int (svals S)) @ num14 (int 0) @ ?l4)"
    using r by (intro scan_num14 nd d) simp
  have i2: "scan_int (num14 (int (scols S)) @ num14 (int (svals S)) @ num14 (int 0) @ ?l4) =
      Some (int (scols S), num14 (int (svals S)) @ num14 (int 0) @ ?l4)"
    by (intro scan_num14 nd d refl)
  have i3: "scan_int (num14 (int (svals S)) @ num14 (int 0) @ ?l4) = Some (int (svals S), num14 (int 0) @ ?l4)"
    by (intro scan_num14 nd refl) simp
  have i4: "scan_int (num14 (int 0) @ ?l4) = Some (int 0, ?l4)"
    by (intro scan_num14 e refl)
  show ?thesis
    unfolding s scan_dims_def scan_rra option.case get3_def i1 i2 i3 i4 prod.case space_line4 by simp
qed

lemma hb_end_char: "\<exists>c. hb_end i = [c] \<and> c_isspace c \<and> \<not> c_isdigit c"
  using space_chars by (auto simp: hb_end_def newline_lf)

lemma hb_longs:
  assumes "\<forall>i<length ys. f i = Some (int_str (int (ys ! i) + 1))" and "\<forall>y\<in>set ys. size_ok (int y)"
  shows "i + n = length ys \<Longrightarrow> \<exists>out. hb_items f n i = Some out \<and>
    (\<forall>t rest xs. same_input t (out @ rest) \<longrightarrow> length xs = length ys \<longrightarrow> take i xs = take i ys \<longrightarrow>
      (\<exists>t'. load_hb_longs what n i t xs = Loaded (t', ys) \<and> same_input t' rest))"
proof (induction n arbitrary: i)
  case (Suc n)
  have i: "i < length ys" "Suc i + n = length ys" using Suc.prems by simp_all
  obtain out where out: "hb_items f n (Suc i) = Some out"
    and ih: "\<forall>t rest xs. same_input t (out @ rest) \<longrightarrow> length xs = length ys \<longrightarrow> take (Suc i) xs = take (Suc i) ys \<longrightarrow>
      (\<exists>t'. load_hb_longs what n (Suc i) t xs = Loaded (t', ys) \<and> same_input t' rest)"
    using Suc.IH [OF i(2)] by (elim exE conjE) (rule that)
  obtain c where c: "hb_end i = [c]" "c_isspace c" "\<not> c_isdigit c" using hb_end_char by blast
  let ?o = "(int_str (int (ys ! i) + 1) @ [c]) @ out"
  have w: "hb_items f (Suc n) i = Some ?o" using out assms(1) i(1) c(1) by (simp add: append_out_def)
  have "\<exists>t'. load_hb_longs what (Suc n) i t xs = Loaded (t', ys) \<and> same_input t' rest"
    if t: "same_input t (?o @ rest)" and xs: "length xs = length ys" "take i xs = take i ys" for t rest xs
  proof -
    obtain t1 where t1: "scan_int t = Some (int (ys ! i) + 1, t1)" "same_input t1 (out @ rest)"
      using text_get_int [OF c(2,3), of t "int (ys ! i) + 1" "out @ rest"] t by auto
    have "take (Suc i) (xs[i := ys ! i]) = take (Suc i) ys"
      using xs i(1) by (simp add: take_Suc_update take_Suc_conv_app_nth)
    then obtain t' where "load_hb_longs what n (Suc i) t1 (xs[i := ys ! i]) = Loaded (t', ys)" "same_input t' rest"
      using ih t1(2) xs(1) by (metis length_list_update)
    then show ?thesis using t1(1) assms(2) i(1) by (simp add: need_def)
  qed
  with w show ?case by blast
qed auto

lemma hb_values:
  assumes "\<forall>i<length ys. f i = Some (show_g F (ys ! i))" and "\<forall>y\<in>set ys. text_ok F y"
  shows "i + n = length ys \<Longrightarrow> \<exists>out. hb_items f n i = Some out \<and>
    (\<forall>t rest xs. same_input t (out @ rest) \<longrightarrow> length xs = length ys \<longrightarrow> take i xs = take i ys \<longrightarrow>
      load_hb_values F n i t xs = Loaded ys)"
proof (induction n arbitrary: i)
  case (Suc n)
  have i: "i < length ys" "Suc i + n = length ys" using Suc.prems by simp_all
  obtain out where out: "hb_items f n (Suc i) = Some out"
    and ih: "\<forall>t rest xs. same_input t (out @ rest) \<longrightarrow> length xs = length ys \<longrightarrow> take (Suc i) xs = take (Suc i) ys \<longrightarrow>
      load_hb_values F n (Suc i) t xs = Loaded ys"
    using Suc.IH [OF i(2)] by (elim exE conjE) (rule that)
  obtain c where c: "hb_end i = [c]" "c_isspace c" "\<not> c_isdigit c" using hb_end_char by blast
  let ?o = "(show_g F (ys ! i) @ [c]) @ out"
  have w: "hb_items f (Suc n) i = Some ?o" using out assms(1) i(1) c(1) by (simp add: append_out_def)
  have "load_hb_values F (Suc n) i t xs = Loaded ys"
    if t: "same_input t (?o @ rest)" and xs: "length xs = length ys" "take i xs = take i ys" for t rest xs
  proof -
    have ok: "text_ok F (ys ! i)" using assms(2) i(1) by simp
    then have "scan_lf F t = scan_lf F (?o @ rest)" using t by (simp only: text_ok_def)
    also have "\<dots> = Some (ys ! i, c # out @ rest)" using ok c(2) by (simp add: text_ok_def)
    finally have s: "scan_lf F t = Some (ys ! i, c # out @ rest)" .
    have "take (Suc i) (xs[i := ys ! i]) = take (Suc i) ys"
      using xs i(1) by (simp add: take_Suc_update take_Suc_conv_app_nth)
    moreover have "same_input (c # out @ rest) (out @ rest)" by (rule same_input_space [OF c(2)])
    ultimately have "load_hb_values F n (Suc i) (c # out @ rest) (xs[i := ys ! i]) = Loaded ys"
      using ih xs(1) by (metis length_list_update)
    then show ?thesis using s by (simp add: need_def)
  qed
  with w show ?case by blast
qed auto

lemma hb_copied:
  assumes "wf_smat S" and "dims_ok S" and "\<forall>x\<in>set (svalue S). text_ok F x"
  shows "\<exists>out. svdWriteSparseTextHBFile F S = Some out \<and> svdLoadSparseTextHBFile h F out = Loaded S"
proof -
  have l: "length (pointr S) = scols S + 1" "length (rowind S) = svals S" "length (svalue S) = svals S"
    "pointr S ! scols S = svals S"
    using assms(1) by (simp_all add: wf_smat_def)
  have "\<forall>p\<in>set (pointr S). p \<le> svals S"
    using wf_pointr_vals [OF assms(1)] l(1) by (auto simp: in_set_conv_nth)
  then have okp: "\<forall>p\<in>set (pointr S). size_ok (int p)" using assms(2) by (auto simp: dims_ok_def size_ok_def)
  have okr: "\<forall>r\<in>set (rowind S). size_ok (int r)" using assms(1,2) by (auto simp: dims_ok_def size_ok_def wf_smat_def)
  let ?fp = "\<lambda>i. map_option (\<lambda>p. int_str (int p + 1)) (cell (pointr S) i)"
  let ?fr = "\<lambda>i. map_option (\<lambda>r. int_str (int r + 1)) (cell (rowind S) i)"
  let ?fx = "\<lambda>i. map_option (show_g F) (cell (svalue S) i)"
  have fp: "\<forall>i<length (pointr S). ?fp i = Some (int_str (int (pointr S ! i) + 1))" by (simp add: cell_def)
  have fr: "\<forall>i<length (rowind S). ?fr i = Some (int_str (int (rowind S ! i) + 1))" by (simp add: cell_def)
  have fx: "\<forall>i<length (svalue S). ?fx i = Some (show_g F (svalue S ! i))" by (simp add: cell_def)
  obtain o1 where o1: "hb_items ?fp (scols S + 1) 0 = Some o1"
    and lp: "\<forall>t rest xs. same_input t (o1 @ rest) \<longrightarrow> length xs = length (pointr S) \<longrightarrow> take 0 xs = take 0 (pointr S) \<longrightarrow>
      (\<exists>t'. load_hb_longs ''pointr'' (scols S + 1) 0 t xs = Loaded (t', pointr S) \<and> same_input t' rest)"
    using hb_longs [OF fp okp, of 0 "scols S + 1", where what = "''pointr''"] l(1) by auto
  obtain o2 where o2: "hb_items ?fr (svals S) 0 = Some o2"
    and lr: "\<forall>t rest xs. same_input t (o2 @ rest) \<longrightarrow> length xs = length (rowind S) \<longrightarrow> take 0 xs = take 0 (rowind S) \<longrightarrow>
      (\<exists>t'. load_hb_longs ''rowind'' (svals S) 0 t xs = Loaded (t', rowind S) \<and> same_input t' rest)"
    using hb_longs [OF fr okr, of 0 "svals S", where what = "''rowind''"] l(2) by auto
  obtain o3 where o3: "hb_items ?fx (svals S) 0 = Some o3"
    and lx: "\<forall>t rest xs. same_input t (o3 @ rest) \<longrightarrow> length xs = length (svalue S) \<longrightarrow> take 0 xs = take 0 (svalue S) \<longrightarrow>
      load_hb_values F (svals S) 0 t xs = Loaded (svalue S)"
    using hb_values [OF fx assms(3), of 0 "svals S"] l(3) by auto
  let ?o = "hb_header S @ o1 @ lf # o2 @ lf # o3 @ newline"
  let ?T = "svdNewSMat h (srows S) (scols S) (svals S)"
  have t: "length (pointr ?T) = length (pointr S)" "length (rowind ?T) = length (rowind S)"
    "length (svalue ?T) = length (svalue S)" using l by (simp_all add: svdNewSMat_def)
  have refl: "same_input x x" for x by (simp add: same_input_def)
  obtain t1 where t1: "load_hb_longs ''pointr'' (scols S + 1) 0 (o1 @ lf # o2 @ lf # o3 @ newline) (pointr ?T) = Loaded (t1, pointr S)"
    "same_input t1 (lf # o2 @ lf # o3 @ newline)"
    using lp refl t(1) by (metis take_0)
  then have "same_input t1 (o2 @ lf # o3 @ newline)" using same_input_trans same_input_space [OF space_chars(1)] by blast
  then obtain t2 where t2: "load_hb_longs ''rowind'' (svals S) 0 t1 (rowind ?T) = Loaded (t2, rowind S)"
    "same_input t2 (lf # o3 @ newline)"
    using lr t(2) by (metis take_0)
  then have "same_input t2 (o3 @ newline)" using same_input_trans same_input_space [OF space_chars(1)] by blast
  then have t3: "load_hb_values F (svals S) 0 t2 (svalue ?T) = Loaded (svalue S)" using lx t(3) by (metis take_0)
  have sk: "skip_line (''(8i)'' @ hb_line4 @ lf # x) = x" for x
    using skip_line_line [OF hb_line4_ok, of x] by simp
  have s: "size_ok (int (srows S))" "size_ok (int (scols S))" "size_ok (int (svals S))" using assms(2) by (simp_all add: dims_ok_def)
  have c: "close_cols (?T\<lparr>pointr := pointr S, rowind := rowind S, svalue := svalue S\<rparr>) = S"
    using l by (auto simp: close_cols_def svdNewSMat_def list_update_same_conv intro!: smat.equality)
  have "svdLoadSparseTextHBFile h F ?o = Loaded S"
    unfolding svdLoadSparseTextHBFile_def hb_header_read [OF assms(2)]
    using t1(1) t2(1) t3 s c sk by (simp add: need_def new_smat_def)
  moreover have "svdWriteSparseTextHBFile F S = Some ?o"
    using o1 o2 o3 by (simp add: svdWriteSparseTextHBFile_def append_out_def newline_lf)
  ultimately show ?thesis by blast
qed

section \<open>A sparse matrix through its dense form\<close>

text \<open>What svdConvertDtoS makes: rows in increasing order, one entry for a place, no zero.\<close>

definition normal_smat :: "('v :: zero) smat \<Rightarrow> bool" where
  "normal_smat S \<longleftrightarrow> 0 \<notin> set (svalue S) \<and> (\<forall>c< scols S. sorted_wrt (<) (map fst (col_entries S c)))"

lemma of_row_single:
  assumes "distinct (map fst xs)" and "\<forall>e\<in>set xs. fst (snd e) = c \<and> snd (snd e) \<noteq> 0"
  shows "of_row r xs = (if stored xs r c 0 \<noteq> 0 then [(r, c, stored xs r c 0)] else [])"
  using assms
proof (induction xs)
  case (Cons e xs)
  obtain r' v where e: "e = (r', c, v)" "v \<noteq> 0" using Cons.prems(2) by (cases e) auto
  show ?case
  proof (cases "r' = r")
    case True
    then have "of_row r xs = []" using Cons.prems(1) e by (force simp: of_row_def filter_empty_conv)
    moreover from this have "stored xs r c v = v" using stored_of_row [of r xs c v] by simp
    ultimately show ?thesis using True e by (simp add: of_row_def)
  next
    case False
    then show ?thesis using Cons e by (simp add: of_row_def)
  qed
qed (simp add: of_row_def)

lemma concat_map_if: "concat (map (\<lambda>i. if P i then [g i] else []) l) = map g (filter P l)"
  by (induction l) auto

lemma sparse_dense_sparse:
  assumes "wf_smat S" and "normal_smat S" and "0 < srows S"
  shows "\<exists>D. svdConvertStoD S = Some D \<and> wf_dmat D \<and> drows D = srows S \<and> dcols D = scols S \<and>
    svdConvertDtoS h D = (S :: ('v :: zero) smat)"
proof -
  obtain D where D: "svdConvertStoD S = Some D" "wf_dmat D" "drows D = srows S" "dcols D = scols S"
    "\<forall>r< srows S. \<forall>c< scols S. dvalue D ! r ! c = stored (entries S) r c 0"
    using svdConvertStoD_entries [OF assms(1,3)] by blast
  note e = svdConvertDtoS_entries(1-3) [of h D] svdConvertDtoS_entries(4) [of _ D h]
  have "col_entries (svdConvertDtoS h D) c = col_entries S c" if "c < scols (svdConvertDtoS h D)" for c
  proof -
    have c: "c < scols S" using that e(3) D(4) by simp
    let ?xs = "col_entries S c"
    have st: "sorted_wrt (<) (map fst ?xs)" using assms(2) c by (simp add: normal_smat_def)
    then have srt: "sorted (map fst ?xs)" "distinct (map fst ?xs)" by (simp_all add: strict_sorted_iff)
    have el: "e \<in> set (entries S)" if "e \<in> set ?xs" for e using that c by (auto simp: entries_def)
    then have "snd (snd e) \<in> set (svalue S)" if "e \<in> set ?xs" for e
      using that unfolding map_rows_entries(2) [OF assms(1), symmetric] by auto
    moreover have "fst (snd e) = c" if "e \<in> set ?xs" for e using that by (auto simp: col_entries_def nz_entry_def)
    ultimately have nz: "\<forall>e\<in>set ?xs. fst (snd e) = c \<and> snd (snd e) \<noteq> 0"
      using assms(2) by (auto simp: normal_smat_def)
    have d: "dvalue D ! i ! c = stored ?xs i c 0" if "i < srows S" for i
    proof -
      have k: "fst (snd e) = q" if "e \<in> set (col_entries S q)" for q e using that by (auto simp: col_entries_def nz_entry_def)
      show ?thesis using D(5) that c stored_columns [of "col_entries S", OF k c] by (simp add: entries_def)
    qed
    have "?xs = filter (\<lambda>e. fst e < srows S) ?xs"
      using entries_range [OF assms(1)] el by (intro filter_True [symmetric]) fastforce
    also have "\<dots> = concat (map (\<lambda>r. of_row r ?xs) [0..< srows S])" by (rule concat_of_rows [OF srt(1), symmetric])
    also have "\<dots> = concat (map (\<lambda>r. if stored ?xs r c 0 \<noteq> 0 then [(r, c, stored ?xs r c 0)] else []) [0..< srows S])"
      by (simp only: of_row_single [OF srt(2) nz])
    also have "\<dots> = map (\<lambda>r. (r, c, stored ?xs r c 0)) (filter (\<lambda>r. stored ?xs r c 0 \<noteq> 0) [0..< srows S])"
      by (rule concat_map_if)
    also have "\<dots> = dcol D c (srows S)"
      unfolding dcol_def using d by (intro map_cong filter_cong) (auto cong: filter_cong)
    finally show ?thesis using e(4) c D(3,4) by simp
  qed
  then have "svdConvertDtoS h D = S" using e D by (intro smat_eqI [OF e(1) assms(1)]) simp_all
  with D show ?thesis by blast
qed

section \<open>All formats\<close>

text \<open>The format keeps the value: text as \<^verbatim>\<open>%g\<close> shows it, binary as a \<^verbatim>\<open>float\<close> holds it.\<close>

primrec exact :: "file_format \<Rightarrow> 'v numfmt \<Rightarrow> 'v \<Rightarrow> bool" where
  "exact SVD_F_STH = text_ok"
| "exact SVD_F_ST = text_ok"
| "exact SVD_F_SB = float_ok"
| "exact SVD_F_DT = text_ok"
| "exact SVD_F_DB = float_ok"

lemma text_sparse:
  assumes "wf_smat S" and "dims_ok S" and "\<forall>x\<in>set (svalue S). text_ok F x"
  shows "\<exists>out. svdWriteSparseTextFile F S = Some out \<and> svdLoadSparseTextFile h F out = Loaded (S :: ('v :: zero) smat)"
  using text_file.sparse_copied [OF assms, of h "''svdLoadSparseTextFile: bad file format''" True]
  by (simp add: svdWriteSparseTextFile_def svdLoadSparseTextFile_def text_row_def text_count_def [abs_def] text_value_def)

lemma binary_sparse:
  assumes "wf_smat S" and "dims_ok S" and "\<forall>x\<in>set (svalue S). float_ok F x"
  shows "\<exists>out. svdWriteSparseBinaryFile F S = Some out \<and> svdLoadSparseBinaryFile h F out = Loaded (S :: ('v :: zero) smat)"
  using binary_file.sparse_copied [OF assms, of h "''svdLoadSparseBinaryFile: bad file format''" False]
  by (simp add: svdWriteSparseBinaryFile_def svdLoadSparseBinaryFile_def binary_value_def)

definition dense_ok :: "('v :: zero) dmat \<Rightarrow> bool" where
  "dense_ok D \<longleftrightarrow> wf_dmat D \<and> 0 < drows D \<and> size_ok (int (drows D)) \<and> size_ok (int (dcols D)) \<and>
     size_ok (int (count_nonzero D))"

lemma text_dense:
  assumes "dense_ok D" and "\<forall>row\<in>set (dvalue D). \<forall>x\<in>set row. text_ok F x"
  shows "\<exists>out. svdWriteDenseTextFile F D = Some out \<and> svdLoadDenseTextFile F out = Loaded D"
  using assms text_file.dense_copied [of D F "\<lambda>j. int j = int (dcols D) - 1" "''svdLoadDenseTextFile: bad file format''"]
  by (simp add: dense_ok_def svdWriteDenseTextFile_def svdLoadDenseTextFile_def text_row_def text_count_def text_value_def)

lemma binary_dense:
  assumes "dense_ok D" and "\<forall>row\<in>set (dvalue D). \<forall>x\<in>set row. float_ok F x"
  shows "\<exists>out. svdWriteDenseBinaryFile F D = Some out \<and> svdLoadDenseBinaryFile F out = Loaded D"
  using assms binary_file.dense_copied [of D F "\<lambda>j. True" "''svdLoadDenseBinaryFile: bad file format''"]
  by (simp add: dense_ok_def svdWriteDenseBinaryFile_def svdLoadDenseBinaryFile_def binary_value_def)

lemma dtos_values:
  assumes "wf_dmat D" and "x \<in> set (svalue (svdConvertDtoS h D))"
  shows "\<exists>row\<in>set (dvalue D). x \<in> set row"
proof -
  note e = svdConvertDtoS_entries(1-3) [of h D] svdConvertDtoS_entries(4) [of _ D h]
  obtain q where q: "q \<in> set (entries (svdConvertDtoS h D))" "x = snd (snd q)"
    using assms(2) unfolding map_rows_entries(2) [OF e(1), symmetric] by auto
  then obtain c where c: "c < dcols D" "q \<in> set (dcol D c (drows D))" using e(3,4) by (auto simp: entries_def)
  then obtain i where i: "i < drows D" "x = dvalue D ! i ! c" using q(2) by (auto simp: dcol_def)
  then have "dvalue D ! i \<in> set (dvalue D)" "x \<in> set (dvalue D ! i)" using assms(1) c(1) by (auto simp: wf_dmat_def)
  then show ?thesis by blast
qed

lemma dtos_svals: "svals (svdConvertDtoS h D) = count_nonzero D"
proof -
  have w: "wf_smat (svdConvertDtoS h D)" "scols (svdConvertDtoS h D) = dcols D" by (rule svdConvertDtoS_entries)+
  have "svals (svdConvertDtoS h D) = length (entries (svdConvertDtoS h D))" using length_entries [OF w(1)] by simp
  also have "\<dots> = length (dcols_upto D (dcols D))"
    unfolding entries_def w(2) dcols_upto_def using svdConvertDtoS_entries(4) [of _ D h]
    by (intro arg_cong [of _ _ length] arg_cong [of _ _ concat] map_cong) auto
  finally show ?thesis by (simp add: count_nonzero_columns)
qed

lemma dtos_dims: "dense_ok D \<Longrightarrow> dims_ok (svdConvertDtoS h D)"
  using svdConvertDtoS_entries(2,3) [of h D] dtos_svals [of h D] by (simp add: dims_ok_def dense_ok_def)

lemma dense_format_roundtrip:
  assumes "dense_ok D" and "\<forall>row\<in>set (dvalue D). \<forall>x\<in>set row. exact f F x"
  shows "\<exists>out. print_dense h F f D = Some out \<and> parse_dense h' F f out = Loaded D"
proof -
  have wf: "wf_dmat D" "0 < drows D" using assms(1) by (simp_all add: dense_ok_def)
  let ?S = "svdConvertDtoS h D"
  have S: "wf_smat ?S" "dims_ok ?S" by (rule svdConvertDtoS_entries(1), rule dtos_dims [OF assms(1)])
  have x: "\<forall>x\<in>set (svalue ?S). exact f F x" using dtos_values [OF wf(1)] assms(2) by blast
  have again: "dense_of (Loaded ?S) = Loaded D" using dense_sparse_dense [OF wf, of h] by (simp add: dense_of_def)
  show ?thesis
  proof (cases f)
    case SVD_F_STH
    then show ?thesis using hb_copied [OF S, of F h'] x again by auto
  next
    case SVD_F_ST
    then show ?thesis using text_sparse [OF S, of F h'] x again by auto
  next
    case SVD_F_SB
    then show ?thesis using binary_sparse [OF S, of F h'] x again by auto
  next
    case SVD_F_DT
    then show ?thesis using text_dense [OF assms(1)] assms(2) by simp
  next
    case SVD_F_DB
    then show ?thesis using binary_dense [OF assms(1)] assms(2) by simp
  qed
qed

lemma sparse_format_roundtrip:
  assumes "wf_smat S" and "dims_ok S" and "\<forall>x\<in>set (svalue S). exact f F x"
    and "SVD_IS_SPARSE f \<or> normal_smat S \<and> 0 < srows S \<and> exact f F 0"
  shows "\<exists>out. print_sparse F f S = Some out \<and> parse_sparse h F f out = Loaded S"
proof (cases "SVD_IS_SPARSE f")
  case True
  then consider "f = SVD_F_STH" | "f = SVD_F_ST" | "f = SVD_F_SB" by (auto simp: SVD_IS_SPARSE_def)
  then show ?thesis
  proof cases
    case 1
    then show ?thesis using hb_copied [OF assms(1,2), of F h] assms(3) by simp
  next
    case 2
    then show ?thesis using text_sparse [OF assms(1,2), of F h] assms(3) by simp
  next
    case 3
    then show ?thesis using binary_sparse [OF assms(1,2), of F h] assms(3) by simp
  qed
next
  case False
  then have n: "normal_smat S" "0 < srows S" "exact f F 0" using assms(4) by simp_all
  obtain D where D: "svdConvertStoD S = Some D" "wf_dmat D" "drows D = srows S" "dcols D = scols S"
    "svdConvertDtoS h D = S"
    using sparse_dense_sparse [OF assms(1) n(1,2), of h] by blast
  obtain E where E: "svdConvertStoD S = Some E" "\<forall>r< srows S. \<forall>c< scols S. dvalue E ! r ! c = stored (entries S) r c 0"
    using svdConvertStoD_entries [OF assms(1) n(2)] by blast
  have "svals S = count_nonzero D" using dtos_svals [of h D] D(5) by simp
  then have ok: "dense_ok D" using D n(2) assms(2) by (simp add: dense_ok_def dims_ok_def)
  have "exact f F (stored es r c d)" if "\<forall>e\<in>set es. exact f F (snd (snd e))" "exact f F d" for es :: "(nat \<times> nat \<times> 'a) list" and r c d
    using that by (induction es r c d rule: stored.induct) auto
  moreover have "\<forall>e\<in>set (entries S). exact f F (snd (snd e))"
    using assms(3) unfolding map_rows_entries(2) [OF assms(1), symmetric] by auto
  ultimately have "\<forall>row\<in>set (dvalue D). \<forall>x\<in>set row. exact f F x"
    using n(3) E D by (auto simp: wf_dmat_def in_set_conv_nth)
  then show ?thesis
    using text_dense [OF ok, of F] binary_dense [OF ok, of F] D(1,5) False
    by (cases f) (auto simp: SVD_IS_SPARSE_def via_dense_def sparse_of_def)
qed

end
