(* ===== verification/SvdFiles.thy ===== *)
theory SvdFiles
  imports SvdRoundtrip Os
begin

text \<open>
  The files of \<^verbatim>\<open>c/SVDLIBC\<close>: opening a file, a pipe or a compressed file for reading or
  writing, the table of open pipes, the error messages (\<^verbatim>\<open>svdutil.c\<close>), loading and writing
  matrices and arrays (\<^verbatim>\<open>svdlib.c\<close>), and the conversion of a matrix file that the main
  program makes for its option \<^verbatim>\<open>-c\<close> (\<^verbatim>\<open>main.c\<close>).

  A stream is a number, \<open>0\<close> and \<open>1\<close> for \<^verbatim>\<open>stdin\<close> and \<^verbatim>\<open>stdout\<close>, \<open>- 1\<close> for
  \<^verbatim>\<open>NULL\<close>. What a stream delivers up to its end is one reply, what is printed to it one
  write. The pipe table is a list that the functions take and return.
\<close>

section \<open>Errors and pipes\<close>

definition bell :: string where
  "bell = [CHR 0x07]"

definition svd_error :: "string \<Rightarrow> unit io" where
  "svd_error m = one_call (Err (bell @ ''ERROR: '' @ m @ newline))"

definition svd_fatalError :: "string \<Rightarrow> 'a io" where
  "svd_fatalError m = Sys (Err (bell @ ''ERROR: '' @ m @ bell @ newline)) (\<lambda>_. Halt 1)"

definition MAX_FILENAME :: nat where "MAX_FILENAME = 512"
definition MAX_PIPES :: nat where "MAX_PIPES = 64"

text \<open>A pipe too many is reported, and stored behind the end of the table.\<close>

definition registerPipe :: "int list \<Rightarrow> int \<Rightarrow> int list io" where
  "registerPipe ps p =
     (if MAX_PIPES \<le> length ps then io_bind (svd_error ''Too many pipes open'') (\<lambda>_. Undef)
      else Ret (ps @ [p]))"

definition isPipe :: "int list \<Rightarrow> int \<Rightarrow> bool \<times> int list" where
  "isPipe ps p =
     (let i = length (takeWhile (\<lambda>q. q \<noteq> p) ps) in
      if i = length ps then (False, ps) else (True, butlast (ps[i := last ps])))"

definition openPipe :: "int list \<Rightarrow> string \<Rightarrow> string \<Rightarrow> (int \<times> int list) io" where
  "openPipe ps cmd mode =
     Sys (Misc ''fflush(stdout)'') (\<lambda>_.
     Sys (Kernel (Popen cmd mode)) (\<lambda>r.
       if rc r = - 1 then Ret (- 1, ps)
       else io_bind (registerPipe ps (rc r)) (\<lambda>ps'. Ret (rc r, ps'))))"

section \<open>Opening and closing\<close>

definition BUNZIP2 :: string where "BUNZIP2 = ''bzip2 -d''"
definition BZIP2 :: string where "BZIP2 = ''bzip2 -1''"
definition UNZIP :: string where "UNZIP = ''gzip -d''"
definition ZIP :: string where "ZIP = ''gzip -1''"
definition COMPRESS :: string where "COMPRESS = ''compress''"

definition readZippedFile :: "int list \<Rightarrow> string \<Rightarrow> string \<Rightarrow> (int \<times> int list) io" where
  "readZippedFile ps command fileName =
     (let buf = command @ '' < '' @ fileName @ '' 2>/dev/null'' in
      if MAX_FILENAME \<le> length buf then Undef else openPipe ps buf ''r'')"

definition stringEndsIn :: "string \<Rightarrow> string \<Rightarrow> bool" where
  "stringEndsIn s t = (if length s < length t then False else drop (length s - length t) s = t)"

definition if_there :: "string \<Rightarrow> (int \<times> int list) io \<Rightarrow> (int \<times> int list) io \<Rightarrow> (int \<times> int list) io" where
  "if_there name yes no = Sys (Kernel (Stat name)) (\<lambda>r. if rc r = 0 then yes else no)"

primrec try_endings :: "int list \<Rightarrow> string \<Rightarrow> (string \<times> string) list \<Rightarrow> (int \<times> int list) io" where
  "try_endings ps fileName [] = Ret (- 1, ps)"
| "try_endings ps fileName (e # es) =
     (let fileBuf = fileName @ fst e in
      if MAX_FILENAME \<le> length fileBuf then Undef
      else if_there fileBuf (readZippedFile ps (snd e) fileBuf) (try_endings ps fileName es))"

definition svd_readFile :: "int list \<Rightarrow> string \<Rightarrow> (int \<times> int list) io" where
  "svd_readFile ps fileName =
     (if fileName = ''-'' then Ret (0, ps)
      else if fileName \<noteq> '''' \<and> hd fileName = CHR ''|'' then openPipe ps (tl fileName) ''r''
      else if stringEndsIn fileName ''.gz'' \<or> stringEndsIn fileName ''.Z''
      then if_there fileName (readZippedFile ps UNZIP fileName) (Ret (- 1, ps))
      else if stringEndsIn fileName ''.bz'' \<or> stringEndsIn fileName ''.bz2''
      then if_there fileName (readZippedFile ps BUNZIP2 fileName) (Ret (- 1, ps))
      else if_there fileName (Sys (Fopen fileName ''r'') (\<lambda>f. Ret (rc f, ps)))
             (try_endings ps fileName [(''.gz'', UNZIP), (''.Z'', UNZIP), (''.bz2'', BUNZIP2), (''.bz'', BUNZIP2)]))"

definition svd_fatalReadFile :: "int list \<Rightarrow> string \<Rightarrow> (int \<times> int list) io" where
  "svd_fatalReadFile ps filename =
     io_bind (svd_readFile ps filename) (\<lambda>(f, ps').
       if f = - 1 then svd_fatalError (''couldn't read the file '' @ filename) else Ret (f, ps'))"

definition quoted :: "string \<Rightarrow> string" where
  "quoted s = [CHR 0x22] @ s @ [CHR 0x22]"

definition writeZippedFile :: "int list \<Rightarrow> string \<Rightarrow> bool \<Rightarrow> (int \<times> int list) io" where
  "writeZippedFile ps fileName app =
     (let op = (if app then ''>>'' else ''>'');
          command = (if stringEndsIn fileName ''.bz2'' \<or> stringEndsIn fileName ''.bz'' then BZIP2
                     else if stringEndsIn fileName ''.Z'' then COMPRESS else ZIP);
          buf = command @ '' '' @ op @ '' '' @ quoted fileName
      in if MAX_FILENAME \<le> length buf then Undef else openPipe ps buf ''w'')"

definition svd_writeFile :: "int list \<Rightarrow> string \<Rightarrow> bool \<Rightarrow> (int \<times> int list) io" where
  "svd_writeFile ps fileName app =
     (if fileName = ''-'' then Ret (1, ps)
      else if fileName \<noteq> '''' \<and> hd fileName = CHR ''|'' then openPipe ps (tl fileName) ''w''
      else if stringEndsIn fileName ''.gz'' \<or> stringEndsIn fileName ''.Z'' \<or>
              stringEndsIn fileName ''.bz'' \<or> stringEndsIn fileName ''.bz2''
      then writeZippedFile ps fileName app
      else Sys (Fopen fileName (if app then ''a'' else ''w'')) (\<lambda>f. Ret (rc f, ps)))"

definition svd_closeFile :: "int list \<Rightarrow> int \<Rightarrow> int list io" where
  "svd_closeFile ps f =
     (if f = 0 \<or> f = 1 then Ret ps
      else let (pipe, ps') = isPipe ps f in
        Sys (if pipe then Kernel (Pclose f) else Fclose f) (\<lambda>_. Ret ps'))"

section \<open>Matrix files\<close>

definition finish_load :: "int list \<Rightarrow> int \<Rightarrow> 'a loaded \<Rightarrow> ('a option \<times> int list) io" where
  "finish_load ps f l =
     (case l of
        Wild \<Rightarrow> Undef
      | Failed m \<Rightarrow> io_bind (svd_error m) (\<lambda>_. io_bind (svd_closeFile ps f) (\<lambda>ps'. Ret (None, ps')))
      | Loaded x \<Rightarrow> io_bind (svd_closeFile ps f) (\<lambda>ps'. Ret (Some x, ps')))"

definition svdLoadSparseMatrix ::
  "'v heap \<Rightarrow> ('v :: zero) numfmt \<Rightarrow> int list \<Rightarrow> string \<Rightarrow> file_format \<Rightarrow> ('v smat option \<times> int list) io"
where
  "svdLoadSparseMatrix h F ps filename format =
     io_bind (svd_fatalReadFile ps filename) (\<lambda>(f, ps').
       Sys (Kernel (Contents f)) (\<lambda>r. finish_load ps' f (parse_sparse h F format (dat r))))"

definition svdLoadDenseMatrix ::
  "'v heap \<Rightarrow> ('v :: zero) numfmt \<Rightarrow> int list \<Rightarrow> string \<Rightarrow> file_format \<Rightarrow> ('v dmat option \<times> int list) io"
where
  "svdLoadDenseMatrix h F ps filename format =
     io_bind (svd_fatalReadFile ps filename) (\<lambda>(f, ps').
       Sys (Kernel (Contents f)) (\<lambda>r. finish_load ps' f (parse_dense h F format (dat r))))"

definition finish_write :: "string \<Rightarrow> string \<Rightarrow> string option \<Rightarrow> int \<times> int list \<Rightarrow> int list io" where
  "finish_write who filename text fp =
     (let (f, ps) = fp in
      if f = - 1 then io_bind (svd_error (who @ '': failed to write file '' @ filename @ newline)) (\<lambda>_. Ret ps)
      else case text of
        None \<Rightarrow> Undef
      | Some out \<Rightarrow> Sys (Fwrite f out) (\<lambda>_. svd_closeFile ps f))"

definition svdWriteSparseMatrix ::
  "('v :: zero) numfmt \<Rightarrow> int list \<Rightarrow> 'v smat \<Rightarrow> string \<Rightarrow> file_format \<Rightarrow> int list io"
where
  "svdWriteSparseMatrix F ps S filename format =
     io_bind (svd_writeFile ps filename False)
       (finish_write ''svdWriteSparseMatrix'' filename (print_sparse F format S))"

definition svdWriteDenseMatrix ::
  "'v heap \<Rightarrow> ('v :: zero) numfmt \<Rightarrow> int list \<Rightarrow> 'v dmat \<Rightarrow> string \<Rightarrow> file_format \<Rightarrow> int list io"
where
  "svdWriteDenseMatrix h F ps D filename format =
     io_bind (svd_writeFile ps filename False)
       (finish_write ''svdWriteDenseMatrix'' filename (print_dense h F format D))"

section \<open>Arrays\<close>

primrec write_array :: "('v \<Rightarrow> string) \<Rightarrow> 'v list \<Rightarrow> nat \<Rightarrow> nat \<Rightarrow> string option" where
  "write_array f a 0 i = Some ''''"
| "write_array f a (Suc n) i = append_out (map_option f (cell a i)) (write_array f a n (i + 1))"

definition print_array :: "'v numfmt \<Rightarrow> 'v list \<Rightarrow> int \<Rightarrow> bool \<Rightarrow> string option" where
  "print_array F a n binary =
     (if binary then append_out (Some (svd_writeBinInt n)) (write_array (svd_writeBinFloat F) a (nat n) 0)
      else append_out (Some (int_str n @ newline)) (write_array (\<lambda>x. show_g F x @ newline) a (nat n) 0))"

definition svdWriteDenseArray :: "'v numfmt \<Rightarrow> int list \<Rightarrow> 'v list \<Rightarrow> int \<Rightarrow> string \<Rightarrow> bool \<Rightarrow> int list io" where
  "svdWriteDenseArray F ps a n filename binary =
     io_bind (svd_writeFile ps filename False) (\<lambda>(f, ps').
       if f = - 1 then io_bind (svd_error (''svdWriteDenseArray: failed to write '' @ filename)) (\<lambda>_. Ret ps')
       else case print_array F a n binary of
         None \<Rightarrow> Undef
       | Some out \<Rightarrow> Sys (Fwrite f out) (\<lambda>_. svd_closeFile ps' f))"

text \<open>
  The results of the reads are not looked at. An element that is not there keeps what was in the
  array (text), or gets the value read before (binary); \<open>wild_value h 0\<close> is what the variable
  held before the first one.
\<close>

primrec read_text_array :: "'v numfmt \<Rightarrow> nat \<Rightarrow> nat \<Rightarrow> string \<Rightarrow> 'v list \<Rightarrow> 'v list" where
  "read_text_array F 0 i txt a = a"
| "read_text_array F (Suc n) i txt a =
     (case scan_lf F txt of
        None \<Rightarrow> read_text_array F n (i + 1) txt a
      | Some (x, t1) \<Rightarrow> read_text_array F n (i + 1) (dropWhile c_isspace t1) (a[i := x]))"

primrec read_binary_array :: "'v numfmt \<Rightarrow> nat \<Rightarrow> nat \<Rightarrow> string \<Rightarrow> 'v \<Rightarrow> 'v list \<Rightarrow> 'v list" where
  "read_binary_array F 0 i txt f a = a"
| "read_binary_array F (Suc n) i txt f a =
     (case svd_readBinFloat F txt of
        None \<Rightarrow> read_binary_array F n (i + 1) '''' f (a[i := f])
      | Some (x, t1) \<Rightarrow> read_binary_array F n (i + 1) t1 x (a[i := x]))"

text \<open>\<open>None\<close>: the size is not there, or does not fit.\<close>

definition parse_array :: "'v heap \<Rightarrow> 'v numfmt \<Rightarrow> bool \<Rightarrow> string \<Rightarrow> (int \<times> 'v list) option" where
  "parse_array h F binary txt =
     (case (if binary then svd_readBinInt txt else scan_int txt) of
        None \<Rightarrow> None
      | Some (n, t1) \<Rightarrow>
          if \<not> size_ok n then None
          else let a = map (wild_value h) [0..<nat n] in
            Some (n, if binary then read_binary_array F (nat n) 0 t1 (wild_value h 0) a
                     else read_text_array F (nat n) 0 t1 a))"

definition svdLoadDenseArray ::
  "'v heap \<Rightarrow> 'v numfmt \<Rightarrow> int list \<Rightarrow> string \<Rightarrow> bool \<Rightarrow> ((int \<times> 'v list) option \<times> int list) io"
where
  "svdLoadDenseArray h F ps filename binary =
     io_bind (svd_readFile ps filename) (\<lambda>(f, ps').
       if f = - 1 then io_bind (svd_error (''svdLoadDenseArray: failed to read '' @ filename)) (\<lambda>_. Ret (None, ps'))
       else Sys (Kernel (Contents f)) (\<lambda>r.
         case parse_array h F binary (dat r) of
           None \<Rightarrow> Undef
         | Some na \<Rightarrow> io_bind (svd_closeFile ps' f) (\<lambda>ps2. Ret (Some na, ps2))))"

section \<open>Converting a file\<close>

text \<open>\<^verbatim>\<open>strcasecmp\<close> in the C locale.\<close>

definition c_tolower :: "char \<Rightarrow> char" where
  "c_tolower c = (if c_isupper c then char_of (of_char c + 32 :: nat) else c)"

definition strcaseeq :: "string \<Rightarrow> string \<Rightarrow> bool" where
  "strcaseeq s t \<longleftrightarrow> map c_tolower s = map c_tolower t"

text \<open>The argument of the options \<^verbatim>\<open>-r\<close> and \<^verbatim>\<open>-w\<close>.\<close>

definition format_arg :: "string \<Rightarrow> file_format option" where
  "format_arg s =
     (if strcaseeq s ''sth'' then Some SVD_F_STH
      else if strcaseeq s ''st'' then Some SVD_F_ST
      else if strcaseeq s ''dt'' then Some SVD_F_DT
      else if strcaseeq s ''sb'' then Some SVD_F_SB
      else if strcaseeq s ''db'' then Some SVD_F_DB
      else None)"

text \<open>\<^verbatim>\<open>fatalError\<close> of \<^verbatim>\<open>main.c\<close>, without the first bell.\<close>

definition main_fatalError :: "string \<Rightarrow> 'a io" where
  "main_fatalError m = Sys (Err (''ERROR: '' @ m @ bell @ newline)) (\<lambda>_. Halt 1)"

definition tell :: "int \<Rightarrow> string \<Rightarrow> unit io" where
  "tell verbosity s = (if verbosity > 0 then one_call (Out s) else Ret ())"

text \<open>
  The option \<^verbatim>\<open>-c infile outfile\<close>, with the formats, the transposition and the verbosity that
  the options before it have set.
\<close>

definition convert_file ::
  "'v heap \<Rightarrow> ('v :: zero) numfmt \<Rightarrow> int \<Rightarrow> bool \<Rightarrow> file_format \<Rightarrow> file_format \<Rightarrow> string \<Rightarrow> string \<Rightarrow> int io"
where
  "convert_file h F verbosity turn readFormat writeFormat infile outfile =
     io_bind (tell verbosity (''Converting '' @ infile @ '' to '' @ outfile @ newline)) (\<lambda>_.
     if SVD_IS_SPARSE readFormat \<and> SVD_IS_SPARSE writeFormat then
       io_bind (svdLoadSparseMatrix h F [] infile readFormat) (\<lambda>(S, ps).
         case S of
           None \<Rightarrow> main_fatalError ''failed to read sparse matrix''
         | Some S \<Rightarrow>
             io_bind (if turn then tell verbosity (''  Transposing the matrix...'' @ newline) else Ret ()) (\<lambda>_.
             case (if turn then svdTransposeS h S else Some S) of
               None \<Rightarrow> Undef
             | Some S \<Rightarrow> io_bind (svdWriteSparseMatrix F ps S outfile writeFormat) (\<lambda>_. Halt 0)))
     else
       io_bind (svdLoadDenseMatrix h F [] infile readFormat) (\<lambda>(D, ps).
         case D of
           None \<Rightarrow> main_fatalError ''failed to read dense matrix''
         | Some D \<Rightarrow>
             io_bind (if turn then tell verbosity (''  Transposing the matrix...'' @ newline) else Ret ()) (\<lambda>_.
             case (if turn then svdTransposeD D else Some D) of
               None \<Rightarrow> Undef
             | Some D \<Rightarrow> io_bind (svdWriteDenseMatrix h F ps D outfile writeFormat) (\<lambda>_. Halt 0))))"

section \<open>Streams\<close>

lemma isPipe_absent: "p \<notin> set ps \<Longrightarrow> isPipe ps p = (False, ps)"
proof -
  assume "p \<notin> set ps"
  then have "length (takeWhile (\<lambda>q. q \<noteq> p) ps) = length ps" by (subst takeWhile_eq_all_conv [THEN iffD2]) auto
  then show ?thesis by (simp add: isPipe_def)
qed

lemma mset_replace_last:
  assumes "i < length ps"
  shows "mset (butlast (ps[i := last ps])) = mset ps - {#ps ! i#}"
proof -
  obtain qs q where ps: "ps = qs @ [q]" using assms by (cases ps rule: rev_cases) auto
  show ?thesis
  proof (cases "i < length qs")
    case True
    then have "butlast (ps[i := last ps]) = qs[i := q]" "ps ! i = qs ! i" using ps by (simp_all add: list_update_append nth_append)
    then show ?thesis using True ps by (simp add: mset_update nth_mem)
  next
    case False
    then have "i = length qs" using assms ps by simp
    then show ?thesis using ps by (simp add: butlast_append)
  qed
qed

lemma isPipe_present:
  assumes "p \<in> set ps"
  shows "\<exists>ps'. isPipe ps p = (True, ps') \<and> mset ps' = mset ps - {#p#}"
proof -
  let ?i = "length (takeWhile (\<lambda>q. q \<noteq> p) ps)"
  have i: "?i < length ps" "ps ! ?i = p"
  proof -
    have "takeWhile (\<lambda>q. q \<noteq> p) ps \<noteq> ps" using assms by (auto simp: takeWhile_eq_all_conv)
    then show l: "?i < length ps" using length_takeWhile_le [of "\<lambda>q. q \<noteq> p" ps] takeWhile_eq_take [of "\<lambda>q. q \<noteq> p" ps]
      by (metis le_neq_implies_less take_all_iff order_refl)
    show "ps ! ?i = p" using nth_length_takeWhile [OF l] by simp
  qed
  then show ?thesis using mset_replace_last [OF i(1)] by (auto simp: isPipe_def)
qed

text \<open>A new stream is not a standard one, nor one of the open pipes.\<close>

definition fresh_streams :: "os \<Rightarrow> int list \<Rightarrow> bool" where
  "fresh_streams os ps \<longleftrightarrow> (\<forall>tr n m. (\<forall>f\<in>{rc (os tr (Fopen n m)), rc (os tr (Kernel (Popen n m)))}.
     f = - 1 \<or> 2 \<le> f \<and> f \<notin> set ps))"

text \<open>What opening returns: nothing, a standard stream, a file, or a pipe that is in the table now.\<close>

definition opened :: "int list \<Rightarrow> syscall list \<Rightarrow> int \<times> int list \<Rightarrow> bool" where
  "opened ps tr r \<longleftrightarrow> (let (f, ps') = r in
     f = - 1 \<and> ps' = ps \<or> (f = 0 \<or> f = 1) \<and> ps' = ps \<or>
     2 \<le> f \<and> f \<notin> set ps \<and> (ps' = ps \<and> (\<exists>n m. last tr = Fopen n m) \<or>
       ps' = ps @ [f] \<and> (\<exists>n m. last tr = Kernel (Popen n m))))"

definition opener :: "os \<Rightarrow> int list \<Rightarrow> (int \<times> int list) io \<Rightarrow> bool" where
  "opener os ps p \<longleftrightarrow> (\<forall>tr r tr'. run os tr p = (Returned r, tr') \<longrightarrow> opened ps tr' r)"

lemma opener_nothing: "opener os ps (Ret (- 1, ps))"
  by (simp add: opener_def opened_def)

lemma opener_standard: "f = 0 \<or> f = 1 \<Longrightarrow> opener os ps (Ret (f, ps))"
  by (auto simp: opener_def opened_def)

lemma opener_Undef: "opener os ps Undef"
  by (simp add: opener_def)

lemma opener_file: "fresh_streams os ps \<Longrightarrow> opener os ps (Sys (Fopen n m) (\<lambda>f. Ret (rc f, ps)))"
  by (auto simp: opener_def opened_def fresh_streams_def)

lemma opener_if_there: "opener os ps yes \<Longrightarrow> opener os ps no \<Longrightarrow> opener os ps (if_there name yes no)"
  by (simp add: opener_def if_there_def)

lemma opener_pipe:
  assumes "fresh_streams os ps"
  shows "opener os ps (openPipe ps cmd mode)"
proof -
  have "opened ps tr' r" if r: "run os tr (openPipe ps cmd mode) = (Returned r, tr')" for tr r tr'
  proof -
    let ?tr = "tr @ [Misc ''fflush(stdout)'']"
    let ?f = "rc (os ?tr (Kernel (Popen cmd mode)))"
    have f: "?f = - 1 \<or> 2 \<le> ?f \<and> ?f \<notin> set ps" using assms by (simp add: fresh_streams_def)
    show ?thesis
    proof (cases "?f = - 1")
      case True
      then have "r = (- 1, ps)" using r by (simp add: openPipe_def)
      then show ?thesis by (simp add: opened_def)
    next
      case False
      then have "r = (?f, ps @ [?f])" "last tr' = Kernel (Popen cmd mode)"
        using r by (auto simp: openPipe_def registerPipe_def run_bind svd_error_def split: if_splits)
      then show ?thesis using f False by (auto simp: opened_def)
    qed
  qed
  then show ?thesis by (simp add: opener_def)
qed

lemma opener_readZipped: "fresh_streams os ps \<Longrightarrow> opener os ps (readZippedFile ps c n)"
  by (simp add: readZippedFile_def Let_def opener_Undef opener_pipe)

lemma opener_endings: "fresh_streams os ps \<Longrightarrow> opener os ps (try_endings ps n es)"
  by (induction es) (simp_all add: opener_nothing opener_Undef opener_if_there opener_readZipped Let_def)

lemma opener_readFile: "fresh_streams os ps \<Longrightarrow> opener os ps (svd_readFile ps n)"
  by (simp add: svd_readFile_def opener_standard opener_pipe opener_if_there opener_readZipped opener_nothing
      opener_file opener_endings del: try_endings.simps)

lemma opener_writeFile: "fresh_streams os ps \<Longrightarrow> opener os ps (svd_writeFile ps n app)"
  by (simp add: svd_writeFile_def writeZippedFile_def Let_def opener_standard opener_pipe opener_Undef opener_file)

lemma opened_close:
  assumes "opened ps tr (f, ps1)" and "f \<noteq> - 1"
  shows "\<exists>ps2 cs. run os tr (svd_closeFile ps1 f) = (Returned ps2, tr @ cs) \<and> mset ps2 = mset ps \<and>
    (cs = [] \<and> (f = 0 \<or> f = 1) \<or> cs = [Fclose f] \<and> (\<exists>n m. last tr = Fopen n m) \<or>
     cs = [Kernel (Pclose f)] \<and> (\<exists>n m. last tr = Kernel (Popen n m)))"
proof -
  consider "f = 0 \<or> f = 1" "ps1 = ps" | "2 \<le> f" "f \<notin> set ps" "ps1 = ps" "\<exists>n m. last tr = Fopen n m"
    | "2 \<le> f" "f \<notin> set ps" "ps1 = ps @ [f]" "\<exists>n m. last tr = Kernel (Popen n m)"
    using assms by (auto simp: opened_def)
  then show ?thesis
  proof cases
    case 1
    then show ?thesis by (intro exI [of _ ps] exI [of _ "[]"]) (simp add: svd_closeFile_def)
  next
    case 2
    then show ?thesis
      by (intro exI [of _ ps] exI [of _ "[Fclose f]"]) (simp add: svd_closeFile_def isPipe_absent)
  next
    case 3
    obtain ps2 where "isPipe ps1 f = (True, ps2)" "mset ps2 = mset ps1 - {#f#}"
      using isPipe_present [of f ps1] 3(3) by auto
    then show ?thesis using 3
      by (intro exI [of _ ps2] exI [of _ "[Kernel (Pclose f)]"]) (simp add: svd_closeFile_def)
  qed
qed

section \<open>Arrays come back\<close>

lemma text_array:
  assumes "\<forall>x\<in>set a. text_ok F x"
  shows "i + n = length a \<Longrightarrow> \<exists>out. write_array (\<lambda>x. show_g F x @ newline) a n i = Some out \<and>
    (\<forall>t b. same_input t out \<longrightarrow> length b = length a \<longrightarrow> take i b = take i a \<longrightarrow> read_text_array F n i t b = a)"
proof (induction n arbitrary: i)
  case (Suc n)
  have i: "i < length a" "Suc i + n = length a" using Suc.prems by simp_all
  obtain out where out: "write_array (\<lambda>x. show_g F x @ newline) a n (Suc i) = Some out"
    and ih: "\<forall>t b. same_input t out \<longrightarrow> length b = length a \<longrightarrow> take (Suc i) b = take (Suc i) a \<longrightarrow>
      read_text_array F n (Suc i) t b = a"
    using Suc.IH [OF i(2)] by (elim exE conjE) (rule that)
  have "read_text_array F (Suc n) i t b = a"
    if t: "same_input t ((show_g F (a ! i) @ [lf]) @ out)" and b: "length b = length a" "take i b = take i a" for t b
  proof -
    have ok: "text_ok F (a ! i)" using assms i(1) by simp
    then have "scan_lf F t = scan_lf F ((show_g F (a ! i) @ [lf]) @ out)" using t by (simp only: text_ok_def)
    also have "\<dots> = Some (a ! i, lf # out)" using ok space_chars(1) by (simp add: text_ok_def)
    finally have s: "scan_lf F t = Some (a ! i, lf # out)" .
    have "take (Suc i) (b[i := a ! i]) = take (Suc i) a" using b i(1) by (simp add: take_Suc_update take_Suc_conv_app_nth)
    moreover have "same_input (dropWhile c_isspace (lf # out)) out" by (simp add: same_input_def space_chars)
    ultimately have "read_text_array F n (Suc i) (dropWhile c_isspace (lf # out)) (b[i := a ! i]) = a"
      using ih b(1) by (metis length_list_update)
    then show ?thesis using s by simp
  qed
  moreover have "write_array (\<lambda>x. show_g F x @ newline) a (Suc n) i = Some ((show_g F (a ! i) @ [lf]) @ out)"
    using out i(1) by (simp add: append_out_def cell_def newline_lf)
  ultimately show ?case by blast
qed auto

lemma binary_array:
  assumes "\<forall>x\<in>set a. float_ok F x"
  shows "i + n = length a \<Longrightarrow> \<exists>out. write_array (svd_writeBinFloat F) a n i = Some out \<and>
    (\<forall>f b. length b = length a \<longrightarrow> take i b = take i a \<longrightarrow> read_binary_array F n i out f b = a)"
proof (induction n arbitrary: i)
  case (Suc n)
  have i: "i < length a" "Suc i + n = length a" using Suc.prems by simp_all
  obtain out where out: "write_array (svd_writeBinFloat F) a n (Suc i) = Some out"
    and ih: "\<forall>f b. length b = length a \<longrightarrow> take (Suc i) b = take (Suc i) a \<longrightarrow> read_binary_array F n (Suc i) out f b = a"
    using Suc.IH [OF i(2)] by (elim exE conjE) (rule that)
  have "read_binary_array F (Suc n) i (svd_writeBinFloat F (a ! i) @ out) f b = a"
    if b: "length b = length a" "take i b = take i a" for f b
  proof -
    have "svd_readBinFloat F (svd_writeBinFloat F (a ! i) @ out) = Some (a ! i, out)"
      using assms i(1) by (simp add: svd_readBinFloat_def svd_writeBinFloat_def fread4_bytes float_ok_def)
    moreover have "take (Suc i) (b[i := a ! i]) = take (Suc i) a" using b i(1) by (simp add: take_Suc_update take_Suc_conv_app_nth)
    ultimately show ?thesis using ih b(1) by simp
  qed
  moreover have "write_array (svd_writeBinFloat F) a (Suc n) i = Some (svd_writeBinFloat F (a ! i) @ out)"
    using out i(1) by (simp add: append_out_def cell_def)
  ultimately show ?case by blast
qed auto

lemma array_roundtrip:
  assumes "size_ok (int (length a))" and "\<forall>x\<in>set a. if binary then float_ok F x else text_ok F x"
  shows "\<exists>out. print_array F a (int (length a)) binary = Some out \<and> parse_array h F binary out = Some (int (length a), a)"
proof (cases binary)
  case True
  obtain out where "write_array (svd_writeBinFloat F) a (length a) 0 = Some out"
    "\<forall>f b. length b = length a \<longrightarrow> take 0 b = take 0 a \<longrightarrow> read_binary_array F (length a) 0 out f b = a"
    using binary_array [of a F 0 "length a"] assms(2) True by auto
  moreover have "svd_readBinInt (svd_writeBinInt (int (length a)) @ out) = Some (int (length a), out)"
    by (rule bin_int_back [OF assms(1)])
  ultimately show ?thesis using True assms(1) by (simp add: print_array_def parse_array_def append_out_def)
next
  case False
  obtain out where o: "write_array (\<lambda>x. show_g F x @ newline) a (length a) 0 = Some out"
    "\<forall>t b. same_input t out \<longrightarrow> length b = length a \<longrightarrow> take 0 b = take 0 a \<longrightarrow> read_text_array F (length a) 0 t b = a"
    using text_array [of a F 0 "length a"] assms(2) False by auto
  have "no_digit (lf # out)" using space_chars by (simp add: no_digit_def)
  then have "scan_int (int_str (int (length a)) @ lf # out) = Some (int (length a), lf # out)" by (rule scan_int_int_str)
  moreover have "same_input (lf # out) out" by (rule same_input_space [OF space_chars(1)])
  ultimately show ?thesis using False assms(1) o
    by (simp add: print_array_def parse_array_def append_out_def newline_lf)
qed

section \<open>Plain files\<close>

definition plain_name :: "string \<Rightarrow> bool" where
  "plain_name n \<longleftrightarrow> n \<noteq> ''-'' \<and> n \<noteq> '''' \<and> hd n \<noteq> CHR ''|'' \<and>
     (\<forall>e\<in>{''.gz'', ''.Z'', ''.bz'', ''.bz2''}. \<not> stringEndsIn n e)"

definition file_is :: "os \<Rightarrow> string \<Rightarrow> int \<Rightarrow> string \<Rightarrow> bool" where
  "file_is os n f txt \<longleftrightarrow> plain_name n \<and> 2 \<le> f \<and>
     (\<forall>tr. rc (os tr (Kernel (Stat n))) = 0 \<and> rc (os tr (Fopen n ''r'')) = f \<and> dat (os tr (Kernel (Contents f))) = txt)"

definition can_write :: "os \<Rightarrow> string \<Rightarrow> int \<Rightarrow> bool" where
  "can_write os n f \<longleftrightarrow> plain_name n \<and> 2 \<le> f \<and> (\<forall>tr. rc (os tr (Fopen n ''w'')) = f)"

lemma run_readFile:
  assumes "file_is os n f txt"
  shows "run os tr (svd_fatalReadFile ps n) = (Returned (f, ps), tr @ [Kernel (Stat n), Fopen n ''r''])"
  using assms by (simp add: svd_fatalReadFile_def svd_readFile_def file_is_def plain_name_def if_there_def run_bind)

lemma run_writeFile:
  assumes "can_write os n f"
  shows "run os tr (svd_writeFile ps n False) = (Returned (f, ps), tr @ [Fopen n ''w''])"
  using assms by (simp add: svd_writeFile_def can_write_def plain_name_def)

lemma run_closeFile: "2 \<le> f \<Longrightarrow> run os tr (svd_closeFile [] f) = (Returned [], tr @ [Fclose f])"
  by (simp add: svd_closeFile_def isPipe_def)

lemma run_load_sparse:
  assumes "file_is os n f txt" and "parse_sparse h F format txt = Loaded S"
  shows "\<exists>cs. run os tr (svdLoadSparseMatrix h F [] n format) = (Returned (Some S, []), tr @ cs)"
  using assms run_readFile [OF assms(1), of _ "[]"] run_closeFile [of f]
  by (simp add: svdLoadSparseMatrix_def run_bind finish_load_def file_is_def)

lemma run_load_dense:
  assumes "file_is os n f txt" and "parse_dense h F format txt = Loaded D"
  shows "\<exists>cs. run os tr (svdLoadDenseMatrix h F [] n format) = (Returned (Some D, []), tr @ cs)"
  using assms run_readFile [OF assms(1), of _ "[]"] run_closeFile [of f]
  by (simp add: svdLoadDenseMatrix_def run_bind finish_load_def file_is_def)

lemma run_write_sparse:
  assumes "can_write os n f" and "print_sparse F format S = Some out"
  shows "run os tr (svdWriteSparseMatrix F [] S n format) = (Returned [], tr @ [Fopen n ''w'', Fwrite f out, Fclose f])"
  using assms run_writeFile [OF assms(1), of _ "[]"] run_closeFile [of f]
  by (simp add: svdWriteSparseMatrix_def run_bind finish_write_def can_write_def)

lemma run_write_dense:
  assumes "can_write os n f" and "print_dense h F format D = Some out"
  shows "run os tr (svdWriteDenseMatrix h F [] D n format) = (Returned [], tr @ [Fopen n ''w'', Fwrite f out, Fclose f])"
  using assms run_writeFile [OF assms(1), of _ "[]"] run_closeFile [of f]
  by (simp add: svdWriteDenseMatrix_def run_bind finish_write_def can_write_def)

lemma run_tell: "\<exists>cs. run os tr (tell v s) = (Returned (), tr @ cs)"
  by (simp add: tell_def)

section \<open>A converted file\<close>

lemma count_nonzero_sum: "count_nonzero D = (\<Sum>i<drows D. \<Sum>j<dcols D. if dvalue D ! i ! j \<noteq> 0 then 1 else 0)"
proof -
  have "foldl (\<lambda>n i. count_row (dvalue D ! i) (dcols D) n) 0 [0..<m] =
      (\<Sum>i<m. \<Sum>j<dcols D. if dvalue D ! i ! j \<noteq> 0 then 1 else 0)" for m
    by (induction m) (simp_all add: count_row_sum)
  then show ?thesis by (simp add: count_nonzero_def)
qed

lemma transposed_ok:
  assumes "dense_ok D" and "0 < dcols D" and "svdTransposeD D = Some T" and "\<forall>row\<in>set (dvalue D). \<forall>x\<in>set row. P x"
  shows "dense_ok T \<and> (\<forall>row\<in>set (dvalue T). \<forall>x\<in>set row. P x)"
proof -
  have D: "wf_dmat D" "0 < drows D" using assms(1) by (simp_all add: dense_ok_def)
  obtain N where N: "svdTransposeD D = Some N" "wf_dmat N" "drows N = dcols D" "dcols N = drows D"
    "\<forall>c<dcols D. \<forall>r<drows D. dvalue N ! c ! r = dvalue D ! r ! c"
    using svdTransposeD_transposes [OF assms(2)] by blast
  then have T: "T = N" using assms(3) by simp
  have "count_nonzero N = (\<Sum>c<dcols D. \<Sum>r<drows D. if dvalue D ! r ! c \<noteq> 0 then 1 else 0)"
    unfolding count_nonzero_sum N(3,4) using N(5) by (intro sum.cong refl) auto
  also have "\<dots> = count_nonzero D" unfolding count_nonzero_sum [of D] by (rule sum.swap)
  finally have "dense_ok N" using assms(1,2) N by (simp add: dense_ok_def)
  moreover have "P (dvalue N ! c ! r)" if "c < dcols D" "r < drows D" for c r
  proof -
    have "dvalue D ! r \<in> set (dvalue D)" "c < length (dvalue D ! r)" using that D(1) by (simp_all add: wf_dmat_def)
    then show ?thesis using N(5) that assms(4) nth_mem by metis
  qed
  then have "\<forall>row\<in>set (dvalue N). \<forall>x\<in>set row. P x" using N(2,3,4) by (auto simp: wf_dmat_def in_set_conv_nth)
  ultimately show ?thesis using T by simp
qed

lemma transposed_sparse_ok:
  assumes "wf_smat S" and "dims_ok S" and "\<forall>x\<in>set (svalue S). P x" and "0 < srows S" and "svdTransposeS h S = Some N"
  shows "wf_smat N \<and> dims_ok N \<and> (\<forall>x\<in>set (svalue N). P x)"
proof -
  obtain M where M: "svdTransposeS h S = Some M" "wf_smat M" "srows M = scols S" "scols M = srows S" "svals M = svals S"
    "\<forall>r< scols M. col_entries M r = map swap_entry (of_row r (entries S))"
    using svdTransposeS_entries [OF assms(1,4)] by blast
  then have N: "N = M" using assms(5) by simp
  have "P x" if x: "x \<in> set (svalue M)" for x
  proof -
    obtain q where q: "q \<in> set (entries M)" "x = snd (snd q)"
      using x unfolding map_rows_entries(2) [OF M(2), symmetric] by auto
    then obtain e where e: "e \<in> set (entries S)" "q = swap_entry e"
      unfolding entries_transposed [OF M(6)] by (auto simp: of_row_def)
    then have "x \<in> set (svalue S)"
      using q(2) unfolding map_rows_entries(2) [OF assms(1), symmetric] by (auto simp: swap_entry_def split_beta intro!: image_eqI [of _ _ e])
    then show ?thesis using assms(3) by blast
  qed
  then show ?thesis using M assms(2) N by (simp add: dims_ok_def)
qed

lemma convert_sparse_runs:
  assumes "file_is os infile fi txt" and "can_write os outfile fo" and "SVD_IS_SPARSE fr" and "SVD_IS_SPARSE fw"
    and "parse_sparse h F fr txt = Loaded S" and "(if turn then svdTransposeS h S else Some S) = Some S'"
    and "print_sparse F fw S' = Some out"
  shows "\<exists>cs. run os [] (convert_file h F v turn fr fw infile outfile) =
    (Exited 0, cs @ [Fopen outfile ''w'', Fwrite fo out, Fclose fo])"
proof -
  obtain c1 where c1: "run os [] (tell v (''Converting '' @ infile @ '' to '' @ outfile @ newline)) = (Returned (), c1)"
    using run_tell [of os "[]"] by fastforce
  obtain c2 where c2: "run os c1 (svdLoadSparseMatrix h F [] infile fr) = (Returned (Some S, []), c1 @ c2)"
    using run_load_sparse [OF assms(1,5)] by blast
  obtain c3 where c3: "run os (c1 @ c2) (if turn then tell v (''  Transposing the matrix...'' @ newline) else Ret ()) =
      (Returned (), (c1 @ c2) @ c3)"
    using run_tell [of os "c1 @ c2"] by (cases turn) fastforce+
  show ?thesis
    using c1 c2 c3 assms(3,4,6) run_write_sparse [OF assms(2,7), of "c1 @ c2 @ c3"]
    by (simp add: convert_file_def run_bind)
qed

lemma convert_dense_runs:
  assumes "file_is os infile fi txt" and "can_write os outfile fo" and "\<not> (SVD_IS_SPARSE fr \<and> SVD_IS_SPARSE fw)"
    and "parse_dense h F fr txt = Loaded D" and "(if turn then svdTransposeD D else Some D) = Some D'"
    and "print_dense h F fw D' = Some out"
  shows "\<exists>cs. run os [] (convert_file h F v turn fr fw infile outfile) =
    (Exited 0, cs @ [Fopen outfile ''w'', Fwrite fo out, Fclose fo])"
proof -
  obtain c1 where c1: "run os [] (tell v (''Converting '' @ infile @ '' to '' @ outfile @ newline)) = (Returned (), c1)"
    using run_tell [of os "[]"] by fastforce
  obtain c2 where c2: "run os c1 (svdLoadDenseMatrix h F [] infile fr) = (Returned (Some D, []), c1 @ c2)"
    using run_load_dense [OF assms(1,4)] by blast
  obtain c3 where c3: "run os (c1 @ c2) (if turn then tell v (''  Transposing the matrix...'' @ newline) else Ret ()) =
      (Returned (), (c1 @ c2) @ c3)"
    using run_tell [of os "c1 @ c2"] by (cases turn) fastforce+
  show ?thesis
    using c1 c2 c3 assms(3,5) run_write_dense [OF assms(2,6), of "c1 @ c2 @ c3"]
    by (auto simp: convert_file_def run_bind)
qed

lemma parse_dense_sparse:
  assumes "SVD_IS_SPARSE f"
  shows "parse_dense h F f txt = dense_of (parse_sparse h F f txt)"
  using assms by (auto simp: SVD_IS_SPARSE_def)

lemma dense_of_Loaded: "dense_of l = Loaded D \<longleftrightarrow> (\<exists>S. l = Loaded S \<and> svdConvertStoD S = Some D)"
  by (cases l) (auto simp: dense_of_def split: option.splits)

lemma convert_file_converts:
  assumes "file_is os infile fi txt" and "can_write os outfile fo" and "parse_dense h F fr txt = Loaded D"
    and "dense_ok D" and "0 < dcols D" and "\<forall>row\<in>set (dvalue D). \<forall>x\<in>set row. exact fw F x"
    and "SVD_IS_SPARSE fr \<and> SVD_IS_SPARSE fw \<longrightarrow>
      (\<forall>S. parse_sparse h F fr txt = Loaded S \<longrightarrow> wf_smat S \<and> dims_ok S \<and> (\<forall>x\<in>set (svalue S). exact fw F x))"
  shows "\<exists>E cs out. (if turn then svdTransposeD D else Some D) = Some E \<and> parse_dense h' F fw out = Loaded E \<and>
    run os [] (convert_file h F v turn fr fw infile outfile) =
      (Exited 0, cs @ [Fopen outfile ''w'', Fwrite fo out, Fclose fo])"
proof (cases "SVD_IS_SPARSE fr \<and> SVD_IS_SPARSE fw")
  case True
  obtain S where S: "parse_sparse h F fr txt = Loaded S" "svdConvertStoD S = Some D"
    using assms(3) parse_dense_sparse True dense_of_Loaded by metis
  have ok: "wf_smat S" "dims_ok S" "\<forall>x\<in>set (svalue S). exact fw F x" using assms(7) True S(1) by blast+
  have "0 < srows S" using S(2) by (auto simp: svdConvertStoD_def svdNewDMat_def split: if_splits)
  moreover have "0 < scols S" using S(2) assms(5) by (auto simp: svdConvertStoD_def svdNewDMat_def split: if_splits)
  ultimately obtain N T where N: "svdTransposeS h S = Some N" "svdTransposeD D = Some T" "svdConvertStoD N = Some T"
    "0 < srows S"
    using transpose_agrees [OF ok(1), of h] S(2) by fastforce
  let ?S = "if turn then N else S" and ?E = "if turn then T else D"
  have S': "wf_smat ?S \<and> dims_ok ?S \<and> (\<forall>x\<in>set (svalue ?S). exact fw F x)" "svdConvertStoD ?S = Some ?E"
    using transposed_sparse_ok [OF ok N(4,1)] ok S(2) N(3) by simp_all
  obtain out where out: "print_sparse F fw ?S = Some out" "parse_sparse h' F fw out = Loaded ?S"
    using sparse_format_roundtrip [of ?S fw F h'] S'(1) True by blast
  have "parse_dense h' F fw out = Loaded ?E" using out(2) S'(2) True by (simp add: parse_dense_sparse dense_of_def)
  moreover have "(if turn then svdTransposeD D else Some D) = Some ?E" "(if turn then svdTransposeS h S else Some S) = Some ?S"
    using N by simp_all
  ultimately show ?thesis using convert_sparse_runs [OF assms(1,2) _ _ S(1) _ out(1), of turn v] True by blast
next
  case False
  obtain T where T: "svdTransposeD D = Some T" using svdTransposeD_transposes [OF assms(5)] by blast
  let ?E = "if turn then T else D"
  have E: "dense_ok ?E" "\<forall>row\<in>set (dvalue ?E). \<forall>x\<in>set row. exact fw F x"
    using transposed_ok [OF assms(4,5) T, of "exact fw F"] assms(4,6) by simp_all
  have e: "(if turn then svdTransposeD D else Some D) = Some ?E" using T by simp
  obtain out where out: "print_dense h F fw ?E = Some out" "parse_dense h' F fw out = Loaded ?E"
    using dense_format_roundtrip [OF E] by blast
  show ?thesis using convert_dense_runs [OF assms(1,2) False assms(3) e out(1)] e out(2) by blast
qed

section \<open>Properties\<close>


definition int_fmt :: "int numfmt" where
  "int_fmt = \<lparr>show_g = int_str, scan_lf = scan_int, to_float = word_of_int, of_float = sint\<rparr>"

lemma int_fmt_text: "text_ok int_fmt x"
proof -
  have "scan_int (int_str x @ c # rest) = Some (x, c # rest)" if "c_isspace c" for c rest
    using that digit_facts(1) [of c] by (intro scan_int_int_str) (auto simp: no_digit_def)
  then show ?thesis using scan_int_same by (simp add: text_ok_def int_fmt_def)
qed

lemma int_fmt_float: "size_ok x \<Longrightarrow> float_ok int_fmt x"
  by (simp add: float_ok_def int_fmt_def sint_small)

definition two_rows :: "int dmat" where
  "two_rows = \<lparr>drows = 2, dcols = 2, dvalue = [[5, 0], [7, 8]]\<rparr>"

lemma two_rows_ok: "dense_ok two_rows" "\<forall>row\<in>set (dvalue two_rows). \<forall>x\<in>set row. exact f int_fmt x"
proof -
  have "count_nonzero two_rows = 3" by code_simp
  then show "dense_ok two_rows" by (simp add: dense_ok_def two_rows_def wf_dmat_def size_ok_def)
  show "\<forall>row\<in>set (dvalue two_rows). \<forall>x\<in>set row. exact f int_fmt x"
    by (cases f) (simp_all add: two_rows_def int_fmt_text int_fmt_float size_ok_def)
qed



definition matrix_os :: "string \<Rightarrow> os" where
  "matrix_os txt tr c = (case c of
     Fopen n m \<Rightarrow> rint (if m = ''r'' then 3 else 4)
   | Kernel (Contents f) \<Rightarrow> rdat txt
   | _ \<Rightarrow> rint 0)"


text \<open>
  C31: Whatever svd\_readFile or svd\_writeFile has opened, svd\_closeFile closes in the right way:
  nothing is done for a standard stream, a file is closed with fclose and a pipe with pclose, and
  the table of pipes holds the pipes that it held before the opening, each as often as then.
\<close>

theorem svd_streams_balanced:
  assumes "fresh_streams os ps" and "p = svd_readFile ps name \<or> p = svd_writeFile ps name app"
    and "run os tr p = (Returned (f, ps1), tr1)" and "f \<noteq> - 1"
  shows "\<exists>ps2 cs. run os tr1 (svd_closeFile ps1 f) = (Returned ps2, tr1 @ cs) \<and> mset ps2 = mset ps \<and>
    (cs = [] \<and> (f = 0 \<or> f = 1) \<or> cs = [Fclose f] \<and> (\<exists>n m. last tr1 = Fopen n m) \<or>
     cs = [Kernel (Pclose f)] \<and> (\<exists>n m. last tr1 = Kernel (Popen n m)))"
  using assms opener_readFile [OF assms(1), of name] opener_writeFile [OF assms(1), of name app]
  by (intro opened_close) (auto simp: opener_def)

theorem svd_streams_balanced_witness:
  "\<exists>ps2 cs. run (\<lambda>_ _. rint 7) [] (svd_closeFile [5, 6, 7] 7) = (Returned ps2, cs) \<and> mset ps2 = {#5, 6#}"
proof -
  have f: "fresh_streams (\<lambda>_ _. rint 7) [5, 6]" by (simp add: fresh_streams_def)
  have r: "run (\<lambda>_ _. rint 7) [] (svd_readFile [5, 6] ''|cat'') =
      (Returned (7, [5, 6, 7]), [Misc ''fflush(stdout)'', Kernel (Popen ''cat'' ''r'')])"
    by (simp add: svd_readFile_def openPipe_def registerPipe_def MAX_PIPES_def)
  let ?tr = "[Misc ''fflush(stdout)'', Kernel (Popen ''cat'' ''r'')]"
  obtain ps2 cs where "run (\<lambda>_ _. rint 7) ?tr (svd_closeFile [5, 6, 7] 7) = (Returned ps2, ?tr @ cs)" "mset ps2 = mset [5, 6]"
    using svd_streams_balanced [OF f disjI1 [OF refl] r] by auto
  then show ?thesis by (auto simp: svd_closeFile_def isPipe_def Let_def split: prod.splits if_splits)
qed

text \<open>The 65th pipe is stored outside the table.\<close>

lemma pipe_table_overruns:
  assumes "length ps = MAX_PIPES" and "rc (os (tr @ [Misc ''fflush(stdout)'']) (Kernel (Popen cmd ''r''))) \<noteq> - 1"
  shows "fst (run os tr (svd_readFile ps (CHR ''|'' # cmd))) = Undefined"
  using assms by (simp add: svd_readFile_def openPipe_def registerPipe_def svd_error_def run_bind)

end
