(* ===== verification/SvdUtil.thy ===== *)
theory SvdUtil
  imports Complex_Main Prelude "HOL-Library.Multiset"
begin

text \<open>
  The vector routines, the sort, the random numbers and the hypotenuse of
  \<^verbatim>\<open>c/SVDLIBC/svdutil.c\<close>. Vectors are lists, read and written at the positions that an
  increment gives; the vectors of a call are different arrays. The arithmetic is the one of the
  element type, without laws in the definitions. \<open>None\<close> is an access outside an array, or an
  integer overflow.
\<close>

section \<open>Small functions\<close>

definition svd_fsign :: "'v \<Rightarrow> 'v \<Rightarrow> ('v :: {zero, ord, uminus})" where
  "svd_fsign a b = (if a \<ge> 0 \<and> b \<ge> 0 \<or> a < 0 \<and> b < 0 then a else - a)"

definition svd_dmax :: "('v :: ord) \<Rightarrow> 'v \<Rightarrow> 'v" where
  "svd_dmax a b = (if a > b then a else b)"

definition svd_dmin :: "('v :: ord) \<Rightarrow> 'v \<Rightarrow> 'v" where
  "svd_dmin a b = (if a < b then a else b)"

definition svd_imax :: "int \<Rightarrow> int \<Rightarrow> int" where
  "svd_imax a b = (if a > b then a else b)"

definition svd_imin :: "int \<Rightarrow> int \<Rightarrow> int" where
  "svd_imin a b = (if a < b then a else b)"

section \<open>Vectors\<close>

definition vstart :: "int \<Rightarrow> int \<Rightarrow> int" where
  "vstart n inc = (if inc < 0 then (- n + 1) * inc else 0)"

definition vget :: "'v list \<Rightarrow> int \<Rightarrow> 'v option" where
  "vget xs i = (if 0 \<le> i \<and> i < int (length xs) then Some (xs ! nat i) else None)"

primrec scal_loop :: "nat \<Rightarrow> ('v :: times) \<Rightarrow> 'v list \<Rightarrow> int \<Rightarrow> int \<Rightarrow> 'v list option" where
  "scal_loop 0 da dx ix incx = Some dx"
| "scal_loop (Suc n) da dx ix incx =
     (case vget dx ix of
        None \<Rightarrow> None
      | Some x \<Rightarrow> scal_loop n da (dx[nat ix := x * da]) (ix + incx) incx)"

definition svd_dscal :: "int \<Rightarrow> ('v :: times) \<Rightarrow> 'v list \<Rightarrow> int \<Rightarrow> 'v list option" where
  "svd_dscal n da dx incx =
     (if n \<le> 0 \<or> incx = 0 then Some dx else scal_loop (nat n) da dx (vstart n incx) incx)"

text \<open>The loop of the routines that change \<open>dy\<close> by an element of \<open>dx\<close> at a time.\<close>

primrec vec_loop ::
  "('v \<Rightarrow> 'v \<Rightarrow> 'v) \<Rightarrow> nat \<Rightarrow> 'v list \<Rightarrow> int \<Rightarrow> int \<Rightarrow> 'v list \<Rightarrow> int \<Rightarrow> int \<Rightarrow> 'v list option"
where
  "vec_loop f 0 dx ix incx dy iy incy = Some dy"
| "vec_loop f (Suc n) dx ix incx dy iy incy =
     (case (vget dx ix, vget dy iy) of
        (Some x, Some y) \<Rightarrow> vec_loop f n dx (ix + incx) incx (dy[nat iy := f x y]) (iy + incy) incy
      | _ \<Rightarrow> None)"

definition svd_datx ::
  "int \<Rightarrow> ('v :: {zero, times}) \<Rightarrow> 'v list \<Rightarrow> int \<Rightarrow> 'v list \<Rightarrow> int \<Rightarrow> 'v list option"
where
  "svd_datx n da dx incx dy incy =
     (if n \<le> 0 \<or> incx = 0 \<or> incy = 0 \<or> da = 0 then Some dy
      else if incx = 1 \<and> incy = 1 then vec_loop (\<lambda>x y. da * x) (nat n) dx 0 1 dy 0 1
      else vec_loop (\<lambda>x y. da * x) (nat n) dx (vstart n incx) incx dy (vstart n incy) incy)"

definition svd_dcopy :: "int \<Rightarrow> 'v list \<Rightarrow> int \<Rightarrow> 'v list \<Rightarrow> int \<Rightarrow> 'v list option" where
  "svd_dcopy n dx incx dy incy =
     (if n \<le> 0 \<or> incx = 0 \<or> incy = 0 then Some dy
      else if incx = 1 \<and> incy = 1 then vec_loop (\<lambda>x y. x) (nat n) dx 0 1 dy 0 1
      else vec_loop (\<lambda>x y. x) (nat n) dx (vstart n incx) incx dy (vstart n incy) incy)"

definition svd_daxpy ::
  "int \<Rightarrow> ('v :: {zero, plus, times}) \<Rightarrow> 'v list \<Rightarrow> int \<Rightarrow> 'v list \<Rightarrow> int \<Rightarrow> 'v list option"
where
  "svd_daxpy n da dx incx dy incy =
     (if n \<le> 0 \<or> incx = 0 \<or> incy = 0 \<or> da = 0 then Some dy
      else if incx = 1 \<and> incy = 1 then vec_loop (\<lambda>x y. y + da * x) (nat n) dx 0 1 dy 0 1
      else vec_loop (\<lambda>x y. y + da * x) (nat n) dx (vstart n incx) incx dy (vstart n incy) incy)"

primrec dot_loop ::
  "nat \<Rightarrow> ('v :: {plus, times}) list \<Rightarrow> int \<Rightarrow> int \<Rightarrow> 'v list \<Rightarrow> int \<Rightarrow> int \<Rightarrow> 'v \<Rightarrow> 'v option"
where
  "dot_loop 0 dx ix incx dy iy incy s = Some s"
| "dot_loop (Suc n) dx ix incx dy iy incy s =
     (case (vget dx ix, vget dy iy) of
        (Some x, Some y) \<Rightarrow> dot_loop n dx (ix + incx) incx dy (iy + incy) incy (s + x * y)
      | _ \<Rightarrow> None)"

definition svd_ddot :: "int \<Rightarrow> ('v :: {zero, plus, times}) list \<Rightarrow> int \<Rightarrow> 'v list \<Rightarrow> int \<Rightarrow> 'v option" where
  "svd_ddot n dx incx dy incy =
     (if n \<le> 0 \<or> incx = 0 \<or> incy = 0 then Some 0
      else if incx = 1 \<and> incy = 1 then dot_loop (nat n) dx 0 1 dy 0 1 0
      else dot_loop (nat n) dx (vstart n incx) incx dy (vstart n incy) incy 0)"

primrec swap_loop ::
  "nat \<Rightarrow> 'v list \<Rightarrow> int \<Rightarrow> int \<Rightarrow> 'v list \<Rightarrow> int \<Rightarrow> int \<Rightarrow> ('v list \<times> 'v list) option"
where
  "swap_loop 0 dx ix incx dy iy incy = Some (dx, dy)"
| "swap_loop (Suc n) dx ix incx dy iy incy =
     (case (vget dx ix, vget dy iy) of
        (Some x, Some y) \<Rightarrow> swap_loop n (dx[nat ix := y]) (ix + incx) incx (dy[nat iy := x]) (iy + incy) incy
      | _ \<Rightarrow> None)"

definition svd_dswap :: "int \<Rightarrow> 'v list \<Rightarrow> int \<Rightarrow> 'v list \<Rightarrow> int \<Rightarrow> ('v list \<times> 'v list) option" where
  "svd_dswap n dx incx dy incy =
     (if n \<le> 0 \<or> incx = 0 \<or> incy = 0 then Some (dx, dy)
      else if incx = 1 \<and> incy = 1 then swap_loop (nat n) dx 0 1 dy 0 1
      else swap_loop (nat n) dx (vstart n incx) incx dy (vstart n incy) incy)"

text \<open>The index is the position in the array.\<close>

primrec amax_loop ::
  "nat \<Rightarrow> ('v :: {ord, abs}) list \<Rightarrow> int \<Rightarrow> int \<Rightarrow> int \<Rightarrow> 'v \<Rightarrow> int option"
where
  "amax_loop 0 dx ix incx imax dmax = Some imax"
| "amax_loop (Suc n) dx ix incx imax dmax =
     (case vget dx (ix + incx) of
        None \<Rightarrow> None
      | Some x \<Rightarrow>
          if \<bar>x\<bar> > dmax then amax_loop n dx (ix + incx) incx (ix + incx) \<bar>x\<bar>
          else amax_loop n dx (ix + incx) incx imax dmax)"

definition svd_idamax :: "int \<Rightarrow> ('v :: {ord, abs}) list \<Rightarrow> int \<Rightarrow> int option" where
  "svd_idamax n dx incx =
     (if n < 1 then Some (- 1)
      else if n = 1 then Some 0
      else if incx = 0 then Some (- 1)
      else let ix = vstart n incx in
        case vget dx ix of
          None \<Rightarrow> None
        | Some x \<Rightarrow> amax_loop (nat n - 1) dx ix incx ix \<bar>x\<bar>)"

section \<open>The sort\<close>

definition swap_at :: "nat \<Rightarrow> nat \<Rightarrow> 'a list \<Rightarrow> 'a list" where
  "swap_at i j xs = xs[i := xs ! j, j := xs ! i]"

text \<open>The inner loop: the element at \<open>index\<close> goes down in steps of \<open>igap\<close>.\<close>

function sift_down :: "nat \<Rightarrow> nat \<Rightarrow> ('v :: ord) list \<Rightarrow> 'w list \<Rightarrow> 'v list \<times> 'w list" where
  "sift_down igap index a1 a2 =
     (if 0 < igap \<and> igap \<le> index \<and> a1 ! (index - igap) > a1 ! index
      then sift_down igap (index - igap) (swap_at (index - igap) index a1) (swap_at (index - igap) index a2)
      else (a1, a2))"
  by pat_completeness auto
termination
  by (relation "measure (\<lambda>(igap, index, a1, a2). index)") auto

declare sift_down.simps [simp del]

primrec sort_pass :: "nat \<Rightarrow> nat \<Rightarrow> nat \<Rightarrow> ('v :: ord) list \<times> 'w list \<Rightarrow> 'v list \<times> 'w list" where
  "sort_pass igap 0 i a = a"
| "sort_pass igap (Suc m) i a = sort_pass igap m (i + 1) (sift_down igap i (fst a) (snd a))"

function sort_gaps :: "nat \<Rightarrow> nat \<Rightarrow> ('v :: ord) list \<times> 'w list \<Rightarrow> 'v list \<times> 'w list" where
  "sort_gaps igap n a =
     (if igap = 0 then a else sort_gaps (igap div 2) n (sort_pass igap (n - igap) igap a))"
  by pat_completeness auto
termination
  by (relation "measure (\<lambda>(igap, n, a). igap)") auto

declare sort_gaps.simps [simp del]

definition svd_dsort2 :: "nat \<Rightarrow> nat \<Rightarrow> ('v :: ord) list \<Rightarrow> 'w list \<Rightarrow> ('v list \<times> 'w list) option" where
  "svd_dsort2 igap n a1 a2 =
     (if igap \<noteq> 0 \<and> 1 < n \<and> (length a1 < n \<or> length a2 < n) then None else Some (sort_gaps igap n (a1, a2)))"

section \<open>Random numbers\<close>

text \<open>
  The constants of the generator, which the first call computes: \<open>ia\<close> is
  \<^verbatim>\<open>8 * (long)(2^30 * atan(1.0) / 8.0) + 5\<close> and \<open>ic\<close> is
  \<^verbatim>\<open>2 * (long)(2^30 * (0.5 - sqrt(3.0)/6.0)) + 1\<close>.
\<close>

definition r_m2 :: int where "r_m2 = 2 ^ 30"
definition r_ia :: int where "r_ia = 843314861"
definition r_ic :: int where "r_ic = 453816693"
definition r_mic :: int where "r_mic = (r_m2 - r_ic) + r_m2"

text \<open>What a result that does not fit in a \<^verbatim>\<open>long\<close> becomes: nothing, or it wraps around.\<close>

definition checked :: "nat \<Rightarrow> int \<Rightarrow> int option" where
  "checked w x = (if - (2 ^ (w - 1)) \<le> x \<and> x < 2 ^ (w - 1) then Some x else None)"

definition wrapped :: "nat \<Rightarrow> int \<Rightarrow> int option" where
  "wrapped w x = Some (signed_take_bit (w - 1) x)"

definition random_scale :: "int \<Rightarrow> real" where
  "random_scale iy = real_of_int iy * (0.5 / real_of_int r_m2)"

text \<open>The number, and the new seed.\<close>

definition svd_random2 :: "(int \<Rightarrow> int option) \<Rightarrow> int \<Rightarrow> (real \<times> int) option" where
  "svd_random2 ov iy =
     (case ov (iy * r_ia) of None \<Rightarrow> None | Some y1 \<Rightarrow>
      let y2 = (if y1 > r_mic then (y1 - r_m2) - r_m2 else y1) in
      case ov (y2 + r_ic) of None \<Rightarrow> None | Some y3 \<Rightarrow>
      let y4 = (if y3 > 0 \<and> y3 div 2 > r_m2 then (y3 - r_m2) - r_m2 else y3);
          y5 = (if y4 < 0 then (y4 + r_m2) + r_m2 else y4)
      in Some (random_scale y5, y5))"

section \<open>The hypotenuse\<close>

text \<open>
  One round of the loop of \<^verbatim>\<open>svd_pythag\<close>, and the loop with at most \<open>k\<close> tests. The test is the one
  place where the rounding of the sum decides: the double next to 4 is \<open>4 + 2\<close> to the \<open>-50\<close>, so
  the sum with a non-negative \<open>r\<close> is 4 up to half of that, the tie going to the even 4. The other
  operations are those of the real numbers.
\<close>

definition pythag_round :: "real \<times> real \<Rightarrow> real \<times> real" where
  "pythag_round pr =
     (let (p, r) = pr; t = 4 + r; s = r / t; u = 1 + 2 * s; temp = s / u in (p * u, r * (temp * temp)))"

definition sum_is_4 :: "real \<Rightarrow> bool" where
  "sum_is_4 r \<longleftrightarrow> r \<le> 1 / 2 ^ 51"

primrec pythag_loop :: "nat \<Rightarrow> real \<times> real \<Rightarrow> real option" where
  "pythag_loop 0 pr = None"
| "pythag_loop (Suc k) pr = (if \<not> sum_is_4 (snd pr) then pythag_loop k (pythag_round pr) else Some (fst pr))"

definition pythag_start :: "real \<Rightarrow> real \<Rightarrow> real \<times> real" where
  "pythag_start a b = (let p = svd_dmax \<bar>a\<bar> \<bar>b\<bar>; temp = svd_dmin \<bar>a\<bar> \<bar>b\<bar> / p in (p, temp * temp))"

definition svd_pythag :: "nat \<Rightarrow> real \<Rightarrow> real \<Rightarrow> real option" where
  "svd_pythag k a b =
     (if svd_dmax \<bar>a\<bar> \<bar>b\<bar> \<noteq> 0 then pythag_loop k (pythag_start a b) else Some (svd_dmax \<bar>a\<bar> \<bar>b\<bar>))"

section \<open>The sort sorts\<close>

lemma length_swap_at [simp]: "length (swap_at i j xs) = length xs"
  by (simp add: swap_at_def)

lemma zip_swap_at:
  "i < length xs \<Longrightarrow> j < length xs \<Longrightarrow> length ys = length xs \<Longrightarrow>
    zip (swap_at i j xs) (swap_at i j ys) = swap_at i j (zip xs ys)"
  by (rule nth_equalityI) (auto simp: swap_at_def nth_list_update)

lemma mset_swap_at: "i < length xs \<Longrightarrow> j < length xs \<Longrightarrow> mset (swap_at i j xs) = mset xs"
  unfolding swap_at_def by (rule mset_swap)

lemma sift_down_step:
  "0 < g \<and> g \<le> k \<and> a1 ! (k - g) > a1 ! k \<Longrightarrow>
    sift_down g k a1 a2 = sift_down g (k - g) (swap_at (k - g) k a1) (swap_at (k - g) k a2)"
  by (subst sift_down.simps) simp

lemma sift_down_stop: "\<not> (0 < g \<and> g \<le> k \<and> a1 ! (k - g) > a1 ! k) \<Longrightarrow> sift_down g k a1 a2 = (a1, a2)"
  by (subst sift_down.simps) (rule if_not_P)

lemma sort_gaps_0 [simp]: "sort_gaps 0 n a = a"
  by (subst sort_gaps.simps) simp

lemma sort_gaps_step: "g \<noteq> 0 \<Longrightarrow> sort_gaps g n a = sort_gaps (g div 2) n (sort_pass g (n - g) g a)"
  by (subst sort_gaps.simps) simp

definition same_pairs :: "'v list \<times> 'w list \<Rightarrow> 'v list \<times> 'w list \<Rightarrow> bool" where
  "same_pairs a b \<longleftrightarrow> length (fst b) = length (fst a) \<and> length (snd b) = length (snd a) \<and>
     mset (zip (fst b) (snd b)) = mset (zip (fst a) (snd a))"

lemma same_pairs_trans: "same_pairs a b \<Longrightarrow> same_pairs b c \<Longrightarrow> same_pairs a c"
  by (simp add: same_pairs_def)

lemma sift_down_pairs:
  "index < length a1 \<Longrightarrow> length a2 = length a1 \<Longrightarrow> same_pairs (a1, a2) (sift_down g index a1 a2)"
proof (induction g index a1 a2 rule: sift_down.induct)
  case (1 g index a1 a2)
  let ?s = "\<lambda>xs. swap_at (index - g) index xs"
  show ?case
  proof (cases "0 < g \<and> g \<le> index \<and> a1 ! (index - g) > a1 ! index")
    case True
    have "same_pairs (a1, a2) (?s a1, ?s a2)"
      using "1.prems" by (simp add: same_pairs_def zip_swap_at mset_swap_at)
    moreover have "same_pairs (?s a1, ?s a2) (sift_down g (index - g) (?s a1) (?s a2))"
      using "1.IH" [OF True] "1.prems" by simp
    ultimately show ?thesis unfolding sift_down_step [of g index a1, OF True] by (rule same_pairs_trans)
  next
    case False
    then show ?thesis using sift_down_stop [OF False, of a2] by (simp add: same_pairs_def)
  qed
qed

lemma sort_pass_pairs:
  "i + m \<le> length (fst a) \<Longrightarrow> length (snd a) = length (fst a) \<Longrightarrow> same_pairs a (sort_pass g m i a)"
proof (induction m arbitrary: i a)
  case (Suc m)
  have s: "same_pairs a (sift_down g i (fst a) (snd a))"
    using sift_down_pairs [of i "fst a" "snd a" g] Suc.prems by simp
  then show ?case using Suc.IH [of "i + 1" "sift_down g i (fst a) (snd a)"] Suc.prems same_pairs_trans
    by (simp add: same_pairs_def)
qed (simp add: same_pairs_def)

lemma sort_gaps_pairs:
  "n \<le> length (fst a) \<or> n \<le> 1 \<Longrightarrow> length (snd a) = length (fst a) \<Longrightarrow> same_pairs a (sort_gaps g n a)"
proof (induction g n a rule: sort_gaps.induct)
  case (1 g n a)
  show ?case
  proof (cases "g = 0")
    case False
    let ?b = "sort_pass g (n - g) g a"
    have b: "same_pairs a ?b"
    proof (cases "n - g = 0")
      case True
      then show ?thesis by (simp add: same_pairs_def)
    next
      case ng: False
      then show ?thesis using "1.prems" False by (intro sort_pass_pairs) auto
    qed
    then have "same_pairs ?b (sort_gaps (g div 2) n ?b)"
      using "1.IH" [OF False] "1.prems" by (simp add: same_pairs_def)
    with b show ?thesis unfolding sort_gaps_step [OF False] by (rule same_pairs_trans)
  qed (simp add: same_pairs_def)
qed

text \<open>With the gap 1 a pass inserts one element after the other.\<close>

definition sorted_but :: "nat \<Rightarrow> nat \<Rightarrow> ('v :: linorder) list \<Rightarrow> bool" where
  "sorted_but i k a \<longleftrightarrow> (\<forall>x y. x < y \<longrightarrow> y \<le> i \<longrightarrow> y \<noteq> k \<longrightarrow> a ! x \<le> a ! y)"

lemma sift_down_sorts:
  "k \<le> i \<Longrightarrow> i < length a1 \<Longrightarrow> sorted_but i k a1 \<Longrightarrow>
    (\<forall>x y. x < y \<longrightarrow> y \<le> i \<longrightarrow> fst (sift_down 1 k a1 a2) ! x \<le> fst (sift_down 1 k a1 a2) ! y) \<and>
    (\<forall>x>i. fst (sift_down 1 k a1 a2) ! x = a1 ! x)"
proof (induction k arbitrary: a1 a2)
  case 0
  then show ?case by (simp add: sift_down_stop sorted_but_def)
next
  case (Suc k)
  let ?b = "swap_at k (Suc k) a1"
  show ?case
  proof (cases "a1 ! k > a1 ! Suc k")
    case True
    have b: "?b ! x = (if x = k then a1 ! Suc k else if x = Suc k then a1 ! k else a1 ! x)" for x
      using Suc.prems(1,2) by (simp add: swap_at_def nth_list_update)
    have "sorted_but i k ?b"
      unfolding sorted_but_def
    proof (intro allI impI)
      fix x y assume xy: "x < y" "y \<le> i" "y \<noteq> k"
      show "?b ! x \<le> ?b ! y"
      proof (cases "y = Suc k")
        case True
        then show ?thesis using xy \<open>a1 ! k > a1 ! Suc k\<close> Suc.prems(3) by (auto simp: b sorted_but_def)
      next
        case False
        then have le: "a1 ! z \<le> a1 ! y" if "z < y" for z using Suc.prems(3) xy that by (simp add: sorted_but_def)
        have "y > Suc k \<or> y < k" using False xy by auto
        then show ?thesis
        proof
          assume "y > Suc k"
          then show ?thesis using le [of k] le [of "Suc k"] le [of x] xy False by (simp add: b)
        next
          assume "y < k"
          then show ?thesis using le [of x] xy by (simp add: b)
        qed
      qed
    qed
    then have "(\<forall>x y. x < y \<longrightarrow> y \<le> i \<longrightarrow> fst (sift_down 1 k ?b (swap_at k (Suc k) a2)) ! x \<le>
          fst (sift_down 1 k ?b (swap_at k (Suc k) a2)) ! y) \<and>
        (\<forall>x>i. fst (sift_down 1 k ?b (swap_at k (Suc k) a2)) ! x = ?b ! x)"
      using Suc.IH [of ?b] Suc.prems(1,2) by simp
    moreover have "?b ! x = a1 ! x" if "x > i" for x using that Suc.prems(1) b by simp
    moreover have "sift_down 1 (Suc k) a1 a2 = sift_down 1 k ?b (swap_at k (Suc k) a2)"
      using True sift_down_step [of 1 "Suc k" a1 a2] by simp
    ultimately show ?thesis by simp
  next
    case False
    then have s: "sift_down 1 (Suc k) a1 a2 = (a1, a2)" by (simp add: sift_down_stop)
    have "a1 ! x \<le> a1 ! y" if "x < y" "y \<le> i" for x y
    proof (cases "y = Suc k")
      case True
      show ?thesis
      proof (cases "x = k")
        case True
        then show ?thesis using False \<open>y = Suc k\<close> by simp
      next
        case x: False
        then have "a1 ! x \<le> a1 ! k" using Suc.prems(1,3) that True by (simp add: sorted_but_def)
        with False True show ?thesis by simp
      qed
    next
      case y: False
      then show ?thesis using Suc.prems(3) that by (simp add: sorted_but_def)
    qed
    with s show ?thesis by simp
  qed
qed

lemma sort_pass_sorts:
  fixes a :: "('v :: linorder) list \<times> 'w list"
  shows "i + m \<le> length (fst a) \<Longrightarrow> length (snd a) = length (fst a) \<Longrightarrow> \<forall>x y. x < y \<longrightarrow> y < i \<longrightarrow> fst a ! x \<le> fst a ! y \<Longrightarrow>
    (\<forall>x y. x < y \<longrightarrow> y < i + m \<longrightarrow> fst (sort_pass 1 m i a) ! x \<le> fst (sort_pass 1 m i a) ! y) \<and>
    (\<forall>x\<ge>i + m. fst (sort_pass 1 m i a) ! x = fst a ! x)"
proof (induction m arbitrary: i a)
  case (Suc m)
  let ?b = "sift_down 1 i (fst a) (snd a)"
  have "sorted_but i i (fst a)" using Suc.prems(3) by (auto simp: sorted_but_def)
  then have b: "\<forall>x y. x < y \<longrightarrow> y \<le> i \<longrightarrow> fst ?b ! x \<le> fst ?b ! y" "\<forall>x>i. fst ?b ! x = fst a ! x"
    using sift_down_sorts [of i i "fst a" "snd a"] Suc.prems(1) by auto
  have "same_pairs (fst a, snd a) ?b" using Suc.prems(1,2) by (intro sift_down_pairs) simp_all
  then have "(\<forall>x y. x < y \<longrightarrow> y < i + 1 + m \<longrightarrow> fst (sort_pass 1 m (i + 1) ?b) ! x \<le> fst (sort_pass 1 m (i + 1) ?b) ! y) \<and>
      (\<forall>x\<ge>i + 1 + m. fst (sort_pass 1 m (i + 1) ?b) ! x = fst ?b ! x)"
    using b(1) Suc.prems by (intro Suc.IH) (simp_all add: same_pairs_def)
  then show ?case using b(2) by simp
qed simp

lemma sort_gaps_sorts:
  fixes a :: "('v :: linorder) list \<times> 'w list"
  shows "1 \<le> g \<Longrightarrow> n \<le> length (fst a) \<Longrightarrow> length (snd a) = length (fst a) \<Longrightarrow>
    sorted (take n (fst (sort_gaps g n a)))"
proof (induction g n a rule: sort_gaps.induct)
  case (1 g n a)
  let ?b = "sort_pass g (n - g) g a"
  have g: "g \<noteq> 0" using "1.prems"(1) by simp
  have b: "same_pairs a ?b"
  proof (cases "n - g = 0")
    case False
    then show ?thesis using "1.prems" by (intro sort_pass_pairs) auto
  qed (simp add: same_pairs_def)
  show ?case
  proof (cases "g = 1")
    case True
    have "sort_gaps g n a = ?b"
      using sort_gaps_step [OF g, of n a] True by simp
    moreover have "sorted (take n (fst ?b))"
    proof (cases "n \<le> 1")
      case True
      then show ?thesis by (auto simp: sorted_iff_nth_mono_less)
    next
      case False
      have "\<forall>x y. x < y \<longrightarrow> y < n \<longrightarrow> fst (sort_pass 1 (n - 1) 1 a) ! x \<le> fst (sort_pass 1 (n - 1) 1 a) ! y"
        using sort_pass_sorts [of 1 "n - 1" a] "1.prems"(2,3) False by auto
      then show ?thesis using True by (auto simp: sorted_iff_nth_mono_less)
    qed
    ultimately show ?thesis by simp
  next
    case False
    then have "1 \<le> g div 2" using "1.prems"(1) by simp
    then have "sorted (take n (fst (sort_gaps (g div 2) n ?b)))"
      using "1.IH" [OF g] "1.prems" b by (simp add: same_pairs_def)
    then show ?thesis unfolding sort_gaps_step [OF g] .
  qed
qed

section \<open>Vectors\<close>

text \<open>With increment 1 the routines work element by element.\<close>

lemma vget_in: "0 \<le> i \<Longrightarrow> i < int (length xs) \<Longrightarrow> vget xs i = Some (xs ! nat i)"
  by (simp add: vget_def)

lemma vec_loop_unit:
  "ix + n \<le> length dx \<Longrightarrow> ix + n \<le> length dy \<Longrightarrow>
    vec_loop f n dx (int ix) 1 dy (int ix) 1 =
      Some (take ix dy @ map2 f (take n (drop ix dx)) (take n (drop ix dy)) @ drop (ix + n) dy)"
proof (induction n arbitrary: ix dy)
  case (Suc n)
  let ?dy = "dy[ix := f (dx ! ix) (dy ! ix)]"
  have "vec_loop f (Suc n) dx (int ix) 1 dy (int ix) 1 = vec_loop f n dx (int (Suc ix)) 1 ?dy (int (Suc ix)) 1"
    using Suc.prems by (simp add: vget_in add.commute)
  also have "\<dots> = Some (take (Suc ix) ?dy @ map2 f (take n (drop (Suc ix) dx)) (take n (drop (Suc ix) ?dy)) @
      drop (Suc ix + n) ?dy)"
    using Suc.prems by (intro Suc.IH) simp_all
  also have "take (Suc ix) ?dy = take ix dy @ [f (dx ! ix) (dy ! ix)]" using Suc.prems by (simp add: take_Suc_update)
  finally show ?case
    using Suc.prems by (simp add: Cons_nth_drop_Suc [symmetric])
qed simp

lemma dot_loop_unit:
  "ix + n \<le> length dx \<Longrightarrow> ix + n \<le> length dy \<Longrightarrow>
    dot_loop n dx (int ix) 1 dy (int ix) 1 s =
      Some (foldl (\<lambda>s (x, y). s + x * y) s (zip (take n (drop ix dx)) (take n (drop ix dy))))"
proof (induction n arbitrary: ix s)
  case (Suc n)
  have "dot_loop (Suc n) dx (int ix) 1 dy (int ix) 1 s = dot_loop n dx (int (Suc ix)) 1 dy (int (Suc ix)) 1 (s + dx ! ix * dy ! ix)"
    using Suc.prems by (simp add: vget_in add.commute)
  also have "\<dots> = Some (foldl (\<lambda>s (x, y). s + x * y) (s + dx ! ix * dy ! ix)
      (zip (take n (drop (Suc ix) dx)) (take n (drop (Suc ix) dy))))"
    using Suc.prems by (intro Suc.IH) simp_all
  finally show ?case using Suc.prems by (simp add: Cons_nth_drop_Suc [symmetric])
qed simp

lemma svd_daxpy_unit:
  assumes "length dx = length dy"
  shows "svd_daxpy (int (length dy)) da dx 1 dy 1 =
    Some (if da = 0 then dy else map2 (\<lambda>x y. y + da * x) dx dy)"
  using assms vec_loop_unit [of 0 "length dy" dx dy "\<lambda>x y. y + da * x"] by (auto simp: svd_daxpy_def)

lemma svd_dcopy_unit: "length dx = length dy \<Longrightarrow> svd_dcopy (int (length dy)) dx 1 dy 1 = Some dx"
proof -
  assume l: "length dx = length dy"
  have "map2 (\<lambda>x y. x) dx dy = dx" using l by (induction dx dy rule: list_induct2) auto
  then show ?thesis using l vec_loop_unit [of 0 "length dy" dx dy "\<lambda>x y. x"] by (auto simp: svd_dcopy_def)
qed

lemma svd_ddot_unit:
  fixes dx dy :: "('v :: semiring_0) list"
  assumes "length dx = length dy"
  shows "svd_ddot (int (length dy)) dx 1 dy 1 = Some (\<Sum>i<length dy. dx ! i * dy ! i)"
proof -
  have "foldl (\<lambda>s (x, y). s + x * y) s (zip xs ys) = s + (\<Sum>i<length ys. xs ! i * ys ! i)"
    if "length xs = length ys" for s :: 'v and xs ys
    using that
  proof (induction xs ys arbitrary: s rule: list_induct2)
    case (Cons x xs y ys)
    have "(\<Sum>i<length (y # ys). (x # xs) ! i * (y # ys) ! i) = x * y + (\<Sum>i<length ys. xs ! i * ys ! i)"
      by (simp add: sum.lessThan_Suc_shift del: sum.lessThan_Suc)
    with Cons show ?case by (simp add: add.assoc)
  qed simp
  then show ?thesis using assms dot_loop_unit [of 0 "length dy" dx dy 0] by (auto simp: svd_ddot_def)
qed

text \<open>The largest magnitude: of the elements that the increment reaches, the first of the largest.\<close>

lemma amax_loop_max:
  fixes dx :: "('v :: {linorder, abs}) list"
  shows "\<forall>i\<le>k + n. vget dx (ix0 + int i * incx) \<noteq> None \<Longrightarrow>
    m \<le> k \<Longrightarrow> vget dx (ix0 + int m * incx) = Some x \<Longrightarrow> \<bar>x\<bar> = dmax \<Longrightarrow>
    \<forall>i\<le>k. \<forall>y. vget dx (ix0 + int i * incx) = Some y \<longrightarrow> \<bar>y\<bar> \<le> dmax \<Longrightarrow>
    \<exists>m'\<le>k + n. amax_loop n dx (ix0 + int k * incx) incx (ix0 + int m * incx) dmax = Some (ix0 + int m' * incx) \<and>
      (\<exists>x'. vget dx (ix0 + int m' * incx) = Some x' \<and>
        (\<forall>i\<le>k + n. \<forall>y. vget dx (ix0 + int i * incx) = Some y \<longrightarrow> \<bar>y\<bar> \<le> \<bar>x'\<bar>))"
proof (induction n arbitrary: k m x dmax)
  case 0
  then show ?case by auto
next
  case (Suc n)
  have p: "ix0 + int k * incx + incx = ix0 + int (Suc k) * incx" by (simp add: algebra_simps)
  have "vget dx (ix0 + int (Suc k) * incx) \<noteq> None" using Suc.prems(1) by (simp del: of_nat_Suc)
  then obtain z where z: "vget dx (ix0 + int (Suc k) * incx) = Some z" by auto
  have b: "\<forall>i\<le>Suc k + n. vget dx (ix0 + int i * incx) \<noteq> None" using Suc.prems(1) by simp
  show ?case
  proof (cases "\<bar>z\<bar> > dmax")
    case True
    have "\<forall>i\<le>Suc k. \<forall>y. vget dx (ix0 + int i * incx) = Some y \<longrightarrow> \<bar>y\<bar> \<le> \<bar>z\<bar>"
      using Suc.prems(5) True z by (metis (no_types, lifting) le_Suc_eq less_le_not_le linear option.inject order_trans)
    from Suc.IH [OF b order_refl z refl this] True z show ?thesis by (simp add: p del: of_nat_Suc)
  next
    case False
    have "\<forall>i\<le>Suc k. \<forall>y. vget dx (ix0 + int i * incx) = Some y \<longrightarrow> \<bar>y\<bar> \<le> dmax"
      using Suc.prems(5) False z by (metis (no_types, lifting) le_Suc_eq linorder_not_le option.inject order_less_imp_le)
    from Suc.IH [OF b _ Suc.prems(3,4) this] Suc.prems(2) False z show ?thesis by (simp add: p del: of_nat_Suc)
  qed
qed

section \<open>Random numbers\<close>

lemma r_consts: "r_m2 = 1073741824" "r_mic = 1693666955"
  by (simp_all add: r_m2_def r_mic_def r_ic_def)

lemma signed31:
  "signed_take_bit 31 (x :: int) mod 2147483648 = x mod 2147483648"
  "- 2147483648 \<le> signed_take_bit 31 x" "signed_take_bit 31 x < 2147483648"
proof -
  have "take_bit 31 (signed_take_bit 31 x) = take_bit 31 x" by (simp add: take_bit_signed_take_bit)
  then show "signed_take_bit 31 x mod 2147483648 = x mod 2147483648" by (simp add: take_bit_eq_mod)
  show "- 2147483648 \<le> signed_take_bit 31 x" using signed_take_bit_int_greater_eq_minus_exp [of 31 x] by simp
  show "signed_take_bit 31 x < 2147483648" using signed_take_bit_int_less_exp [of 31 x] by simp
qed

lemma random2_32: "svd_random2 (wrapped 32) iy = Some (random_scale ((iy * r_ia + r_ic) mod 2147483648), (iy * r_ia + r_ic) mod 2147483648)"
proof -
  define y1 where "y1 = signed_take_bit 31 (iy * r_ia)"
  define y2 where "y2 = (if y1 > r_mic then (y1 - r_m2) - r_m2 else y1)"
  define y3 where "y3 = signed_take_bit 31 (y2 + r_ic)"
  define y5 where "y5 = (if y3 < 0 then (y3 + r_m2) + r_m2 else y3)"
  have m1: "y1 mod 2147483648 = iy * r_ia mod 2147483648" unfolding y1_def by (rule signed31)
  have m2: "y2 mod 2147483648 = y1 mod 2147483648"
    by (simp add: y2_def r_consts)
  have m3: "y3 mod 2147483648 = (y2 + r_ic) mod 2147483648" unfolding y3_def by (rule signed31)
  have b3: "- 2147483648 \<le> y3" "y3 < 2147483648" unfolding y3_def by (rule signed31)+
  have m5: "y5 mod 2147483648 = y3 mod 2147483648" by (simp add: y5_def r_consts)
  have b5: "0 \<le> y5" "y5 < 2147483648" using b3 by (auto simp: y5_def r_consts)
  have "y5 = y5 mod 2147483648" using b5 by simp
  also have "\<dots> = (y2 mod 2147483648 + r_ic) mod 2147483648" unfolding m5 m3 by (simp only: mod_add_left_eq)
  also have "\<dots> = (iy * r_ia + r_ic) mod 2147483648" unfolding m2 m1 by (simp only: mod_add_left_eq)
  finally have e: "y5 = (iy * r_ia + r_ic) mod 2147483648" .
  have "\<not> y3 div 2 > r_m2" using b3 by (simp add: r_consts)
  moreover have "wrapped 32 (iy * r_ia) = Some y1" "wrapped 32 (y2 + r_ic) = Some y3"
    by (simp_all add: wrapped_def y1_def y3_def)
  ultimately have "svd_random2 (wrapped 32) iy = Some (random_scale y5, y5)"
    by (simp add: svd_random2_def Let_def flip: y2_def y5_def)
  then show ?thesis unfolding e .
qed

lemma random_scale_range: "0 \<le> y \<Longrightarrow> y < 2147483648 \<Longrightarrow> 0 \<le> random_scale y \<and> random_scale y < 1"
proof -
  assume y: "0 \<le> y" "y < 2147483648"
  then have "real_of_int y < 2147483648" by linarith
  with y(1) show ?thesis by (simp add: random_scale_def r_m2_def)
qed

section \<open>The hypotenuse\<close>

lemma pythag_round_keeps:
  assumes "0 \<le> r"
  shows "fst (pythag_round (p, r)) ^ 2 * (1 + snd (pythag_round (p, r))) = p ^ 2 * (1 + r)"
    and "snd (pythag_round (p, r)) = r ^ 3 / (4 + 3 * r) ^ 2" and "fst (pythag_round (p, r)) = p * ((4 + 3 * r) / (4 + r))"
proof -
  have nz: "4 + r \<noteq> 0" "4 + 3 * r \<noteq> 0" using assms by linarith+
  have u: "1 + 2 * (r / (4 + r)) = (4 + 3 * r) / (4 + r)" using nz by (simp add: field_simps)
  have pr: "pythag_round (p, r) = (p * ((4 + 3 * r) / (4 + r)), r * (r / (4 + r) / ((4 + 3 * r) / (4 + r)) * (r / (4 + r) / ((4 + 3 * r) / (4 + r)))))"
    unfolding pythag_round_def Let_def prod.case u ..
  show f: "fst (pythag_round (p, r)) = p * ((4 + 3 * r) / (4 + r))" unfolding pr by simp
  have h: "r / (4 + r) / ((4 + 3 * r) / (4 + r)) = r / (4 + 3 * r)" using nz by simp
  show s: "snd (pythag_round (p, r)) = r ^ 3 / (4 + 3 * r) ^ 2"
    unfolding pr snd_conv h by (simp add: power2_eq_square power3_eq_cube)
  have "(4 + 3 * r) ^ 2 + r ^ 3 = (1 + r) * (4 + r) ^ 2" by (simp add: power2_eq_square power3_eq_cube algebra_simps)
  then have "((4 + 3 * r) / (4 + r)) ^ 2 * (1 + r ^ 3 / (4 + 3 * r) ^ 2) = 1 + r"
    using nz by (simp add: field_simps)
  then show "fst (pythag_round (p, r)) ^ 2 * (1 + snd (pythag_round (p, r))) = p ^ 2 * (1 + r)"
    unfolding f s power_mult_distrib mult.assoc by (rule arg_cong)
qed

lemma cube_small:
  fixes r :: real
  assumes "0 \<le> r" and "r \<le> 1"
  shows "r ^ 3 / (4 + 3 * r) ^ 2 \<le> r / 49" and "r ^ 3 / (4 + 3 * r) ^ 2 \<le> r ^ 3 / 16" and "0 \<le> r ^ 3 / (4 + 3 * r) ^ 2"
proof -
  have "7 * r \<le> 4 + 3 * r" using assms by simp
  then have "(7 * r) ^ 2 \<le> (4 + 3 * r) ^ 2" using assms(1) by (intro power_mono) simp_all
  then have "49 * r ^ 2 * r \<le> (4 + 3 * r) ^ 2 * r" using assms(1) by (intro mult_right_mono) (simp_all add: power_mult_distrib)
  moreover have "0 < (4 + 3 * r) ^ 2" using assms(1) by (intro zero_less_power) linarith
  ultimately show "r ^ 3 / (4 + 3 * r) ^ 2 \<le> r / 49" by (simp add: field_simps power3_eq_cube power2_eq_square)
  have "(4 :: real) ^ 2 \<le> (4 + 3 * r) ^ 2" using assms(1) by (intro power_mono) simp_all
  then show "r ^ 3 / (4 + 3 * r) ^ 2 \<le> r ^ 3 / 16" using assms(1) by (intro divide_left_mono) simp_all
  show "0 \<le> r ^ 3 / (4 + 3 * r) ^ 2" using assms(1) by simp
qed

lemma pythag_start_facts:
  assumes "a \<noteq> 0 \<or> b \<noteq> 0"
  shows "0 < fst (pythag_start a b)" "0 \<le> snd (pythag_start a b)" "snd (pythag_start a b) \<le> 1"
    "fst (pythag_start a b) ^ 2 * (1 + snd (pythag_start a b)) = a ^ 2 + b ^ 2"
proof -
  define p where "p = svd_dmax \<bar>a\<bar> \<bar>b\<bar>"
  define q where "q = svd_dmin \<bar>a\<bar> \<bar>b\<bar>"
  have pq: "0 < p" "0 \<le> q" "q \<le> p" "p ^ 2 + q ^ 2 = a ^ 2 + b ^ 2"
    using assms by (auto simp: p_def q_def svd_dmax_def svd_dmin_def abs_eq_iff)
  have s: "pythag_start a b = (p, (q / p) ^ 2)" by (simp add: pythag_start_def p_def q_def Let_def power2_eq_square)
  have "q / p \<le> 1" using pq by simp
  then have "(q / p) ^ 2 \<le> 1" using pq by (intro power_le_one) simp_all
  moreover have "p ^ 2 * (1 + (q / p) ^ 2) = p ^ 2 + q ^ 2" using pq(1) by (simp add: power_divide distrib_left)
  ultimately show "0 < fst (pythag_start a b)" "0 \<le> snd (pythag_start a b)" "snd (pythag_start a b) \<le> 1"
    "fst (pythag_start a b) ^ 2 * (1 + snd (pythag_start a b)) = a ^ 2 + b ^ 2"
    using pq s by simp_all
qed

lemma pythag_rounds:
  assumes "a \<noteq> 0 \<or> b \<noteq> 0" and "(pythag_round ^^ k) (pythag_start a b) = (p, r)"
  shows "0 < p \<and> 0 \<le> r \<and> r \<le> 1 \<and> p ^ 2 * (1 + r) = a ^ 2 + b ^ 2"
  using assms(2)
proof (induction k arbitrary: p r)
  case 0
  then show ?case using pythag_start_facts [OF assms(1)] by simp
next
  case (Suc k)
  obtain q s where qs: "(pythag_round ^^ k) (pythag_start a b) = (q, s)" by fastforce
  from Suc.IH [OF qs] have i: "0 < q" "0 \<le> s" "s \<le> 1" "q ^ 2 * (1 + s) = a ^ 2 + b ^ 2" by simp_all
  have pr: "pythag_round (q, s) = (p, r)" using Suc.prems qs by simp
  note k = pythag_round_keeps [OF i(2), of q, unfolded pr fst_conv snd_conv]
  have "0 < p" unfolding k(3) using i(1,2) by simp
  moreover have "0 \<le> r" "r \<le> s / 49" unfolding k(2) using cube_small [OF i(2,3)] by simp_all
  ultimately show ?case using k(1) i(3,4) by simp
qed

lemma pythag_step_small:
  assumes "a \<noteq> 0 \<or> b \<noteq> 0" and "snd ((pythag_round ^^ k) (pythag_start a b)) \<le> e" and "e \<le> 1"
  shows "snd ((pythag_round ^^ Suc k) (pythag_start a b)) \<le> e / 49"
    and "snd ((pythag_round ^^ Suc k) (pythag_start a b)) \<le> e ^ 3 / 16"
proof -
  obtain q s where qs: "(pythag_round ^^ k) (pythag_start a b) = (q, s)" by fastforce
  then have s: "0 \<le> s" "s \<le> e" "s \<le> 1" using pythag_rounds [OF assms(1) qs] assms(2) by simp_all
  have r: "snd ((pythag_round ^^ Suc k) (pythag_start a b)) = s ^ 3 / (4 + 3 * s) ^ 2"
    using pythag_round_keeps(2) [OF s(1)] qs by simp
  show "snd ((pythag_round ^^ Suc k) (pythag_start a b)) \<le> e / 49"
    unfolding r using cube_small(1) [OF s(1,3)] s(2) by linarith
  have "s ^ 3 \<le> e ^ 3" using s by (intro power_mono) simp_all
  then show "snd ((pythag_round ^^ Suc k) (pythag_start a b)) \<le> e ^ 3 / 16"
    unfolding r using cube_small(2) [OF s(1,3)] by linarith
qed

lemma pythag_three_rounds:
  assumes "a \<noteq> 0 \<or> b \<noteq> 0"
  shows "sum_is_4 (snd ((pythag_round ^^ 3) (pythag_start a b)))"
proof -
  note step = pythag_step_small [OF assms]
  have "snd ((pythag_round ^^ 0) (pythag_start a b)) \<le> 1" using pythag_start_facts(3) [OF assms] by simp
  from step(1) [OF this] have "snd ((pythag_round ^^ 1) (pythag_start a b)) \<le> 1 / 49" by simp
  from step(2) [OF this] have "snd ((pythag_round ^^ 2) (pythag_start a b)) \<le> 1 / 1000000"
    by (simp add: numeral_2_eq_2 power3_eq_cube)
  from step(2) [OF this] have "snd ((pythag_round ^^ 3) (pythag_start a b)) \<le> (1 / 1000000) ^ 3 / 16"
    by (simp add: numeral_2_eq_2 numeral_3_eq_3)
  also have "\<dots> \<le> (1 :: real) / 2 ^ 51" by (simp add: power_divide)
  finally show ?thesis by (simp add: sum_is_4_def)
qed

lemma pythag_loop_ends:
  "sum_is_4 (snd ((pythag_round ^^ k) pr)) \<Longrightarrow>
    \<exists>j\<le>k. sum_is_4 (snd ((pythag_round ^^ j) pr)) \<and> pythag_loop (Suc k) pr = Some (fst ((pythag_round ^^ j) pr))"
proof (induction k arbitrary: pr)
  case (Suc k)
  show ?case
  proof (cases "sum_is_4 (snd pr)")
    case True
    then show ?thesis by (intro exI [of _ 0]) simp
  next
    case False
    have "sum_is_4 (snd ((pythag_round ^^ k) (pythag_round pr)))" using Suc.prems by (simp add: funpow_swap1)
    from Suc.IH [OF this] obtain j where j: "j \<le> k" "sum_is_4 (snd ((pythag_round ^^ j) (pythag_round pr)))"
        "pythag_loop (Suc k) (pythag_round pr) = Some (fst ((pythag_round ^^ j) (pythag_round pr)))" by blast
    moreover have "pythag_loop (Suc (Suc k)) pr = pythag_loop (Suc k) (pythag_round pr)" using False by simp
    ultimately show ?thesis
      by (intro exI [of _ "Suc j"]) (simp add: funpow_swap1 del: pythag_loop.simps)
  qed
qed simp

section \<open>Properties\<close>

text \<open>
  C27: \<^verbatim>\<open>svd_dsort2\<close> with any gap of at least 1 sorts the first \<open>n\<close> elements of the first
  array, and it moves the second along: the two arrays keep their pairs.
\<close>

lemma svd_dsort2_sorts:
  fixes a1 :: "('v :: linorder) list" and a2 :: "'w list"
  assumes "1 \<le> igap" and "n \<le> length a1" and "length a2 = length a1"
  shows "\<exists>b1 b2. svd_dsort2 igap n a1 a2 = Some (b1, b2) \<and> sorted (take n b1) \<and>
    length b1 = length a1 \<and> length b2 = length a2 \<and> mset (zip b1 b2) = mset (zip a1 a2)"
proof -
  have "same_pairs (a1, a2) (sort_gaps igap n (a1, a2))" using assms by (intro sort_gaps_pairs) simp_all
  moreover have "sorted (take n (fst (sort_gaps igap n (a1, a2))))" using assms by (intro sort_gaps_sorts) simp_all
  ultimately show ?thesis
    using assms by (cases "sort_gaps igap n (a1, a2)") (simp add: svd_dsort2_def same_pairs_def)
qed

lemma svd_dsort2_sorts_witness:
  "\<exists>b1 b2. svd_dsort2 (4 div 2) 4 [3 :: nat, 1, 2, 1] ''abcd'' = Some (b1, b2) \<and> sorted (take 4 b1) \<and>
    length b1 = length [3 :: nat, 1, 2, 1] \<and> length b2 = length ''abcd'' \<and>
    mset (zip b1 b2) = mset (zip [3 :: nat, 1, 2, 1] ''abcd'')"
  by (rule svd_dsort2_sorts) simp_all

text \<open>
  With a \<^verbatim>\<open>long\<close> of 32 bits that wraps around, \<^verbatim>\<open>svd_random2\<close> is the linear congruential
  generator modulo 2 to the 31, from every seed, and its number is at least 0 and less than 1.
\<close>

lemma svd_random2_word32:
  "\<exists>x. svd_random2 (wrapped 32) iy = Some (x, (iy * r_ia + r_ic) mod 2 ^ 31) \<and> 0 \<le> x \<and> x < 1"
  using random2_32 [of iy] random_scale_range [of "(iy * r_ia + r_ic) mod 2147483648"] by simp

text \<open>
  With a \<^verbatim>\<open>long\<close> of 64 bits the generator is not one: from the seed that
  \<^verbatim>\<open>startv\<close> of \<^verbatim>\<open>las2.c\<close> gives it, the first number is above 360000, not between 0 and 1,
  and the second call overflows.
\<close>

lemma svd_random2_word64:
  "\<exists>x iy. svd_random2 (checked 64) 918273 = Some (x, iy) \<and> 360000 < x \<and> svd_random2 (checked 64) iy = None"
proof -
  have "svd_random2 (checked 64) 918273 = Some (random_scale 774389426204450, 774389426204450)"
    by (simp add: svd_random2_def checked_def r_ia_def r_ic_def r_mic_def r_m2_def)
  moreover have "svd_random2 (checked 64) 774389426204450 = None"
    by (simp add: svd_random2_def checked_def r_ia_def)
  moreover have "360000 < random_scale 774389426204450" by (simp add: random_scale_def r_m2_def)
  ultimately show ?thesis by blast
qed


text \<open>
  \<^verbatim>\<open>svd_idamax\<close> returns the position of an element the increment reaches, and no element it
  reaches is larger in magnitude.
\<close>

lemma svd_idamax_largest:
  fixes dx :: "('v :: {linorder, abs}) list"
  assumes "1 < n" and "incx \<noteq> 0" and "\<forall>i<n. vget dx (vstart (int n) incx + int i * incx) \<noteq> None"
  shows "\<exists>m<n. svd_idamax (int n) dx incx = Some (vstart (int n) incx + int m * incx) \<and>
    (\<exists>x. vget dx (vstart (int n) incx + int m * incx) = Some x \<and>
      (\<forall>i<n. \<forall>y. vget dx (vstart (int n) incx + int i * incx) = Some y \<longrightarrow> \<bar>y\<bar> \<le> \<bar>x\<bar>))"
proof -
  define ix where "ix = vstart (int n) incx"
  have "vget dx (ix + int 0 * incx) \<noteq> None" using assms(1) assms(3) [rule_format, of 0] by (simp add: ix_def)
  then obtain x where x: "vget dx ix = Some x" by auto
  have "svd_idamax (int n) dx incx = amax_loop (n - 1) dx ix incx ix \<bar>x\<bar>"
    using assms(1,2) x by (simp add: svd_idamax_def ix_def nat_diff_distrib Let_def)
  moreover have "\<exists>m'\<le>0 + (n - 1). amax_loop (n - 1) dx (ix + int 0 * incx) incx (ix + int 0 * incx) \<bar>x\<bar> =
        Some (ix + int m' * incx) \<and>
      (\<exists>x'. vget dx (ix + int m' * incx) = Some x' \<and>
        (\<forall>i\<le>0 + (n - 1). \<forall>y. vget dx (ix + int i * incx) = Some y \<longrightarrow> \<bar>y\<bar> \<le> \<bar>x'\<bar>))"
    by (rule amax_loop_max [of 0 "n - 1" dx ix incx 0 x]) (use assms x in \<open>auto simp: ix_def\<close>)
  moreover have "i \<le> 0 + (n - 1) \<longleftrightarrow> i < n" for i using assms(1) by auto
  ultimately show ?thesis unfolding ix_def [symmetric] by simp
qed

end
