(* ===== verification/SvdEigen.thy ===== *)
theory SvdEigen
  imports Complex_Main SvdUtil
begin

text \<open>
  The eigenvalues of a symmetric tridiagonal matrix by the implicit QL method:
  \<^verbatim>\<open>imtqlb\<close> and \<^verbatim>\<open>imtql2\<close> of \<^verbatim>\<open>c/SVDLIBC/las2.c\<close>. The arithmetic is the one of the element
  type, without laws in the definitions; \<open>pythag\<close> is \<^verbatim>\<open>svd_pythag\<close>, which is \<open>None\<close> on arguments
  on which its loop never ends (NaN), and so are the routines then. Both make the same sweeps; they differ in what they rotate along, the array \<^verbatim>\<open>bnd\<close> or the rows of the matrix
  \<^verbatim>\<open>z\<close>, and in how they order the eigenvalues.
\<close>

section \<open>One sweep\<close>

text \<open>The diagonal, the subdiagonal shifted by one, the rows that are rotated, and the variables.\<close>

record 'v ql =
  qd :: "'v list"
  qe :: "'v list"
  qz :: "'v list list"
  qs :: 'v
  qc :: 'v
  qp :: 'v
  qg :: 'v

text \<open>\<^verbatim>\<open>test = fabs(d[m]) + fabs(d[m+1])\<close> and the search for a small element, at most \<open>k\<close> more.\<close>

definition negligible :: "('v :: {plus, abs}) list \<Rightarrow> 'v list \<Rightarrow> nat \<Rightarrow> bool" where
  "negligible d e m = (let test = \<bar>d ! m\<bar> + \<bar>d ! (m + 1)\<bar> in test + \<bar>e ! m\<bar> = test)"

primrec small_from :: "('v :: {plus, abs}) list \<Rightarrow> 'v list \<Rightarrow> nat \<Rightarrow> nat \<Rightarrow> nat" where
  "small_from d e 0 m = m"
| "small_from d e (Suc k) m = (if negligible d e m then m else small_from d e k (m + 1))"

text \<open>The rotation of a row in the plane of the columns \<open>i\<close> and \<open>i + 1\<close>.\<close>

definition rot_row :: "nat \<Rightarrow> ('v :: {plus, minus, times}) \<Rightarrow> 'v \<Rightarrow> 'v list \<Rightarrow> 'v list" where
  "rot_row i s c x = x[i + 1 := s * x ! i + c * x ! (i + 1), i := c * x ! i - s * x ! (i + 1)]"

text \<open>
  The body of the inner loop behind \<^verbatim>\<open>r = svd_pythag(f, g)\<close>; the flag is the underflow, after
  which \<open>e\<close> has changed only.
\<close>

definition turn_with ::
  "'v \<Rightarrow> nat \<Rightarrow> ('v :: {zero, one, plus, minus, times, inverse}) ql \<Rightarrow> 'v ql \<times> bool"
where
  "turn_with r i st =
     (let f = qs st * qe st ! i;
          b = qc st * qe st ! i;
          st1 = st\<lparr>qe := (qe st)[i + 1 := r]\<rparr>
      in if r = 0 then (st1, True)
         else
           let s = f / r;
               c = qg st / r;
               g = qd st ! (i + 1) - qp st;
               r' = (qd st ! i - g) * s + (1 + 1) * c * b;
               p = s * r'
           in (st1\<lparr>qd := (qd st)[i + 1 := g + p], qz := map (rot_row i s c) (qz st),
                   qs := s, qc := c, qp := p, qg := c * r' - b\<rparr>, False))"

definition ql_turn ::
  "('v \<Rightarrow> 'v \<Rightarrow> 'v option) \<Rightarrow> nat \<Rightarrow> ('v :: {zero, one, plus, minus, times, inverse}) ql \<Rightarrow> ('v ql \<times> bool) option"
where
  "ql_turn pythag i st = map_option (\<lambda>r. turn_with r i st) (pythag (qs st * qe st ! i) (qg st))"

text \<open>The loop, with \<open>i = l + k - 1\<close> next; the result has the \<open>i\<close> of an underflow.\<close>

primrec ql_chase ::
  "('v \<Rightarrow> 'v \<Rightarrow> 'v option) \<Rightarrow> nat \<Rightarrow> nat \<Rightarrow> ('v :: {zero, one, plus, minus, times, inverse}) ql \<Rightarrow> ('v ql \<times> nat option) option"
where
  "ql_chase pythag l 0 st = Some (st, None)"
| "ql_chase pythag l (Suc k) st =
     (case ql_turn pythag (l + k) st of
        None \<Rightarrow> None
      | Some (st', u) \<Rightarrow> if u then Some (st', Some (l + k)) else ql_chase pythag l k st')"

text \<open>The shift, from \<^verbatim>\<open>r = svd_pythag(g, 1.0)\<close>.\<close>

definition shift_base ::
  "nat \<Rightarrow> ('v :: {zero, one, ord, plus, minus, uminus, times, inverse}) ql \<Rightarrow> 'v"
where
  "shift_base l st = (qd st ! (l + 1) - qd st ! l) / ((1 + 1) * qe st ! l)"

definition shift_with ::
  "'v \<Rightarrow> nat \<Rightarrow> nat \<Rightarrow> ('v :: {zero, one, ord, plus, minus, uminus, times, inverse}) ql \<Rightarrow> 'v"
where
  "shift_with r l m st =
     (let p = qd st ! l; g = shift_base l st in qd st ! m - p + qe st ! l / (g + svd_fsign r g))"

definition ql_shift ::
  "('v \<Rightarrow> 'v \<Rightarrow> 'v option) \<Rightarrow> nat \<Rightarrow> nat \<Rightarrow> ('v :: {zero, one, ord, plus, minus, uminus, times, inverse}) ql \<Rightarrow> 'v option"
where
  "ql_shift pythag l m st = map_option (\<lambda>r. shift_with r l m st) (pythag (shift_base l st) 1)"

text \<open>What is behind the inner loop.\<close>

definition after_chase ::
  "nat \<Rightarrow> nat \<Rightarrow> ('v :: {zero, minus}) ql \<times> nat option \<Rightarrow> 'v ql"
where
  "after_chase l m r =
     (case r of
        (st', None) \<Rightarrow>
          st'\<lparr>qd := (qd st')[l := qd st' ! l - qp st'], qe := (qe st')[l := qg st', m := 0]\<rparr>
      | (st', Some i) \<Rightarrow>
          st'\<lparr>qd := (qd st')[i + 1 := qd st' ! (i + 1) - qp st'], qe := (qe st')[m := 0]\<rparr>)"

definition ql_sweep ::
  "('v \<Rightarrow> 'v \<Rightarrow> 'v option) \<Rightarrow> nat \<Rightarrow> nat \<Rightarrow> ('v :: {zero, one, ord, plus, minus, uminus, times, inverse}) ql \<Rightarrow> 'v ql option"
where
  "ql_sweep pythag l m st =
     (case ql_shift pythag l m st of
        None \<Rightarrow> None
      | Some g \<Rightarrow>
          map_option (after_chase l m) (ql_chase pythag l (m - l) (st\<lparr>qs := 1, qc := 1, qp := 0, qg := g\<rparr>)))"

text \<open>The iterations for one eigenvalue, at most \<open>k\<close> more; the second result is the convergence.\<close>

primrec ql_value ::
  "('v \<Rightarrow> 'v \<Rightarrow> 'v option) \<Rightarrow> nat \<Rightarrow> nat \<Rightarrow> nat \<Rightarrow>
    ('v :: {zero, one, ord, plus, minus, uminus, times, inverse, abs}) ql \<Rightarrow> ('v ql \<times> bool) option"
where
  "ql_value pythag hi l 0 st = Some (st, small_from (qd st) (qe st) (hi - l) l = l)"
| "ql_value pythag hi l (Suc k) st =
     (let m = small_from (qd st) (qe st) (hi - l) l in
      if m = l then Some (st, True)
      else case ql_sweep pythag l m st of None \<Rightarrow> None | Some st' \<Rightarrow> ql_value pythag hi l k st')"

text \<open>The subdiagonal is shifted down by one first.\<close>

definition shift_down :: "nat \<Rightarrow> ('v :: zero) list \<Rightarrow> 'v list" where
  "shift_down n e = tl (take n e) @ [0] @ drop n e"

definition ql_start :: "nat \<Rightarrow> 'v list \<Rightarrow> 'v list \<Rightarrow> 'v list list \<Rightarrow> ('v :: zero) ql" where
  "ql_start n d e z = \<lparr>qd = d, qe = shift_down n e, qz = z, qs = 0, qc = 0, qp = 0, qg = 0\<rparr>"

section \<open>Eigenvalues\<close>

text \<open>Where an eigenvalue belongs among those before it: \<^verbatim>\<open>bnd\<close> is the one row.\<close>

primrec put_in_order :: "nat \<Rightarrow> ('v :: ord) \<Rightarrow> 'v \<Rightarrow> 'v list \<times> 'v list \<Rightarrow> 'v list \<times> 'v list" where
  "put_in_order 0 p f db = ((fst db)[0 := p], (snd db)[0 := f])"
| "put_in_order (Suc i) p f db =
     (if p < fst db ! i then put_in_order i p f ((fst db)[Suc i := fst db ! i], (snd db)[Suc i := snd db ! i])
      else ((fst db)[Suc i := p], (snd db)[Suc i := f]))"

definition ql_insert :: "nat \<Rightarrow> ('v :: ord) ql \<Rightarrow> 'v ql" where
  "ql_insert l st =
     (let db = put_in_order l (qd st ! l) (hd (qz st) ! l) (qd st, hd (qz st)) in st\<lparr>qd := fst db, qz := [snd db]\<rparr>)"

text \<open>The loop over the eigenvalues, \<open>k\<close> more from the \<open>l\<close>-th; the result has the one that failed.\<close>

primrec qlb_values ::
  "('v \<Rightarrow> 'v \<Rightarrow> 'v option) \<Rightarrow> nat \<Rightarrow> nat \<Rightarrow> nat \<Rightarrow>
    ('v :: {zero, one, ord, plus, minus, uminus, times, inverse, abs}) ql \<Rightarrow> ('v ql \<times> nat option) option"
where
  "qlb_values pythag hi 0 l st = Some (st, None)"
| "qlb_values pythag hi (Suc k) l st =
     (case ql_value pythag hi l 30 st of
        None \<Rightarrow> None
      | Some (st', ok) \<Rightarrow> if ok then qlb_values pythag hi k (l + 1) (ql_insert l st') else Some (st', Some l))"

text \<open>
  \<^verbatim>\<open>ierr\<close> is set to the eigenvalue that failed, counted from 0, and to 0 when none did. The arrays
  have at least \<open>n\<close> elements. The outer \<open>None\<close> is a routine that never returns, the inner one an
  access outside an array.
\<close>

definition ierr_of :: "nat option \<Rightarrow> int" where
  "ierr_of x = (case x of None \<Rightarrow> 0 | Some l \<Rightarrow> int l)"

definition imtqlb ::
  "('v \<Rightarrow> 'v \<Rightarrow> 'v option) \<Rightarrow> nat \<Rightarrow> ('v :: {zero, one, ord, plus, minus, uminus, times, inverse, abs}) list \<Rightarrow>
    'v list \<Rightarrow> 'v list \<Rightarrow> int \<Rightarrow> ('v list \<times> 'v list \<times> 'v list \<times> int) option option"
where
  "imtqlb pythag n d e bnd ierr =
     (if n = 1 then Some (Some (d, e, bnd, ierr))
      else if n = 0 \<or> length d < n \<or> length e < n \<or> length bnd < n then Some None
      else map_option (\<lambda>(st, x). Some (qd st, qe st, hd (qz st), ierr_of x))
        (qlb_values pythag (n - 1) n 0 (ql_start n d e [1 # replicate (n - 1) 0 @ drop n bnd])))"

section \<open>Eigenvalues and eigenvectors\<close>

primrec ql2_values ::
  "('v \<Rightarrow> 'v \<Rightarrow> 'v option) \<Rightarrow> nat \<Rightarrow> nat \<Rightarrow> nat \<Rightarrow>
    ('v :: {zero, one, ord, plus, minus, uminus, times, inverse, abs}) ql \<Rightarrow> ('v ql \<times> nat option) option"
where
  "ql2_values pythag hi 0 l st = Some (st, None)"
| "ql2_values pythag hi (Suc k) l st =
     (case ql_value pythag hi l 30 st of
        None \<Rightarrow> None
      | Some (st', ok) \<Rightarrow> if ok then ql2_values pythag hi k (l + 1) st' else Some (st', Some l))"

text \<open>The smallest of the elements from \<open>i\<close>, as its index and value; \<open>k\<close> more to look at from \<open>j\<close>.\<close>

primrec least_from :: "('v :: ord) list \<Rightarrow> nat \<Rightarrow> nat \<Rightarrow> nat \<times> 'v \<Rightarrow> nat \<times> 'v" where
  "least_from d 0 j kp = kp"
| "least_from d (Suc m) j kp = least_from d m (j + 1) (if d ! j < snd kp then (j, d ! j) else kp)"

definition select_at :: "nat \<Rightarrow> nat \<Rightarrow> ('v :: ord) list \<times> 'v list list \<Rightarrow> 'v list \<times> 'v list list" where
  "select_at n i dz =
     (let (k, p) = least_from (fst dz) (n - (i + 1)) (i + 1) (i, fst dz ! i)
      in if k \<noteq> i then ((fst dz)[k := fst dz ! i, i := p], map (swap_at i k) (snd dz)) else dz)"

definition ql2_end ::
  "nat \<Rightarrow> ('v :: ord) ql \<times> nat option \<Rightarrow> 'v list \<times> 'v list \<times> 'v list list \<times> int"
where
  "ql2_end n r =
     (case r of
        (st, Some l) \<Rightarrow> (qd st, qe st, qz st, int l)
      | (st, None) \<Rightarrow>
          let dz = fold (select_at n) [0..<n - 1] (qd st, qz st) in (fst dz, qe st, snd dz, 0))"

definition imtql2 ::
  "('v \<Rightarrow> 'v \<Rightarrow> 'v option) \<Rightarrow> nat \<Rightarrow> ('v :: {zero, one, ord, plus, minus, uminus, times, inverse, abs}) list \<Rightarrow>
    'v list \<Rightarrow> 'v list list \<Rightarrow> int \<Rightarrow> ('v list \<times> 'v list \<times> 'v list list \<times> int) option option"
where
  "imtql2 pythag n d e z ierr =
     (if n = 1 then Some (Some (d, e, z, ierr))
      else if n = 0 \<or> length d < n \<or> length e < n \<or> (\<exists>x\<in>set z. length x < n) then Some None
      else map_option (\<lambda>r. Some (ql2_end n r)) (ql2_values pythag (n - 1) n 0 (ql_start n d e z)))"

end
