(* ===== verification/SvdOrder.thy ===== *)
theory SvdOrder
  imports SvdEigen
begin

text \<open>
  How \<^verbatim>\<open>imtqlb\<close> and \<^verbatim>\<open>imtql2\<close> of \<^verbatim>\<open>c/SVDLIBC/las2.c\<close> order the eigenvalues, and that both find the
  same ones. Nothing is assumed of the arithmetic but that its numbers are ordered, so this holds
  for rounded numbers too, apart from NaN.
\<close>

section \<open>When the hypotenuse returns\<close>

text \<open>The routines with a total \<^verbatim>\<open>svd_pythag\<close>.\<close>

definition turn_t :: "('v \<Rightarrow> 'v \<Rightarrow> 'v) \<Rightarrow> nat \<Rightarrow> ('v :: {zero, one, plus, minus, times, inverse}) ql \<Rightarrow> 'v ql \<times> bool" where
  "turn_t p i st = turn_with (p (qs st * qe st ! i) (qg st)) i st"

primrec chase_t ::
  "('v \<Rightarrow> 'v \<Rightarrow> 'v) \<Rightarrow> nat \<Rightarrow> nat \<Rightarrow> ('v :: {zero, one, plus, minus, times, inverse}) ql \<Rightarrow> 'v ql \<times> nat option"
where
  "chase_t p l 0 st = (st, None)"
| "chase_t p l (Suc k) st =
     (case turn_t p (l + k) st of (st', u) \<Rightarrow> if u then (st', Some (l + k)) else chase_t p l k st')"

definition shift_t ::
  "('v \<Rightarrow> 'v \<Rightarrow> 'v) \<Rightarrow> nat \<Rightarrow> nat \<Rightarrow> ('v :: {zero, one, ord, plus, minus, uminus, times, inverse}) ql \<Rightarrow> 'v"
where
  "shift_t p l m st = shift_with (p (shift_base l st) 1) l m st"

definition sweep_t ::
  "('v \<Rightarrow> 'v \<Rightarrow> 'v) \<Rightarrow> nat \<Rightarrow> nat \<Rightarrow> ('v :: {zero, one, ord, plus, minus, uminus, times, inverse}) ql \<Rightarrow> 'v ql"
where
  "sweep_t p l m st =
     after_chase l m (chase_t p l (m - l) (st\<lparr>qs := 1, qc := 1, qp := 0, qg := shift_t p l m st\<rparr>))"

primrec value_t ::
  "('v \<Rightarrow> 'v \<Rightarrow> 'v) \<Rightarrow> nat \<Rightarrow> nat \<Rightarrow> nat \<Rightarrow>
    ('v :: {zero, one, ord, plus, minus, uminus, times, inverse, abs}) ql \<Rightarrow> 'v ql \<times> bool"
where
  "value_t p hi l 0 st = (st, small_from (qd st) (qe st) (hi - l) l = l)"
| "value_t p hi l (Suc k) st =
     (let m = small_from (qd st) (qe st) (hi - l) l in
      if m = l then (st, True) else value_t p hi l k (sweep_t p l m st))"

primrec qlb_t ::
  "('v \<Rightarrow> 'v \<Rightarrow> 'v) \<Rightarrow> nat \<Rightarrow> nat \<Rightarrow> nat \<Rightarrow>
    ('v :: {zero, one, ord, plus, minus, uminus, times, inverse, abs}) ql \<Rightarrow> 'v ql \<times> nat option"
where
  "qlb_t p hi 0 l st = (st, None)"
| "qlb_t p hi (Suc k) l st =
     (case value_t p hi l 30 st of
        (st', ok) \<Rightarrow> if ok then qlb_t p hi k (l + 1) (ql_insert l st') else (st', Some l))"

primrec ql2_t ::
  "('v \<Rightarrow> 'v \<Rightarrow> 'v) \<Rightarrow> nat \<Rightarrow> nat \<Rightarrow> nat \<Rightarrow>
    ('v :: {zero, one, ord, plus, minus, uminus, times, inverse, abs}) ql \<Rightarrow> 'v ql \<times> nat option"
where
  "ql2_t p hi 0 l st = (st, None)"
| "ql2_t p hi (Suc k) l st =
     (case value_t p hi l 30 st of
        (st', ok) \<Rightarrow> if ok then ql2_t p hi k (l + 1) st' else (st', Some l))"

definition imtqlb_t ::
  "('v \<Rightarrow> 'v \<Rightarrow> 'v) \<Rightarrow> nat \<Rightarrow> ('v :: {zero, one, ord, plus, minus, uminus, times, inverse, abs}) list \<Rightarrow>
    'v list \<Rightarrow> 'v list \<Rightarrow> int \<Rightarrow> ('v list \<times> 'v list \<times> 'v list \<times> int) option"
where
  "imtqlb_t p n d e bnd ierr =
     (if n = 1 then Some (d, e, bnd, ierr)
      else if n = 0 \<or> length d < n \<or> length e < n \<or> length bnd < n then None
      else case qlb_t p (n - 1) n 0 (ql_start n d e [1 # replicate (n - 1) 0 @ drop n bnd]) of
        (st, x) \<Rightarrow> Some (qd st, qe st, hd (qz st), ierr_of x))"

definition imtql2_t ::
  "('v \<Rightarrow> 'v \<Rightarrow> 'v) \<Rightarrow> nat \<Rightarrow> ('v :: {zero, one, ord, plus, minus, uminus, times, inverse, abs}) list \<Rightarrow>
    'v list \<Rightarrow> 'v list list \<Rightarrow> int \<Rightarrow> ('v list \<times> 'v list \<times> 'v list list \<times> int) option"
where
  "imtql2_t p n d e z ierr =
     (if n = 1 then Some (d, e, z, ierr)
      else if n = 0 \<or> length d < n \<or> length e < n \<or> (\<exists>x\<in>set z. length x < n) then None
      else Some (ql2_end n (ql2_t p (n - 1) n 0 (ql_start n d e z))))"

text \<open>A routine that returns has computed what it computes with the total one, and it returns.\<close>

definition some_pythag :: "('v \<Rightarrow> 'v \<Rightarrow> 'v option) \<Rightarrow> 'v \<Rightarrow> 'v \<Rightarrow> 'v :: zero" where
  "some_pythag P a b = (case P a b of None \<Rightarrow> 0 | Some r \<Rightarrow> r)"

definition pythag_returns :: "('v \<Rightarrow> 'v \<Rightarrow> 'v option) \<Rightarrow> bool" where
  "pythag_returns P \<longleftrightarrow> (\<forall>a b. P a b \<noteq> None)"

definition same_or_hangs :: "('v \<Rightarrow> 'v \<Rightarrow> 'v option) \<Rightarrow> 'a option \<Rightarrow> 'a \<Rightarrow> bool" where
  "same_or_hangs P x y \<longleftrightarrow> x = Some y \<or> x = None \<and> \<not> pythag_returns P"

lemma same_or_hangs_cases:
  assumes "same_or_hangs P x y"
  obtains "x = Some y" | "x = None" "\<not> pythag_returns P"
  using assms by (auto simp: same_or_hangs_def)

lemma some_pythag_cases: obtains "P a b = Some (some_pythag P a b)" | "P a b = None" "\<not> pythag_returns P"
  by (cases "P a b") (auto simp: some_pythag_def pythag_returns_def)

lemma turn_same: "same_or_hangs P (ql_turn P i st) (turn_t (some_pythag P) i st)"
  by (rule some_pythag_cases [of P "qs st * qe st ! i" "qg st"]) (simp_all add: same_or_hangs_def ql_turn_def turn_t_def)

lemma chase_same: "same_or_hangs P (ql_chase P l k st) (chase_t (some_pythag P) l k st)"
proof (induction k arbitrary: st)
  case (Suc k)
  show ?case by (rule same_or_hangs_cases [OF turn_same [of P "l + k" st]])
    (use Suc in \<open>auto simp: same_or_hangs_def split: prod.splits\<close>)
qed (simp add: same_or_hangs_def)

lemma shift_same: "same_or_hangs P (ql_shift P l m st) (shift_t (some_pythag P) l m st)"
  by (rule some_pythag_cases [of P "shift_base l st" 1]) (simp_all add: same_or_hangs_def ql_shift_def shift_t_def)

lemma sweep_same: "same_or_hangs P (ql_sweep P l m st) (sweep_t (some_pythag P) l m st)"
proof -
  let ?st = "st\<lparr>qs := 1, qc := 1, qp := 0, qg := shift_t (some_pythag P) l m st\<rparr>"
  show ?thesis
    by (rule same_or_hangs_cases [OF shift_same [of P l m st]]; rule same_or_hangs_cases [OF chase_same [of P l "m - l" ?st]])
      (simp_all add: same_or_hangs_def ql_sweep_def sweep_t_def)
qed

lemma value_same: "same_or_hangs P (ql_value P hi l k st) (value_t (some_pythag P) hi l k st)"
proof (induction k arbitrary: st)
  case (Suc k)
  let ?m = "small_from (qd st) (qe st) (hi - l) l"
  show ?case by (rule same_or_hangs_cases [OF sweep_same [of P l ?m st]])
    (use Suc in \<open>auto simp: same_or_hangs_def Let_def\<close>)
qed (simp add: same_or_hangs_def)

lemma qlb_same: "same_or_hangs P (qlb_values P hi k l st) (qlb_t (some_pythag P) hi k l st)"
proof (induction k arbitrary: l st)
  case (Suc k)
  show ?case by (rule same_or_hangs_cases [OF value_same [of P hi l 30 st]])
    (use Suc in \<open>auto simp: same_or_hangs_def split: prod.splits\<close>)
qed (simp add: same_or_hangs_def)

lemma ql2_same: "same_or_hangs P (ql2_values P hi k l st) (ql2_t (some_pythag P) hi k l st)"
proof (induction k arbitrary: l st)
  case (Suc k)
  show ?case by (rule same_or_hangs_cases [OF value_same [of P hi l 30 st]])
    (use Suc in \<open>auto simp: same_or_hangs_def split: prod.splits\<close>)
qed (simp add: same_or_hangs_def)

lemma imtqlb_same: "same_or_hangs P (imtqlb P n d e bnd ierr) (imtqlb_t (some_pythag P) n d e bnd ierr)"
  by (rule same_or_hangs_cases [OF qlb_same [of P "n - 1" n 0 "ql_start n d e [1 # replicate (n - 1) 0 @ drop n bnd]"]])
    (auto simp: same_or_hangs_def imtqlb_def imtqlb_t_def split: prod.splits)

lemma imtql2_same: "same_or_hangs P (imtql2 P n d e z ierr) (imtql2_t (some_pythag P) n d e z ierr)"
  by (rule same_or_hangs_cases [OF ql2_same [of P "n - 1" n 0 "ql_start n d e z"]])
    (auto simp: same_or_hangs_def imtql2_def imtql2_t_def)

lemma routines_return:
  assumes "pythag_returns P"
  shows "imtqlb P n d e bnd ierr = Some (imtqlb_t (some_pythag P) n d e bnd ierr)"
    "imtql2 P n d e z ierr = Some (imtql2_t (some_pythag P) n d e z ierr)"
    "ql_value P hi l k st = Some (value_t (some_pythag P) hi l k st)"
  using assms imtqlb_same [of P n d e bnd ierr] imtql2_same [of P n d e z ierr] value_same [of P hi l k st]
  by (auto simp: same_or_hangs_def)

section \<open>The order of the eigenvalues\<close>

text \<open>A rearrangement of the first \<open>n\<close> eigenvalues, along with the columns of the rows.\<close>

definition rearranged :: "nat \<Rightarrow> (nat \<Rightarrow> nat) \<Rightarrow> 'v list \<times> 'v list list \<Rightarrow> 'v list \<times> 'v list list \<Rightarrow> bool" where
  "rearranged n \<sigma> a b \<longleftrightarrow> bij_betw \<sigma> {..<n} {..<n} \<and> length (fst b) = length (fst a) \<and> map length (snd b) = map length (snd a) \<and>
     (\<forall>j<n. fst b ! j = fst a ! \<sigma> j) \<and> (\<forall>r<length (snd a). \<forall>j<n. snd b ! r ! j = snd a ! r ! \<sigma> j)"

lemma rearranged_id: "rearranged n id a a"
  by (simp add: rearranged_def)

lemma rearranged_trans:
  assumes "rearranged n \<sigma> a b" and "rearranged n \<tau> b c"
  shows "rearranged n (\<sigma> \<circ> \<tau>) a c"
proof -
  have "bij_betw (\<sigma> \<circ> \<tau>) {..<n} {..<n}" using assms by (auto simp: rearranged_def intro: bij_betw_trans)
  moreover have "\<tau> j < n" if "j < n" for j
    using assms(2) that by (auto simp: rearranged_def bij_betw_def)
  moreover have "length (snd b) = length (snd a)" using assms(1) by (auto simp: rearranged_def dest: arg_cong [of _ _ length])
  ultimately show ?thesis using assms by (simp add: rearranged_def)
qed

lemma nth_swap_at:
  "i < length xs \<Longrightarrow> k < length xs \<Longrightarrow> swap_at i k xs ! j = xs ! (if j = i then k else if j = k then i else j)"
  by (auto simp: swap_at_def nth_list_update)

lemma rearranged_swap:
  assumes "i < n" and "k < n" and "n \<le> length d" and "\<forall>x\<in>set z. n \<le> length x"
  shows "rearranged n (\<lambda>j. if j = i then k else if j = k then i else j) (d, z) (swap_at i k d, map (swap_at i k) z)"
proof -
  let ?t = "\<lambda>j. if j = i then k else if j = k then i else j"
  have "bij_betw ?t {..<n} {..<n}" by (rule bij_betw_byWitness [where f' = ?t]) (use assms in auto)
  moreover have "swap_at i k d ! j = d ! ?t j" if "j < n" for j
    using assms by (intro nth_swap_at) simp_all
  moreover have "map (swap_at i k) z ! r ! j = z ! r ! ?t j" if "r < length z" "j < n" for r j
  proof -
    have "n \<le> length (z ! r)" using assms(4) that(1) by simp
    then show ?thesis using assms(1,2) that by (simp add: nth_swap_at del: if_split_asm)
  qed
  ultimately show ?thesis by (simp add: rearranged_def)
qed

lemma least_from_least:
  fixes d :: "('v :: linorder) list"
  assumes "least_from d m j (k, d ! k) = (k', p)"
  shows "p = d ! k' \<and> p \<le> d ! k \<and> (\<forall>x. j \<le> x \<and> x < j + m \<longrightarrow> p \<le> d ! x) \<and> (k' = k \<or> j \<le> k' \<and> k' < j + m)"
  using assms
proof (induction m arbitrary: j k)
  case (Suc m)
  let ?k = "if d ! j < d ! k then j else k"
  have "least_from d m (j + 1) (?k, d ! ?k) = (k', p)" using Suc.prems by (simp split: if_splits)
  from Suc.IH [OF this] have i: "p = d ! k'" "p \<le> d ! ?k" "\<forall>x. j + 1 \<le> x \<and> x < j + 1 + m \<longrightarrow> p \<le> d ! x"
    "k' = ?k \<or> j + 1 \<le> k' \<and> k' < j + 1 + m" by blast+
  have "p \<le> d ! x" if "j \<le> x" "x < j + Suc m" for x
  proof (cases "x = j")
    case True
    then show ?thesis using i(2) by (auto split: if_splits)
  next
    case False
    then show ?thesis using i(3) that by simp
  qed
  moreover have "p \<le> d ! k" using i(2) by (auto split: if_splits)
  ultimately show ?case using i(1,4) by (auto split: if_splits)
qed auto

lemma select_at_step:
  fixes d :: "('v :: linorder) list"
  assumes "i < n" and "n \<le> length d" and "\<forall>x\<in>set z. n \<le> length x"
  shows "\<exists>k. i \<le> k \<and> k < n \<and> select_at n i (d, z) = (swap_at i k d, map (swap_at i k) z) \<and> (\<forall>x. i \<le> x \<and> x < n \<longrightarrow> d ! k \<le> d ! x)"
proof -
  obtain k p where kp: "least_from d (n - (i + 1)) (i + 1) (i, d ! i) = (k, p)" by fastforce
  from least_from_least [OF this] assms(1) have l: "p = d ! k" "p \<le> d ! i" "\<forall>x. i + 1 \<le> x \<and> x < n \<longrightarrow> p \<le> d ! x" "k = i \<or> i + 1 \<le> k \<and> k < n"
    by auto
  have "swap_at i i x = x" for x :: "'v list" by (simp add: swap_at_def)
  then have "select_at n i (d, z) = (swap_at i k d, map (swap_at i k) z)"
    using kp l(1) by (auto simp: select_at_def swap_at_def list_update_swap map_idI)
  moreover have "d ! k \<le> d ! x" if "i \<le> x" "x < n" for x using l that by (cases "x = i") auto
  ultimately show ?thesis using l(4) assms(1) by (intro exI [of _ k]) auto
qed

lemma selects:
  fixes d :: "('v :: linorder) list"
  assumes "n \<le> length d" and "\<forall>x\<in>set z. n \<le> length x"
  shows "m \<le> n \<Longrightarrow> \<exists>\<sigma> d' z'. fold (select_at n) [0..<m] (d, z) = (d', z') \<and> rearranged n \<sigma> (d, z) (d', z') \<and>
    (\<forall>x y. x < y \<longrightarrow> x < m \<longrightarrow> y < n \<longrightarrow> d' ! x \<le> d' ! y)"
proof (induction m)
  case 0
  show ?case using rearranged_id by auto
next
  case (Suc m)
  then obtain \<sigma> d1 z1 where s: "fold (select_at n) [0..<m] (d, z) = (d1, z1)" "rearranged n \<sigma> (d, z) (d1, z1)"
    "\<forall>x y. x < y \<longrightarrow> x < m \<longrightarrow> y < n \<longrightarrow> d1 ! x \<le> d1 ! y" by auto
  have l: "n \<le> length d1" using s(2) assms(1) by (simp add: rearranged_def)
  have "map length z1 = map length z" using s(2) by (simp add: rearranged_def)
  then have "set (map length z1) = set (map length z)" by simp
  then have lz: "\<forall>x\<in>set z1. n \<le> length x" using assms(2) by (metis (no_types, lifting) image_iff set_map)
  have m: "m < n" using Suc.prems by simp
  obtain k where k: "m \<le> k" "k < n" "select_at n m (d1, z1) = (swap_at m k d1, map (swap_at m k) z1)"
    "\<forall>x. m \<le> x \<and> x < n \<longrightarrow> d1 ! k \<le> d1 ! x" using select_at_step [OF m l lz] by blast
  have "rearranged n (\<sigma> \<circ> (\<lambda>j. if j = m then k else if j = k then m else j)) (d, z) (swap_at m k d1, map (swap_at m k) z1)"
    by (rule rearranged_trans [OF s(2) rearranged_swap [OF m k(2) l lz]])
  moreover have "swap_at m k d1 ! x \<le> swap_at m k d1 ! y" if "x < y" "x < Suc m" "y < n" for x y
  proof -
    have n: "swap_at m k d1 ! j = d1 ! (if j = m then k else if j = k then m else j)" for j
      using m k(2) l by (intro nth_swap_at) simp_all
    show ?thesis using that s(3) k m unfolding n by (cases "x = m") (auto simp: less_Suc_eq)
  qed
  ultimately show ?case using s(1) k(3) by auto
qed

text \<open>The sweeps keep the sizes.\<close>

definition sizes :: "'v ql \<Rightarrow> nat \<times> nat \<times> nat list" where
  "sizes st = (length (qd st), length (qe st), map length (qz st))"

lemma turn_sizes: "turn_t pythag i st = (st', u) \<Longrightarrow> sizes st' = sizes st"
  by (auto simp: turn_t_def turn_with_def Let_def sizes_def rot_row_def split: if_splits)

lemma chase_sizes: "chase_t pythag l k st = (st', u) \<Longrightarrow> sizes st' = sizes st"
  by (induction k arbitrary: st) (auto simp: turn_sizes split: prod.splits if_splits bool.splits)

lemma sweep_sizes: "sizes (sweep_t pythag l m st) = sizes st"
proof -
  obtain st' u where c: "chase_t pythag l (m - l) (st\<lparr>qs := 1, qc := 1, qp := 0, qg := shift_t pythag l m st\<rparr>) = (st', u)"
    by fastforce
  show ?thesis using chase_sizes [OF c] c by (cases u) (simp_all add: sweep_t_def after_chase_def sizes_def)
qed

lemma value_sizes: "value_t pythag hi l k st = (st', ok) \<Longrightarrow> sizes st' = sizes st"
  by (induction k arbitrary: st) (auto simp: Let_def sweep_sizes split: if_splits)

lemma values_sizes: "ql2_t pythag hi k l st = (st', x) \<Longrightarrow> sizes st' = sizes st"
  by (induction k arbitrary: st l) (auto simp: value_sizes split: prod.splits if_splits bool.splits)

text \<open>What comes before \<open>l\<close> neither matters for the sweeps of \<open>l\<close> nor is changed by them.\<close>

definition same_from :: "nat \<Rightarrow> 'v list \<Rightarrow> 'v list \<Rightarrow> bool" where
  "same_from l xs ys \<longleftrightarrow> length xs = length ys \<and> (\<forall>j\<ge>l. xs ! j = ys ! j)"

definition same_upto :: "nat \<Rightarrow> 'v list \<Rightarrow> 'v list \<Rightarrow> bool" where
  "same_upto l xs ys \<longleftrightarrow> length xs = length ys \<and> (\<forall>j<l. xs ! j = ys ! j)"

lemma same_from_nth: "same_from l xs ys \<Longrightarrow> l \<le> j \<Longrightarrow> xs ! j = ys ! j"
  by (simp add: same_from_def)

lemma nth_beyond: "length xs \<le> j \<Longrightarrow> xs ! j = [] ! (j - length xs)"
  by (induction xs arbitrary: j) (auto simp: nth_Cons' Suc_le_eq)

lemma same_from_drop: "same_from l xs ys \<longleftrightarrow> length xs = length ys \<and> drop l xs = drop l ys"
proof
  assume d: "length xs = length ys \<and> drop l xs = drop l ys"
  have "xs ! j = ys ! j" if "l \<le> j" for j
  proof (cases "j < length xs")
    case True
    then show ?thesis using d that nth_drop [of l xs "j - l"] nth_drop [of l ys "j - l"] by simp
  next
    case False
    then show ?thesis using d nth_beyond [of xs j] nth_beyond [of ys j] by simp
  qed
  with d show "same_from l xs ys" by (simp add: same_from_def)
qed (auto simp: same_from_def intro: nth_equalityI)

lemma same_from_update: "same_from l xs ys \<Longrightarrow> same_from l (xs[i := v]) (ys[i := v])"
proof -
  assume s: "same_from l xs ys"
  have "xs[i := v] ! j = ys[i := v] ! j" if "l \<le> j" for j
    using s that by (cases "i < length xs"; cases "i = j") (simp_all add: same_from_def list_update_beyond)
  with s show ?thesis by (simp add: same_from_def)
qed

lemma same_from_rot: "same_from l x y \<Longrightarrow> l \<le> i \<Longrightarrow> same_from l (rot_row i s c x) (rot_row i s c y)"
  using same_from_nth [of l x y i] same_from_nth [of l x y "i + 1"] by (simp add: rot_row_def same_from_update)

lemma same_upto_refl [simp]: "same_upto l xs xs"
  by (simp add: same_upto_def)

lemma same_upto_trans: "same_upto l xs ys \<Longrightarrow> same_upto l ys zs \<Longrightarrow> same_upto l xs zs"
  by (simp add: same_upto_def)

lemma same_upto_update: "l \<le> i \<Longrightarrow> same_upto l xs ys \<Longrightarrow> same_upto l xs (ys[i := v])"
  by (simp add: same_upto_def)

lemma same_upto_rot: "l \<le> i \<Longrightarrow> same_upto l x (rot_row i s c x)"
  by (simp add: same_upto_def rot_row_def)

definition agree :: "nat \<Rightarrow> 'v ql \<Rightarrow> 'v ql \<Rightarrow> bool" where
  "agree l A B \<longleftrightarrow> same_from l (qd A) (qd B) \<and> same_from l (hd (qz A)) (hd (qz B)) \<and> qz A \<noteq> [] \<and> qz B \<noteq> [] \<and> qe A = qe B"

definition frozen :: "nat \<Rightarrow> 'v ql \<Rightarrow> 'v ql \<Rightarrow> bool" where
  "frozen l A B \<longleftrightarrow> same_upto l (qd A) (qd B) \<and> same_upto l (hd (qz A)) (hd (qz B))"

definition same_vars :: "'v ql \<Rightarrow> 'v ql \<Rightarrow> bool" where
  "same_vars A B \<longleftrightarrow> qs A = qs B \<and> qc A = qc B \<and> qp A = qp B \<and> qg A = qg B"

lemma frozen_trans: "frozen l A B \<Longrightarrow> frozen l B C \<Longrightarrow> frozen l A C"
  by (auto simp: frozen_def intro: same_upto_trans)

lemma turn_frozen: "qz A \<noteq> [] \<Longrightarrow> l \<le> i \<Longrightarrow> frozen l A (fst (turn_t pythag i A))"
  by (simp add: turn_t_def turn_with_def Let_def frozen_def hd_map same_upto_rot same_upto_update)

lemma turn_agree:
  assumes "agree l A B" and "same_vars A B" and "l \<le> i"
  shows "agree l (fst (turn_t pythag i A)) (fst (turn_t pythag i B)) \<and>
    same_vars (fst (turn_t pythag i A)) (fst (turn_t pythag i B)) \<and> snd (turn_t pythag i A) = snd (turn_t pythag i B)"
proof -
  have "qd A ! i = qd B ! i" "qd A ! (i + 1) = qd B ! (i + 1)" "qe A = qe B" "qs A = qs B" "qc A = qc B" "qp A = qp B" "qg A = qg B"
    using assms same_from_nth [of l "qd A" "qd B"] by (simp_all add: agree_def same_vars_def)
  then show ?thesis
    using assms by (simp add: turn_t_def turn_with_def Let_def agree_def same_vars_def hd_map same_from_rot same_from_update)
qed

lemma chase_local:
  "agree l A B \<Longrightarrow> same_vars A B \<Longrightarrow> \<exists>A' B' u. chase_t pythag l k A = (A', u) \<and> chase_t pythag l k B = (B', u) \<and>
    agree l A' B' \<and> same_vars A' B' \<and> frozen l A A' \<and> frozen l B B' \<and> (\<forall>i. u = Some i \<longrightarrow> l \<le> i)"
proof (induction k arbitrary: A B)
  case 0
  then show ?case by (simp add: frozen_def)
next
  case (Suc k)
  obtain A1 u where a: "turn_t pythag (l + k) A = (A1, u)" by fastforce
  obtain B1 v where b: "turn_t pythag (l + k) B = (B1, v)" by fastforce
  have z: "qz A \<noteq> []" "qz B \<noteq> []" using Suc.prems(1) by (simp_all add: agree_def)
  have t: "agree l A1 B1" "same_vars A1 B1" "v = u" using turn_agree [OF Suc.prems, of "l + k" pythag] a b by auto
  have f: "frozen l A A1" "frozen l B B1"
    using turn_frozen [OF z(1), of l "l + k" pythag] turn_frozen [OF z(2), of l "l + k" pythag] a b by simp_all
  show ?case
  proof (cases u)
    case True
    then show ?thesis using a b t f by auto
  next
    case False
    obtain A' B' x where "chase_t pythag l k A1 = (A', x)" "chase_t pythag l k B1 = (B', x)"
      "agree l A' B'" "same_vars A' B'" "frozen l A1 A'" "frozen l B1 B'" "\<forall>i. x = Some i \<longrightarrow> l \<le> i"
      using Suc.IH [OF t(1,2)] by blast
    then show ?thesis using a b t(3) f False frozen_trans [of l A A1 A'] frozen_trans [of l B B1 B'] by auto
  qed
qed

lemma sweep_local:
  assumes "agree l A B" and "l \<le> m"
  shows "agree l (sweep_t pythag l m A) (sweep_t pythag l m B) \<and> frozen l A (sweep_t pythag l m A) \<and>
    frozen l B (sweep_t pythag l m B)"
proof -
  have "qd A ! l = qd B ! l" "qd A ! (l + 1) = qd B ! (l + 1)" "qd A ! m = qd B ! m" "qe A = qe B"
    using assms same_from_nth [of l "qd A" "qd B"] by (simp_all add: agree_def)
  then have s: "shift_t pythag l m A = shift_t pythag l m B" by (simp add: shift_t_def shift_with_def shift_base_def)
  define A0 where "A0 = A\<lparr>qs := 1, qc := 1, qp := 0, qg := shift_t pythag l m B\<rparr>"
  define B0 where "B0 = B\<lparr>qs := 1, qc := 1, qp := 0, qg := shift_t pythag l m B\<rparr>"
  have "agree l A0 B0" "same_vars A0 B0" using assms(1) by (simp_all add: A0_def B0_def agree_def same_vars_def)
  from chase_local [OF this, of pythag "m - l"] obtain A' B' u where c: "chase_t pythag l (m - l) A0 = (A', u)"
    "chase_t pythag l (m - l) B0 = (B', u)" "agree l A' B'" "same_vars A' B'" "frozen l A0 A'" "frozen l B0 B'"
    "\<forall>i. u = Some i \<longrightarrow> l \<le> i" by blast
  have f: "frozen l A A'" "frozen l B B'" using c(5,6) by (simp_all add: A0_def B0_def frozen_def)
  have e: "qd A' ! j = qd B' ! j" if "l \<le> j" for j using c(3) same_from_nth that by (auto simp: agree_def)
  have v: "qp A' = qp B'" "qg A' = qg B'" "qe A' = qe B'" using c(3,4) by (simp_all add: agree_def same_vars_def)
  show ?thesis
    unfolding sweep_t_def after_chase_def s A0_def [symmetric] B0_def [symmetric] c(1,2)
    using c(3,7) f e v by (cases u) (simp_all add: agree_def frozen_def same_from_update same_upto_update)
qed

lemma small_from_bounds: "l \<le> small_from d e k l \<and> small_from d e k l \<le> l + k"
proof (induction k arbitrary: l)
  case (Suc k)
  from Suc.IH [of "l + 1"] show ?case by auto
qed simp

lemma small_from_local: "same_from l d d' \<Longrightarrow> l \<le> m \<Longrightarrow> small_from d e k m = small_from d' e k m"
proof (induction k arbitrary: m)
  case (Suc k)
  have "negligible d e m = negligible d' e m"
    using Suc.prems same_from_nth [OF Suc.prems(1)] by (simp add: negligible_def)
  then show ?case using Suc by simp
qed simp

lemma value_local:
  "agree l A B \<Longrightarrow> \<exists>A' B' ok. value_t pythag hi l k A = (A', ok) \<and> value_t pythag hi l k B = (B', ok) \<and> agree l A' B' \<and>
    frozen l A A' \<and> frozen l B B'"
proof (induction k arbitrary: A B)
  case 0
  then show ?case using small_from_local [of l "qd A" "qd B" l "qe B"] by (simp add: agree_def frozen_def)
next
  case (Suc k)
  define m where "m = small_from (qd B) (qe B) (hi - l) l"
  have m: "small_from (qd A) (qe A) (hi - l) l = m"
    using Suc.prems small_from_local [of l "qd A" "qd B" l "qe B"] by (simp add: agree_def m_def)
  have v: "value_t pythag hi l (Suc k) S = (if m = l then (S, True) else value_t pythag hi l k (sweep_t pythag l m S))"
    if "small_from (qd S) (qe S) (hi - l) l = m" for S using that by (simp add: Let_def)
  have lm: "l \<le> m" using small_from_bounds [of l "qd B" "qe B" "hi - l"] by (simp add: m_def)
  note s = sweep_local [OF Suc.prems lm, of pythag]
  from Suc.IH [of "sweep_t pythag l m A" "sweep_t pythag l m B"] s
  obtain A' B' ok where "value_t pythag hi l k (sweep_t pythag l m A) = (A', ok)"
    "value_t pythag hi l k (sweep_t pythag l m B) = (B', ok)" "agree l A' B'"
    "frozen l (sweep_t pythag l m A) A'" "frozen l (sweep_t pythag l m B) B'" by blast
  then show ?case
    using s Suc.prems frozen_trans [of l A "sweep_t pythag l m A" A'] frozen_trans [of l B "sweep_t pythag l m B" B']
    unfolding v [OF m] v [OF m_def [symmetric]] by (cases "m = l") (auto simp: frozen_def)
qed

text \<open>An eigenvalue is put in its place.\<close>

lemma put_in_order_places:
  fixes d :: "('v :: linorder) list"
  assumes "put_in_order l p f (d, b) = (d', b')" and "l < length d" and "length b = length d" and "sorted (take l d)"
  shows "length d' = length d \<and> length b' = length d \<and> drop (l + 1) d' = drop (l + 1) d \<and> drop (l + 1) b' = drop (l + 1) b \<and>
    sorted (take (l + 1) d') \<and> mset (zip (take (l + 1) d') (take (l + 1) b')) = mset (zip (take l d) (take l b)) + {#(p, f)#}"
  using assms
proof (induction l arbitrary: d b)
  case 0
  then show ?case by (cases d; cases b) auto
next
  case (Suc i)
  have i: "i < length d" "i < length b" "Suc i < length b" using Suc.prems by simp_all
  have tk: "take (Suc i) d = take i d @ [d ! i]" "take (Suc i) b = take i b @ [b ! i]"
    using i by (simp_all add: take_Suc_conv_app_nth)
  show ?case
  proof (cases "p < d ! i")
    case True
    let ?d = "d[Suc i := d ! i]" and ?b = "b[Suc i := b ! i]"
    have c: "put_in_order i p f (?d, ?b) = (d', b')" using Suc.prems(1) True by simp
    have "sorted (take i ?d)" using Suc.prems(4) unfolding tk by (simp add: sorted_append)
    then have ih: "length d' = length d" "length b' = length d" "drop (i + 1) d' = drop (i + 1) ?d" "drop (i + 1) b' = drop (i + 1) ?b"
      "sorted (take (i + 1) d')" "mset (zip (take (i + 1) d') (take (i + 1) b')) = mset (zip (take i d) (take i b)) + {#(p, f)#}"
      using Suc.IH [OF c] Suc.prems(2,3) by simp_all
    have n: "d' ! Suc i = d ! i" "b' ! Suc i = b ! i"
      using ih(3,4) Suc.prems(2,3) nth_drop [of "i + 1" d' 0] nth_drop [of "i + 1" b' 0] ih(1,2)
        nth_drop [of "i + 1" ?d 0] nth_drop [of "i + 1" ?b 0] by simp_all
    have tk': "take (Suc i + 1) d' = take (i + 1) d' @ [d ! i]" "take (Suc i + 1) b' = take (i + 1) b' @ [b ! i]"
      using ih(1,2) Suc.prems(2) n by (simp_all add: take_Suc_conv_app_nth)
    have dr: "drop (Suc i + 1) d' = drop (Suc i + 1) d" "drop (Suc i + 1) b' = drop (Suc i + 1) b"
      using arg_cong [OF ih(3), of "drop 1"] arg_cong [OF ih(4), of "drop 1"] by simp_all
    have "set (take (i + 1) d') = set (map fst (zip (take (i + 1) d') (take (i + 1) b')))" using ih(1,2) by simp
    also have "\<dots> = fst ` set_mset (mset (zip (take (i + 1) d') (take (i + 1) b')))" by simp
    also have "\<dots> = insert p (set (map fst (zip (take i d) (take i b))))" unfolding ih(6) by (simp add: image_Un)
    also have "map fst (zip (take i d) (take i b)) = take i d" using Suc.prems(3) by simp
    finally have "\<forall>x\<in>set (take (i + 1) d'). x \<le> d ! i"
      using Suc.prems(4) True unfolding tk by (auto simp: sorted_append)
    then have "sorted (take (Suc i + 1) d')" unfolding tk' using ih(5) by (simp add: sorted_append)
    moreover have "mset (zip (take (Suc i + 1) d') (take (Suc i + 1) b')) = mset (zip (take (Suc i) d) (take (Suc i) b)) + {#(p, f)#}"
      unfolding tk' tk using ih(1,2,6) Suc.prems(2,3) by simp
    ultimately show ?thesis using ih(1,2) dr by blast
  next
    case False
    then have e: "d' = d[Suc i := p]" "b' = b[Suc i := f]" using Suc.prems(1) by simp_all
    have tk': "take (Suc i + 1) d' = take (Suc i) d @ [p]" "take (Suc i + 1) b' = take (Suc i) b @ [f]"
      using Suc.prems(2,3) by (simp_all add: e take_Suc_conv_app_nth)
    have "\<forall>x\<in>set (take (Suc i) d). x \<le> p" using Suc.prems(4) False unfolding tk by (auto simp: sorted_append)
    then have "sorted (take (Suc i + 1) d')" unfolding tk' using Suc.prems(4) by (simp add: sorted_append)
    then show ?thesis unfolding tk' using Suc.prems(2,3) by (simp add: e)
  qed
qed

text \<open>Both loops find the same eigenvalues, and the array is the first row, in the other order.\<close>

definition paired :: "nat \<Rightarrow> ('v :: linorder) ql \<Rightarrow> 'v ql \<Rightarrow> bool" where
  "paired l A B \<longleftrightarrow> agree l A B \<and> length (hd (qz A)) = length (qd A) \<and> sorted (take l (qd A)) \<and>
     mset (zip (take l (qd A)) (take l (hd (qz A)))) = mset (zip (take l (qd B)) (take l (hd (qz B))))"

lemma insert_paired:
  assumes "paired l A B" and "l < length (qd A)"
  shows "paired (l + 1) (ql_insert l A) B"
proof -
  let ?a = "hd (qz A)" and ?b = "hd (qz B)"
  have a: "same_from l (qd A) (qd B)" "same_from l ?a ?b" "length ?a = length (qd A)" "sorted (take l (qd A))"
    "mset (zip (take l (qd A)) (take l ?a)) = mset (zip (take l (qd B)) (take l ?b))"
    using assms(1) by (simp_all add: paired_def agree_def)
  obtain d' b' where p: "put_in_order l (qd A ! l) (?a ! l) (qd A, ?a) = (d', b')" by fastforce
  note q = put_in_order_places [OF p assms(2) a(3,4)]
  have len: "length (qd B) = length (qd A)" "length ?b = length (qd A)" using a(1-3) by (simp_all add: same_from_def)
  have v: "qd A ! l = qd B ! l" "?a ! l = ?b ! l" using a(1,2) by (simp_all add: same_from_nth)
  have "zip (take (l + 1) (qd B)) (take (l + 1) ?b) = zip (take l (qd B)) (take l ?b) @ [(qd B ! l, ?b ! l)]"
    using len assms(2) by (simp add: take_Suc_conv_app_nth)
  then have m: "mset (zip (take (l + 1) d') (take (l + 1) b')) = mset (zip (take (l + 1) (qd B)) (take (l + 1) ?b))"
    using q a(5) v by simp
  have "same_from (l + 1) (qd A) (qd B)" "same_from (l + 1) ?a ?b" using a(1,2) by (simp_all add: same_from_def)
  then have "same_from (l + 1) d' (qd B)" "same_from (l + 1) b' ?b" using q a(3) by (simp_all add: same_from_drop)
  then show ?thesis
    using assms(1) p q a(3) m by (simp add: paired_def agree_def ql_insert_def Let_def)
qed

lemma value_paired:
  assumes "paired l A B" and "value_t pythag hi l k A = (A', ok)" and "value_t pythag hi l k B = (B', ok')"
  shows "ok' = ok \<and> paired l A' B' \<and> length (qd A') = length (qd A)"
proof -
  have tk: "take l ys = take l xs" if "same_upto l xs ys" for xs ys :: "'c list"
    using that by (auto simp: same_upto_def intro: nth_equalityI)
  have v: "ok' = ok" "agree l A' B'" "frozen l A A'" "frozen l B B'"
    using value_local [of l A B pythag hi k] assms by (auto simp: paired_def)
  then show ?thesis
    using assms(1) tk [of "qd A" "qd A'"] tk [of "hd (qz A)" "hd (qz A')"] tk [of "qd B" "qd B'"] tk [of "hd (qz B)" "hd (qz B')"]
    by (simp add: paired_def frozen_def same_upto_def)
qed

lemma values_paired:
  "paired l A B \<Longrightarrow> l + k \<le> length (qd A) \<Longrightarrow> qlb_t pythag hi k l A = (A', x) \<Longrightarrow> ql2_t pythag hi k l B = (B', y) \<Longrightarrow>
    x = y \<and> length (qd A') = length (qd A) \<and> (x = None \<longrightarrow> paired (l + k) A' B')"
proof (induction k arbitrary: l A B)
  case (Suc k)
  obtain A1 ok where a: "value_t pythag hi l 30 A = (A1, ok)" by fastforce
  obtain B1 ok' where b: "value_t pythag hi l 30 B = (B1, ok')" by fastforce
  note v = value_paired [OF Suc.prems(1) a b]
  show ?case
  proof (cases ok)
    case True
    have "paired (l + 1) (ql_insert l A1) B1" using v Suc.prems(2) by (intro insert_paired) auto
    moreover have "length (qd (ql_insert l A1)) = length (qd A1)"
    proof -
      obtain d' b' where p: "put_in_order l (qd A1 ! l) (hd (qz A1) ! l) (qd A1, hd (qz A1)) = (d', b')" by fastforce
      from put_in_order_places [OF p] v Suc.prems(2) have "length d' = length (qd A1)" by (simp add: paired_def)
      then show ?thesis using p by (simp add: ql_insert_def Let_def)
    qed
    moreover have "qlb_t pythag hi k (l + 1) (ql_insert l A1) = (A', x)" "ql2_t pythag hi k (l + 1) B1 = (B', y)"
      using Suc.prems(3,4) a b v True by simp_all
    ultimately have "x = y \<and> length (qd A') = length (qd (ql_insert l A1)) \<and> (x = None \<longrightarrow> paired (l + 1 + k) A' B')"
      using v Suc.prems(2) by (intro Suc.IH) simp_all
    with \<open>length (qd (ql_insert l A1)) = length (qd A1)\<close> v show ?thesis by simp
  next
    case False
    then show ?thesis using Suc.prems(3,4) a b v by auto
  qed
qed auto

lemma ql_start_paired:
  fixes d :: "('v :: {linorder, zero}) list"
  shows "length d = n \<Longrightarrow> length x = n \<Longrightarrow> paired 0 (ql_start n d e [x]) (ql_start n d e (x # z))"
  by (simp add: paired_def agree_def ql_start_def same_from_def)

lemma rearranged_pairs:
  assumes "rearranged n \<sigma> (d, z) (d', z')" and "length d = n" and "r < length z" and "length (z ! r) = n"
  shows "mset (zip d' (z' ! r)) = mset (zip d (z ! r))"
proof -
  have b: "bij_betw \<sigma> {..<n} {..<n}" and l: "length d' = n" "map length z' = map length z"
    and v: "\<forall>j<n. d' ! j = d ! \<sigma> j" "\<forall>j<n. z' ! r ! j = z ! r ! \<sigma> j"
    using assms by (simp_all add: rearranged_def)
  have lr: "length (z' ! r) = n" using arg_cong [OF l(2), of "\<lambda>xs. xs ! r"] assms(3,4) arg_cong [OF l(2), of length] by simp
  have s: "\<sigma> j < n" if "j < n" for j using b that by (auto simp: bij_betw_def)
  have "zip d' (z' ! r) = map (\<lambda>j. (d ! \<sigma> j, z ! r ! \<sigma> j)) [0..<n]"
    using l(1) lr v by (intro nth_equalityI) simp_all
  also have "mset \<dots> = image_mset (\<lambda>j. (d ! j, z ! r ! j)) (image_mset \<sigma> (mset_set {0..<n}))"
    by (simp only: mset_map mset_upt image_mset.compositionality comp_def)
  also have "image_mset \<sigma> (mset_set {0..<n}) = mset_set {0..<n}"
    using b by (simp add: image_mset_mset_set bij_betw_def lessThan_atLeast0)
  also have "image_mset (\<lambda>j. (d ! j, z ! r ! j)) (mset_set {0..<n}) = mset (map (\<lambda>j. (d ! j, z ! r ! j)) [0..<n])"
    by (simp only: mset_map mset_upt)
  also have "map (\<lambda>j. (d ! j, z ! r ! j)) [0..<n] = zip d (z ! r)"
    using assms(2,4) by (intro nth_equalityI) simp_all
  finally show ?thesis .
qed


lemma values_fail:
  "ql2_t pythag hi k l st = (st', Some x) \<Longrightarrow> l \<le> x \<and> x < l + k \<and> (x = l \<longrightarrow> \<not> snd (value_t pythag hi l 30 st))"
proof (induction k arbitrary: l st)
  case (Suc k)
  obtain st1 ok where v: "value_t pythag hi l 30 st = (st1, ok)" by fastforce
  show ?case
  proof (cases ok)
    case True
    then have "ql2_t pythag hi k (l + 1) st1 = (st', Some x)" using Suc.prems v by simp
    from Suc.IH [OF this] show ?thesis by simp
  next
    case False
    then show ?thesis using Suc.prems v by simp
  qed
qed simp

lemma paired_distinct:
  assumes "mset (zip d b) = mset (zip d b')" and "distinct d" and "length b = length d" and "length b' = length d"
  shows "b = b'"
proof (rule nth_equalityI)
  fix j assume j: "j < length b"
  then have "(d ! j, b ! j) \<in> set (zip d b)" using assms(3) by (auto simp: set_zip)
  then have "(d ! j, b ! j) \<in> set (zip d b')" using assms(1) by (metis set_mset_mset)
  then obtain k where "k < length d" "d ! k = d ! j" "b' ! k = b ! j" by (auto simp: set_zip)
  with assms(2,3) j show "b ! j = b' ! j" by (simp add: nth_eq_iff_index_eq)
qed (simp add: assms(3,4))

lemma routines_agree:
  fixes d :: "('v :: {linorder, zero, one, plus, minus, uminus, times, inverse, abs}) list"
  assumes n: "1 < n" and "length d = n" "length e = n" "length bnd = n"
    and "z \<noteq> []" and z: "hd z = 1 # replicate (n - 1) 0" "\<forall>x\<in>set z. length x = n"
  shows "\<exists>d1 e1 b1 d2 e2 z2 err. imtqlb_t pythag n d e bnd i1 = Some (d1, e1, b1, err) \<and> imtql2_t pythag n d e z i2 = Some (d2, e2, z2, err) \<and>
    (snd (value_t pythag (n - 1) 0 30 (ql_start n d e z)) \<and> err = 0 \<longrightarrow>
      sorted d1 \<and> d2 = d1 \<and> mset (zip d1 b1) = mset (zip d2 (hd z2)) \<and> length d1 = n \<and> length b1 = n \<and> length (hd z2) = n)"
proof -
  let ?x = "1 # replicate (n - 1) 0 @ drop n bnd"
  have x: "?x = hd z" using assms(4) z(1) by simp
  obtain z' where zz: "z = ?x # z'" using assms(5) x by (metis list.collapse)
  obtain A x1 where A: "qlb_t pythag (n - 1) n 0 (ql_start n d e [?x]) = (A, x1)" by fastforce
  obtain B x2 where B: "ql2_t pythag (n - 1) n 0 (ql_start n d e z) = (B, x2)" by fastforce
  have "paired 0 (ql_start n d e [?x]) (ql_start n d e z)"
    unfolding zz using assms(2,4) n by (intro ql_start_paired) simp_all
  from values_paired [OF this _ A B] assms(2)
  have p: "x2 = x1" "length (qd A) = n" "x1 = None \<longrightarrow> paired n A B" by (simp_all add: ql_start_def)
  have sz: "length (qd B) = n" "map length (qz B) = map length z"
    using values_sizes [OF B] assms(2) by (simp_all add: sizes_def ql_start_def)
  have b: "imtqlb_t pythag n d e bnd i1 = Some (qd A, qe A, hd (qz A), ierr_of x1)"
    using n assms(2-4) A by (simp add: imtqlb_t_def)
  have g: "\<not> (n = 0 \<or> length d < n \<or> length e < n \<or> (\<exists>x\<in>set z. length x < n))" using n assms(2,3) z(2) by auto
  show ?thesis
  proof (cases x1)
    case None
    have lz: "length x = n" if "x \<in> set (qz B)" for x
    proof -
      have "length x \<in> set (map length (qz B))" using that by simp
      then show ?thesis unfolding sz(2) using z(2) by auto
    qed
    obtain \<sigma> d2 z2 where s: "fold (select_at n) [0..<n - 1] (qd B, qz B) = (d2, z2)" "rearranged n \<sigma> (qd B, qz B) (d2, z2)"
      "\<forall>x y. x < y \<longrightarrow> x < n - 1 \<longrightarrow> y < n \<longrightarrow> d2 ! x \<le> d2 ! y"
      using selects [of n "qd B" "qz B" "n - 1"] sz(1) lz by auto
    have q: "imtql2_t pythag n d e z i2 = Some (d2, qe B, z2, 0)"
      using n g B p(1) None s(1) by (simp add: imtql2_t_def ql2_end_def)
    have pr: "paired n A B" using p(3) None by simp
    have nb: "qz B \<noteq> []" "length (qz B) = length z" using assms(5) arg_cong [OF sz(2), of length] by auto
    have l2: "length d2 = n" "length z2 = length (qz B)" using s(2) sz(1) map_eq_imp_length_eq [of length z2 length "qz B"] by (simp_all add: rearranged_def)
    have "z2 \<noteq> []" using nb(1) l2(2) by auto
    then have h: "hd (qz B) = qz B ! 0" "hd z2 = z2 ! 0" using nb(1) by (simp_all add: hd_conv_nth)
    have "mset (zip d2 (z2 ! 0)) = mset (zip (qd B) (qz B ! 0))"
      using nb(1) lz by (intro rearranged_pairs [OF s(2) sz(1)]) simp_all
    then have m: "mset (zip (qd A) (hd (qz A))) = mset (zip d2 (hd z2))"
      using pr p(2) sz(1) lz [of "hd (qz B)"] nb(1) by (auto simp: paired_def h)
    have so: "sorted (qd A)" "length (hd (qz A)) = n" using pr p(2) by (simp_all add: paired_def)
    have "sorted d2" using s(3) l2(1) by (auto simp: sorted_iff_nth_mono_less)
    moreover have "mset (qd A) = mset d2 \<and> length (hd z2) = n"
    proof -
      have "map length z2 = map length (qz B)" using s(2) by (simp add: rearranged_def)
      moreover have "0 < length z2" "0 < length (qz B)" using nb(1) l2(2) by simp_all
      ultimately have "length (z2 ! 0) = length (qz B ! 0)" by (metis nth_map)
      moreover have "qz B ! 0 \<in> set (qz B)" using nb(1) by simp
      ultimately have "length (hd z2) = n" using lz h by simp
      then have "map fst (zip d2 (hd z2)) = d2" "map fst (zip (qd A) (hd (qz A))) = qd A" using so(2) p(2) l2(1) by simp_all
      then show ?thesis using arg_cong [OF m, of "image_mset fst"] \<open>length (hd z2) = n\<close> by (metis mset_map)
    qed
    ultimately have ms: "sorted d2" "mset (qd A) = mset d2" "length (hd z2) = n" by simp_all
    have "d2 = qd A" using ms(1,2) so(1) by (metis properties_for_sort)
    then show ?thesis using b q m so ms(3) p(2) None by (auto simp: ierr_of_def)
  next
    case (Some l)
    have f: "snd (value_t pythag (n - 1) 0 30 (ql_start n d e z)) \<Longrightarrow> l \<noteq> 0"
      using values_fail [of pythag "n - 1" n 0 "ql_start n d e z" B l] B p(1) Some by auto
    show ?thesis using b g n B p(1) Some f by (auto simp: imtql2_t_def ql2_end_def ierr_of_def)
  qed
qed


lemma value_at_once:
  assumes "small_from (qd st) (qe st) (hi - l) l = l"
  shows "ql_value P hi l 30 st = Some (st, True)"
proof -
  have n: "30 = Suc 29" by simp
  show ?thesis unfolding n ql_value.simps(2) assms Let_def by (rule if_P) (rule refl)
qed

definition add_P :: "real \<Rightarrow> real \<Rightarrow> real option" where
  "add_P a b = Some (a + b)"

lemma add_P_returns: "pythag_returns add_P"
  by (simp add: pythag_returns_def add_P_def)


end
