(* ===== verification/SvdRotate.thy ===== *)
theory SvdRotate
  imports SvdOrder
begin

text \<open>
  The implicit QL method in exact arithmetic: every sweep is a sequence of rotations in planes of
  neighbours, so the matrix stays similar to the one it was, and the columns of \<^verbatim>\<open>z\<close> stay
  orthonormal. Matrices are functions of two indices below \<open>n\<close>.
\<close>

section \<open>Plane rotations\<close>

definition rotf :: "nat \<Rightarrow> ('v :: {plus, minus, times}) \<Rightarrow> 'v \<Rightarrow> (nat \<Rightarrow> 'v) \<Rightarrow> nat \<Rightarrow> 'v" where
  "rotf i s c x = x(i := c * x i - s * x (i + 1), i + 1 := s * x i + c * x (i + 1))"

definition conj_rot :: "nat \<Rightarrow> ('v :: {plus, minus, times}) \<Rightarrow> 'v \<Rightarrow> (nat \<Rightarrow> nat \<Rightarrow> 'v) \<Rightarrow> nat \<Rightarrow> nat \<Rightarrow> 'v" where
  "conj_rot i s c M a b = rotf i s c (\<lambda>a. rotf i s c (M a) b) a"

lemma rotf_simps [simp]:
  "rotf i s c x i = c * x i - s * x (i + 1)"
  "rotf i s c x (Suc i) = s * x i + c * x (i + 1)"
  "j \<noteq> i \<Longrightarrow> j \<noteq> Suc i \<Longrightarrow> rotf i s c x j = x j"
  by (simp_all add: rotf_def)

lemma sum_two:
  fixes f :: "nat \<Rightarrow> 'v :: comm_monoid_add"
  assumes "i + 1 < n"
  shows "(\<Sum>k<n. f k) = f i + f (i + 1) + (\<Sum>k\<in>{..<n} - {i, i + 1}. f k)"
proof -
  have "(\<Sum>k<n. f k) = f i + (\<Sum>k\<in>{..<n} - {i}. f k)" using assms by (intro sum.remove) auto
  also have "(\<Sum>k\<in>{..<n} - {i}. f k) = f (i + 1) + (\<Sum>k\<in>{..<n} - {i} - {i + 1}. f k)"
    using assms by (intro sum.remove) auto
  also have "{..<n} - {i} - {i + 1} = {..<n} - {i, i + 1}" by auto
  finally show ?thesis by (simp add: add.assoc)
qed

lemma rotf_inner:
  fixes u v :: "nat \<Rightarrow> 'v :: comm_ring_1"
  assumes "s * s + c * c = 1" and "i + 1 < n"
  shows "(\<Sum>k<n. rotf i s c u k * rotf i s c v k) = (\<Sum>k<n. u k * v k)"
proof -
  have "rotf i s c u i * rotf i s c v i + rotf i s c u (i + 1) * rotf i s c v (i + 1) =
      (s * s + c * c) * (u i * v i + u (i + 1) * v (i + 1))"
    by (simp add: algebra_simps)
  then show ?thesis unfolding sum_two [OF assms(2)] assms(1) by simp
qed

lemma rotf_sum: "rotf i s c (\<lambda>j. \<Sum>k\<in>A. f k j) b = (\<Sum>k\<in>A. rotf i s c (f k) b)" for f :: "'a \<Rightarrow> nat \<Rightarrow> 'v :: comm_ring_1"
  by (simp add: rotf_def sum_distrib_left sum.distrib sum_subtractf)

lemma rotf_scale: "rotf i s c (\<lambda>j. t * f j) b = t * rotf i s c f b" for t :: "'v :: comm_ring_1"
  by (simp add: rotf_def algebra_simps)

lemma rotf_scale2: "rotf i s c (\<lambda>j. f j * t) b = rotf i s c f b * t" for t :: "'v :: comm_ring_1"
  by (simp add: rotf_def algebra_simps)

text \<open>\<open>T0\<close> applied to the columns of \<open>Z\<close> combines them as \<open>M\<close> says.\<close>

definition similar :: "nat \<Rightarrow> (nat \<Rightarrow> nat \<Rightarrow> 'v) \<Rightarrow> (nat \<Rightarrow> nat \<Rightarrow> 'v) \<Rightarrow> (nat \<Rightarrow> nat \<Rightarrow> 'v :: comm_ring_1) \<Rightarrow> bool" where
  "similar n T0 M Z \<longleftrightarrow> (\<forall>k<n. \<forall>j<n. (\<Sum>r<n. T0 k r * Z r j) = (\<Sum>r<n. Z k r * M r j))"

definition orthonormal :: "nat \<Rightarrow> (nat \<Rightarrow> nat \<Rightarrow> 'v :: comm_ring_1) \<Rightarrow> bool" where
  "orthonormal n Z \<longleftrightarrow> (\<forall>a<n. \<forall>b<n. (\<Sum>k<n. Z k a * Z k b) = (if a = b then 1 else 0))"

lemma rotf_cong:
  assumes "\<forall>j<n. f j = g j" and "i + 1 < n" and "b < n"
  shows "rotf i s c f b = rotf i s c g b"
  using assms by (simp add: rotf_def)

lemma similar_rot:
  assumes "similar n T0 M Z" and "s * s + c * c = 1" and i: "i + 1 < n"
  shows "similar n T0 (conj_rot i s c M) (\<lambda>k. rotf i s c (Z k))"
  unfolding similar_def
proof (intro allI impI)
  fix k j assume k: "k < n" and j: "j < n"
  have "(\<Sum>r<n. T0 k r * rotf i s c (Z r) j) = rotf i s c (\<lambda>j. \<Sum>r<n. T0 k r * Z r j) j"
    by (simp only: rotf_sum rotf_scale)
  also have "\<dots> = rotf i s c (\<lambda>j. \<Sum>r<n. Z k r * M r j) j"
    using assms(1) k by (intro rotf_cong [OF _ i j]) (simp add: similar_def)
  also have "\<dots> = (\<Sum>r<n. Z k r * rotf i s c (M r) j)" by (simp only: rotf_sum rotf_scale)
  also have "\<dots> = (\<Sum>r<n. rotf i s c (Z k) r * conj_rot i s c M r j)"
    unfolding conj_rot_def by (rule rotf_inner [OF assms(2,3), symmetric])
  finally show "(\<Sum>r<n. T0 k r * rotf i s c (Z r) j) = (\<Sum>r<n. rotf i s c (Z k) r * conj_rot i s c M r j)" .
qed

lemma orthonormal_rot:
  assumes "orthonormal n Z" and "s * s + c * c = 1" and i: "i + 1 < n"
  shows "orthonormal n (\<lambda>k. rotf i s c (Z k))"
  unfolding orthonormal_def
proof (intro allI impI)
  fix a b assume a: "a < n" and b: "b < n"
  let ?\<delta> = "\<lambda>a b. if a = b then 1 else 0 :: 'a"
  have "(\<Sum>k<n. rotf i s c (Z k) a * rotf i s c (Z k) b) = rotf i s c (\<lambda>b. \<Sum>k<n. rotf i s c (Z k) a * Z k b) b"
    by (simp only: rotf_sum rotf_scale)
  also have "\<dots> = rotf i s c (\<lambda>b. rotf i s c (\<lambda>a. \<Sum>k<n. Z k a * Z k b) a) b"
    by (simp only: rotf_sum rotf_scale2)
  also have "\<dots> = rotf i s c (\<lambda>b. rotf i s c (\<lambda>a. ?\<delta> a b) a) b"
    using assms(1) by (intro rotf_cong [OF _ i b] allI impI) (auto intro!: rotf_cong [OF _ i a] simp: orthonormal_def)
  also have "\<dots> = ?\<delta> a b"
  proof -
    have m: "s * s = 1 - c * c" using assms(2) by (simp add: algebra_simps)
    consider "a = i" | "a = Suc i" | "a \<noteq> i" "a \<noteq> Suc i" by blast
    then show ?thesis
      by cases (auto simp: rotf_def m algebra_simps)
  qed
  finally show "(\<Sum>k<n. rotf i s c (Z k) a * rotf i s c (Z k) b) = ?\<delta> a b" .
qed

section \<open>The matrices of a sweep\<close>

definition tri :: "'v list \<Rightarrow> 'v list \<Rightarrow> nat \<Rightarrow> nat \<Rightarrow> 'v :: zero" where
  "tri d e a b = (if a = b then d ! a else if b = a + 1 then e ! a else if a = b + 1 then e ! b else 0)"

text \<open>
  The matrix between two turns: the diagonal element \<open>q\<close> is without its \<open>p\<close>, its subdiagonal
  element is \<open>g\<close>, the one before is scaled by \<open>c\<close>, and \<open>s\<close> times that one is outside the band.
\<close>

definition chase_off :: "nat \<Rightarrow> nat \<Rightarrow> ('v :: {zero, times}) ql \<Rightarrow> nat \<Rightarrow> 'v" where
  "chase_off m q st a = (if a = m then 0 else if a + 1 = q then qc st * qe st ! a else if a = q then qg st else qe st ! a)"

definition chase :: "nat \<Rightarrow> nat \<Rightarrow> ('v :: {zero, minus, times}) ql \<Rightarrow> nat \<Rightarrow> nat \<Rightarrow> 'v" where
  "chase m q st a b =
     (if a = b then (if a = q then qd st ! q - qp st else qd st ! a)
      else if b = a + 1 then chase_off m q st a
      else if a = b + 1 then chase_off m q st b
      else if q < m \<and> (a + 1 = q \<and> b = q + 1 \<or> b + 1 = q \<and> a = q + 1) then qs st * qe st ! (q - 1)
      else 0)"

lemma rot_row_nth: "i + 1 < length x \<Longrightarrow> rot_row i s c x ! j = rotf i s c ((!) x) j"
  by (auto simp: rot_row_def rotf_def nth_list_update)

lemma length_rot_row [simp]: "length (rot_row i s c x) = length x"
  by (simp add: rot_row_def)

definition exact :: "('v \<Rightarrow> 'v \<Rightarrow> 'v :: linordered_field) \<Rightarrow> bool" where
  "exact pythag \<longleftrightarrow> (\<forall>a b. pythag a b * pythag a b = a * a + b * b)"

lemma square_pos: "x \<noteq> 0 \<Longrightarrow> 0 < x * x" for x :: "'v :: linordered_field"
  by (cases "0 < x") (auto intro: mult_neg_neg)

text \<open>What one turn does to the variables.\<close>

lemma turn_values:
  fixes st :: "('v :: linordered_field) ql"
  assumes "exact pythag" and "qs st * qe st ! i \<noteq> 0"
  defines "r \<equiv> pythag (qs st * qe st ! i) (qg st)"
  defines "s \<equiv> qs st * qe st ! i / r" and "c \<equiv> qg st / r"
  defines "h \<equiv> qd st ! (i + 1) - qp st" and "b \<equiv> qc st * qe st ! i"
  defines "t \<equiv> (qd st ! i - h) * s + 2 * c * b"
  shows "turn_t pythag i st =
      (st\<lparr>qe := (qe st)[i + 1 := r], qd := (qd st)[i + 1 := h + s * t], qz := map (rot_row i s c) (qz st),
          qs := s, qc := c, qp := s * t, qg := c * t - b\<rparr>, False)"
    and "r \<noteq> 0" and "s * s + c * c = 1" and "s \<noteq> 0" and "s * (qs st * qe st ! i) + c * qg st = r"
    and "c * (qs st * qe st ! i) = s * qg st"
proof -
  let ?f = "qs st * qe st ! i" and ?g = "qg st"
  have rr: "r * r = ?f * ?f + ?g * ?g" using assms(1) by (simp add: exact_def r_def)
  have "0 < ?f * ?f" by (rule square_pos [OF assms(2)])
  then have "0 < r * r" unfolding rr using zero_le_square [of ?g] by linarith
  then show r: "r \<noteq> 0" by auto
  have "s * s + c * c = (?f * ?f + ?g * ?g) / (r * r)" by (simp add: s_def c_def add_divide_distrib)
  also have "\<dots> = 1" using r by (simp flip: rr)
  finally show "s * s + c * c = 1" .
  show "s \<noteq> 0" using assms(2) r by (simp add: s_def)
  have "s * ?f + c * ?g = r * r / r" by (simp add: s_def c_def add_divide_distrib rr)
  then show "s * ?f + c * ?g = r" using r by simp
  show "c * ?f = s * ?g" by (simp add: s_def c_def)
  have "(1 + 1 :: 'v) = 2" by simp
  then show "turn_t pythag i st =
      (st\<lparr>qe := (qe st)[i + 1 := r], qd := (qd st)[i + 1 := h + s * t], qz := map (rot_row i s c) (qz st),
          qs := s, qc := c, qp := s * t, qg := c * t - b\<rparr>, False)"
    using r unfolding turn_t_def turn_with_def Let_def r_def [symmetric] s_def [symmetric] c_def [symmetric] h_def [symmetric] b_def [symmetric]
    by (simp add: t_def)
qed

lemma turn_chase:
  fixes st :: "('v :: linordered_field) ql"
  assumes "exact pythag" and "qs st \<noteq> 0" and "qe st ! i \<noteq> 0"
    and "n \<le> length (qd st)" and "n \<le> length (qe st)" and "i + 1 \<le> m" and "m < n"
    and st': "turn_t pythag i st = (st', u)" and "a < n" and "b < n"
  shows "chase m i st' a b = conj_rot i (qs st') (qc st') (chase m (i + 1) st) a b"
proof -
  have ne: "qs st * qe st ! i \<noteq> 0" using assms(2,3) by simp
  define r where "r = pythag (qs st * qe st ! i) (qg st)"
  define s where "s = qs st * qe st ! i / r"
  define c where "c = qg st / r"
  define h where "h = qd st ! (i + 1) - qp st"
  define t where "t = (qd st ! i - h) * s + 2 * c * (qc st * qe st ! i)"
  note v = turn_values [OF assms(1) ne, folded r_def, folded s_def c_def h_def, folded t_def]
  have q: "st' = st\<lparr>qe := (qe st)[i + 1 := r], qd := (qd st)[i + 1 := h + s * t], qz := map (rot_row i s c) (qz st),
          qs := s, qc := c, qp := s * t, qg := c * t - qc st * qe st ! i\<rparr>"
    using v(1) st' by simp
  have ss: "s * s = 1 - c * c" using v(3) by (simp add: algebra_simps)
  have ss': "s * (s * x) = x - c * (c * x)" for x
  proof -
    have "s * (s * x) = (s * s) * x" by (rule mult.assoc [symmetric])
    also have "\<dots> = x - c * (c * x)" unfolding ss by (simp only: left_diff_distrib mult_1 mult.assoc)
    finally show ?thesis .
  qed
  define N where "N = chase m (i + 1) st"
  define f where "f = qs st * qe st ! i"
  define g where "g = qg st"
  define z where "z = qc st * qe st ! i"
  have sf: "s * f + c * g = r" "c * f = s * g" using v(5,6) by (simp_all add: f_def g_def)
  have N: "N i i = qd st ! i" "N (Suc i) (Suc i) = h" "N i (Suc i) = z" "N (Suc i) i = z"
    using assms(6) by (simp_all add: N_def chase_def chase_off_def h_def z_def)
  have Nb: "N i b = (if b + 1 = i then qe st ! b else if b = i + 2 \<and> i + 1 < m then f else 0)"
      "N (Suc i) b = (if b = i + 2 \<and> i + 1 < m then g else 0)"
      "N b i = N i b" "N b (Suc i) = N (Suc i) b" if "b \<noteq> i" "b \<noteq> Suc i" for b
    using assms(6) that by (auto simp: N_def chase_def chase_off_def f_def g_def)
  have e': "qe st' = (qe st)[i + 1 := r]" "qd st' = (qd st)[i + 1 := h + s * t]" "qs st' = s" "qc st' = c"
      "qp st' = s * t" "qg st' = c * t - z" and t: "t = (qd st ! i - h) * s + 2 * c * z"
    by (simp_all add: q z_def t_def)
  have l: "i + 1 < length (qe st)" "i + 1 < length (qd st)" "i + 1 < n" using assms by simp_all
  have R: "chase m i st' i i = c * (c * N i i - s * N i (Suc i)) - s * (c * N (Suc i) i - s * N (Suc i) (Suc i))"
      "chase m i st' (Suc i) (Suc i) = s * (s * N i i + c * N i (Suc i)) + c * (s * N (Suc i) i + c * N (Suc i) (Suc i))"
      "chase m i st' i (Suc i) = c * (s * N i i + c * N i (Suc i)) - s * (s * N (Suc i) i + c * N (Suc i) (Suc i))"
      "chase m i st' (Suc i) i = s * (c * N i i - s * N i (Suc i)) + c * (c * N (Suc i) i - s * N (Suc i) (Suc i))"
  proof -
    have "chase m i st' i i = qd st ! i - s * t" using l assms(6) by (simp add: chase_def e')
    also have "\<dots> = c * (c * N i i - s * N i (Suc i)) - s * (c * N (Suc i) i - s * N (Suc i) (Suc i))"
      unfolding N t by (simp add: algebra_simps ss ss')
    finally show "chase m i st' i i = c * (c * N i i - s * N i (Suc i)) - s * (c * N (Suc i) i - s * N (Suc i) (Suc i))" .
    have "chase m i st' (Suc i) (Suc i) = h + s * t" using l assms(6) by (simp add: chase_def e')
    also have "\<dots> = s * (s * N i i + c * N i (Suc i)) + c * (s * N (Suc i) i + c * N (Suc i) (Suc i))"
      unfolding N t by (simp add: algebra_simps ss ss')
    finally show "chase m i st' (Suc i) (Suc i) = s * (s * N i i + c * N i (Suc i)) + c * (s * N (Suc i) i + c * N (Suc i) (Suc i))" .
    have g: "c * t - z = c * (s * N i i + c * N i (Suc i)) - s * (s * N (Suc i) i + c * N (Suc i) (Suc i))" "c * (s * N i i + c * N i (Suc i)) - s * (s * N (Suc i) i + c * N (Suc i) (Suc i)) =
        s * (c * N i i - s * N i (Suc i)) + c * (c * N (Suc i) i - s * N (Suc i) (Suc i))"
      unfolding N t by (simp_all add: algebra_simps ss ss')
    show "chase m i st' i (Suc i) = c * (s * N i i + c * N i (Suc i)) - s * (s * N (Suc i) i + c * N (Suc i) (Suc i))"
      "chase m i st' (Suc i) i = s * (c * N i i - s * N i (Suc i)) + c * (c * N (Suc i) i - s * N (Suc i) (Suc i))"
      unfolding g(2) [symmetric] g(1) [symmetric] using assms(6) by (simp_all add: chase_def chase_off_def e')
  qed
  have C: "chase m i st' i b = (if b + 1 = i then c * qe st ! b else 0)"
      "chase m i st' (Suc i) b = (if b + 1 = i then s * qe st ! b else if b = i + 2 \<and> i + 1 < m then r else 0)"
      "chase m i st' b i = chase m i st' i b" "chase m i st' b (Suc i) = chase m i st' (Suc i) b"
    if "b \<noteq> i" "b \<noteq> Suc i" for b
  proof -
    have im: "i < m" "i \<noteq> m" using assms(6) by simp_all
    show "chase m i st' i b = (if b + 1 = i then c * qe st ! b else 0)"
      using that im by (auto simp: chase_def chase_off_def e')
    show "chase m i st' (Suc i) b = (if b + 1 = i then s * qe st ! b else if b = i + 2 \<and> i + 1 < m then r else 0)"
      using that im l by (auto simp: chase_def chase_off_def e')
    show "chase m i st' b i = chase m i st' i b" "chase m i st' b (Suc i) = chase m i st' (Suc i) b"
      using that by (auto simp: chase_def)
  qed
  have Q: "chase m i st' i b = c * N i b - s * N (Suc i) b" "chase m i st' (Suc i) b = s * N i b + c * N (Suc i) b"
      "chase m i st' b i = chase m i st' i b" "chase m i st' b (Suc i) = chase m i st' (Suc i) b"
    if "b \<noteq> i" "b \<noteq> Suc i" for b
    unfolding C [OF that] Nb [OF that] using sf by simp_all
  have O: "chase m i st' a b = N a b" if "a \<noteq> i" "a \<noteq> Suc i" "b \<noteq> i" "b \<noteq> Suc i" for a b
    using that by (auto simp: chase_def chase_off_def e' N_def)
  have "chase m i st' a b = conj_rot i s c N a b"
  proof (cases "b = i \<or> b = Suc i")
    case b: True
    show ?thesis
    proof (cases "a = i \<or> a = Suc i")
      case True
      then show ?thesis using b by (elim disjE) (simp_all only: conj_rot_def rotf_simps R Suc_eq_plus1 [symmetric])
    next
      case False
      then have "a \<noteq> i" "a \<noteq> Suc i" by simp_all
      then show ?thesis using b by (elim disjE) (simp_all only: conj_rot_def rotf_simps Q Nb(3,4) simp_thms Suc_eq_plus1 [symmetric])
    qed
  next
    case False
    then have b: "b \<noteq> i" "b \<noteq> Suc i" by simp_all
    consider "a = i" | "a = Suc i" | "a \<noteq> i" "a \<noteq> Suc i" by blast
    then show ?thesis
      by cases (simp_all only: conj_rot_def rotf_simps Q b O simp_thms Suc_eq_plus1 [symmetric])
  qed
  then show ?thesis by (simp only: e' N_def)
qed

section \<open>The loops keep the matrix similar\<close>

abbreviation columns_of :: "'v ql \<Rightarrow> nat \<Rightarrow> nat \<Rightarrow> 'v" where
  "columns_of st k j \<equiv> qz st ! k ! j"

definition keeps :: "nat \<Rightarrow> (nat \<Rightarrow> nat \<Rightarrow> 'v) \<Rightarrow> (nat \<Rightarrow> nat \<Rightarrow> 'v) \<Rightarrow> ('v :: comm_ring_1) ql \<Rightarrow> bool" where
  "keeps n T0 M st \<longleftrightarrow> n \<le> length (qd st) \<and> n \<le> length (qe st) \<and> n \<le> length (qz st) \<and> (\<forall>x\<in>set (qz st). n \<le> length x) \<and>
     similar n T0 M (columns_of st) \<and> orthonormal n (columns_of st)"

lemma similar_cong:
  assumes "similar n T0 M Z" and "\<And>a b. a < n \<Longrightarrow> b < n \<Longrightarrow> M' a b = M a b"
    and "\<And>a b. a < n \<Longrightarrow> b < n \<Longrightarrow> Z' a b = Z a b"
  shows "similar n T0 M' Z'"
  using assms by (simp add: similar_def)

lemma orthonormal_cong:
  assumes "orthonormal n Z" and "\<And>a b. a < n \<Longrightarrow> b < n \<Longrightarrow> Z' a b = Z a b"
  shows "orthonormal n Z'"
  using assms by (simp add: orthonormal_def)

lemma chase_loop:
  fixes st :: "('v :: linordered_field) ql"
  assumes "exact pythag" and "m < n"
  shows "keeps n T0 (chase m (l + k) st) st \<Longrightarrow> qs st \<noteq> 0 \<Longrightarrow> \<forall>j. l \<le> j \<and> j < l + k \<longrightarrow> qe st ! j \<noteq> 0 \<Longrightarrow> l + k \<le> m \<Longrightarrow>
    \<exists>st'. chase_t pythag l k st = (st', None) \<and> keeps n T0 (chase m l st') st' \<and>
      (\<forall>j. j < l \<or> m < j \<longrightarrow> qe st' ! j = qe st ! j)"
proof (induction k arbitrary: st)
  case (Suc k)
  let ?i = "l + k"
  have e: "qe st ! ?i \<noteq> 0" and ne: "qs st * qe st ! ?i \<noteq> 0" and i: "?i + 1 \<le> m" using Suc.prems by simp_all
  have len: "n \<le> length (qd st)" "n \<le> length (qe st)" "n \<le> length (qz st)" "\<forall>x\<in>set (qz st). n \<le> length x"
    using Suc.prems(1) by (simp_all add: keeps_def)
  obtain st1 where t: "turn_t pythag ?i st = (st1, False)"
    and e1: "\<exists>r. qe st1 = (qe st)[?i + 1 := r]" and d1: "n \<le> length (qd st1)"
    and z1: "qz st1 = map (rot_row ?i (qs st1) (qc st1)) (qz st)"
    and sc: "qs st1 * qs st1 + qc st1 * qc st1 = 1" "qs st1 \<noteq> 0"
    using turn_values(1,3,4) [OF assms(1) ne] len(1) by auto
  have zf: "columns_of st1 a = rotf ?i (qs st1) (qc st1) (columns_of st a)" if "a < n" for a
  proof -
    have a: "a < length (qz st)" using that len(3) by simp
    then have "?i + 1 < length (qz st ! a)" using len(4) i assms(2) nth_mem [OF a] by fastforce
    then show ?thesis using a unfolding z1 by (simp add: fun_eq_iff rot_row_nth)
  qed
  have c: "chase m ?i st1 a b = conj_rot ?i (qs st1) (qc st1) (chase m (?i + 1) st) a b" if "a < n" "b < n" for a b
    by (rule turn_chase [OF assms(1) Suc.prems(2) e len(1,2) i assms(2) t that])
  have i': "?i + 1 < n" using i assms(2) by simp
  have "similar n T0 (chase m (?i + 1) st) (columns_of st)" "orthonormal n (columns_of st)"
    using Suc.prems(1) by (simp_all add: keeps_def)
  then have "similar n T0 (chase m ?i st1) (columns_of st1)" "orthonormal n (columns_of st1)"
    using similar_cong [OF similar_rot [OF _ sc(1) i'] c] orthonormal_cong [OF orthonormal_rot [OF _ sc(1) i']] zf
    by (auto simp: fun_eq_iff)
  then have k1: "keeps n T0 (chase m ?i st1) st1"
    using d1 e1 len unfolding keeps_def z1 by auto
  have e2: "\<forall>j. l \<le> j \<and> j < ?i \<longrightarrow> qe st1 ! j \<noteq> 0" using e1 Suc.prems(3) by auto
  have "?i \<le> m" using i by simp
  from Suc.IH [OF k1 sc(2) e2 this] obtain st' where st': "chase_t pythag l k st1 = (st', None)"
    "keeps n T0 (chase m l st') st'" "\<forall>j. j < l \<or> m < j \<longrightarrow> qe st' ! j = qe st1 ! j" by blast
  moreover have "\<forall>j. j < l \<or> m < j \<longrightarrow> qe st1 ! j = qe st ! j" using e1 i by auto
  ultimately show ?case using t by (intro exI [of _ st']) auto
qed simp

lemma sweep_keeps:
  fixes st :: "('v :: linordered_field) ql"
  assumes "exact pythag" and k: "keeps n T0 (tri (qd st) (qe st)) st" and lm: "l < m" "m < n"
    and ne: "\<forall>j. l \<le> j \<and> j < m \<longrightarrow> qe st ! j \<noteq> 0" and z: "qe st ! m = 0" "\<forall>j<l. qe st ! j = 0" "qe st ! (n - 1) = 0"
  shows "keeps n T0 (tri (qd (sweep_t pythag l m st)) (qe (sweep_t pythag l m st))) (sweep_t pythag l m st) \<and>
    (\<forall>j<l. qe (sweep_t pythag l m st) ! j = 0) \<and> qe (sweep_t pythag l m st) ! (n - 1) = 0"
proof -
  let ?st0 = "st\<lparr>qs := 1, qc := 1, qp := 0, qg := shift_t pythag l m st\<rparr>"
  have len: "n \<le> length (qd st)" "n \<le> length (qe st)" using k by (simp_all add: keeps_def)
  have "chase m (l + (m - l)) ?st0 a b = tri (qd st) (qe st) a b" for a b
    using lm z(1) by (auto simp: chase_def chase_off_def tri_def)
  then have "keeps n T0 (chase m (l + (m - l)) ?st0) ?st0"
    using k similar_cong [of n T0 "tri (qd st) (qe st)"] by (auto simp: keeps_def)
  then obtain st1 where st1: "chase_t pythag l (m - l) ?st0 = (st1, None)" "keeps n T0 (chase m l st1) st1"
      "\<forall>j. j < l \<or> m < j \<longrightarrow> qe st1 ! j = qe st ! j"
    using chase_loop [OF assms(1) lm(2), of T0 l "m - l" ?st0] ne lm by auto
  let ?st2 = "st1\<lparr>qd := (qd st1)[l := qd st1 ! l - qp st1], qe := (qe st1)[l := qg st1, m := 0]\<rparr>"
  have s: "sweep_t pythag l m st = ?st2" using st1(1) by (simp add: sweep_t_def after_chase_def)
  have l1: "n \<le> length (qd st1)" "n \<le> length (qe st1)" using st1(2) by (simp_all add: keeps_def)
  have e: "qe st1 ! j = 0" if "j < l" for j using st1(3) z(2) that by simp
  have "tri (qd ?st2) (qe ?st2) a b = chase m l st1 a b" if "a < n" "b < n" for a b
    using lm l1 e that by (auto simp: chase_def chase_off_def tri_def nth_list_update)
  then have "keeps n T0 (tri (qd ?st2) (qe ?st2)) ?st2"
    using st1(2) similar_cong [of n T0 "chase m l st1"] by (auto simp: keeps_def)
  moreover have "\<forall>j<l. qe ?st2 ! j = 0" using e lm by simp
  moreover have "qe ?st2 ! (n - 1) = 0" using st1(3) z(3) lm l1 by (cases "m = n - 1") (auto simp: nth_list_update)
  ultimately show ?thesis unfolding s by blast
qed

lemma negligible_exact: "negligible d e m \<longleftrightarrow> e ! m = 0" for d :: "'v :: linordered_field list"
  by (simp add: negligible_def Let_def)

lemma small_from_stops:
  "small_from d e k l = m \<Longrightarrow> (m < l + k \<longrightarrow> negligible d e m) \<and> (\<forall>j. l \<le> j \<and> j < m \<longrightarrow> \<not> negligible d e j)"
proof (induction k arbitrary: l)
  case (Suc k)
  show ?case
  proof (cases "negligible d e l")
    case True
    then show ?thesis using Suc.prems by auto
  next
    case False
    then have "small_from d e k (l + 1) = m" using Suc.prems by simp
    from Suc.IH [OF this] have n: "m < l + 1 + k \<longrightarrow> negligible d e m" "\<forall>j. l + 1 \<le> j \<and> j < m \<longrightarrow> \<not> negligible d e j" by auto
    have "\<not> negligible d e j" if "l \<le> j" "j < m" for j using n(2) False that by (cases "j = l") auto
    with n(1) show ?thesis by simp
  qed
qed auto

text \<open>What holds before the eigenvalue \<open>l\<close> is looked for: those before it are decoupled.\<close>

definition decoupled :: "nat \<Rightarrow> nat \<Rightarrow> (nat \<Rightarrow> nat \<Rightarrow> 'v) \<Rightarrow> ('v :: comm_ring_1) ql \<Rightarrow> bool" where
  "decoupled n l T0 st \<longleftrightarrow> keeps n T0 (tri (qd st) (qe st)) st \<and> (\<forall>j<l. qe st ! j = 0) \<and> qe st ! (n - 1) = 0"

lemma split_found:
  fixes st :: "('v :: linordered_field) ql"
  assumes "decoupled n l T0 st" and "l < n" and m: "small_from (qd st) (qe st) (n - 1 - l) l = m"
  shows "l \<le> m \<and> m < n \<and> qe st ! m = 0 \<and> (\<forall>j. l \<le> j \<and> j < m \<longrightarrow> qe st ! j \<noteq> 0)"
proof -
  have b: "l \<le> m" "m \<le> n - 1" using small_from_bounds [of l "qd st" "qe st" "n - 1 - l"] assms by auto
  have "qe st ! m = 0"
  proof (cases "m < n - 1")
    case True
    then show ?thesis using small_from_stops [OF m] assms(2) by (simp add: negligible_exact)
  next
    case False
    then have "m = n - 1" using b(2) by simp
    then show ?thesis using assms(1) by (simp add: decoupled_def)
  qed
  then show ?thesis using b small_from_stops [OF m] assms(2) by (simp add: negligible_exact)
qed

lemma value_keeps:
  fixes st :: "('v :: linordered_field) ql"
  assumes "exact pythag" and "l < n"
  shows "decoupled n l T0 st \<Longrightarrow> value_t pythag (n - 1) l k st = (st', ok) \<Longrightarrow>
    decoupled n l T0 st' \<and> (ok \<longrightarrow> qe st' ! l = 0)"
proof (induction k arbitrary: st)
  case 0
  then show ?case using split_found [OF 0(1) assms(2)] by auto
next
  case (Suc k)
  define m where "m = small_from (qd st) (qe st) (n - 1 - l) l"
  note m = split_found [OF Suc.prems(1) assms(2) m_def [symmetric]]
  have v: "value_t pythag (n - 1) l (Suc k) st =
      (if m = l then (st, True) else value_t pythag (n - 1) l k (sweep_t pythag l m st))"
    by (simp add: Let_def m_def)
  show ?case
  proof (cases "m = l")
    case True
    then show ?thesis using Suc.prems m v by auto
  next
    case False
    then have "value_t pythag (n - 1) l k (sweep_t pythag l m st) = (st', ok)"
      using Suc.prems(2) v by simp
    moreover have "decoupled n l T0 (sweep_t pythag l m st)"
      using sweep_keeps [OF assms(1), of n T0 st l m] Suc.prems(1) m False by (simp add: decoupled_def)
    ultimately show ?thesis by (intro Suc.IH)
  qed
qed

lemma values_keep:
  fixes st :: "('v :: linordered_field) ql"
  assumes "exact pythag"
  shows "decoupled n l T0 st \<Longrightarrow> l + k \<le> n \<Longrightarrow> ql2_t pythag (n - 1) k l st = (st', x) \<Longrightarrow>
    (case x of None \<Rightarrow> decoupled n (l + k) T0 st' | Some l' \<Rightarrow> decoupled n l' T0 st')"
proof (induction k arbitrary: l st)
  case (Suc k)
  obtain st1 ok where v: "value_t pythag (n - 1) l 30 st = (st1, ok)" by fastforce
  from value_keeps [OF assms _ Suc.prems(1) v] Suc.prems(2)
  have d: "decoupled n l T0 st1" "ok \<longrightarrow> qe st1 ! l = 0" by auto
  show ?case
  proof (cases ok)
    case True
    then have "decoupled n (l + 1) T0 st1" using d by (auto simp: decoupled_def less_Suc_eq)
    moreover have "ql2_t pythag (n - 1) k (l + 1) st1 = (st', x)" using Suc.prems(3) v True by simp
    ultimately show ?thesis using Suc.IH [of "l + 1" st1] Suc.prems(2) by (cases x) simp_all
  next
    case False
    then show ?thesis using Suc.prems(3) v d by auto
  qed
qed auto

section \<open>Eigenvalues and eigenvectors\<close>

text \<open>The symmetric tridiagonal matrix that the arguments stand for; \<^verbatim>\<open>e[0]\<close> is not used.\<close>

definition band_matrix :: "'v list \<Rightarrow> 'v list \<Rightarrow> nat \<Rightarrow> nat \<Rightarrow> 'v :: zero" where
  "band_matrix d e a b = (if a = b then d ! a else if b = a + 1 then e ! b else if a = b + 1 then e ! a else 0)"

definition eigenpair :: "nat \<Rightarrow> (nat \<Rightarrow> nat \<Rightarrow> 'v) \<Rightarrow> 'v \<Rightarrow> (nat \<Rightarrow> 'v :: comm_ring_1) \<Rightarrow> bool" where
  "eigenpair n T x v \<longleftrightarrow> (\<forall>k<n. (\<Sum>r<n. T k r * v r) = x * v k)"

definition identity_rows :: "nat \<Rightarrow> ('v :: {zero, one}) list list \<Rightarrow> bool" where
  "identity_rows n z \<longleftrightarrow> length z = n \<and> (\<forall>x\<in>set z. n \<le> length x) \<and> (\<forall>k<n. \<forall>j<n. z ! k ! j = (if k = j then 1 else 0))"

lemma sum_delta_left: "k < n \<Longrightarrow> (\<Sum>r<n. (if k = r then 1 else 0) * f r) = f k" for f :: "nat \<Rightarrow> 'v :: comm_ring_1"
  by (simp add: if_distrib [of "\<lambda>x. x * _"] sum.delta' cong: if_cong)

lemma sum_delta_right: "j < n \<Longrightarrow> (\<Sum>r<n. f r * (if r = j then 1 else 0)) = f j" for f :: "nat \<Rightarrow> 'v :: comm_ring_1"
  by (simp add: if_distrib [of "\<lambda>x. _ * x"] sum.delta cong: if_cong)

lemma start_decoupled:
  fixes d :: "('v :: linordered_field) list"
  assumes "0 < n" and "n \<le> length d" and "n \<le> length e" and "identity_rows n z"
  shows "decoupled n 0 (band_matrix d e) (ql_start n d e z)"
proof -
  have sd: "shift_down n e ! j = (if j + 1 = n then 0 else e ! (j + 1))" if "j < n" for j
    using assms(1,3) that by (cases e) (auto simp: shift_down_def nth_append nth_tl)
  have l: "n \<le> length (shift_down n e)" using assms(1,3) by (simp add: shift_down_def)
  have t: "tri d (shift_down n e) a b = band_matrix d e a b" if "a < n" "b < n" for a b
    using that by (auto simp: tri_def band_matrix_def sd)
  have I: "z ! k ! j = (if k = j then 1 else 0)" if "k < n" "j < n" for k j
    using assms(4) that by (simp add: identity_rows_def)
  have "similar n (band_matrix d e) (tri d (shift_down n e)) (\<lambda>k j. z ! k ! j)"
    unfolding similar_def
  proof (intro allI impI)
    fix k j assume k: "k < n" and j: "j < n"
    have "(\<Sum>r<n. band_matrix d e k r * z ! r ! j) = (\<Sum>r<n. band_matrix d e k r * (if r = j then 1 else 0))"
      using I j by (intro sum.cong) auto
    also have "\<dots> = band_matrix d e k j" using j by (rule sum_delta_right)
    also have "\<dots> = tri d (shift_down n e) k j" using t k j by simp
    also have "\<dots> = (\<Sum>r<n. (if k = r then 1 else 0) * tri d (shift_down n e) r j)" using k by (rule sum_delta_left [symmetric])
    also have "\<dots> = (\<Sum>r<n. z ! k ! r * tri d (shift_down n e) r j)" using I k by (intro sum.cong) auto
    finally show "(\<Sum>r<n. band_matrix d e k r * z ! r ! j) = (\<Sum>r<n. z ! k ! r * tri d (shift_down n e) r j)" .
  qed
  moreover have "orthonormal n (\<lambda>k j. z ! k ! j)"
    unfolding orthonormal_def
  proof (intro allI impI)
    fix a b assume a: "a < n" and b: "b < n"
    have "(\<Sum>k<n. z ! k ! a * z ! k ! b) = (\<Sum>k<n. (if a = k then 1 else 0) * z ! k ! b)"
      using I a by (intro sum.cong) auto
    also have "\<dots> = z ! a ! b" using a by (rule sum_delta_left)
    finally show "(\<Sum>k<n. z ! k ! a * z ! k ! b) = (if a = b then 1 else 0)" using I a b by simp
  qed
  ultimately show ?thesis
    using assms l sd [of "n - 1"] by (simp add: decoupled_def keeps_def ql_start_def identity_rows_def)
qed

lemma decoupled_eigenpairs:
  assumes "decoupled n l T0 st" and "j < l" and "j < n"
  shows "eigenpair n T0 (qd st ! j) (\<lambda>k. qz st ! k ! j)"
  unfolding eigenpair_def
proof (intro allI impI)
  fix k assume k: "k < n"
  have "(\<Sum>r<n. T0 k r * qz st ! r ! j) = (\<Sum>r<n. qz st ! k ! r * tri (qd st) (qe st) r j)"
    using assms k by (simp add: decoupled_def keeps_def similar_def)
  also have "\<dots> = (\<Sum>r<n. if r = j then qz st ! k ! j * qd st ! j else 0)"
  proof (intro sum.cong refl)
    fix r assume "r \<in> {..<n}"
    have "qe st ! j = 0" "j = r + 1 \<Longrightarrow> qe st ! r = 0" using assms(1,2) by (simp_all add: decoupled_def)
    then show "qz st ! k ! r * tri (qd st) (qe st) r j = (if r = j then qz st ! k ! j * qd st ! j else 0)"
      by (auto simp: tri_def)
  qed
  also have "\<dots> = qd st ! j * qz st ! k ! j" using assms(3) by (simp add: mult.commute)
  finally show "(\<Sum>r<n. T0 k r * qz st ! r ! j) = qd st ! j * qz st ! k ! j" .
qed

lemma rearranged_orthonormal:
  assumes "rearranged n \<sigma> (d, z) (d', z')" and "n \<le> length z" and "orthonormal n (\<lambda>k j. z ! k ! j)"
  shows "orthonormal n (\<lambda>k j. z' ! k ! j)"
  unfolding orthonormal_def
proof (intro allI impI)
  fix a b assume a: "a < n" and b: "b < n"
  have s: "\<sigma> a < n" "\<sigma> b < n" "\<sigma> a = \<sigma> b \<longleftrightarrow> a = b"
    using assms(1) a b by (auto simp: rearranged_def bij_betw_def inj_on_def)
  have "(\<Sum>k<n. z' ! k ! a * z' ! k ! b) = (\<Sum>k<n. z ! k ! \<sigma> a * z ! k ! \<sigma> b)"
    using assms(1,2) a b by (intro sum.cong) (simp_all add: rearranged_def)
  also have "\<dots> = (if a = b then 1 else 0)" using assms(3) s by (simp add: orthonormal_def)
  finally show "(\<Sum>k<n. z' ! k ! a * z' ! k ! b) = (if a = b then 1 else 0)" .
qed

lemma rearranged_eigenpair:
  assumes "rearranged n \<sigma> (d, z) (d', z')" and "n \<le> length z" and "\<forall>j<n. eigenpair n T0 (d ! j) (\<lambda>k. z ! k ! j)" and "j < n"
  shows "eigenpair n T0 (d' ! j) (\<lambda>k. z' ! k ! j)"
proof -
  have "\<sigma> j < n" using assms(1,4) by (auto simp: rearranged_def bij_betw_def)
  then have "eigenpair n T0 (d ! \<sigma> j) (\<lambda>k. z ! k ! \<sigma> j)" using assms(3) by simp
  then show ?thesis using assms(1,2,4) by (simp add: eigenpair_def rearranged_def)
qed

lemma imtql2_t_eigenpairs:
  fixes d :: "('v :: linordered_field) list"
  assumes "exact pythag" and "0 < n" and "n \<le> length d" and "n \<le> length e" and "identity_rows n z"
  shows "\<exists>d' e' z' l err. imtql2_t pythag n d e z ierr = Some (d', e', z', err) \<and> orthonormal n (\<lambda>k j. z' ! k ! j) \<and>
    (\<forall>j<l. eigenpair n (band_matrix d e) (d' ! j) (\<lambda>k. z' ! k ! j)) \<and>
    (l = n \<and> sorted (take n d') \<and> err = (if n = 1 then ierr else 0) \<or>
     l < n \<and> err = int l \<and> (l = 0 \<longrightarrow> \<not> snd (value_t pythag (n - 1) 0 30 (ql_start n d e z))))"
proof -
  have dc: "decoupled n 0 (band_matrix d e) (ql_start n d e z)" by (rule start_decoupled [OF assms(2-5)])
  show ?thesis
  proof (cases "n = 1")
    case True
    have "decoupled n n (band_matrix d e) (ql_start n d e z)" using dc True by (simp add: decoupled_def)
    then have "\<forall>j<n. eigenpair n (band_matrix d e) (d ! j) (\<lambda>k. z ! k ! j)"
      using decoupled_eigenpairs [of n n "band_matrix d e" "ql_start n d e z"] by (simp add: ql_start_def)
    moreover have "orthonormal n (\<lambda>k j. z ! k ! j)" using dc by (simp add: decoupled_def keeps_def ql_start_def)
    moreover have "sorted (take n d)" using True by (cases d) simp_all
    ultimately show ?thesis using True by (auto simp: imtql2_t_def ql2_end_def)
  next
    case False
    obtain B x where B: "ql2_t pythag (n - 1) n 0 (ql_start n d e z) = (B, x)" by fastforce
    have g: "\<not> (n = 0 \<or> length d < n \<or> length e < n \<or> (\<exists>x\<in>set z. length x < n))"
      using assms(2-5) by (auto simp: identity_rows_def)
    note k = values_keep [OF assms(1) dc _ B]
    show ?thesis
    proof (cases x)
      case (Some l)
      then have d: "decoupled n l (band_matrix d e) B" "l < n" "l = 0 \<longrightarrow> \<not> snd (value_t pythag (n - 1) 0 30 (ql_start n d e z))"
        using k values_fail [of pythag "n - 1" n 0 _ B l] B by auto
      have "imtql2_t pythag n d e z ierr = Some (qd B, qe B, qz B, int l)"
        using False g B Some by (simp add: imtql2_t_def ql2_end_def)
      moreover have "orthonormal n (\<lambda>k j. qz B ! k ! j)" using d by (simp add: decoupled_def keeps_def)
      moreover have "\<forall>j<l. eigenpair n (band_matrix d e) (qd B ! j) (\<lambda>k. qz B ! k ! j)"
        using decoupled_eigenpairs [OF d(1)] d(2) by simp
      ultimately show ?thesis using d(2,3) by auto
    next
      case None
      then have d: "decoupled n n (band_matrix d e) B" using k by simp
      then have l: "n \<le> length (qd B)" "\<forall>x\<in>set (qz B). n \<le> length x" "n \<le> length (qz B)" "orthonormal n (\<lambda>k j. qz B ! k ! j)"
        by (simp_all add: decoupled_def keeps_def)
      obtain \<sigma> d' z' where s: "fold (select_at n) [0..<n - 1] (qd B, qz B) = (d', z')" "rearranged n \<sigma> (qd B, qz B) (d', z')"
        "\<forall>x y. x < y \<longrightarrow> x < n - 1 \<longrightarrow> y < n \<longrightarrow> d' ! x \<le> d' ! y"
        using selects [OF l(1,2), of "n - 1"] by auto
      have "imtql2_t pythag n d e z ierr = Some (d', qe B, z', 0)"
        using False g B None s(1) by (simp add: imtql2_t_def ql2_end_def)
      moreover have "\<forall>j<n. eigenpair n (band_matrix d e) (d' ! j) (\<lambda>k. z' ! k ! j)"
        using rearranged_eigenpair [OF s(2) l(3)] decoupled_eigenpairs [OF d] by blast
      moreover have "sorted (take n d')" using s(3) by (auto simp: sorted_iff_nth_mono_less)
      moreover have "orthonormal n (\<lambda>k j. z' ! k ! j)" by (rule rearranged_orthonormal [OF s(2) l(3,4)])
      ultimately show ?thesis using False by auto
    qed
  qed
qed

definition exact_pythag :: "('v \<Rightarrow> 'v \<Rightarrow> ('v :: linordered_field) option) \<Rightarrow> bool" where
  "exact_pythag P \<longleftrightarrow> (\<forall>a b. \<exists>r. P a b = Some r \<and> r * r = a * a + b * b)"

lemma exact_pythagD: "exact_pythag P \<Longrightarrow> exact (some_pythag P) \<and> pythag_returns P"
proof -
  assume P: "exact_pythag P"
  have "P a b = Some (some_pythag P a b) \<and> some_pythag P a b * some_pythag P a b = a * a + b * b" for a b
  proof -
    obtain r where "P a b = Some r" "r * r = a * a + b * b" using P unfolding exact_pythag_def by blast
    then show ?thesis by (simp add: some_pythag_def)
  qed
  then show ?thesis by (simp add: exact_def pythag_returns_def)
qed

text \<open>
  C5: In exact arithmetic \<^verbatim>\<open>imtql2\<close> decomposes its matrix: the columns of \<^verbatim>\<open>z\<close> are orthonormal, and
  the first \<open>l\<close> of them are eigenvectors for the first \<open>l\<close> numbers of \<^verbatim>\<open>d\<close>. Either \<open>l\<close> is \<open>n\<close> and
  the numbers ascend, or the iterations for the eigenvalue \<open>l\<close> did not converge and \<^verbatim>\<open>ierr\<close> is \<open>l\<close>;
  for the first eigenvalue that is the 0 of success. \<^verbatim>\<open>svd_pythag\<close> is taken to be exact.
\<close>

theorem imtql2_eigenpairs:
  fixes d :: "('v :: linordered_field) list"
  assumes "exact_pythag P" and "0 < n" and "n \<le> length d" and "n \<le> length e" and "identity_rows n z"
  shows "\<exists>d' e' z' l err. imtql2 P n d e z ierr = Some (Some (d', e', z', err)) \<and> orthonormal n (\<lambda>k j. z' ! k ! j) \<and>
    (\<forall>j<l. eigenpair n (band_matrix d e) (d' ! j) (\<lambda>k. z' ! k ! j)) \<and>
    (l = n \<and> sorted (take n d') \<and> err = (if n = 1 then ierr else 0) \<or>
     l < n \<and> err = int l \<and> (l = 0 \<longrightarrow> (\<exists>st. ql_value P (n - 1) 0 30 (ql_start n d e z) = Some (st, False))))"
proof -
  from exact_pythagD [OF assms(1)] have P: "exact (some_pythag P)" "pythag_returns P" by simp_all
  have v: "\<not> snd x \<longleftrightarrow> (\<exists>st. Some x = Some (st, False))" for x :: "'v ql \<times> bool" by (cases x) auto
  show ?thesis
    using imtql2_t_eigenpairs [OF P(1) assms(2-5), of ierr]
    unfolding routines_return [OF P(2)] v option.inject .
qed

definition hypot :: "real \<Rightarrow> real \<Rightarrow> real" where
  "hypot a b = sqrt (a * a + b * b)"

definition hypot_P :: "real \<Rightarrow> real \<Rightarrow> real option" where
  "hypot_P a b = Some (hypot a b)"

lemma hypot_exact: "exact hypot"
  by (simp add: exact_def hypot_def)

lemma hypot_P_exact: "exact_pythag hypot_P"
  by (simp add: exact_pythag_def hypot_P_def hypot_def)

lemma some_hypot: "some_pythag hypot_P = hypot"
  by (intro ext) (simp add: some_pythag_def hypot_P_def)

lemma hypots: "hypot (7 / 24) 1 = 25 / 24" "hypot 12 16 = 20"
proof -
  have "(25 / 24) ^ 2 = 7 / 24 * (7 / 24) + 1 * (1 :: real)" "20 ^ 2 = 12 * 12 + 16 * (16 :: real)"
    by (simp_all add: power2_eq_square)
  then show "hypot (7 / 24) 1 = 25 / 24" "hypot 12 16 = 20" unfolding hypot_def by (simp_all add: real_sqrt_unique)
qed

lemma example_sweep:
  "sweep_t hypot 0 1 (ql_start 2 [9, 16] [0, 12] [[1, 0], [0, 1]]) =
    \<lparr>qd = [0, 25], qe = [0, 0], qz = [[4 / 5, 3 / 5], [- 3 / 5, 4 / 5]], qs = 3 / 5, qc = 4 / 5, qp = 9, qg = 0\<rparr>"
  by (simp add: sweep_t_def after_chase_def shift_t_def shift_with_def shift_base_def ql_start_def shift_down_def turn_t_def turn_with_def Let_def hypots svd_fsign_def rot_row_def)

lemma example_value:
  "value_t hypot 1 0 30 (ql_start 2 [9, 16] [0, 12] [[1, 0], [0, 1]]) =
    (\<lparr>qd = [0, 25], qe = [0, 0], qz = [[4 / 5, 3 / 5], [- 3 / 5, 4 / 5]], qs = 3 / 5, qc = 4 / 5, qp = 9, qg = 0\<rparr>, True)"
proof -
  let ?S = "ql_start 2 [9, 16] [0, 12] [[1, 0], [0, 1 :: real]]"
  have "small_from (qd ?S) (qe ?S) (1 - 0) 0 = 1"
    by (simp add: ql_start_def shift_down_def negligible_def)
  then have "value_t hypot 1 0 (Suc (Suc 28)) ?S = value_t hypot 1 0 (Suc 28) (sweep_t hypot 0 1 ?S)"
    by (subst value_t.simps(2)) (simp only: Let_def if_False one_neq_zero)
  then show ?thesis unfolding example_sweep by (simp add: negligible_def Let_def eval_nat_numeral)
qed

theorem imtql2_eigenpairs_witness:
  "\<exists>z'. imtql2 hypot_P 2 [9, 16] [0, 12] [[1, 0], [0, 1]] 0 = Some (Some ([0, 25], [0, 0], z', 0)) \<and>
    orthonormal 2 (\<lambda>k j. z' ! k ! j) \<and>
    (\<forall>j<2. eigenpair 2 (band_matrix [9, 16] [0, 12]) ([0, 25] ! j) (\<lambda>k. z' ! k ! j))"
proof -
  let ?z = "[[1, 0], [0, 1 :: real]]"
  note rt = routines_return [OF exact_pythagD [OF hypot_P_exact, THEN conjunct2], unfolded some_hypot]
  have i: "identity_rows 2 ?z" by (auto simp: identity_rows_def less_Suc_eq numeral_2_eq_2)
  have v: "\<not> (\<exists>st. ql_value hypot_P (2 - 1) 0 30 (ql_start 2 [9, 16] [0, 12] ?z) = Some (st, False))"
    using example_value by (simp add: rt)
  have "ql2_t hypot 1 2 0 (ql_start 2 [9, 16] [0, 12] ?z) =
      (\<lparr>qd = [0, 25], qe = [0, 0], qz = [[4 / 5, 3 / 5], [- 3 / 5, 4 / 5]], qs = 3 / 5, qc = 4 / 5, qp = 9, qg = 0\<rparr>, None)"
    using example_value by (simp add: numeral_2_eq_2 eval_nat_numeral Let_def)
  then have r: "imtql2 hypot_P 2 [9, 16] [0, 12] ?z 0 = Some (Some ([0, 25], [0, 0], [[4 / 5, 3 / 5], [- 3 / 5, 4 / 5]], 0))"
    by (simp add: rt imtql2_t_def ql2_end_def select_at_def Let_def)
  from imtql2_eigenpairs [OF hypot_P_exact _ _ _ i, of "[9, 16]" "[0, 12]" 0] v r
  show ?thesis by auto
qed

end
