(* ===== verification/Las2.thy ===== *)
theory Las2
  imports SvdProducts SvdFiles SvdEigen "HOL-Library.Signed_Division"
begin

text \<open>
  The singular value decomposition of \<^verbatim>\<open>c/SVDLIBC/las2.c\<close>: the Lanczos iteration with selective
  reorthogonalisation, the analysis of the tridiagonal matrix it builds, and the singular vectors.
  The arithmetic is the one of the element type, without laws in the definitions. An access
  outside an array is \<open>Undef\<close>; messages are calls.
\<close>

section \<open>The state\<close>

text \<open>
  What the functions get from outside: the precision that \<^verbatim>\<open>machar\<close> finds, the square root,
  \<^verbatim>\<open>svd_pythag\<close>, \<^verbatim>\<open>svd_random2\<close>, the double of an integer, the double of bytes 127, fresh
  memory, the formats \<^verbatim>\<open>%g\<close> and \<^verbatim>\<open>%w.pE\<close>, the text of the density, what an
  uninitialised \<^verbatim>\<open>long\<close> holds, and the \<^verbatim>\<open>ierr\<close> of an earlier call.

  The two routines of \<^verbatim>\<open>svdutil.c\<close> are modelled in \<open>SvdUtil\<close>, with doubles that are real numbers. Here
  they are arguments, because they depend on what a number and a \<^verbatim>\<open>long\<close> is: \<^verbatim>\<open>svd_pythag\<close> is
  \<open>None\<close> where its loop never ends, as it does on NaN, and \<^verbatim>\<open>svd_random2\<close> is \<open>None\<close> where the
  product of \<^verbatim>\<open>long\<close>s overflows, as it does from the second call on when they have 64 bits.
\<close>

record 'v lasenv =
  l_eps :: 'v
  l_sqrt :: "'v \<Rightarrow> 'v"
  l_pythag :: "'v \<Rightarrow> 'v \<Rightarrow> 'v option"
  l_random :: "int \<Rightarrow> ('v \<times> int) option"
  l_real :: "nat \<Rightarrow> 'v"
  l_huge :: 'v
  l_heap :: "'v heap"
  l_fmt :: "'v numfmt"
  l_exp :: "nat \<Rightarrow> nat \<Rightarrow> 'v \<Rightarrow> string"
  l_density :: "'v smat \<Rightarrow> string"
  l_junk :: int
  l_ierr :: int

definition l_reps :: "'v lasenv \<Rightarrow> 'v" where
  "l_reps E = l_sqrt E (l_eps E)"

definition l_eps1 :: "('v :: times) lasenv \<Rightarrow> nat \<Rightarrow> 'v" where
  "l_eps1 E n = l_eps E * l_sqrt E (l_real E n)"

definition l_eps34 :: "('v :: times) lasenv \<Rightarrow> 'v" where
  "l_eps34 E = l_reps E * l_sqrt E (l_reps E)"

text \<open>
  The vectors \<^verbatim>\<open>wptr[0]\<close> to \<^verbatim>\<open>wptr[5]\<close>, the arrays \<^verbatim>\<open>wptr[6]\<close> to \<^verbatim>\<open>wptr[9]\<close> by their names,
  the Ritz values and their bounds, and the global variables.
\<close>

record 'v las =
  w0 :: "'v list"
  w1 :: "'v list"
  w2 :: "'v list"
  w3 :: "'v list"
  w4 :: "'v list"
  w5 :: "'v list"
  alf :: "'v list"
  eta :: "'v list"
  oldeta :: "'v list"
  bet :: "'v list"
  ritz :: "'v list"
  rbnd :: "'v list"
  lanstore :: "'v list option list"
  opbtemp :: "'v list"
  lerr :: int
  mxv :: nat

definition avail :: "'a option \<Rightarrow> ('a \<Rightarrow> 'b io) \<Rightarrow> 'b io" where
  "avail m f = (case m of None \<Rightarrow> Undef | Some x \<Rightarrow> f x)"

text \<open>A call that may never return.\<close>

definition upon :: "'a option option \<Rightarrow> ('a \<Rightarrow> 'b io) \<Rightarrow> 'b io" where
  "upon m f = (case m of None \<Rightarrow> Cut | Some x \<Rightarrow> avail x f)"

definition put_at :: "nat \<Rightarrow> 'a \<Rightarrow> 'a list \<Rightarrow> 'a list option" where
  "put_at i v xs = (if i < length xs then Some (xs[i := v]) else None)"

section \<open>The Lanczos vectors\<close>

datatype isw = STORQ | RETRQ | STORP | RETRP

definition MAXLL :: nat where
  "MAXLL = 2"

definition put_stored :: "'v heap \<Rightarrow> nat \<Rightarrow> nat \<Rightarrow> 'v list \<Rightarrow> 'v list option list \<Rightarrow> 'v list option list option" where
  "put_stored h n j s L =
     (if length L \<le> j then None
      else map_option (\<lambda>v. L[j := Some v])
        (svd_dcopy (int n) s 1 (case L ! j of None \<Rightarrow> map (wild_value h) [0..<n] | Some v \<Rightarrow> v) 1))"

definition get_stored :: "string \<Rightarrow> nat \<Rightarrow> nat \<Rightarrow> 'v list \<Rightarrow> 'v list option list \<Rightarrow> 'v list io" where
  "get_stored what n j s L =
     (if length L \<le> j then Undef
      else case L ! j of
        None \<Rightarrow> svd_fatalError (''svdLAS2: store ('' @ what @ '') called on index '' @ nat_str j @ '' (not allocated)'')
      | Some v \<Rightarrow> avail (svd_dcopy (int n) v 1 s 1) Ret)"

primrec las_store :: "'v lasenv \<Rightarrow> nat \<Rightarrow> isw \<Rightarrow> nat \<Rightarrow> 'v list \<Rightarrow> 'v las \<Rightarrow> ('v list \<times> 'v las) io" where
  "las_store E n STORQ = (\<lambda>j s st.
     avail (put_stored (l_heap E) n (j + MAXLL) s (lanstore st)) (\<lambda>L. Ret (s, st\<lparr>lanstore := L\<rparr>)))"
| "las_store E n RETRQ = (\<lambda>j s st. io_bind (get_stored ''RETRQ'' n (j + MAXLL) s (lanstore st)) (\<lambda>s'. Ret (s', st)))"
| "las_store E n STORP = (\<lambda>j s st.
     if MAXLL \<le> j then io_bind (svd_error ''svdLAS2: store (STORP) called with j >= MAXLL'') (\<lambda>_. Ret (s, st))
     else avail (put_stored (l_heap E) n j s (lanstore st)) (\<lambda>L. Ret (s, st\<lparr>lanstore := L\<rparr>)))"
| "las_store E n RETRP = (\<lambda>j s st.
     if MAXLL \<le> j then io_bind (svd_error ''svdLAS2: store (RETRP) called with j >= MAXLL'') (\<lambda>_. Ret (s, st))
     else io_bind (get_stored ''RETRP'' n j s (lanstore st)) (\<lambda>s'. Ret (s', st)))"

text \<open>\<^verbatim>\<open>svd_opb(A, wptr[3], wptr[0], OPBTemp)\<close>.\<close>

definition las_opb :: "('v :: {zero, plus, times}) smat \<Rightarrow> 'v las \<Rightarrow> 'v las option" where
  "las_opb A st =
     map_option (\<lambda>(m, y, t). st\<lparr>w0 := y, opbtemp := t, mxv := m\<rparr>) (svd_opb A (w3 st) (w0 st) (opbtemp st) (mxv st))"

section \<open>Starting vectors\<close>

primrec fill_random :: "(int \<Rightarrow> ('v \<times> int) option) \<Rightarrow> nat \<Rightarrow> nat \<Rightarrow> int \<Rightarrow> 'v list \<Rightarrow> ('v list \<times> int) option" where
  "fill_random rnd 0 i irand r = Some (r, irand)"
| "fill_random rnd (Suc k) i irand r =
     (case rnd irand of
        None \<Rightarrow> None
      | Some (x, irand') \<Rightarrow> if length r \<le> i then None else fill_random rnd k (i + 1) irand' (r[i := x]))"

text \<open>At most \<open>k\<close> tries more, the next is number \<open>id'\<close>.\<close>

primrec start_tries ::
  "'v lasenv \<Rightarrow> ('v :: {zero, ord, plus, times}) smat \<Rightarrow> nat \<Rightarrow> nat \<Rightarrow> nat \<Rightarrow> nat \<Rightarrow> 'v \<Rightarrow> int \<Rightarrow> 'v las \<Rightarrow> ('v \<times> 'v las) io"
where
  "start_tries E A n step 0 id' rnm2 irand st = Ret (rnm2, st)"
| "start_tries E A n step (Suc k) id' rnm2 irand st =
     avail (if id' > 0 \<or> step > 0 \<or> rnm2 = 0 then fill_random (l_random E) n 0 irand (w0 st) else Some (w0 st, irand))
       (\<lambda>(r, irand').
     avail (svd_dcopy (int n) r 1 (w3 st) 1) (\<lambda>p.
     avail (las_opb A (st\<lparr>w0 := r, w3 := p\<rparr>)) (\<lambda>st1.
     avail (svd_dcopy (int n) (w0 st1) 1 (w3 st1) 1) (\<lambda>p'.
     avail (svd_ddot (int n) (w0 st1) 1 p' 1) (\<lambda>d.
       if d > 0 then Ret (d, st1\<lparr>w3 := p'\<rparr>) else start_tries E A n step k (id' + 1) d irand' (st1\<lparr>w3 := p'\<rparr>))))))"

text \<open>The start is made orthogonal to the Lanczos vectors from the \<open>i\<close>-th, \<open>k\<close> of them.\<close>

primrec start_purge ::
  "'v lasenv \<Rightarrow> nat \<Rightarrow> nat \<Rightarrow> nat \<Rightarrow> ('v :: {zero, plus, uminus, times}) las \<Rightarrow> 'v las io"
where
  "start_purge E n 0 i st = Ret st"
| "start_purge E n (Suc k) i st =
     io_bind (las_store E n RETRQ i (w5 st) st) (\<lambda>(v, st1).
     avail (svd_ddot (int n) (w3 st1) 1 v 1) (\<lambda>t.
     avail (svd_daxpy (int n) (- t) v 1 (w0 st1) 1) (\<lambda>r.
       start_purge E n k (i + 1) (st1\<lparr>w5 := v, w0 := r\<rparr>))))"

definition startv ::
  "'v lasenv \<Rightarrow> ('v :: {zero, one, ord, plus, uminus, times}) smat \<Rightarrow> nat \<Rightarrow> nat \<Rightarrow> 'v las \<Rightarrow> ('v \<times> 'v las) io"
where
  "startv E A step n st =
     avail (svd_ddot (int n) (w0 st) 1 (w0 st) 1) (\<lambda>rnm2.
     io_bind (start_tries E A n step 3 0 rnm2 (918273 + int step) st) (\<lambda>(rnm2, st).
       if rnm2 \<le> 0 then Ret (- 1, st\<lparr>lerr := 8192\<rparr>)
       else if step > 0 then
         io_bind (start_purge E n step 0 st) (\<lambda>st.
         avail (svd_ddot (int n) (w4 st) 1 (w0 st) 1) (\<lambda>t.
         avail (svd_daxpy (int n) (- t) (w2 st) 1 (w0 st) 1) (\<lambda>r.
         avail (svd_dcopy (int n) r 1 (w3 st) 1) (\<lambda>p.
         avail (svd_ddot (int n) p 1 r 1) (\<lambda>t.
           Ret (l_sqrt E (if t \<le> l_eps E * rnm2 then 0 else t), st\<lparr>w0 := r, w3 := p\<rparr>))))))
       else Ret (l_sqrt E rnm2, st)))"

text \<open>The first step; \<open>None\<close> is the return that leaves the norm and the tolerance unset.\<close>

definition stpone ::
  "'v lasenv \<Rightarrow> ('v :: {zero, one, ord, plus, minus, uminus, times, inverse, abs}) smat \<Rightarrow> nat \<Rightarrow> 'v las \<Rightarrow>
    (('v \<times> 'v) option \<times> 'v las) io"
where
  "stpone E A n st =
     io_bind (startv E A 0 n st) (\<lambda>(rnm, st).
       if rnm = 0 \<or> lerr st \<noteq> 0 then Ret (None, st)
       else
         avail (svd_datx (int n) (1 / rnm) (w0 st) 1 (w1 st) 1) (\<lambda>q.
         avail (svd_dscal (int n) (1 / rnm) (w3 st) 1) (\<lambda>p.
         avail (las_opb A (st\<lparr>w1 := q, w3 := p\<rparr>)) (\<lambda>st.
         avail (svd_ddot (int n) (w0 st) 1 (w3 st) 1) (\<lambda>a.
         avail (svd_daxpy (int n) (- a) (w1 st) 1 (w0 st) 1) (\<lambda>r.
         avail (svd_ddot (int n) r 1 (w3 st) 1) (\<lambda>t.
         avail (svd_daxpy (int n) (- t) (w1 st) 1 r 1) (\<lambda>r.
         avail (put_at 0 (a + t) (alf st)) (\<lambda>al.
         avail (svd_dcopy (int n) r 1 (w4 st) 1) (\<lambda>p'.
         avail (svd_ddot (int n) r 1 p' 1) (\<lambda>d.
           let rnm = l_sqrt E d; anorm = rnm + \<bar>a + t\<bar> in
             Ret (Some (rnm, l_reps E * anorm), st\<lparr>w0 := r, alf := al, w4 := p'\<rparr>))))))))))))"

section \<open>Orthogonality\<close>

text \<open>The recurrence for \<^verbatim>\<open>oldeta[i]\<close>; for the first the neighbour before is left out.\<close>

definition eta_bound ::
  "'v \<Rightarrow> ('v :: {plus, minus, times, inverse}) list \<Rightarrow> 'v list \<Rightarrow> 'v list \<Rightarrow> 'v list \<Rightarrow> nat \<Rightarrow> 'v \<Rightarrow> nat \<Rightarrow> 'v"
where
  "eta_bound eps1 al et ol be step rnm i =
     (let up = be ! (i + 1) * et ! (i + 1) + (al ! i - al ! step) * et ! i in
      ((if i = 0 then up else up + be ! i * et ! (i - 1)) - be ! step * ol ! i) / rnm + eps1)"

definition ortbnd :: "'v \<Rightarrow> nat \<Rightarrow> ('v :: {zero, plus, minus, times, inverse}) \<Rightarrow> 'v las \<Rightarrow> 'v las option" where
  "ortbnd eps1 step rnm st =
     (if step < 1 then Some st
      else if length (alf st) \<le> step \<or> length (bet st) \<le> step \<or> length (eta st) \<le> step \<or> length (oldeta st) < step then None
      else
        let ol = (if rnm \<noteq> 0
                  then fold (\<lambda>i ol. ol[i := eta_bound eps1 (alf st) (eta st) ol (bet st) step rnm i])
                         [0..<step - 1] (oldeta st)
                  else oldeta st)
        in case svd_dswap (int step) (ol[step - 1 := eps1]) 1 (eta st) 1 of
             None \<Rightarrow> None
           | Some (ol', et') \<Rightarrow> Some (st\<lparr>oldeta := ol', eta := et'[step := eps1]\<rparr>))"

text \<open>One Lanczos vector after the other, \<open>k\<close> from the \<open>i\<close>-th, is taken out of \<^verbatim>\<open>q\<close> and \<^verbatim>\<open>r\<close>.\<close>

primrec purge_vectors ::
  "'v lasenv \<Rightarrow> nat \<Rightarrow> nat \<Rightarrow> nat \<Rightarrow> 'v \<Rightarrow> 'v \<Rightarrow> ('v :: {zero, plus, uminus, times, abs}) las \<Rightarrow> ('v \<times> 'v \<times> 'v las) io"
where
  "purge_vectors E n 0 i tq tr st = Ret (tq, tr, st)"
| "purge_vectors E n (Suc k) i tq tr st =
     io_bind (las_store E n RETRQ i (w5 st) st) (\<lambda>(v, st).
     avail (svd_ddot (int n) (w3 st) 1 v 1) (\<lambda>d.
     avail (svd_daxpy (int n) (- d) v 1 (w1 st) 1) (\<lambda>q.
     avail (svd_ddot (int n) (w4 st) 1 v 1) (\<lambda>d'.
     avail (svd_daxpy (int n) (- d') v 1 (w0 st) 1) (\<lambda>r.
       purge_vectors E n k (i + 1) (tq + \<bar>- d\<bar>) (tr + \<bar>- d'\<bar>) (st\<lparr>w5 := v, w1 := q, w0 := r\<rparr>))))))"

text \<open>The loop of at most \<open>k\<close> iterations more; the flag ends it.\<close>

primrec purge_loop ::
  "'v lasenv \<Rightarrow> nat \<Rightarrow> nat \<Rightarrow> nat \<Rightarrow> 'v \<Rightarrow> nat \<Rightarrow> 'v \<Rightarrow> ('v :: {zero, ord, plus, uminus, times, inverse, abs}) las \<Rightarrow> ('v \<times> 'v las) io"
where
  "purge_loop E n ll step tol 0 rnm st = Ret (rnm, st)"
| "purge_loop E n ll step tol (Suc k) rnm st =
     (if rnm > tol then
        io_bind (purge_vectors E n (step - ll) ll 0 0 st) (\<lambda>(tq, tr, st).
        avail (svd_dcopy (int n) (w1 st) 1 (w3 st) 1) (\<lambda>qa.
        avail (svd_ddot (int n) (w0 st) 1 qa 1) (\<lambda>d.
        avail (svd_daxpy (int n) (- d) (w1 st) 1 (w0 st) 1) (\<lambda>r.
        avail (svd_dcopy (int n) r 1 (w4 st) 1) (\<lambda>ra.
        avail (svd_ddot (int n) ra 1 r 1) (\<lambda>d2.
          let rnm = l_sqrt E d2;
              reps1 = l_eps1 E n / l_reps E;
              st = st\<lparr>w0 := r, w3 := qa, w4 := ra\<rparr>
          in if tq \<le> reps1 \<and> tr + \<bar>- d\<bar> \<le> reps1 * rnm then Ret (rnm, st)
             else purge_loop E n ll step tol k rnm st))))))
      else purge_loop E n ll step tol k rnm st)"

definition reset_from :: "nat \<Rightarrow> nat \<Rightarrow> 'v \<Rightarrow> 'v list \<Rightarrow> 'v list" where
  "reset_from a b v xs = take a xs @ replicate (b - a) v @ drop b xs"

definition purge ::
  "'v lasenv \<Rightarrow> nat \<Rightarrow> nat \<Rightarrow> nat \<Rightarrow> 'v \<Rightarrow> 'v \<Rightarrow> ('v :: {zero, ord, plus, uminus, times, inverse, abs}) las \<Rightarrow> ('v \<times> 'v las) io"
where
  "purge E n ll step rnm tol st =
     (if step < ll + 2 then Ret (rnm, st)
      else
        avail (svd_idamax (int (step - (ll + 1))) (drop ll (eta st)) 1) (\<lambda>k.
        avail (vget (eta st) (k + int ll)) (\<lambda>e.
          if \<bar>e\<bar> > l_reps E then
            io_bind (purge_loop E n ll step tol 2 rnm st) (\<lambda>(rnm, st).
              if length (eta st) \<le> step \<or> length (oldeta st) \<le> step then Undef
              else Ret (rnm, st\<lparr>eta := reset_from ll (step + 1) (l_eps1 E n) (eta st),
                                oldeta := reset_from ll (step + 1) (l_eps1 E n) (oldeta st)\<rparr>))
          else Ret (rnm, st))))"

section \<open>Lanczos steps\<close>

text \<open>Orthogonalisation against the first vectors, \<open>k\<close> of them from the \<open>i\<close>-th.\<close>

primrec first_vectors ::
  "'v lasenv \<Rightarrow> nat \<Rightarrow> nat \<Rightarrow> nat \<Rightarrow> ('v :: {zero, plus, uminus, times}) las \<Rightarrow> 'v las io"
where
  "first_vectors E n 0 i st = Ret st"
| "first_vectors E n (Suc k) i st =
     io_bind (las_store E n RETRP i (w5 st) st) (\<lambda>(v, st).
     avail (svd_ddot (int n) v 1 (w0 st) 1) (\<lambda>t.
     io_bind (las_store E n RETRQ i v st) (\<lambda>(v, st).
     avail (svd_daxpy (int n) (- t) v 1 (w0 st) 1) (\<lambda>r.
     avail (put_at i (l_eps1 E n) (eta st)) (\<lambda>et.
     avail (put_at i (l_eps1 E n) (oldeta st)) (\<lambda>ol.
       first_vectors E n k (i + 1) (st\<lparr>w5 := v, w0 := r, eta := et, oldeta := ol\<rparr>)))))))"

definition two :: "'v :: {one, plus}" where
  "two = 1 + 1"

text \<open>What follows the restart in the loop of \<^verbatim>\<open>lanczos_step\<close>: the new \<open>ll\<close>, norm and tolerance.\<close>

definition take_step ::
  "'v lasenv \<Rightarrow> ('v :: {zero, one, ord, plus, minus, uminus, times, inverse, abs}) smat \<Rightarrow> nat \<Rightarrow> nat \<Rightarrow> nat \<Rightarrow> 'v \<Rightarrow> 'v las \<Rightarrow>
    (nat \<times> 'v \<times> 'v \<times> 'v las) io"
where
  "take_step E A n j ll rnm st =
     avail (svd_datx (int n) (1 / rnm) (w0 st) 1 (w1 st) 1) (\<lambda>q.
     avail (svd_dscal (int n) (1 / rnm) (w3 st) 1) (\<lambda>p.
     avail (las_opb A (st\<lparr>w1 := q, w3 := p\<rparr>)) (\<lambda>st.
     avail (svd_daxpy (int n) (- rnm) (w2 st) 1 (w0 st) 1) (\<lambda>r.
     avail (svd_ddot (int n) r 1 (w3 st) 1) (\<lambda>a.
     avail (put_at j a (alf st)) (\<lambda>al.
     avail (svd_daxpy (int n) (- a) (w1 st) 1 r 1) (\<lambda>r.
     avail (if j \<le> MAXLL then map_option (\<lambda>a'. if \<bar>a'\<bar> > two * two * \<bar>a\<bar> then j else ll) (cell al (j - 1)) else Some ll) (\<lambda>ll.
     io_bind (first_vectors E n (min ll (j - 1)) 0 (st\<lparr>w0 := r, alf := al\<rparr>)) (\<lambda>st.
     avail (svd_ddot (int n) (w0 st) 1 (w4 st) 1) (\<lambda>t.
     avail (svd_daxpy (int n) (- t) (w2 st) 1 (w0 st) 1) (\<lambda>r.
     avail (cell (bet st) j) (\<lambda>b.
     let b' = (if b > 0 then b + t else b) in
     avail (svd_ddot (int n) r 1 (w3 st) 1) (\<lambda>t.
     avail (svd_daxpy (int n) (- t) (w1 st) 1 r 1) (\<lambda>r.
     avail (svd_dcopy (int n) r 1 (w4 st) 1) (\<lambda>p'.
     avail (svd_ddot (int n) r 1 p' 1) (\<lambda>d.
     let rnm = l_sqrt E d;
         a' = a + t;
         tol = l_reps E * (b' + \<bar>a'\<bar> + rnm);
         st = st\<lparr>w0 := r, w4 := p', bet := (bet st)[j := b'], alf := (alf st)[j := a']\<rparr>
     in
     avail (ortbnd (l_eps1 E n) j rnm st) (\<lambda>st.
     io_bind (purge E n ll j rnm tol st) (\<lambda>(rnm, st).
       Ret (ll, if rnm \<le> tol then 0 else rnm, tol, st)))))))))))))))))))"

text \<open>The vectors change places, and the last ones are stored.\<close>

definition next_vectors :: "'v lasenv \<Rightarrow> nat \<Rightarrow> nat \<Rightarrow> ('v :: zero) \<Rightarrow> 'v las \<Rightarrow> 'v las io" where
  "next_vectors E n j rnm st =
     (let st = st\<lparr>w1 := w2 st, w2 := w1 st, w3 := w4 st, w4 := w3 st\<rparr> in
      io_bind (las_store E n STORQ (j - 1) (w2 st) st) (\<lambda>(_, st).
      io_bind (if j - 1 < MAXLL then las_store E n STORP (j - 1) (w4 st) st else Ret (w4 st, st)) (\<lambda>(_, st).
      avail (put_at j rnm (bet st)) (\<lambda>be. Ret (st\<lparr>bet := be\<rparr>)))))"

text \<open>
  The loop with \<open>k\<close> steps to \<^verbatim>\<open>last\<close>: the index it ends with, \<open>ll\<close>, the stop flag, the norm and
  the tolerance. A restart that fails returns with the norm and the tolerance of the call.
\<close>

primrec lanczos_loop ::
  "'v lasenv \<Rightarrow> ('v :: {zero, one, ord, plus, minus, uminus, times, inverse, abs}) smat \<Rightarrow> nat \<Rightarrow> 'v \<times> 'v \<Rightarrow> nat \<Rightarrow> nat \<Rightarrow> nat \<Rightarrow>
    'v \<Rightarrow> 'v \<Rightarrow> 'v las \<Rightarrow> (nat \<times> nat \<times> bool \<times> ('v \<times> 'v) \<times> 'v las) io"
where
  "lanczos_loop E A n entry 0 j ll rnm tol st = Ret (j, ll, False, (rnm, tol), st)"
| "lanczos_loop E A n entry (Suc k) j ll rnm tol st =
     io_bind (next_vectors E n j rnm st) (\<lambda>st.
     if rnm = 0 then
       io_bind (startv E A j n st) (\<lambda>(rnm, st).
         if lerr st \<noteq> 0 then Ret (j, ll, False, entry, st)
         else if rnm = 0 then Ret (j, ll, True, (rnm, tol), st\<lparr>w1 := w2 st, w2 := w1 st\<rparr>)
         else io_bind (take_step E A n j ll rnm st) (\<lambda>(ll, rnm, tol, st).
           lanczos_loop E A n entry k (j + 1) ll rnm tol st))
     else io_bind (take_step E A n j ll rnm st) (\<lambda>(ll, rnm, tol, st).
       lanczos_loop E A n entry k (j + 1) ll rnm tol st))"

definition lanczos_step ::
  "'v lasenv \<Rightarrow> ('v :: {zero, one, ord, plus, minus, uminus, times, inverse, abs}) smat \<Rightarrow> nat \<Rightarrow> nat \<Rightarrow> nat \<Rightarrow> nat \<Rightarrow>
    'v \<times> 'v \<Rightarrow> 'v las \<Rightarrow> (nat \<times> nat \<times> bool \<times> ('v \<times> 'v) \<times> 'v las) io"
where
  "lanczos_step E A n first last' ll rt st = lanczos_loop E A n rt (last' - first) first ll (fst rt) (snd rt) st"

end
