(* ===== verification/LasSolve.thy ===== *)
theory LasSolve
  imports Las2
begin

text \<open>
  The rest of \<^verbatim>\<open>c/SVDLIBC/las2.c\<close>: the bounds of the Ritz values (\<^verbatim>\<open>error_bound\<close>), the
  rounds of Lanczos steps and analyses of the tridiagonal matrix (\<^verbatim>\<open>lanso\<close>), the singular
  vectors (\<^verbatim>\<open>rotateArray\<close>, \<^verbatim>\<open>ritvec\<close>), and the function the library exports (\<^verbatim>\<open>svdLAS2\<close>,
  \<^verbatim>\<open>svdLAS2A\<close>). Integers are unbounded here.
\<close>

section \<open>Bounds of the Ritz values\<close>

text \<open>The bound of the \<open>i\<close>-th value goes to its neighbour, the \<open>a\<close>-th.\<close>

definition merge_at ::
  "'v lasenv \<Rightarrow> 'v \<Rightarrow> ('v :: {zero, ord, plus, minus, times, abs}) list \<Rightarrow> nat \<Rightarrow> nat \<Rightarrow> 'v list \<Rightarrow> 'v list"
where
  "merge_at E tol rz i a bnd =
     (if \<bar>rz ! a - rz ! i\<bar> < l_eps34 E * \<bar>rz ! i\<bar> then
        if bnd ! i > tol \<and> bnd ! a > tol
        then bnd[a := l_sqrt E (bnd ! i * bnd ! i + bnd ! a * bnd ! a), i := 0] else bnd
      else bnd)"

text \<open>The loop that refines the bounds, over the gap, the count, the flag and the bounds.\<close>

definition refine_bound ::
  "'v lasenv \<Rightarrow> 'v \<Rightarrow> 'v \<Rightarrow> ('v :: {one, ord, plus, minus, times, inverse, abs}) list \<Rightarrow> nat \<Rightarrow> nat \<Rightarrow>
    'v \<times> nat \<times> bool \<times> 'v list \<Rightarrow> 'v \<times> nat \<times> bool \<times> 'v list"
where
  "refine_bound E endl endr rz step i = (\<lambda>(gapl, neig, enough, bnd).
     let gapl' = (if i < step then rz ! (i + 1) - rz ! i else gapl);
         gap = svd_dmin gapl gapl';
         b = (if gap > bnd ! i then bnd ! i * (bnd ! i / gap) else bnd ! i);
         found = b \<le> two * two * two * two * l_eps E * \<bar>rz ! i\<bar>
     in (gapl', if found then neig + 1 else neig,
         if found \<and> \<not> enough then endl < rz ! i \<and> rz ! i < endr else enough, bnd[i := b]))"

definition error_bound ::
  "'v lasenv \<Rightarrow> bool \<Rightarrow> 'v \<Rightarrow> 'v \<Rightarrow> ('v :: {zero, one, ord, plus, minus, times, inverse, abs}) list \<Rightarrow> 'v list \<Rightarrow> nat \<Rightarrow> 'v \<Rightarrow>
    (nat \<times> bool \<times> 'v list) option"
where
  "error_bound E enough endl endr rz bnd step tol =
     (if length rz \<le> step \<or> length bnd \<le> step then None
      else case svd_idamax (int step + 1) bnd 1 of
        None \<Rightarrow> None
      | Some mid \<Rightarrow>
          let b1 = fold (\<lambda>i. merge_at E tol rz i (i - 1)) (rev [nat mid + 1..<step + 1]) bnd;
              b2 = fold (\<lambda>i. merge_at E tol rz i (i + 1)) [1..<nat mid] b1
          in Some (snd (fold (refine_bound E endl endr rz step) [0..<step + 1] (rz ! step - rz ! 0, 0, enough, b2))))"

section \<open>Rounds\<close>

text \<open>The end of the part that starts at \<open>l\<close>: \<open>k\<close> places to look at from \<open>i\<close>.\<close>

primrec part_end :: "('v :: zero) list \<Rightarrow> nat \<Rightarrow> nat \<Rightarrow> nat option" where
  "part_end be 0 i = Some (i - 1)"
| "part_end be (Suc k) i =
     (case cell be (i + 1) of None \<Rightarrow> None | Some b \<Rightarrow> if b = 0 then Some i else part_end be k (i + 1))"

text \<open>What is printed of the elements from \<open>l\<close> to \<open>i\<close> when the values are not found.\<close>

definition show_part :: "'v numfmt \<Rightarrow> nat \<Rightarrow> nat \<Rightarrow> 'v las \<Rightarrow> unit io" where
  "show_part F l i st =
     io_bind (svd_error (''svdLAS2: imtqlb failed to converge (ierr = '' @ int_str (lerr st) @ '')'' @ newline)) (\<lambda>_.
     io_bind (svd_error (''  l = '' @ nat_str l @ ''  i = '' @ nat_str i @ newline)) (\<lambda>_.
     fold (\<lambda>m p. io_bind p (\<lambda>_.
       avail (cell (ritz st) m) (\<lambda>r. avail (cell (w5 st) m) (\<lambda>w. avail (cell (rbnd st) m) (\<lambda>b.
         svd_error (''  '' @ nat_str m @ ''  '' @ show_g F r @ ''  '' @ show_g F w @ ''  '' @ show_g F b @ newline))))))
       [l..<i + 1] (Ret ())))"

definition analyze_part ::
  "'v lasenv \<Rightarrow> 'v \<Rightarrow> nat \<Rightarrow> nat \<Rightarrow> ('v :: {zero, one, ord, plus, minus, uminus, times, inverse, abs}) las \<Rightarrow> 'v las io"
where
  "analyze_part E rnm l i st =
     avail (svd_dcopy (int (i - l + 1)) (drop l (alf st)) 1 (drop l (ritz st)) (- 1)) (\<lambda>d.
     avail (svd_dcopy (int (i - l)) (drop (l + 1) (bet st)) 1 (drop (l + 1) (w5 st)) (- 1)) (\<lambda>e.
     upon (imtqlb (l_pythag E) (i - l + 1) d (drop l (take (l + 1) (w5 st) @ e)) (drop l (rbnd st)) (lerr st)) (\<lambda>(d, e, b, ierr).
       let st = st\<lparr>ritz := take l (ritz st) @ d, w5 := take l (w5 st) @ e, rbnd := take l (rbnd st) @ b, lerr := ierr\<rparr> in
       io_bind (if ierr \<noteq> 0 then show_part (l_fmt E) l i st else Ret ()) (\<lambda>_.
         if length (rbnd st) \<le> i then Undef
         else Ret (st\<lparr>rbnd := fold (\<lambda>m b. b[m := rnm * \<bar>b ! m\<bar>]) [l..<i + 1] (rbnd st)\<rparr>)))))"

text \<open>At most \<open>k\<close> parts more of the matrix of the steps to \<open>j\<close>, the next from \<open>l\<close>.\<close>

primrec analyze ::
  "'v lasenv \<Rightarrow> 'v \<Rightarrow> nat \<Rightarrow> nat \<Rightarrow> nat \<Rightarrow> ('v :: {zero, one, ord, plus, minus, uminus, times, inverse, abs}) las \<Rightarrow> 'v las io"
where
  "analyze E rnm j 0 l st = Ret st"
| "analyze E rnm j (Suc k) l st =
     (if l > j then Ret st
      else avail (part_end (bet st) (j + 1 - l) l) (\<lambda>i.
        io_bind (analyze_part E rnm l i st) (\<lambda>st. analyze E rnm j k (i + 1) st)))"

text \<open>
  Where the next steps are to end, and the new \<^verbatim>\<open>intro\<close>. The division is the one of C.
\<close>

definition next_last :: "nat \<Rightarrow> nat \<Rightarrow> nat \<Rightarrow> nat \<Rightarrow> int \<Rightarrow> nat \<Rightarrow> int \<times> int" where
  "next_last iterations dimensions first j intro neig =
     (let (last', intro') =
        (if neig = 0 then (int first + 9, int first)
         else (int first + svd_imax 3 (1 + ((int j - intro) * (int dimensions - int neig)) sdiv int neig), intro))
      in (svd_imin last' (int iterations), intro'))"

text \<open>
  At most \<open>k\<close> rounds. The results are the index of the last step and the number of Ritz values
  that are stable.
\<close>

primrec lanso_rounds ::
  "'v lasenv \<Rightarrow> ('v :: {zero, one, ord, plus, minus, uminus, times, inverse, abs}) smat \<Rightarrow> nat \<Rightarrow> nat \<Rightarrow> nat \<Rightarrow> 'v \<times> 'v \<Rightarrow>
    nat \<Rightarrow> nat \<Rightarrow> nat \<Rightarrow> nat \<Rightarrow> int \<Rightarrow> 'v \<Rightarrow> 'v \<Rightarrow> 'v las \<Rightarrow> (nat \<times> int \<times> 'v las) io"
where
  "lanso_rounds E A n iterations dimensions ends 0 first last' ll intro rnm tol st = Cut"
| "lanso_rounds E A n iterations dimensions ends (Suc k) first last' ll intro rnm tol st =
     (let rnm = (if rnm \<le> tol then 0 else rnm) in
      io_bind (lanczos_step E A n first last' ll (rnm, tol) st) (\<lambda>(j, ll, enough, (rnm, tol), st).
      let j = (if enough then j - 1 else last' - 1); first = j + 1 in
      avail (put_at (j + 1) rnm (bet st)) (\<lambda>be.
      io_bind (analyze E rnm j j 0 (st\<lparr>bet := be\<rparr>)) (\<lambda>st.
      avail (svd_dsort2 ((j + 1) div 2) (j + 1) (ritz st) (rbnd st)) (\<lambda>(rz, b).
      avail (error_bound E enough (fst ends) (snd ends) rz b j tol) (\<lambda>(neig, enough, b).
      let st = st\<lparr>ritz := rz, rbnd := b\<rparr>;
          (last', intro) = (if neig < dimensions then next_last iterations dimensions first j intro neig else (int last', intro))
      in if \<not> neig < dimensions \<or> enough \<or> first \<ge> iterations then
           io_bind (las_store E n STORQ j (w1 st) st) (\<lambda>(_, st). Ret (j, int neig, st))
         else lanso_rounds E A n iterations dimensions ends k first (nat last') ll intro rnm tol st))))))"

definition lanso ::
  "'v lasenv \<Rightarrow> ('v :: {zero, one, ord, plus, minus, uminus, times, inverse, abs}) smat \<Rightarrow> nat \<Rightarrow> nat \<Rightarrow> 'v \<times> 'v \<Rightarrow> nat \<Rightarrow> 'v las \<Rightarrow>
    (nat \<times> int \<times> 'v las) io"
where
  "lanso E A iterations dimensions ends n st =
     io_bind (stpone E A n st) (\<lambda>(rt, st).
       case rt of
         None \<Rightarrow> Ret (0, l_junk E, st)
       | Some (rnm, tol) \<Rightarrow>
           if rnm = 0 \<or> lerr st \<noteq> 0 then Ret (0, l_junk E, st)
           else
             avail (put_at 0 (l_eps1 E n) (eta st)) (\<lambda>et.
             avail (put_at 0 (l_eps1 E n) (oldeta st)) (\<lambda>ol.
               lanso_rounds E A n iterations dimensions ends iterations 1
                 (nat (svd_imin (int dimensions + svd_imax 8 (int dimensions)) (int iterations))) 0 0 rnm tol
                 (st\<lparr>eta := et, oldeta := ol\<rparr>))))"

section \<open>Singular vectors\<close>

record 'v svdrec =
  rd :: nat
  rUt :: "'v dmat"
  rS :: "'v list"
  rVt :: "'v dmat"

text \<open>The loop of \<^verbatim>\<open>rotateArray\<close>: \<open>k\<close> moves more.\<close>

primrec rotate_loop :: "nat \<Rightarrow> nat \<Rightarrow> nat \<Rightarrow> nat \<Rightarrow> nat \<Rightarrow> 'a \<Rightarrow> 'a list \<Rightarrow> 'a list option" where
  "rotate_loop size' x 0 j start t1 a = Some a"
| "rotate_loop size' x (Suc k) j start t1 a =
     (let n = (if j \<ge> x then j - x else j + size' - x) in
      case cell a n of
        None \<Rightarrow> None
      | Some t2 \<Rightarrow>
          let a' = a[n := t1] in
          if n = start then
            (case cell a' (n + 1) of None \<Rightarrow> None | Some t \<Rightarrow> rotate_loop size' x k (n + 1) (n + 1) t a')
          else rotate_loop size' x k n start t2 a')"

definition rotateArray :: "'a list \<Rightarrow> nat \<Rightarrow> nat \<Rightarrow> 'a list option" where
  "rotateArray a size' x =
     (if x = 0 then Some a else case cell a 0 of None \<Rightarrow> None | Some t \<Rightarrow> rotate_loop size' x size' 0 0 t a)"

text \<open>The rows of a matrix that is stored as one array.\<close>

definition rows_of :: "nat \<Rightarrow> nat \<Rightarrow> 'a list \<Rightarrow> 'a list list" where
  "rows_of r c xs = map (\<lambda>i. take c (drop (i * c) xs)) [0..<r]"

text \<open>
  The sum of the Lanczos vectors with the factors of column \<open>k\<close> of \<open>s\<close>: \<open>m\<close> vectors more from
  the \<open>i\<close>-th.
\<close>

primrec ritz_sum ::
  "'v lasenv \<Rightarrow> nat \<Rightarrow> ('v :: {zero, plus, times}) list list \<Rightarrow> nat \<Rightarrow> nat \<Rightarrow> nat \<Rightarrow> nat \<Rightarrow> 'v list \<Rightarrow> 'v las \<Rightarrow> ('v list \<times> 'v las) io"
where
  "ritz_sum E n s k js 0 i w st = Ret (w, st)"
| "ritz_sum E n s k js (Suc m) i w st =
     io_bind (las_store E n RETRQ i (w5 st) st) (\<lambda>(v, st).
     avail (get2 s (js - 1 - i) k) (\<lambda>c.
     avail (svd_daxpy (int n) c v 1 w 1) (\<lambda>w.
       ritz_sum E n s k js m (i + 1) w (st\<lparr>w5 := v\<rparr>))))"

text \<open>The loop over the Ritz values, \<open>m\<close> more from the \<open>k\<close>-th; \<open>x\<close> is the row of the last accepted.\<close>

primrec ritz_vectors ::
  "'v lasenv \<Rightarrow> nat \<Rightarrow> nat \<Rightarrow> 'v \<Rightarrow> int \<Rightarrow> ('v :: {zero, ord, plus, times, abs}) list list \<Rightarrow> nat \<Rightarrow> nat \<Rightarrow> nat \<Rightarrow>
    nat \<Rightarrow> nat \<Rightarrow> 'v list list \<Rightarrow> 'v las \<Rightarrow> (nat \<times> nat \<times> 'v list list \<times> 'v las) io"
where
  "ritz_vectors E n d kappa neig s js 0 k x nsig vt st = Ret (x, nsig, vt, st)"
| "ritz_vectors E n d kappa neig s js (Suc m) k x nsig vt st =
     avail (cell (rbnd st) k) (\<lambda>b.
     avail (cell (ritz st) k) (\<lambda>r.
       if b \<le> kappa * \<bar>r\<bar> \<and> int k > int js - neig - 1 then
         let x = (if x = 0 then d - 1 else x - 1) in
         avail (cell vt x) (\<lambda>w.
           if length w < n then Undef
           else io_bind (ritz_sum E n s k js js 0 (zeroed n w) st) (\<lambda>(w, st).
             ritz_vectors E n d kappa neig s js m (k + 1) x (nsig + 1) (vt[x := w]) st))
       else ritz_vectors E n d kappa neig s js m (k + 1) x nsig vt st))"

text \<open>
  The values and the left vectors, \<open>m\<close> more from the \<open>x\<close>-th. The bound is stored at the index
  that the loop over the Lanczos vectors has left in \<^verbatim>\<open>i\<close>.
\<close>

primrec left_vectors ::
  "'v lasenv \<Rightarrow> ('v :: {zero, one, plus, uminus, times, inverse}) smat \<Rightarrow> nat \<Rightarrow> nat \<Rightarrow> nat \<Rightarrow> nat \<Rightarrow> 'v list \<Rightarrow> 'v svdrec \<Rightarrow> 'v las \<Rightarrow>
    ('v svdrec \<times> 'v las) io"
where
  "left_vectors E A n i 0 x xv2 R st = Ret (R, st)"
| "left_vectors E A n i (Suc m) x xv2 R st =
     avail (cell (dvalue (rVt R)) x) (\<lambda>v.
     avail (svd_opb A v xv2 (opbtemp st) (mxv st)) (\<lambda>(c, xv2, t).
     avail (svd_ddot (int n) v 1 xv2 1) (\<lambda>tmp0.
     avail (svd_daxpy (int n) (- tmp0) v 1 xv2 1) (\<lambda>xv2.
     let tmp0 = l_sqrt E tmp0 in
     avail (svd_ddot (int n) xv2 1 xv2 1) (\<lambda>q.
     let xnorm = l_sqrt E q in
     avail (cell (dvalue (rUt R)) x) (\<lambda>u.
     avail (svd_opa A v u c) (\<lambda>(c, u).
     let tmp1 = 1 / tmp0 in
     avail (svd_dscal (int (srows A)) tmp1 u 1) (\<lambda>u.
     avail (put_at i (xnorm * tmp1) (rbnd st)) (\<lambda>b.
     avail (put_at x tmp0 (rS R)) (\<lambda>S.
       left_vectors E A n i m (x + 1) xv2
         (R\<lparr>rUt := (rUt R)\<lparr>dvalue := (dvalue (rUt R))[x := u]\<rparr>, rS := S\<rparr>)
         (st\<lparr>opbtemp := t, mxv := c, rbnd := b\<rparr>)))))))))))"

text \<open>What \<^verbatim>\<open>ritvec\<close> does with the eigenvectors, the columns of \<open>s\<close>.\<close>

definition triples ::
  "'v lasenv \<Rightarrow> nat \<Rightarrow> ('v :: {zero, one, ord, plus, minus, uminus, times, inverse, abs}) smat \<Rightarrow> 'v \<Rightarrow> int \<Rightarrow> nat \<Rightarrow> 'v list list \<Rightarrow>
    'v list \<Rightarrow> 'v svdrec \<Rightarrow> 'v las \<Rightarrow> (nat \<times> 'v svdrec \<times> 'v las) io"
where
  "triples E n A kappa neig js s xv2 R st =
     io_bind (ritz_vectors E n (rd R) kappa neig s js js 0 0 0 (dvalue (rVt R)) st) (\<lambda>(x, nsig, vt, st).
     avail (rotateArray (concat vt) (drows (rVt R) * dcols (rVt R)) (x * dcols (rVt R))) (\<lambda>flat.
     let d = nat (svd_imin (int (rd R)) (int nsig));
         R = R\<lparr>rd := d, rVt := (rVt R)\<lparr>dvalue := rows_of (drows (rVt R)) (dcols (rVt R)) flat\<rparr>\<rparr>
     in io_bind (left_vectors E A n js d 0 xv2 R st) (\<lambda>(R, st). Ret (nsig, R, st))))"

definition ritvec ::
  "'v lasenv \<Rightarrow> nat \<Rightarrow> ('v :: {zero, one, ord, plus, minus, uminus, times, inverse, abs}) smat \<Rightarrow> 'v svdrec \<Rightarrow> 'v \<Rightarrow> nat \<Rightarrow> int \<Rightarrow> 'v las \<Rightarrow>
    (nat \<times> 'v svdrec \<times> 'v las) io"
where
  "ritvec E n A R kappa steps neig st =
     (let js = steps + 1;
          s = map (\<lambda>i. (replicate js 0)[i := 1]) [0..<js];
          xv2 = map (wild_value (l_heap E)) [0..<n]
      in
      avail (cell (dvalue (rVt R)) 0) (\<lambda>v0.
      avail (svd_dcopy (int js) (alf st) 1 v0 (- 1)) (\<lambda>d.
      avail (svd_dcopy (int steps) (drop 1 (bet st)) 1 (drop 1 (w5 st)) (- 1)) (\<lambda>e.
      upon (imtql2 (l_pythag E) js d (take 1 (w5 st) @ e) s (lerr st)) (\<lambda>(d, e, s, ierr).
      let st = st\<lparr>w5 := e, lerr := ierr\<rparr>; R = R\<lparr>rVt := (rVt R)\<lparr>dvalue := (dvalue (rVt R))[0 := d]\<rparr>\<rparr> in
      if ierr \<noteq> 0 then Ret (0, R, st) else triples E n A kappa neig js s xv2 R st)))))"

section \<open>The decomposition\<close>

definition error_msg :: "int \<Rightarrow> string" where
  "error_msg i =
     (if i = 2 then ''ENDL MUST BE LESS THAN ENDR''
      else if i = 3 then ''REQUESTED DIMENSIONS CANNOT EXCEED NUM ITERATIONS''
      else if i = 4 then ''ONE OF YOUR DIMENSIONS IS LESS THAN OR EQUAL TO ZERO''
      else if i = 5 then ''NUM ITERATIONS (NUMBER OF LANCZOS STEPS) IS INVALID''
      else if i = 6 then ''REQUESTED DIMENSIONS (NUMBER OF EIGENPAIRS DESIRED) IS INVALID''
      else '''')"

definition check_parameters :: "'v smat \<Rightarrow> int \<Rightarrow> int \<Rightarrow> ('v :: ord) \<times> 'v \<Rightarrow> int io" where
  "check_parameters A dimensions iterations ends =
     (let error_index =
        (if fst ends > snd ends then 2
         else if dimensions > iterations then 3
         else if scols A = 0 \<or> srows A = 0 then 4
         else if iterations \<le> 0 \<or> iterations > int (scols A) \<or> iterations > int (srows A) then 5
         else if dimensions \<le> 0 \<or> dimensions > iterations then 6 else 0)
      in io_bind (if error_index \<noteq> 0 then svd_error (''svdLAS2 parameter error: '' @ error_msg error_index @ newline)
                  else Ret ()) (\<lambda>_. Ret error_index))"

definition write_header :: "'v lasenv \<Rightarrow> int \<Rightarrow> int \<Rightarrow> 'v \<times> 'v \<Rightarrow> 'v \<Rightarrow> 'v smat \<Rightarrow> unit io" where
  "write_header E iterations dimensions ends kappa A =
     syscalls (map Out
       [''SOLVING THE [A^TA] EIGENPROBLEM'' @ newline,
        ''NO. OF ROWS               = '' @ pad_left 6 (nat_str (srows A)) @ newline,
        ''NO. OF COLUMNS            = '' @ pad_left 6 (nat_str (scols A)) @ newline,
        ''NO. OF NON-ZERO VALUES    = '' @ pad_left 6 (nat_str (svals A)) @ newline,
        ''MATRIX DENSITY            = '' @ l_density E A @ ''%'' @ newline,
        ''MAX. NO. OF LANCZOS STEPS = '' @ pad_left 6 (int_str iterations) @ newline,
        ''MAX. NO. OF EIGENPAIRS    = '' @ pad_left 6 (int_str dimensions) @ newline,
        ''LEFT  END OF THE INTERVAL = '' @ l_exp E 9 2 (fst ends) @ newline,
        ''RIGHT END OF THE INTERVAL = '' @ l_exp E 9 2 (snd ends) @ newline,
        ''KAPPA                     = '' @ l_exp E 9 2 kappa @ newline,
        newline])"

text \<open>The arrays of a matrix with \<open>n\<close> columns, before the first step.\<close>

definition las_arrays :: "'v lasenv \<Rightarrow> ('v :: zero) smat \<Rightarrow> nat \<Rightarrow> 'v las" where
  "las_arrays E A iterations =
     (let wild = (\<lambda>k. map (wild_value (l_heap E)) [0..<k]); n = scols A in
      \<lparr>w0 = replicate n 0, w1 = wild n, w2 = wild n, w3 = wild n, w4 = wild n, w5 = wild n,
       alf = wild iterations, eta = wild iterations, oldeta = wild iterations, bet = wild (iterations + 1),
       ritz = replicate (iterations + 1) 0, rbnd = replicate (iterations + 1) (l_huge E),
       lanstore = replicate (iterations + MAXLL) None, opbtemp = wild (srows A), lerr = l_ierr E, mxv = 0\<rparr>)"

definition show_ritz :: "'v lasenv \<Rightarrow> int \<Rightarrow> nat \<Rightarrow> int \<Rightarrow> 'v las \<Rightarrow> unit io" where
  "show_ritz E verbosity steps neig st =
     io_bind (tell verbosity (''NUMBER OF LANCZOS STEPS   = '' @ pad_left 6 (nat_str (steps + 1)) @ newline @
                              ''RITZ VALUES STABILIZED    = '' @ pad_left 6 (int_str neig) @ newline)) (\<lambda>_.
     if verbosity > 2 then
       io_bind (one_call (Out (newline @ ''COMPUTED RITZ VALUES  (ERROR BNDS)'' @ newline))) (\<lambda>_.
         fold (\<lambda>i p. io_bind p (\<lambda>_. avail (cell (ritz st) i) (\<lambda>r. avail (cell (rbnd st) i) (\<lambda>b.
           one_call (Out (pad_left 3 (nat_str (i + 1)) @ ''  '' @ l_exp E 22 14 r @ ''  ('' @ l_exp E 11 2 b @ '')'' @ newline))))))
           [0..<steps + 1] (Ret ()))
     else Ret ())"

definition show_svd :: "('v :: zero) lasenv \<Rightarrow> int \<Rightarrow> 'v svdrec \<Rightarrow> unit io" where
  "show_svd E verbosity R =
     (if verbosity > 1 then
        io_bind (one_call (Out (newline @ ''SINGULAR VALUES: ''))) (\<lambda>_.
        io_bind (svdWriteDenseArray (l_fmt E) [] (rS R) (int (rd R)) ''-'' False) (\<lambda>_.
        if verbosity > 2 then
          io_bind (one_call (Out (newline @ ''LEFT SINGULAR VECTORS (transpose of U): ''))) (\<lambda>_.
          io_bind (svdWriteDenseMatrix (l_heap E) (l_fmt E) [] (rUt R) ''-'' SVD_F_DT) (\<lambda>_.
          io_bind (one_call (Out (newline @ ''RIGHT SINGULAR VECTORS (transpose of V): ''))) (\<lambda>_.
          io_bind (svdWriteDenseMatrix (l_heap E) (l_fmt E) [] (rVt R) ''-'' SVD_F_DT) (\<lambda>_. Ret ()))))
        else Ret ()))
      else tell verbosity (''SINGULAR VALUES FOUND     = '' @ pad_left 6 (nat_str (rd R)) @ newline))"

text \<open>From the matrix whose columns are not more than its rows, or not by much.\<close>

definition las_solve ::
  "'v lasenv \<Rightarrow> int \<Rightarrow> ('v :: {zero, one, ord, plus, minus, uminus, times, inverse, abs}) smat \<Rightarrow> nat \<Rightarrow> nat \<Rightarrow> 'v \<times> 'v \<Rightarrow> 'v \<Rightarrow>
    ('v svdrec \<times> nat) io"
where
  "las_solve E verbosity A dimensions iterations ends kappa =
     io_bind (lanso E A iterations dimensions ends (scols A) (las_arrays E A iterations)) (\<lambda>(steps, neig, st).
     io_bind (show_ritz E verbosity steps neig st) (\<lambda>_.
     avail (svdNewDMat dimensions (srows A)) (\<lambda>Ut.
     avail (svdNewDMat dimensions (scols A)) (\<lambda>Vt.
     let R = \<lparr>rd = dimensions, rUt = Ut, rS = replicate dimensions 0, rVt = Vt\<rparr> in
     io_bind (ritvec E (scols A) A R (svd_dmax \<bar>kappa\<bar> (l_eps34 E)) steps neig st) (\<lambda>(nsig, R, st).
     io_bind (show_svd E verbosity R) (\<lambda>_. Ret (R, mxv st)))))))"

definition swap_sides :: "'v svdrec \<Rightarrow> 'v svdrec" where
  "swap_sides R = R\<lparr>rUt := rVt R, rVt := rUt R\<rparr>"

text \<open>
  The record and the number of products with the matrix. The comparison with \<^verbatim>\<open>A->rows * 1.2\<close> is
  the one of integers up to \<open>2 ^ 50\<close>.
\<close>

definition svdLAS2 ::
  "'v lasenv \<Rightarrow> int \<Rightarrow> ('v :: {zero, one, ord, plus, minus, uminus, times, inverse, abs}) smat \<Rightarrow> int \<Rightarrow> int \<Rightarrow> 'v \<times> 'v \<Rightarrow> 'v \<Rightarrow>
    ('v svdrec option \<times> nat) io"
where
  "svdLAS2 E verbosity A dimensions iterations ends kappa =
     (let m = svd_imin (int (srows A)) (int (scols A));
          dimensions = (if dimensions \<le> 0 \<or> dimensions > m then m else dimensions);
          iterations = (if iterations \<le> 0 \<or> iterations > m then m else iterations);
          iterations = (if iterations < dimensions then dimensions else iterations)
      in
      io_bind (if verbosity > 0 then write_header E iterations dimensions ends kappa A else Ret ()) (\<lambda>_.
      io_bind (check_parameters A dimensions iterations ends) (\<lambda>error_index.
      if error_index \<noteq> 0 then Ret (None, 0)
      else if 6 * srows A \<le> 5 * scols A then
        io_bind (tell verbosity (''TRANSPOSING THE MATRIX FOR SPEED'' @ newline)) (\<lambda>_.
        avail (svdTransposeS (l_heap E) A) (\<lambda>A.
        io_bind (las_solve E verbosity A (nat dimensions) (nat iterations) ends kappa) (\<lambda>(R, c).
          Ret (Some (swap_sides R), c))))
      else
        io_bind (las_solve E verbosity A (nat dimensions) (nat iterations) ends kappa) (\<lambda>(R, c).
          Ret (Some R, c)))))"

text \<open>\<^verbatim>\<open>1.0e-30\<close> and \<^verbatim>\<open>1e-6\<close> are arguments.\<close>

definition svdLAS2A ::
  "'v lasenv \<Rightarrow> 'v \<Rightarrow> 'v \<Rightarrow> int \<Rightarrow> ('v :: {zero, one, ord, plus, minus, uminus, times, inverse, abs}) smat option \<Rightarrow> int \<Rightarrow>
    ('v svdrec option \<times> nat) io"
where
  "svdLAS2A E tiny kappa verbosity A dimensions =
     (case A of
        None \<Rightarrow> io_bind (svd_error (''svdLAS2A called with NULL array'' @ newline)) (\<lambda>_. Ret (None, 0))
      | Some A \<Rightarrow> svdLAS2 E verbosity A dimensions 0 (- tiny, tiny) kappa)"

end
