(* ===== verification/LasSafety.thy ===== *)
theory LasSafety
  imports LasSolve SvdOrder
begin

text \<open>
  Safety of the Lanczos iteration, for every arithmetic and every environment: no access outside an
  array, no endless loop, and arrays of the right sizes at the end.
\<close>

section \<open>What holds when a program returns\<close>

text \<open>
  \<open>P\<close> holds of what the program returns; it does not exit, unless \<open>g\<close> is false and the exit status
  is 1; it reaches no undefined behaviour, unless \<open>fst md\<close> allows that, and goes on for ever only if
  \<open>snd md\<close> does.
\<close>

primrec wp :: "bool \<times> bool \<Rightarrow> bool \<Rightarrow> ('a \<Rightarrow> bool) \<Rightarrow> 'a io \<Rightarrow> bool" where
  "wp md g P (Ret x) = P x"
| "wp md g P (Halt i) = (\<not> g \<and> i = 1)"
| "wp md g P Undef = fst md"
| "wp md g P Cut = snd md"
| "wp md g P (Sys c k) = (\<forall>r. wp md g P (k r))"

lemma wp_bind [simp]: "wp md g P (io_bind p f) \<longleftrightarrow> wp md g (\<lambda>x. wp md g P (f x)) p"
  by (induction p) auto

lemma wp_mono: "wp md g P p \<Longrightarrow> (\<And>x. P x \<Longrightarrow> Q x) \<Longrightarrow> wp md g Q p"
  by (induction p) auto

lemma wp_avail: "wp md g P (avail x f) \<longleftrightarrow> x = None \<and> fst md \<or> (\<exists>y. x = Some y \<and> wp md g P (f y))"
  by (cases x) (auto simp: avail_def)

lemma wp_use: "wp md g P p \<Longrightarrow> (\<And>x. P x \<Longrightarrow> wp md g Q (f x)) \<Longrightarrow> wp md g Q (io_bind p f)"
  by (simp add: wp_mono)

lemma wp_run:
  "wp md g P p \<Longrightarrow> (\<exists>x. fst (run os tr p) = Returned x \<and> P x) \<or> \<not> g \<and> fst (run os tr p) = Exited 1 \<or>
     fst md \<and> fst (run os tr p) = Undefined \<or> snd md \<and> fst (run os tr p) = Running"
  by (induction p arbitrary: tr) auto

text \<open>The routines that may fail: \<^verbatim>\<open>svd_random2\<close> may overflow, \<^verbatim>\<open>svd_pythag\<close> may not return.\<close>

definition random_total :: "'v lasenv \<Rightarrow> bool" where
  "random_total E \<longleftrightarrow> (\<forall>i. l_random E i \<noteq> None)"

definition rnd_ok :: "bool \<times> bool \<Rightarrow> 'v lasenv \<Rightarrow> bool" where
  "rnd_ok md E \<longleftrightarrow> fst md \<or> random_total E"

definition pyt_ok :: "bool \<times> bool \<Rightarrow> 'v lasenv \<Rightarrow> bool" where
  "pyt_ok md E \<longleftrightarrow> snd md \<or> pythag_returns (l_pythag E)"

lemma wp_error [simp]: "wp md g P (svd_error m) \<longleftrightarrow> P ()"
  by (simp add: svd_error_def one_call_def)

lemma wp_fatal [simp]: "wp md g P (svd_fatalError m) \<longleftrightarrow> \<not> g"
  by (simp add: svd_fatalError_def)

lemma wp_one_call [simp]: "wp md g P (one_call c) \<longleftrightarrow> P ()"
  by (simp add: one_call_def)

lemma wp_syscalls [simp]: "wp md g P (syscalls cs) \<longleftrightarrow> P ()"
  by (induction cs) auto

lemma wp_tell [simp]: "wp md g P (tell v s) \<longleftrightarrow> P ()"
  by (simp add: tell_def)

lemma if_cases: "(b \<Longrightarrow> wp md g P p) \<Longrightarrow> (\<not> b \<Longrightarrow> wp md g P q) \<Longrightarrow> wp md g P (if b then p else q)"
  by simp

section \<open>Vector routines\<close>

lemma vec_total:
  assumes "0 \<le> ix" "ix + int k \<le> int (length dx)" "0 \<le> iy" "iy + int k \<le> int (length dy)"
  shows "\<exists>z. vec_loop f k dx ix 1 dy iy 1 = Some z \<and> length z = length dy"
  using assms
proof (induction k arbitrary: ix iy dy)
  case (Suc k)
  then have "vget dx ix = Some (dx ! nat ix)" "vget dy iy = Some (dy ! nat iy)" by (simp_all add: vget_in)
  then show ?case using Suc.IH [of "ix + 1" "iy + 1" "dy[nat iy := f (dx ! nat ix) (dy ! nat iy)]"] Suc.prems by simp
qed simp

lemma dot_total:
  assumes "0 \<le> ix" "ix + int k \<le> int (length dx)" "0 \<le> iy" "iy + int k \<le> int (length dy)"
  shows "\<exists>z. dot_loop k dx ix 1 dy iy 1 s = Some z"
  using assms
proof (induction k arbitrary: ix iy s)
  case (Suc k)
  then have "vget dx ix = Some (dx ! nat ix)" "vget dy iy = Some (dy ! nat iy)" by (simp_all add: vget_in)
  then show ?case using Suc.IH [of "ix + 1" "iy + 1"] Suc.prems by simp
qed simp

lemma scal_total:
  assumes "0 \<le> ix" "ix + int k \<le> int (length dx)"
  shows "\<exists>z. scal_loop k a dx ix 1 = Some z \<and> length z = length dx"
  using assms
proof (induction k arbitrary: ix dx)
  case (Suc k)
  then have "vget dx ix = Some (dx ! nat ix)" by (simp add: vget_in)
  then show ?case using Suc.IH [of "ix + 1" "dx[nat ix := dx ! nat ix * a]"] Suc.prems by simp
qed simp

lemma dcopy_total:
  assumes "n \<le> length x" "n \<le> length y"
  obtains z where "svd_dcopy (int n) x 1 y 1 = Some z" "length z = length y"
proof -
  obtain z where "vec_loop (\<lambda>x y. x) n x 0 1 y 0 1 = Some z" "length z = length y"
    using vec_total [of 0 n x 0 y "\<lambda>x y. x"] assms by auto
  then show ?thesis using that [of z] that [of y] by (cases "n = 0") (simp_all add: svd_dcopy_def)
qed

lemma wp_dcopy:
  assumes "n \<le> length x" "n \<le> length y" "\<And>z. length z = length y \<Longrightarrow> wp md g P (f z)"
  shows "wp md g P (avail (svd_dcopy (int n) x 1 y 1) f)"
  using vec_total [of 0 n x 0 y "\<lambda>x y. x"] assms by (auto simp: wp_avail svd_dcopy_def)

lemma wp_daxpy:
  assumes "n \<le> length x" "n \<le> length y" "\<And>z. length z = length y \<Longrightarrow> wp md g P (f z)"
  shows "wp md g P (avail (svd_daxpy (int n) a x 1 y 1) f)"
  using vec_total [of 0 n x 0 y "\<lambda>x y. y + a * x"] assms by (auto simp: wp_avail svd_daxpy_def)

lemma wp_datx:
  assumes "n \<le> length x" "n \<le> length y" "\<And>z. length z = length y \<Longrightarrow> wp md g P (f z)"
  shows "wp md g P (avail (svd_datx (int n) a x 1 y 1) f)"
  using vec_total [of 0 n x 0 y "\<lambda>x y. a * x"] assms by (auto simp: wp_avail svd_datx_def)

lemma wp_dscal:
  assumes "n \<le> length x" "\<And>z. length z = length x \<Longrightarrow> wp md g P (f z)"
  shows "wp md g P (avail (svd_dscal (int n) a x 1) f)"
  using scal_total [of 0 n x a] assms by (auto simp: wp_avail svd_dscal_def vstart_def)

lemma wp_ddot:
  assumes "n \<le> length x" "n \<le> length y" "\<And>z. wp md g P (f z)"
  shows "wp md g P (avail (svd_ddot (int n) x 1 y 1) f)"
  using dot_total [of 0 n x 0 y 0] assms by (auto simp: wp_avail svd_ddot_def)

lemma wp_put_at: "i < length xs \<Longrightarrow> wp md g P (f (xs[i := v])) \<Longrightarrow> wp md g P (avail (put_at i v xs) f)"
  by (simp add: wp_avail put_at_def)

lemma wp_cell: "i < length xs \<Longrightarrow> wp md g P (f (xs ! i)) \<Longrightarrow> wp md g P (avail (cell xs i) f)"
  by (simp add: wp_avail cell_def)

lemmas wp_vector = wp_dcopy wp_daxpy wp_datx wp_dscal wp_ddot wp_put_at wp_cell


lemma opb_total:
  assumes "wf_smat A" "length x = scols A" "scols A \<le> length y" "srows A \<le> length t"
  shows "\<exists>y' t'. svd_opb A x y t k = Some (k + 2, y', t') \<and> length y' = length y \<and> length t' = length t"
proof -
  let ?t = "foldl (acc_entry x) (zeroed (srows A) t) (entries A)"
  have t: "opa_cols A x (scols A) 0 (zeroed (srows A) t) = Some ?t" "length ?t = length t"
    using opa_cols_fold [OF assms(1,2), of 0 "scols A" "zeroed (srows A) t"] assms(4)
    by (simp_all add: length_zeroed entries_def length_acc)
  show ?thesis
    using opb_cols_fold [OF assms(1), of ?t 0 "scols A" "zeroed (scols A) y"] t assms(3,4)
    by (auto simp: svd_opb_def length_zeroed)
qed

lemma wp_opb:
  assumes "wf_smat A" "length x = scols A" "scols A \<le> length y" "srows A \<le> length t"
    and "\<And>y' t'. length y' = length y \<Longrightarrow> length t' = length t \<Longrightarrow> wp md g P (f (k + 2, y', t'))"
  shows "wp md g P (avail (svd_opb A x y t k) f)"
  using opb_total [OF assms(1-4), of k] assms(5) by (auto simp: wp_avail)

lemma wp_opa:
  assumes "wf_smat A" "length x = scols A" "srows A \<le> length y"
    and "\<And>y'. length y' = length y \<Longrightarrow> wp md g P (f (k + 1, y'))"
  shows "wp md g P (avail (svd_opa A x y k) f)"
  using svd_opa_fold [OF assms(1-3), of k] assms(3,4) by (simp add: wp_avail length_acc length_zeroed)

lemma swap_total:
  assumes "0 \<le> ix" "ix + int k \<le> int (length dx)" "ix + int k \<le> int (length dy)"
  shows "\<exists>a b. swap_loop k dx ix 1 dy ix 1 = Some (a, b) \<and> length a = length dx \<and> length b = length dy"
  using assms
proof (induction k arbitrary: ix dx dy)
  case (Suc k)
  then have "vget dx ix = Some (dx ! nat ix)" "vget dy ix = Some (dy ! nat ix)" by (simp_all add: vget_in)
  then show ?case using Suc.IH [of "ix + 1" "dx[nat ix := dy ! nat ix]" "dy[nat ix := dx ! nat ix]"] Suc.prems by simp
qed simp

lemma amax_total:
  assumes "0 \<le> ix" "ix + int k < int (length dx)"
  shows "\<exists>m. amax_loop k dx ix 1 im dm = Some m \<and> (m = im \<or> ix < m \<and> m \<le> ix + int k)"
  using assms
proof (induction k arbitrary: ix im dm)
  case (Suc k)
  then have "vget dx (ix + 1) = Some (dx ! nat (ix + 1))" by (simp add: vget_in)
  then show ?case using Suc.IH [of "ix + 1"] Suc.prems by fastforce
qed simp

lemma idamax_total:
  assumes "0 < k" "k \<le> length dx"
  shows "\<exists>m<k. svd_idamax (int k) dx 1 = Some (int m)"
proof (cases "k = 1")
  case False
  have "vget dx 0 = Some (dx ! 0)" using assms by (auto simp: vget_def)
  moreover obtain m where "amax_loop (k - 1) dx 0 1 0 \<bar>dx ! 0\<bar> = Some m" "m = 0 \<or> 0 < m \<and> m \<le> int (k - 1)"
    using amax_total [of 0 "k - 1" dx 0 "\<bar>dx ! 0\<bar>"] assms by auto
  ultimately show ?thesis using assms False
    by (intro exI [of _ "nat m"]) (auto simp: svd_idamax_def vstart_def nat_diff_distrib Let_def)
qed (simp add: svd_idamax_def)

section \<open>The arrays\<close>

text \<open>\<open>n\<close> columns, \<open>m\<close> rows, \<open>k\<close> steps at most.\<close>

definition las_ok :: "nat \<Rightarrow> nat \<Rightarrow> nat \<Rightarrow> 'v las \<Rightarrow> bool" where
  "las_ok n m k st \<longleftrightarrow>
     length (w0 st) = n \<and> length (w1 st) = n \<and> length (w2 st) = n \<and> length (w3 st) = n \<and>
     length (w4 st) = n \<and> length (w5 st) = n \<and> length (alf st) = k \<and> length (eta st) = k \<and>
     length (oldeta st) = k \<and> length (bet st) = k + 1 \<and> length (ritz st) = k + 1 \<and>
     length (rbnd st) = k + 1 \<and> length (lanstore st) = k + MAXLL \<and> length (opbtemp st) = m \<and>
     (\<forall>v. Some v \<in> set (lanstore st) \<longrightarrow> length v = n)"

text \<open>The first \<open>j\<close> Lanczos vectors are in the store, and the first two of the others.\<close>

definition has_vectors :: "nat \<Rightarrow> 'v list option list \<Rightarrow> bool" where
  "has_vectors j L \<longleftrightarrow> (\<forall>q<j. L ! (q + MAXLL) \<noteq> None) \<and> (\<forall>p<min MAXLL j. L ! p \<noteq> None)"

lemma stored_length: "las_ok n m k st \<Longrightarrow> i < k + MAXLL \<Longrightarrow> lanstore st ! i = Some v \<Longrightarrow> length v = n"
  by (metis las_ok_def nth_mem)

lemma wp_STORQ:
  assumes "las_ok n m k st" "j < k" "length s = n"
    and "\<And>v. length v = n \<Longrightarrow> wp md g P (f s (st\<lparr>lanstore := (lanstore st)[j + MAXLL := Some v]\<rparr>))"
  shows "wp md g P (io_bind (las_store E n STORQ j s st) (\<lambda>(v, st). f v st))"
proof -
  let ?y = "case lanstore st ! (j + MAXLL) of None \<Rightarrow> map (wild_value (l_heap E)) [0..<n] | Some v \<Rightarrow> v"
  have "length ?y = n" using stored_length [OF assms(1), of "j + MAXLL"] assms(2) by (auto split: option.split)
  then obtain z where z: "svd_dcopy (int n) s 1 ?y 1 = Some z" "length z = n"
    using dcopy_total [of n s ?y] assms(3) by auto
  have "length (lanstore st) = k + MAXLL" using assms(1) by (simp add: las_ok_def)
  then have "put_stored (l_heap E) n (j + MAXLL) s (lanstore st) = Some ((lanstore st)[j + MAXLL := Some z])"
    using assms(2) z(1) by (simp add: put_stored_def)
  then show ?thesis using assms(4) [OF z(2)] by (simp add: avail_def)
qed

lemma wp_STORP:
  assumes "las_ok n m k st" "j < MAXLL" "length s = n"
    and "\<And>v. length v = n \<Longrightarrow> wp md g P (f s (st\<lparr>lanstore := (lanstore st)[j := Some v]\<rparr>))"
  shows "wp md g P (io_bind (las_store E n STORP j s st) (\<lambda>(v, st). f v st))"
proof -
  let ?y = "case lanstore st ! j of None \<Rightarrow> map (wild_value (l_heap E)) [0..<n] | Some v \<Rightarrow> v"
  have "length ?y = n" using stored_length [OF assms(1), of j] assms(2) by (auto split: option.split)
  then obtain z where z: "svd_dcopy (int n) s 1 ?y 1 = Some z" "length z = n"
    using dcopy_total [of n s ?y] assms(3) by auto
  have "length (lanstore st) = k + MAXLL" using assms(1) by (simp add: las_ok_def)
  then have "put_stored (l_heap E) n j s (lanstore st) = Some ((lanstore st)[j := Some z])"
    using assms(2) z(1) by (simp add: put_stored_def)
  then show ?thesis using assms(2) assms(4) [OF z(2)] by (simp add: avail_def)
qed

lemma wp_get_stored:
  assumes "las_ok n m k st" "i < k + MAXLL" "length s = n" "g \<Longrightarrow> lanstore st ! i \<noteq> None"
    and "\<And>v. length v = n \<Longrightarrow> P v"
  shows "wp md g P (get_stored what n i s (lanstore st))"
proof (cases "lanstore st ! i")
  case None
  then show ?thesis using assms by (auto simp: get_stored_def las_ok_def)
next
  case (Some v)
  then have "length v = n" using stored_length assms(1,2) by blast
  then have "wp md g P (avail (svd_dcopy (int n) v 1 s 1) Ret)"
    by (intro wp_dcopy) (use assms(3,5) in auto)
  then show ?thesis using assms(1,2) Some by (simp add: get_stored_def las_ok_def)
qed

lemma wp_RETRQ:
  assumes "las_ok n m k st" "j < k" "length s = n" "g \<Longrightarrow> lanstore st ! (j + MAXLL) \<noteq> None"
    and "\<And>v. length v = n \<Longrightarrow> wp md g P (f v st)"
  shows "wp md g P (io_bind (las_store E n RETRQ j s st) (\<lambda>(v, st). f v st))"
  using wp_get_stored [OF assms(1) _ assms(3), of "j + MAXLL" g "\<lambda>v. wp md g P (f v st)"] assms(2,4,5) by simp

lemma wp_RETRP:
  assumes "las_ok n m k st" "length s = n" "g \<Longrightarrow> j < MAXLL \<Longrightarrow> lanstore st ! j \<noteq> None"
    and "\<And>v. length v = n \<Longrightarrow> wp md g P (f v st)"
  shows "wp md g P (io_bind (las_store E n RETRP j s st) (\<lambda>(v, st). f v st))"
  using wp_get_stored [OF assms(1) _ assms(2), of j g "\<lambda>v. wp md g P (f v st)"] assms(3,4) assms(2) by simp


declare las_store.simps [simp del]

section \<open>Starting vectors and purging\<close>

text \<open>The sizes are right, and the store is \<open>L\<close>.\<close>

definition steady :: "nat \<Rightarrow> nat \<Rightarrow> nat \<Rightarrow> 'v list option list \<Rightarrow> 'v las \<Rightarrow> bool" where
  "steady n m k L st \<longleftrightarrow> las_ok n m k st \<and> lanstore st = L"

lemmas las_sizes_def = steady_def las_ok_def

lemma steadyD:
  assumes "steady n m k L st"
  shows "las_ok n m k st" "lanstore st = L" "length (w0 st) = n" "length (w1 st) = n" "length (w2 st) = n"
    "length (w3 st) = n" "length (w4 st) = n" "length (w5 st) = n" "length (alf st) = k" "length (eta st) = k"
    "length (oldeta st) = k" "length (bet st) = k + 1" "length (ritz st) = k + 1" "length (rbnd st) = k + 1"
    "length L = k + MAXLL" "length (opbtemp st) = m"
  using assms by (auto simp: las_sizes_def)

lemma steady_updates [simp]:
  "steady n m k L st \<Longrightarrow> length v = n \<Longrightarrow> steady n m k L (st\<lparr>w0 := v\<rparr>)"
  "steady n m k L st \<Longrightarrow> length v = n \<Longrightarrow> steady n m k L (st\<lparr>w1 := v\<rparr>)"
  "steady n m k L st \<Longrightarrow> length v = n \<Longrightarrow> steady n m k L (st\<lparr>w2 := v\<rparr>)"
  "steady n m k L st \<Longrightarrow> length v = n \<Longrightarrow> steady n m k L (st\<lparr>w3 := v\<rparr>)"
  "steady n m k L st \<Longrightarrow> length v = n \<Longrightarrow> steady n m k L (st\<lparr>w4 := v\<rparr>)"
  "steady n m k L st \<Longrightarrow> length v = n \<Longrightarrow> steady n m k L (st\<lparr>w5 := v\<rparr>)"
  "steady n m k L st \<Longrightarrow> length u = k \<Longrightarrow> steady n m k L (st\<lparr>alf := u\<rparr>)"
  "steady n m k L st \<Longrightarrow> length u = k \<Longrightarrow> steady n m k L (st\<lparr>eta := u\<rparr>)"
  "steady n m k L st \<Longrightarrow> length u = k \<Longrightarrow> steady n m k L (st\<lparr>oldeta := u\<rparr>)"
  "steady n m k L st \<Longrightarrow> length u = k + 1 \<Longrightarrow> steady n m k L (st\<lparr>bet := u\<rparr>)"
  "steady n m k L st \<Longrightarrow> length u = k + 1 \<Longrightarrow> steady n m k L (st\<lparr>ritz := u\<rparr>)"
  "steady n m k L st \<Longrightarrow> length u = k + 1 \<Longrightarrow> steady n m k L (st\<lparr>rbnd := u\<rparr>)"
  "steady n m k L st \<Longrightarrow> length t = m \<Longrightarrow> steady n m k L (st\<lparr>opbtemp := t\<rparr>)"
  "steady n m k L st \<Longrightarrow> steady n m k L (st\<lparr>mxv := c\<rparr>)"
  "steady n m k L st \<Longrightarrow> steady n m k L (st\<lparr>lerr := e\<rparr>)"
  by (auto simp: las_sizes_def)

lemma fill_total:
  assumes "random_total E"
  shows "i + k \<le> length r \<Longrightarrow> \<exists>r' s'. fill_random (l_random E) k i s r = Some (r', s') \<and> length r' = length r"
proof (induction k arbitrary: i s r)
  case (Suc k)
  obtain x t where x: "l_random E s = Some (x, t)" using assms unfolding random_total_def by (metis not_None_eq surj_pair)
  then show ?case using Suc.IH [of "i + 1" "r[i := x]" t] Suc.prems by simp
qed simp

lemma fill_length: "fill_random rnd k i s r = Some (r', s') \<Longrightarrow> length r' = length r"
  by (induction k arbitrary: i s r) (auto split: option.splits if_splits)

lemma wp_fill:
  assumes "rnd_ok md E" "k \<le> length r" "\<And>r' s'. length r' = length r \<Longrightarrow> wp md g P (f (r', s'))"
  shows "wp md g P (avail (fill_random (l_random E) k 0 s r) f)"
proof (cases "fill_random (l_random E) k 0 s r")
  case None
  then have "\<not> random_total E" using fill_total [of E 0 k r s] assms(2) by auto
  then show ?thesis using assms(1) None by (simp add: wp_avail rnd_ok_def)
next
  case (Some x)
  then show ?thesis using assms(3) [of "fst x" "snd x"] fill_length [of "l_random E" k 0 s r "fst x" "snd x"]
    by (simp add: wp_avail)
qed

lemma wp_fill_if:
  assumes "rnd_ok md E" "k \<le> length r" "\<And>r' s'. length r' = length r \<Longrightarrow> wp md g P (f (r', s'))"
  shows "wp md g P (avail (if b then fill_random (l_random E) k 0 s r else Some (r, s)) f)"
  using wp_fill [OF assms(1,2), where f = f and s = s and P = P and g = g] assms(3) by (cases b) (simp_all add: wp_avail)

lemma wp_las_opb:
  assumes "wf_smat A" "steady (scols A) (srows A) k L st"
    and "\<And>y t c. length y = scols A \<Longrightarrow> length t = srows A \<Longrightarrow> wp md g P (f (st\<lparr>w0 := y, opbtemp := t, mxv := c\<rparr>))"
  shows "wp md g P (avail (las_opb A st) f)"
  using opb_total [OF assms(1), of "w3 st" "w0 st" "opbtemp st" "mxv st"] assms(2,3)
  by (auto simp: wp_avail las_opb_def las_sizes_def)

lemma tries_steady:
  assumes "wf_smat A" "rnd_ok md E"
  shows "steady (scols A) (srows A) k L st \<Longrightarrow>
    wp md g (\<lambda>(r, st'). steady (scols A) (srows A) k L st') (start_tries E A (scols A) step t id' rnm2 irand st)"
proof (induction t arbitrary: id' rnm2 irand st)
  case (Suc t)
  have "wp md g (\<lambda>(r, st'). steady (scols A) (srows A) k L st')
      (avail (svd_dcopy (int (scols A)) r 1 (w3 st) 1) (\<lambda>p.
       avail (las_opb A (st\<lparr>w0 := r, w3 := p\<rparr>)) (\<lambda>st1.
       avail (svd_dcopy (int (scols A)) (w0 st1) 1 (w3 st1) 1) (\<lambda>p'.
       avail (svd_ddot (int (scols A)) (w0 st1) 1 p' 1) (\<lambda>d.
         if d > 0 then Ret (d, st1\<lparr>w3 := p'\<rparr>)
         else start_tries E A (scols A) step t (id' + 1) d s (st1\<lparr>w3 := p'\<rparr>))))))"
    if "length r = scols A" for r s
    by (intro wp_dcopy wp_las_opb [OF assms(1)] wp_ddot) (use Suc that in \<open>auto simp: las_sizes_def\<close>)
  then show ?case unfolding start_tries.simps
    by (intro wp_fill_if [OF assms(2)]) (use Suc.prems in \<open>simp_all add: las_sizes_def\<close>)
qed simp

lemma start_purge_steady:
  "steady n m k L st \<Longrightarrow> i + t \<le> k \<Longrightarrow> (g \<Longrightarrow> \<forall>q<i + t. L ! (q + MAXLL) \<noteq> None) \<Longrightarrow>
    wp md g (steady n m k L) (start_purge E n t i st)"
proof (induction t arbitrary: i st)
  case (Suc t)
  note st = steadyD [OF Suc.prems(1)]
  show ?case unfolding start_purge.simps
    by (intro wp_RETRQ [OF st(1)] wp_ddot wp_daxpy Suc.IH) (use Suc.prems in \<open>simp_all add: st\<close>)
qed simp

lemma startv_steady:
  assumes "wf_smat A" "rnd_ok md E" "steady (scols A) (srows A) k L st" "step \<le> k"
    and "g \<Longrightarrow> has_vectors step L"
  shows "wp md g (\<lambda>(r, st'). steady (scols A) (srows A) k L st') (startv E A step (scols A) st)"
proof -
  have v: "g \<Longrightarrow> \<forall>q<0 + step. L ! (q + MAXLL) \<noteq> None" using assms(5) by (simp add: has_vectors_def)
  have "wp md g (\<lambda>(r, st'). steady (scols A) (srows A) k L st')
      (io_bind (start_purge E (scols A) step 0 st) (\<lambda>st.
         avail (svd_ddot (int (scols A)) (w4 st) 1 (w0 st) 1) (\<lambda>t.
         avail (svd_daxpy (int (scols A)) (- t) (w2 st) 1 (w0 st) 1) (\<lambda>r.
         avail (svd_dcopy (int (scols A)) r 1 (w3 st) 1) (\<lambda>p.
         avail (svd_ddot (int (scols A)) p 1 r 1) (\<lambda>t.
           Ret (l_sqrt E (if t \<le> l_eps E * rnm2 then 0 else t), st\<lparr>w0 := r, w3 := p\<rparr>)))))))"
    if "steady (scols A) (srows A) k L st" for st rnm2
    by (rule wp_use [OF start_purge_steady [OF that _ v]])
       (use assms(4) in \<open>auto simp: steadyD intro!: wp_ddot wp_daxpy wp_dcopy\<close>)
  then show ?thesis unfolding startv_def
    by (intro wp_ddot wp_use [OF tries_steady [OF assms(1,2,3)]]) (use assms(3) in \<open>auto simp: las_sizes_def\<close>)
qed


lemma stpone_steady:
  assumes "wf_smat A" "rnd_ok md E" "steady (scols A) (srows A) k L st" "0 < k"
  shows "wp md g (\<lambda>(rt, st'). steady (scols A) (srows A) k L st') (stpone E A (scols A) st)"
  unfolding stpone_def
proof (rule wp_use [OF startv_steady [OF assms(1,2,3)]])
  fix x :: "'a \<times> 'a las"
  assume x: "case x of (r, st') \<Rightarrow> steady (scols A) (srows A) k L st'"
  note st = steadyD [OF this [unfolded case_prod_beta]]
  show "wp md g (\<lambda>(rt, st'). steady (scols A) (srows A) k L st') (case x of (rnm, st) \<Rightarrow>
       if rnm = 0 \<or> lerr st \<noteq> 0 then Ret (None, st)
       else
         avail (svd_datx (int (scols A)) (1 / rnm) (w0 st) 1 (w1 st) 1) (\<lambda>q.
         avail (svd_dscal (int (scols A)) (1 / rnm) (w3 st) 1) (\<lambda>p.
         avail (las_opb A (st\<lparr>w1 := q, w3 := p\<rparr>)) (\<lambda>st.
         avail (svd_ddot (int (scols A)) (w0 st) 1 (w3 st) 1) (\<lambda>a.
         avail (svd_daxpy (int (scols A)) (- a) (w1 st) 1 (w0 st) 1) (\<lambda>r.
         avail (svd_ddot (int (scols A)) r 1 (w3 st) 1) (\<lambda>t.
         avail (svd_daxpy (int (scols A)) (- t) (w1 st) 1 r 1) (\<lambda>r.
         avail (put_at 0 (a + t) (alf st)) (\<lambda>al.
         avail (svd_dcopy (int (scols A)) r 1 (w4 st) 1) (\<lambda>p'.
         avail (svd_ddot (int (scols A)) r 1 p' 1) (\<lambda>d.
           let rnm = l_sqrt E d; anorm = rnm + \<bar>a + t\<bar> in
             Ret (Some (rnm, l_reps E * anorm), st\<lparr>w0 := r, alf := al, w4 := p'\<rparr>))))))))))))"
    unfolding case_prod_beta Let_def
    by (intro wp_vector wp_las_opb [OF assms(1), where k = k and L = L] if_cases) (use x assms(4) in \<open>simp_all add: st case_prod_beta\<close>)
qed (simp_all add: has_vectors_def)

lemma ortbnd_steady:
  assumes "steady n m k L st" "step < k"
  shows "\<exists>st'. ortbnd eps1 step rnm st = Some st' \<and> steady n m k L st'"
proof (cases "step < 1")
  case False
  have len: "length (fold (\<lambda>i ol. ol[i := h i ol]) is ol) = length ol" for h :: "nat \<Rightarrow> 'a list \<Rightarrow> 'a" and "is" ol
    by (induction "is" arbitrary: ol) auto
  define ol where "ol = (if rnm \<noteq> 0
                  then fold (\<lambda>i ol. ol[i := eta_bound eps1 (alf st) (eta st) ol (bet st) step rnm i])
                         [0..<step - 1] (oldeta st)
                  else oldeta st)"
  note st = steadyD [OF assms(1)]
  have "length (ol[step - 1 := eps1]) = k" using st by (simp add: ol_def len)
  then obtain a b where ab: "svd_dswap (int step) (ol[step - 1 := eps1]) 1 (eta st) 1 = Some (a, b)" "length a = k" "length b = k"
    using swap_total [of 0 step "ol[step - 1 := eps1]" "eta st"] assms(2) st False by (auto simp: svd_dswap_def)
  then show ?thesis using False assms st unfolding ortbnd_def ol_def [symmetric] by simp
qed (use assms in \<open>simp add: ortbnd_def\<close>)

lemma purge_vectors_steady:
  "steady n m k L st \<Longrightarrow> i + t \<le> k \<Longrightarrow> (g \<Longrightarrow> \<forall>q<i + t. L ! (q + MAXLL) \<noteq> None) \<Longrightarrow>
    wp md g (\<lambda>(tq, tr, st'). steady n m k L st') (purge_vectors E n t i tq tr st)"
proof (induction t arbitrary: i tq tr st)
  case (Suc t)
  note st = steadyD [OF Suc.prems(1)]
  show ?case unfolding purge_vectors.simps
    by (intro wp_RETRQ [OF st(1)] wp_ddot wp_daxpy Suc.IH) (use Suc.prems in \<open>simp_all add: st\<close>)
qed simp

lemma purge_loop_steady:
  assumes "step \<le> k" "g \<Longrightarrow> has_vectors step L" "ll \<le> step"
  shows "steady n m k L st \<Longrightarrow> wp md g (\<lambda>(rnm, st'). steady n m k L st') (purge_loop E n ll step tol t rnm st)"
proof (induction t arbitrary: rnm st)
  case (Suc t)
  have v: "g \<Longrightarrow> \<forall>q<ll + (step - ll). L ! (q + MAXLL) \<noteq> None" using assms by (simp add: has_vectors_def)
  have "wp md g (\<lambda>(rnm, st'). steady n m k L st')
      (avail (svd_dcopy (int n) (w1 st) 1 (w3 st) 1) (\<lambda>qa.
        avail (svd_ddot (int n) (w0 st) 1 qa 1) (\<lambda>d.
        avail (svd_daxpy (int n) (- d) (w1 st) 1 (w0 st) 1) (\<lambda>r.
        avail (svd_dcopy (int n) r 1 (w4 st) 1) (\<lambda>ra.
        avail (svd_ddot (int n) ra 1 r 1) (\<lambda>d2.
          let rnm = l_sqrt E d2;
              reps1 = l_eps1 E n / l_reps E;
              st = st\<lparr>w0 := r, w3 := qa, w4 := ra\<rparr>
          in if tq \<le> reps1 \<and> tr + \<bar>- d\<bar> \<le> reps1 * rnm then Ret (rnm, st)
             else purge_loop E n ll step tol t rnm st))))))" if s: "steady n m k L st" for st tq tr
    unfolding Let_def
    by (intro wp_vector if_cases Suc.IH) (use s in \<open>simp_all add: steadyD [OF s]\<close>)
  then show ?case using Suc.IH Suc.prems
    by (auto intro!: wp_mono [OF purge_vectors_steady [OF Suc.prems _ v]] simp: assms(1,3))
qed simp

lemma reset_length: "a \<le> b \<Longrightarrow> b \<le> length xs \<Longrightarrow> length (reset_from a b v xs) = length xs"
  by (simp add: reset_from_def)

lemma purge_steady:
  assumes "steady n m k L st" "step < k" "g \<Longrightarrow> has_vectors step L"
  shows "wp md g (\<lambda>(rnm, st'). steady n m k L st') (purge E n ll step rnm tol st)"
proof (cases "step < ll + 2")
  case False
  note st = steadyD [OF assms(1)]
  have "0 < step - (ll + 1)" "step - (ll + 1) \<le> length (drop ll (eta st))" using False assms(2) st by simp_all
  then obtain q where q: "q < step - (ll + 1)" "svd_idamax (int (step - (ll + 1))) (drop ll (eta st)) 1 = Some (int q)"
    using idamax_total by blast
  have e: "vget (eta st) (int q + int ll) = Some (eta st ! (q + ll))"
    using q assms(2) st by (simp add: vget_def nat_int_add)
  have "wp md g (\<lambda>(rnm, st'). steady n m k L st')
      (io_bind (purge_loop E n ll step tol 2 rnm st) (\<lambda>(rnm, st).
              if length (eta st) \<le> step \<or> length (oldeta st) \<le> step then Undef
              else Ret (rnm, st\<lparr>eta := reset_from ll (step + 1) (l_eps1 E n) (eta st),
                                oldeta := reset_from ll (step + 1) (l_eps1 E n) (oldeta st)\<rparr>)))"
    by (rule wp_use [OF purge_loop_steady [OF _ assms(3) _ assms(1)]])
       (use assms(2) False in \<open>auto simp: steadyD reset_length\<close>)
  then show ?thesis unfolding purge_def q(2) avail_def option.case e using False assms(1) by simp
qed (use assms in \<open>simp add: purge_def\<close>)


section \<open>Lanczos steps\<close>

lemma first_vectors_steady:
  "steady n m k L st \<Longrightarrow> i + t \<le> k \<Longrightarrow> (g \<Longrightarrow> has_vectors (i + t) L) \<Longrightarrow>
    wp md g (steady n m k L) (first_vectors E n t i st)"
proof (induction t arbitrary: i st)
  case (Suc t)
  note st = steadyD [OF Suc.prems(1)]
  have h: "g \<Longrightarrow> i < MAXLL \<Longrightarrow> L ! i \<noteq> None" "g \<Longrightarrow> L ! (i + MAXLL) \<noteq> None" "g \<Longrightarrow> has_vectors (i + 1 + t) L"
    using Suc.prems(3) by (simp_all add: has_vectors_def)
  show ?case unfolding first_vectors.simps
    by (intro wp_RETRP [OF st(1)] wp_RETRQ [OF st(1)] wp_ddot wp_daxpy wp_put_at Suc.IH)
       (use Suc.prems(1,2) h in \<open>simp_all add: st\<close>)
qed simp

lemma wp_ortbnd:
  assumes "steady n m k L st" "step < k" "\<And>st'. steady n m k L st' \<Longrightarrow> wp md g P (f st')"
  shows "wp md g P (avail (ortbnd eps1 step rnm st) f)"
proof -
  obtain st' where "ortbnd eps1 step rnm st = Some st'" "steady n m k L st'" using ortbnd_steady [OF assms(1,2)] by blast
  then show ?thesis using assms(3) by (simp add: wp_avail)
qed

lemma wp_if_cell:
  "i < length xs \<Longrightarrow> (\<And>l. wp md g P (f l)) \<Longrightarrow> wp md g P (avail (if b then map_option h (cell xs i) else Some d) f)"
  by (simp add: wp_avail cell_def)

lemma wp_first:
  assumes "steady n m k L st" "t \<le> k" "g \<Longrightarrow> has_vectors t L" "\<And>st'. steady n m k L st' \<Longrightarrow> wp md g P (f st')"
  shows "wp md g P (io_bind (first_vectors E n t 0 st) f)"
  by (rule wp_use [OF first_vectors_steady [OF assms(1)]]) (use assms in simp_all)

lemma wp_purge:
  assumes "steady n m k L st" "step < k" "g \<Longrightarrow> has_vectors step L" "\<And>r st'. steady n m k L st' \<Longrightarrow> wp md g P (f r st')"
  shows "wp md g P (io_bind (purge E n ll step rnm tol st) (\<lambda>(r, st). f r st))"
  by (rule wp_use [OF purge_steady [OF assms(1-3)]]) (use assms(4) in auto)

lemma has_fewer: "has_vectors j L \<Longrightarrow> i \<le> j \<Longrightarrow> has_vectors i L"
  by (simp add: has_vectors_def)

lemma orthogonal_steady:
  assumes "steady n m k L st" "j < k" "g \<Longrightarrow> has_vectors j L"
  shows "wp md g (\<lambda>(ll', rnm', tol', st'). steady n m k L st')
     (avail (svd_ddot (int n) (w0 st) 1 (w4 st) 1) (\<lambda>t.
      avail (svd_daxpy (int n) (- t) (w2 st) 1 (w0 st) 1) (\<lambda>r.
      avail (cell (bet st) j) (\<lambda>b.
      avail (svd_ddot (int n) r 1 (w3 st) 1) (\<lambda>t'.
      avail (svd_daxpy (int n) (- t') (w1 st) 1 r 1) (\<lambda>r.
      avail (svd_dcopy (int n) r 1 (w4 st) 1) (\<lambda>p'.
      avail (svd_ddot (int n) r 1 p' 1) (\<lambda>d.
      avail (ortbnd (l_eps1 E n) j (l_sqrt E d)
         (st\<lparr>w0 := r, w4 := p', bet := (bet st)[j := B b t], alf := (alf st)[j := a + t']\<rparr>)) (\<lambda>st.
      io_bind (purge E n ll j (l_sqrt E d) (T b t t' d) st) (\<lambda>(rnm, st).
        Ret (ll, if rnm \<le> T b t t' d then 0 else rnm, T b t t' d, st)))))))))))"
proof -
  note st = steadyD [OF assms(1)]
  show ?thesis
    by (intro wp_vector wp_ortbnd [where n = n and m = m and k = k and L = L]
          wp_purge [where n = n and m = m and k = k and L = L])
       (use assms in \<open>simp_all add: st\<close>)
qed

lemma take_step_steady:
  assumes "wf_smat A" "steady (scols A) (srows A) k L st" "0 < j" "j < k" "g \<Longrightarrow> has_vectors j L"
  shows "wp md g (\<lambda>(ll', rnm', tol', st'). steady (scols A) (srows A) k L st') (take_step E A (scols A) j ll rnm st)"
proof -
  note st = steadyD [OF assms(2)]
  have h: "g \<Longrightarrow> has_vectors (min ll' (j - 1)) L" for ll' using assms(5) by (rule has_fewer) simp_all
  show ?thesis unfolding take_step_def Let_def
    by (intro wp_datx wp_dscal wp_las_opb [OF assms(1), where k = k and L = L] wp_daxpy wp_ddot wp_put_at wp_if_cell
          wp_first [where n = "scols A" and m = "srows A" and k = k and L = L] orthogonal_steady)
       (use assms h in \<open>simp_all add: st\<close>)
qed


lemma has_next:
  assumes "has_vectors (j - 1) L" "0 < j" "length L = k + MAXLL" "j \<le> k"
  shows "has_vectors j ((L[j - 1 + MAXLL := Some v])[j - 1 := Some u])"
    and "MAXLL \<le> j - 1 \<Longrightarrow> has_vectors j (L[j - 1 + MAXLL := Some v])"
  using assms by (auto simp: has_vectors_def nth_list_update less_Suc_eq_le MAXLL_def)

lemma stored_steady:
  assumes "steady n m k L st" "length v = n"
  shows "steady n m k (L[i := Some v]) (st\<lparr>lanstore := L[i := Some v]\<rparr>)"
proof -
  have "length w = n" if "Some w \<in> set (L[i := Some v])" for w
    using that assms set_update_subset_insert [of L i "Some v"] by (auto simp: las_sizes_def)
  then show ?thesis using assms by (auto simp: las_sizes_def)
qed

lemma next_vectors_steady:
  assumes "steady n m k L st" "0 < j" "j < k" "g \<Longrightarrow> has_vectors (j - 1) L"
  shows "wp md g (\<lambda>st'. \<exists>L'. steady n m k L' st' \<and> (g \<longrightarrow> has_vectors j L')) (next_vectors E n j rnm st)"
proof -
  define s where "s = st\<lparr>w1 := w2 st, w2 := w1 st, w3 := w4 st, w4 := w3 st\<rparr>"
  have s: "steady n m k L s" using assms(1) by (auto simp: s_def las_sizes_def)
  note st = steadyD [OF s]
  have j: "j - 1 < k" using assms(2,3) by simp
  show ?thesis unfolding next_vectors_def s_def [symmetric] Let_def
  proof (intro wp_STORQ [OF st(1) j])
    show "length (w2 s) = n" by (rule st)
  next
    fix v :: "'a list"
    assume v: "length v = n"
    define t where "t = s\<lparr>lanstore := (lanstore s)[j - 1 + MAXLL := Some v]\<rparr>"
    have t: "steady n m k (L[j - 1 + MAXLL := Some v]) t" using stored_steady [OF s v] st(2) by (simp add: t_def)
    note t' = steadyD [OF t]
    show "wp md g (\<lambda>st'. \<exists>L'. steady n m k L' st' \<and> (g \<longrightarrow> has_vectors j L'))
       (io_bind (if j - 1 < MAXLL then las_store E n STORP (j - 1) (w4 t) t else Ret (w4 t, t))
          (\<lambda>(_, st). avail (put_at j rnm (bet st)) (\<lambda>be. Ret (st\<lparr>bet := be\<rparr>))))"
    proof (cases "j - 1 < MAXLL")
      case True
      show ?thesis unfolding if_P [OF True]
      proof (intro wp_STORP [OF t'(1) True] wp_put_at)
        fix u :: "'a list"
        assume u: "length u = n"
        let ?L = "(L[j - 1 + MAXLL := Some v])[j - 1 := Some u]"
        have "steady n m k ?L (t\<lparr>lanstore := (lanstore t)[j - 1 := Some u]\<rparr>)"
          using stored_steady [OF t u, of "j - 1"] t'(2) by simp
        moreover have "g \<Longrightarrow> has_vectors j ?L" using assms st(15) by (intro has_next(1) [where k = k]) auto
        ultimately show "wp md g (\<lambda>st'. \<exists>L'. steady n m k L' st' \<and> (g \<longrightarrow> has_vectors j L'))
            (Ret ((t\<lparr>lanstore := (lanstore t)[j - 1 := Some u]\<rparr>)\<lparr>bet := (bet (t\<lparr>lanstore := (lanstore t)[j - 1 := Some u]\<rparr>))[j := rnm]\<rparr>))"
          using t' by (auto intro!: exI [of _ ?L])
      qed (use assms t' in simp_all)
    next
      case False
      have "g \<Longrightarrow> has_vectors j (L[j - 1 + MAXLL := Some v])"
        using assms st(15) False by (intro has_next(2) [where k = k]) auto
      then show ?thesis unfolding if_not_P [OF False] io_bind.simps prod.case
        using assms(3) t t' by (intro wp_put_at) (auto intro!: exI [of _ "L[j - 1 + MAXLL := Some v]"])
    qed
  qed
qed


text \<open>
  What \<^verbatim>\<open>lanczos_step\<close> leaves: when it stops early, the vectors before the index; without an error
  those before the last step.
\<close>

definition stepped :: "bool \<Rightarrow> nat \<Rightarrow> nat \<Rightarrow> nat \<Rightarrow> nat \<Rightarrow> nat \<Rightarrow> nat \<times> nat \<times> bool \<times> ('v \<times> 'v) \<times> 'v las \<Rightarrow> bool" where
  "stepped g n m k j hi = (\<lambda>(j', ll, enough, rt, st).
     (enough \<longrightarrow> j \<le> j' \<and> j' < hi) \<and>
     (\<exists>L. steady n m k L st \<and> (g \<longrightarrow> (if enough then has_vectors j' L else lerr st \<noteq> 0 \<or> has_vectors (hi - 1) L))))"

lemma lanczos_loop_steady:
  assumes "wf_smat A" "rnd_ok md E"
  shows "steady (scols A) (srows A) k L st \<Longrightarrow> 0 < j \<Longrightarrow> j + t \<le> k \<Longrightarrow> (g \<Longrightarrow> has_vectors (j - 1) L) \<Longrightarrow>
    wp md g (stepped g (scols A) (srows A) k j (j + t)) (lanczos_loop E A (scols A) entry t j ll rnm tol st)"
proof (induction t arbitrary: j ll rnm tol L st)
  case 0
  then show ?case by (auto simp: stepped_def)
next
  case (Suc t)
  let ?st = "steady (scols A) (srows A) k"
  let ?step = "\<lambda>rnm st. io_bind (take_step E A (scols A) j ll rnm st) (\<lambda>(ll, rnm, tol, st).
      lanczos_loop E A (scols A) entry t (j + 1) ll rnm tol st)"
  let ?Q = "stepped g (scols A) (srows A) k j (j + Suc t)"
  have step: "wp md g ?Q (?step rnm st)" if s: "?st L st" and h: "g \<Longrightarrow> has_vectors j L" for rnm st L
  proof (rule wp_use [OF take_step_steady [OF assms(1) s Suc.prems(2) _ h]])
    show "j < k" using Suc.prems(3) by simp
    fix x :: "nat \<times> 'a \<times> 'a \<times> 'a las"
    assume "case x of (ll', rnm', tol', st') \<Rightarrow> ?st L st'"
    then have "wp md g (stepped g (scols A) (srows A) k (j + 1) (j + 1 + t))
        (lanczos_loop E A (scols A) entry t (j + 1) (fst x) (fst (snd x)) (fst (snd (snd x))) (snd (snd (snd x))))"
      using Suc.prems(3) h by (intro Suc.IH [of L]) (auto simp: case_prod_beta)
    then show "wp md g ?Q (case x of (ll, rnm, tol, st) \<Rightarrow> lanczos_loop E A (scols A) entry t (j + 1) ll rnm tol st)"
      unfolding case_prod_beta by (rule wp_mono) (auto simp: stepped_def split: if_splits)
  qed
  have "wp md g ?Q (if rnm = 0 then
       io_bind (startv E A j (scols A) st) (\<lambda>(rnm, st).
         if lerr st \<noteq> 0 then Ret (j, ll, False, entry, st)
         else if rnm = 0 then Ret (j, ll, True, (rnm, tol), st\<lparr>w1 := w2 st, w2 := w1 st\<rparr>)
         else ?step rnm st)
     else ?step rnm st)" if s: "?st L st" and h: "g \<Longrightarrow> has_vectors j L" for st L
  proof (cases "rnm = 0")
    case True
    have "wp md g (\<lambda>(r, st'). ?st L st') (startv E A j (scols A) st)"
      using Suc.prems(3) h by (intro startv_steady [OF assms s]) auto
    then show ?thesis unfolding if_P [OF True]
    proof (rule wp_use)
      fix x :: "'a \<times> 'a las"
      assume x: "case x of (r, st') \<Rightarrow> ?st L st'"
      then have "?st L ((snd x)\<lparr>w1 := w2 (snd x), w2 := w1 (snd x)\<rparr>)" by (auto simp: las_sizes_def)
      then show "wp md g ?Q (case x of (rnm, st) \<Rightarrow>
         if lerr st \<noteq> 0 then Ret (j, ll, False, entry, st)
         else if rnm = 0 then Ret (j, ll, True, (rnm, tol), st\<lparr>w1 := w2 st, w2 := w1 st\<rparr>)
         else ?step rnm st)"
        using x step [of L "snd x" "fst x"] h by (auto simp: stepped_def case_prod_beta)
    qed
  qed (use step [OF s h] in simp)
  then have *: "wp md g ?Q (if rnm = 0 then
       io_bind (startv E A j (scols A) st) (\<lambda>(rnm, st).
         if lerr st \<noteq> 0 then Ret (j, ll, False, entry, st)
         else if rnm = 0 then Ret (j, ll, True, (rnm, tol), st\<lparr>w1 := w2 st, w2 := w1 st\<rparr>)
         else ?step rnm st)
     else ?step rnm st)" if "\<exists>L'. ?st L' st \<and> (g \<longrightarrow> has_vectors j L')" for st
    using that by blast
  have j: "j < k" using Suc.prems(3) by simp
  show ?case unfolding lanczos_loop.simps
    by (rule wp_use [OF next_vectors_steady [OF Suc.prems(1,2) j Suc.prems(4)]]) (simp_all only: *)
qed

lemma lanczos_step_stored:
  assumes "wf_smat A" "rnd_ok md E" "steady (scols A) (srows A) k L st" "0 < first" "first \<le> last'" "last' \<le> k"
    and "g \<Longrightarrow> has_vectors (first - 1) L"
  shows "wp md g (stepped g (scols A) (srows A) k first last') (lanczos_step E A (scols A) first last' ll rt st)"
  using lanczos_loop_steady [where entry = rt and t = "last' - first" and ll = ll and rnm = "fst rt" and tol = "snd rt",
      OF assms(1-4) _ assms(7)] assms(5,6)
  by (simp add: lanczos_step_def)


text \<open>
  C12: The store of the Lanczos vectors: as long as the vectors before the first step are stored,
  \<^verbatim>\<open>lanczos_step\<close> accesses nothing outside an array and asks for no vector that is not stored, in
  every arithmetic. When it stops early, at a start vector that cannot be found, or at the last
  step, the vectors before this step are stored again.
\<close>

theorem lanczos_step_keeps:
  assumes "wf_smat A" and "random_total E" and "las_ok (scols A) (srows A) k st" and "has_vectors (first - 1) (lanstore st)"
    and "0 < first" and "first \<le> last'" and "last' \<le> k"
  shows "\<exists>j ll' enough rt' st'. fst (run os tr (lanczos_step E A (scols A) first last' ll rt st)) = Returned (j, ll', enough, rt', st') \<and>
    las_ok (scols A) (srows A) k st' \<and>
    (if enough then first \<le> j \<and> j < last' \<and> has_vectors j (lanstore st')
     else lerr st' \<noteq> 0 \<or> has_vectors (last' - 1) (lanstore st'))"
proof -
  have r: "rnd_ok (False, False) E" using assms(2) by (simp add: rnd_ok_def)
  have "wp (False, False) True (stepped True (scols A) (srows A) k first last') (lanczos_step E A (scols A) first last' ll rt st)"
    by (rule lanczos_step_stored [OF assms(1) r _ assms(5-7), where L = "lanstore st"])
       (use assms(3,4) in \<open>simp_all add: steady_def\<close>)
  from wp_run [OF this, of os tr, simplified] obtain j ll' enough rt' st' where
    "fst (run os tr (lanczos_step E A (scols A) first last' ll rt st)) = Returned (j, ll', enough, rt', st')"
    "stepped True (scols A) (srows A) k first last' (j, ll', enough, rt', st')"
    by (metis surj_pair)
  then show ?thesis
    by (intro exI [of _ j] exI [of _ ll'] exI [of _ enough] exI [of _ rt'] exI [of _ st'])
       (auto simp: stepped_def steady_def split: if_splits)
qed

end
