(* ===== verification/LasShapes.thy ===== *)
theory LasShapes
  imports LasSafety
begin

text \<open>
  The types of the matrix operations of \<^verbatim>\<open>c/SVDLIBC\<close>: matrices and vectors with their sizes.
\<close>

definition smat_type :: "nat \<Rightarrow> nat \<Rightarrow> 'v smat \<Rightarrow> bool" where
  "smat_type m n S \<longleftrightarrow> wf_smat S \<and> srows S = m \<and> scols S = n"

definition dmat_type :: "nat \<Rightarrow> nat \<Rightarrow> 'v dmat \<Rightarrow> bool" where
  "dmat_type m n D \<longleftrightarrow> wf_dmat D \<and> drows D = m \<and> dcols D = n"

lemma opa_total:
  assumes "wf_smat A" "length x = scols A" "srows A \<le> length y"
  shows "\<exists>z. svd_opa A x y k = Some (k + 1, z) \<and> length z = length y"
  using opa_cols_fold [OF assms(1,2), of 0 "scols A" "zeroed (srows A) y"] assms(3)
  by (simp add: svd_opa_def length_zeroed length_acc)

text \<open>
  C14: The operations on matrices have types: on a well-formed sparse matrix with \<open>m\<close> rows and \<open>n\<close>
  columns, none of them empty, both conversions and both transposes have no access outside an array
  and yield well-formed matrices of the right sizes, and the products take and yield vectors of the
  lengths \<open>m\<close> and \<open>n\<close>, in every arithmetic and whatever uninitialised memory holds.
\<close>

theorem svd_matrix_types:
  assumes "smat_type m n S" and "0 < m" and "0 < n" and "length x = n" and "length y = n" and "length t = m"
  shows "\<exists>D E N z y' t'. svdConvertStoD S = Some D \<and> dmat_type m n D \<and> smat_type m n (svdConvertDtoS h D) \<and>
    svdTransposeD D = Some E \<and> dmat_type n m E \<and> svdTransposeS h S = Some N \<and> smat_type n m N \<and>
    svd_opa S x t k = Some (k + 1, z) \<and> length z = m \<and>
    svd_opb S x y t k = Some (k + 2, y', t') \<and> length y' = n \<and> length t' = m"
proof -
  have S: "wf_smat S" "srows S = m" "scols S = n" using assms(1) by (simp_all add: smat_type_def)
  obtain D where D: "svdConvertStoD S = Some D" "dmat_type m n D"
    using svdConvertStoD_entries [OF S(1)] S assms(2) by (auto simp: dmat_type_def)
  obtain E where E: "svdTransposeD D = Some E" "dmat_type n m E"
    using svdTransposeD_transposes [of D] D(2) assms(3) by (auto simp: dmat_type_def)
  obtain N where N: "svdTransposeS h S = Some N" "smat_type n m N"
    using svdTransposeS_entries [OF S(1), of h] S assms(2) by (auto simp: smat_type_def)
  have "smat_type m n (svdConvertDtoS h D)"
    using svdConvertDtoS_entries(1-3) [of h D] D(2) by (simp add: smat_type_def dmat_type_def)
  moreover obtain z where "svd_opa S x t k = Some (k + 1, z)" "length z = m"
    using opa_total [OF S(1), of x t k] S assms by auto
  moreover obtain y' t' where "svd_opb S x y t k = Some (k + 2, y', t')" "length y' = n" "length t' = m"
    using opb_total [OF S(1), of x y t k] S assms by auto
  ultimately show ?thesis using D E N by blast
qed

theorem svd_matrix_types_witness:
  "\<exists>N z. svdTransposeS sample_heap sample_smat = Some N \<and> smat_type 3 2 N \<and>
    svd_opa sample_smat [1, 2, 3] [9, 9] 0 = Some (1, z) \<and> length z = 2"
proof -
  have "smat_type 2 3 sample_smat" using sample_wf(1) by (simp add: smat_type_def sample_smat_def)
  from svd_matrix_types [OF this, of "[1, 2, 3]" "[0, 0, 0]" "[9, 9]" sample_heap 0] show ?thesis by auto
qed

end
