(* ===== verification/SvdArgs.thy ===== *)
theory SvdArgs
  imports LasSolve
begin

text \<open>
  The main program of \<^verbatim>\<open>c/SVDLIBC\<close> (\<^verbatim>\<open>main.c\<close>): its options, and the path that loads a matrix,
  decomposes it and writes the result. The loop over the options is shown to set what the words
  of the command line say, in any order and spelling.

  \<^verbatim>\<open>getopt\<close> is the one of POSIX: it stops at the first word that is not an option. What it keeps
  between two calls is the rest of the word it is in, and the words behind that one, so that
  \<^verbatim>\<open>argc - optind\<close> is their number.
\<close>

section \<open>Options\<close>

text \<open>
  Parameters: those of the decomposition, \<^verbatim>\<open>atof\<close>, the constants \<^verbatim>\<open>1e-30\<close> and \<^verbatim>\<open>1e-6\<close>, the message
  of \<^verbatim>\<open>getopt\<close> for an unknown option or one whose argument is missing, and the text of the
  difference of two times.
\<close>

record 'v mainenv =
  m_las :: "'v lasenv"
  m_atof :: "string \<Rightarrow> 'v"
  m_tiny :: 'v
  m_kappa :: 'v
  m_complaint :: "string \<Rightarrow> bool \<Rightarrow> char \<Rightarrow> string"
  m_seconds :: "int \<Rightarrow> int \<Rightarrow> string"

datatype algorithms = LAS2

record 'v opts =
  o_turn :: bool
  o_read :: file_format
  o_write :: file_format
  o_algorithm :: algorithms
  o_iterations :: int
  o_dimensions :: int
  o_root :: "string option"
  o_ends :: "'v \<times> 'v"
  o_kappa :: 'v
  o_verbosity :: int

definition opts0 :: "('v :: uminus) mainenv \<Rightarrow> 'v opts" where
  "opts0 M = \<lparr>o_turn = False, o_read = SVD_F_ST, o_write = SVD_F_DT, o_algorithm = LAS2, o_iterations = 0,
     o_dimensions = 0, o_root = None, o_ends = (- m_tiny M, m_tiny M), o_kappa = m_kappa M, o_verbosity = 1\<rparr>"

definition optstring :: string where
  "optstring = ''a:c:d:e:hk:i:o:r:tv:w:''"

text \<open>Whether a character is an option, and whether it takes an argument.\<close>

fun find_opt :: "string \<Rightarrow> char \<Rightarrow> bool option" where
  "find_opt [] x = None"
| "find_opt (c # s) x =
     (if c = x \<and> x \<noteq> CHR '':'' then Some (s \<noteq> [] \<and> hd s = CHR '':'') else find_opt s x)"

datatype got_opt = GEnd "string list" | GBad bool char | GOpt char string string "string list"

definition scan_opt :: "char \<Rightarrow> string \<Rightarrow> string list \<Rightarrow> got_opt" where
  "scan_opt c place ws =
     (case find_opt optstring c of
        None \<Rightarrow> GBad False c
      | Some False \<Rightarrow> GOpt c '''' place ws
      | Some True \<Rightarrow>
          if place \<noteq> '''' then GOpt c place '''' ws
          else case ws of [] \<Rightarrow> GBad True c | w # ws' \<Rightarrow> GOpt c w '''' ws')"

definition getopt :: "string \<Rightarrow> string list \<Rightarrow> got_opt" where
  "getopt place ws =
     (case place of
        c # place' \<Rightarrow> scan_opt c place' ws
      | [] \<Rightarrow>
          (case ws of
             [] \<Rightarrow> GEnd []
           | w # ws' \<Rightarrow>
               if w = ''--'' then GEnd ws'
               else if w = '''' \<or> w = ''-'' \<or> hd w \<noteq> CHR ''-'' then GEnd ws
               else scan_opt (w ! 1) (drop 2 w) ws'))"

definition usage :: "string \<Rightarrow> string list" where
  "usage progname =
     [''SVD Version 1.34'' @ newline @
      ''written by Douglas Rohde based on code adapted from SVDPACKC'' @ newline @ newline,
      ''usage: '' @ progname @ '' [options] matrix_file'' @ newline,
      ''  -a algorithm   Sets the algorithm to use.  They include:'' @ newline @
      ''       las2 (default)'' @ newline @
      ''  -c infile outfile'' @ newline @
      ''                 Convert a matrix file to a new format (using -r and -w)'' @ newline @
      ''                 Then exit immediately'' @ newline @
      ''  -d dimensions  Desired SVD triples (default is all)'' @ newline @
      ''  -e bound       Minimum magnitude of wanted eigenvalues (1e-30)'' @ newline @
      ''  -k kappa       Accuracy parameter for las2 (1e-6)'' @ newline @
      ''  -i iterations  Algorithm iterations'' @ newline @
      ''  -o file_root   Root of files in which to store resulting U,S,V'' @ newline @
      ''  -r format      Input matrix file format'' @ newline @
      ''       sth       SVDPACK Harwell-Boeing text format'' @ newline @
      ''       st        Sparse text (default)'' @ newline @
      ''       dt        Dense text'' @ newline @
      ''       sb        Sparse binary'' @ newline @
      ''       db        Dense binary'' @ newline @
      ''  -v verbosity   Default 1.  0 for no feedback, 2 for more'' @ newline @
      ''  -w format      Output matrix file format (see -r for formats)'' @ newline @
      ''                   (default is dense text)'' @ newline]"

definition printUsage :: "string \<Rightarrow> 'a io" where
  "printUsage progname = io_bind (syscalls (map Err (usage progname))) (\<lambda>_. Halt 1)"

text \<open>One option with its argument; \<open>ws\<close> are the words behind.\<close>

definition option_step ::
  "('v :: {zero, uminus}) mainenv \<Rightarrow> string \<Rightarrow> char \<Rightarrow> string \<Rightarrow> string list \<Rightarrow> 'v opts \<Rightarrow> 'v opts io"
where
  "option_step M prog c arg ws o' =
     (if c = CHR ''a'' then
        if strcaseeq arg ''las2'' then Ret (o'\<lparr>o_algorithm := LAS2\<rparr>) else main_fatalError (''unknown algorithm: '' @ arg)
      else if c = CHR ''c'' then
        case ws of
          [outfile] \<Rightarrow>
            io_bind (convert_file (l_heap (m_las M)) (l_fmt (m_las M)) (o_verbosity o') (o_turn o') (o_read o') (o_write o')
              arg outfile) (\<lambda>_. Halt 0)
        | _ \<Rightarrow> printUsage prog
      else if c = CHR ''d'' then
        if atoi arg < 0 then main_fatalError ''dimensions must be non-negative'' else Ret (o'\<lparr>o_dimensions := atoi arg\<rparr>)
      else if c = CHR ''e'' then Ret (o'\<lparr>o_ends := (- m_atof M arg, m_atof M arg)\<rparr>)
      else if c = CHR ''k'' then Ret (o'\<lparr>o_kappa := m_atof M arg\<rparr>)
      else if c = CHR ''i'' then Ret (o'\<lparr>o_iterations := atoi arg\<rparr>)
      else if c = CHR ''o'' then Ret (o'\<lparr>o_root := Some arg\<rparr>)
      else if c = CHR ''r'' then
        case format_arg arg of Some f \<Rightarrow> Ret (o'\<lparr>o_read := f\<rparr>) | None \<Rightarrow> main_fatalError (''bad file format: '' @ arg)
      else if c = CHR ''t'' then Ret (o'\<lparr>o_turn := True\<rparr>)
      else if c = CHR ''v'' then Ret (o'\<lparr>o_verbosity := atoi arg\<rparr>)
      else if c = CHR ''w'' then
        case format_arg arg of Some f \<Rightarrow> Ret (o'\<lparr>o_write := f\<rparr>) | None \<Rightarrow> main_fatalError (''bad file format: '' @ arg)
      else printUsage prog)"

section \<open>Decomposing a matrix file\<close>

text \<open>\<^verbatim>\<open>timer\<close>: the processor time, in milliseconds; the division by 1000 is part of \<^term>\<open>m_seconds\<close>.\<close>

definition usage_field :: "reply \<Rightarrow> nat \<Rightarrow> int" where
  "usage_field r i = (if i < length (ready r) then ready r ! i else 0)"

definition timer :: "int io" where
  "timer = Sys (Misc ''getrusage(RUSAGE_SELF)'') (\<lambda>r. Ret (usage_field r 0 * 1000 + usage_field r 1 div 1000))"

definition imin :: "int \<Rightarrow> int \<Rightarrow> int" where
  "imin a b = (if a < b then a else b)"

text \<open>The times and the numbers of products with the matrix and the transposed one.\<close>

definition show_counts :: "'v mainenv \<Rightarrow> int \<Rightarrow> int \<Rightarrow> int \<Rightarrow> nat \<Rightarrow> nat \<Rightarrow> unit io" where
  "show_counts M verbosity t0 t1 mults d =
     (let half = (int mults - int d) sdiv 2 in
      if verbosity > 0 then
        syscalls
          [Out (newline @ ''ELAPSED CPU TIME          = '' @ m_seconds M t0 t1 @ '' sec.'' @ newline),
           Out (''MULTIPLICATIONS BY A      = '' @ pad_left 6 (int_str (half + int d)) @ newline),
           Out (''MULTIPLICATIONS BY A^T    = '' @ pad_left 6 (int_str half) @ newline)]
      else Ret ())"

text \<open>The three files; \<^verbatim>\<open>filename\<close> has 128 characters.\<close>

definition out_name :: "string \<Rightarrow> string \<Rightarrow> (string \<Rightarrow> 'a io) \<Rightarrow> 'a io" where
  "out_name stem suffix f = (if 128 \<le> length (stem @ suffix) then Undef else f (stem @ suffix))"

definition write_triples ::
  "('v :: zero) mainenv \<Rightarrow> int list \<Rightarrow> file_format \<Rightarrow> string \<Rightarrow> 'v svdrec \<Rightarrow> int list io"
where
  "write_triples M ps writeFormat stem R =
     (let h = l_heap (m_las M); F = l_fmt (m_las M) in
      out_name stem ''-Ut'' (\<lambda>n. io_bind (svdWriteDenseMatrix h F ps (rUt R) n writeFormat) (\<lambda>ps.
      out_name stem ''-S'' (\<lambda>n. io_bind (svdWriteDenseArray F ps (rS R) (int (rd R)) n False) (\<lambda>ps.
      out_name stem ''-Vt'' (\<lambda>n. svdWriteDenseMatrix h F ps (rVt R) n writeFormat))))))"

text \<open>What follows the loop over the options. The error code is still 0.\<close>

definition decompose ::
  "('v :: {zero, one, ord, plus, minus, uminus, times, inverse, abs}) mainenv \<Rightarrow> 'v opts \<Rightarrow> 'v smat \<Rightarrow> int list \<Rightarrow> int io"
where
  "decompose M o' A ps =
     (let v = o_verbosity o';
          dimensions = (if o_dimensions o' \<le> 0 then imin (int (srows A)) (int (scols A)) else o_dimensions o')
      in
      io_bind timer (\<lambda>t0.
      io_bind (tell v (''Computing the SVD...'' @ newline)) (\<lambda>_.
      if o_algorithm o' = LAS2 then
        io_bind (svdLAS2 ((m_las M)\<lparr>l_ierr := 0\<rparr>) v A dimensions (o_iterations o') (o_ends o') (o_kappa o')) (\<lambda>(R, mults).
        case R of
          None \<Rightarrow> main_fatalError ''error in svdLAS2''
        | Some R \<Rightarrow>
            io_bind timer (\<lambda>t1.
            io_bind (show_counts M v t0 t1 mults (rd R)) (\<lambda>_.
            case o_root o' of
              None \<Rightarrow> Ret 0
            | Some stem \<Rightarrow> io_bind (write_triples M ps (o_write o') stem R) (\<lambda>_. Ret 0))))
      else main_fatalError ''unknown algorithm'')))"

definition main_run ::
  "('v :: {zero, one, ord, plus, minus, uminus, times, inverse, abs}) mainenv \<Rightarrow> string \<Rightarrow> 'v opts \<Rightarrow> string list \<Rightarrow> int io"
where
  "main_run M prog o' operands =
     (case operands of
        [file] \<Rightarrow>
          (let v = o_verbosity o'; h = l_heap (m_las M) in
           io_bind (tell v (''Loading the matrix...'' @ newline)) (\<lambda>_.
           io_bind (svdLoadSparseMatrix h (l_fmt (m_las M)) [] file (o_read o')) (\<lambda>(A, ps).
           case A of
             None \<Rightarrow> main_fatalError (''failed to read sparse matrix.  Did you specify the correct file type with '' @
                                      ''the -r argument?'')
           | Some A \<Rightarrow>
               io_bind (if o_turn o' then tell v (''  Transposing the matrix...'' @ newline) else Ret ()) (\<lambda>_.
               avail (if o_turn o' then svdTransposeS h A else Some A) (\<lambda>A. decompose M o' A ps)))))
      | _ \<Rightarrow> printUsage prog)"

section \<open>The main program\<close>

definition words_left :: "string \<Rightarrow> string list \<Rightarrow> nat" where
  "words_left place ws = length place + (\<Sum>w\<leftarrow>ws. length w + 1)"

lemma scan_opt_shrinks: "scan_opt c place ws = GOpt c' arg place' ws' \<Longrightarrow> words_left place' ws' \<le> words_left place ws"
  by (auto simp: scan_opt_def words_left_def split: option.splits bool.splits if_splits list.splits)

lemma getopt_shrinks: "getopt place ws = GOpt c arg place' ws' \<Longrightarrow> words_left place' ws' < words_left place ws"
  by (auto simp: getopt_def words_left_def dest!: scan_opt_shrinks split: list.splits if_splits)

function main_loop ::
  "('v :: {zero, one, ord, plus, minus, uminus, times, inverse, abs}) mainenv \<Rightarrow> string \<Rightarrow> string \<Rightarrow> string list \<Rightarrow> 'v opts \<Rightarrow> int io"
where
  "main_loop M prog place ws o' =
     (case getopt place ws of
        GEnd operands \<Rightarrow> main_run M prog o' operands
      | GBad missing c \<Rightarrow> Sys (Err (m_complaint M prog missing c)) (\<lambda>_. printUsage prog)
      | GOpt c arg place' ws' \<Rightarrow> io_bind (option_step M prog c arg ws' o') (\<lambda>o'. main_loop M prog place' ws' o'))"
  by pat_completeness auto

termination
  by (relation "measure (\<lambda>(M, prog, place, ws, o'). words_left place ws)") (auto simp: getopt_shrinks)

declare main_loop.simps [simp del]

definition svd_main ::
  "('v :: {zero, one, ord, plus, minus, uminus, times, inverse, abs}) mainenv \<Rightarrow> string list \<Rightarrow> int io"
where
  "svd_main M argv = main_loop M (hd argv) '''' (tl argv) (opts0 M)"

section \<open>What the options set\<close>

text \<open>A setting is an option, its argument and whether this is written in the same word.\<close>

definition option_words :: "char \<times> string \<times> bool \<Rightarrow> string list" where
  "option_words s =
     (let (c, arg, attached) = s in
      if c = CHR ''t'' then [''-t''] else if attached then [CHR ''-'' # c # arg] else [[CHR ''-'', c], arg])"

text \<open>The options other than \<^verbatim>\<open>-c\<close> and \<^verbatim>\<open>-h\<close>, with the arguments that are accepted.\<close>

definition setting_ok :: "char \<times> string \<times> bool \<Rightarrow> bool" where
  "setting_ok s \<longleftrightarrow>
     (let (c, arg, attached) = s in
      c = CHR ''t'' \<or>
      (c \<in> {CHR ''e'', CHR ''k'', CHR ''i'', CHR ''o'', CHR ''v''} \<or> c = CHR ''d'' \<and> 0 \<le> atoi arg \<or>
       c = CHR ''a'' \<and> strcaseeq arg ''las2'' \<or> c \<in> {CHR ''r'', CHR ''w''} \<and> format_arg arg \<noteq> None) \<and>
      (attached \<longrightarrow> arg \<noteq> ''''))"

definition last_arg :: "char \<Rightarrow> (char \<times> string \<times> bool) list \<Rightarrow> string option" where
  "last_arg c ss = map_of (rev (map (\<lambda>(c, arg, attached). (c, arg)) ss)) c"

text \<open>The last setting of an option counts.\<close>

definition configured :: "('v :: uminus) mainenv \<Rightarrow> (char \<times> string \<times> bool) list \<Rightarrow> 'v opts \<Rightarrow> 'v opts" where
  "configured M ss o' =
     o'\<lparr>o_turn := o_turn o' \<or> last_arg CHR ''t'' ss \<noteq> None,
        o_read := (case last_arg CHR ''r'' ss of None \<Rightarrow> o_read o' | Some a \<Rightarrow> the (format_arg a)),
        o_write := (case last_arg CHR ''w'' ss of None \<Rightarrow> o_write o' | Some a \<Rightarrow> the (format_arg a)),
        o_iterations := (case last_arg CHR ''i'' ss of None \<Rightarrow> o_iterations o' | Some a \<Rightarrow> atoi a),
        o_dimensions := (case last_arg CHR ''d'' ss of None \<Rightarrow> o_dimensions o' | Some a \<Rightarrow> atoi a),
        o_root := (case last_arg CHR ''o'' ss of None \<Rightarrow> o_root o' | Some a \<Rightarrow> Some a),
        o_ends := (case last_arg CHR ''e'' ss of None \<Rightarrow> o_ends o' | Some a \<Rightarrow> (- m_atof M a, m_atof M a)),
        o_kappa := (case last_arg CHR ''k'' ss of None \<Rightarrow> o_kappa o' | Some a \<Rightarrow> m_atof M a),
        o_verbosity := (case last_arg CHR ''v'' ss of None \<Rightarrow> o_verbosity o' | Some a \<Rightarrow> atoi a)\<rparr>"

lemma last_arg_Nil [simp]: "last_arg c [] = None"
  by (simp add: last_arg_def)

lemma last_arg_Cons [simp]:
  "last_arg c ((c', arg, attached) # ss) =
     (case last_arg c ss of None \<Rightarrow> if c = c' then Some arg else None | Some a \<Rightarrow> Some a)"
  by (simp add: last_arg_def map_add_def split: option.splits)

lemma configured_Nil: "configured M [] o' = o'"
  by (simp add: configured_def)

lemma case_last:
  "(case (case x of None \<Rightarrow> y | Some a \<Rightarrow> Some a) of None \<Rightarrow> d | Some b \<Rightarrow> f b) =
     (case x of None \<Rightarrow> (case y of None \<Rightarrow> d | Some b \<Rightarrow> f b) | Some a \<Rightarrow> f a)"
  "(case (if p then Some u else None) of None \<Rightarrow> d | Some b \<Rightarrow> f b) = (if p then f u else d)"
  "((case x of None \<Rightarrow> y | Some a \<Rightarrow> Some a) = None) = (x = None \<and> y = None)"
  by (simp_all split: option.split)

lemma configured_Cons: "configured M (s # ss) o' = configured M ss (configured M [s] o')"
  by (cases s) (simp add: configured_def case_last disj_ac del: not_None_eq split del: if_split cong: option.case_cong)

lemma option_known:
  "find_opt optstring CHR ''t'' = Some False"
  "c \<in> {CHR ''a'', CHR ''d'', CHR ''e'', CHR ''k'', CHR ''i'', CHR ''o'', CHR ''r'', CHR ''v'', CHR ''w''} \<Longrightarrow>
     find_opt optstring c = Some True"
proof -
  have "list_all (\<lambda>c. find_opt optstring c = Some True) ''adekiorvw''" by code_simp
  then show "c \<in> {CHR ''a'', CHR ''d'', CHR ''e'', CHR ''k'', CHR ''i'', CHR ''o'', CHR ''r'', CHR ''v'', CHR ''w''} \<Longrightarrow>
     find_opt optstring c = Some True" by (elim insertE emptyE) simp_all
  show "find_opt optstring CHR ''t'' = Some False" by code_simp
qed

lemma getopt_option:
  assumes "setting_ok (c, arg, attached)"
  shows "\<exists>arg'. getopt '''' (option_words (c, arg, attached) @ rest) = GOpt c arg' '''' rest \<and> (c = CHR ''t'' \<or> arg' = arg)"
proof (cases "c = CHR ''t''")
  case True
  then show ?thesis by (simp add: getopt_def option_words_def scan_opt_def option_known(1))
next
  case False
  then have c: "find_opt optstring c = Some True" "c \<noteq> CHR ''-''"
    using assms by (auto simp: setting_ok_def intro!: option_known(2))
  then show ?thesis using False assms by (auto simp: getopt_def option_words_def scan_opt_def setting_ok_def)
qed

lemma set_algorithm: "o'\<lparr>o_algorithm := LAS2\<rparr> = o'"
  by (cases o', cases "o_algorithm o'") simp

lemma option_step_cases:
  "option_step M prog CHR ''a'' arg ws o' = (if strcaseeq arg ''las2'' then Ret (o'\<lparr>o_algorithm := LAS2\<rparr>) else main_fatalError (''unknown algorithm: '' @ arg))"
  "option_step M prog CHR ''d'' arg ws o' = (if atoi arg < 0 then main_fatalError ''dimensions must be non-negative'' else Ret (o'\<lparr>o_dimensions := atoi arg\<rparr>))"
  "option_step M prog CHR ''e'' arg ws o' = Ret (o'\<lparr>o_ends := (- m_atof M arg, m_atof M arg)\<rparr>)"
  "option_step M prog CHR ''k'' arg ws o' = Ret (o'\<lparr>o_kappa := m_atof M arg\<rparr>)"
  "option_step M prog CHR ''i'' arg ws o' = Ret (o'\<lparr>o_iterations := atoi arg\<rparr>)"
  "option_step M prog CHR ''o'' arg ws o' = Ret (o'\<lparr>o_root := Some arg\<rparr>)"
  "option_step M prog CHR ''r'' arg ws o' = (case format_arg arg of Some f \<Rightarrow> Ret (o'\<lparr>o_read := f\<rparr>) | None \<Rightarrow> main_fatalError (''bad file format: '' @ arg))"
  "option_step M prog CHR ''t'' arg ws o' = Ret (o'\<lparr>o_turn := True\<rparr>)"
  "option_step M prog CHR ''v'' arg ws o' = Ret (o'\<lparr>o_verbosity := atoi arg\<rparr>)"
  "option_step M prog CHR ''w'' arg ws o' = (case format_arg arg of Some f \<Rightarrow> Ret (o'\<lparr>o_write := f\<rparr>) | None \<Rightarrow> main_fatalError (''bad file format: '' @ arg))"
  by (simp_all add: option_step_def split del: if_split)

lemma option_step_sets:
  assumes "setting_ok (c, arg, attached)" and "c = CHR ''t'' \<or> arg' = arg"
  shows "option_step M prog c arg' ws o' = Ret (configured M [(c, arg, attached)] o')"
proof -
  consider "c = CHR ''t''" | "c = CHR ''e''" | "c = CHR ''k''" | "c = CHR ''i''" | "c = CHR ''o''" | "c = CHR ''v''"
    | "c = CHR ''d''" "0 \<le> atoi arg" | "c = CHR ''a''" "strcaseeq arg ''las2''"
    | f where "c = CHR ''r''" "format_arg arg = Some f" | f where "c = CHR ''w''" "format_arg arg = Some f"
    using assms(1) unfolding setting_ok_def Let_def prod.case insert_iff empty_iff not_None_eq by metis
  then show ?thesis
    using assms(2) by cases (simp_all add: option_step_cases configured_def set_algorithm)
qed

definition not_option :: "string list \<Rightarrow> bool" where
  "not_option ws \<longleftrightarrow> ws = [] \<or> hd ws = '''' \<or> hd ws = ''-'' \<or> hd (hd ws) \<noteq> CHR ''-''"

lemma main_loop_settings:
  assumes "\<forall>s\<in>set ss. setting_ok s" and "mark = [''--''] \<or> mark = [] \<and> not_option ws"
  shows "main_loop M prog '''' (concat (map option_words ss) @ mark @ ws) o' = main_run M prog (configured M ss o') ws"
  using assms(1)
proof (induction ss arbitrary: o')
  case Nil
  have "getopt '''' (mark @ ws) = GEnd ws" using assms(2) by (auto simp: getopt_def not_option_def split: list.splits)
  then show ?case by (simp add: main_loop.simps [of M prog "''''"] configured_Nil)
next
  case (Cons s ss)
  obtain c arg attached where s: "s = (c, arg, attached)" by (cases s)
  let ?rest = "concat (map option_words ss) @ mark @ ws"
  obtain arg' where a: "getopt '''' (option_words s @ ?rest) = GOpt c arg' '''' ?rest" "c = CHR ''t'' \<or> arg' = arg"
    using getopt_option [of c arg attached ?rest] Cons.prems s by auto
  have "option_step M prog c arg' ?rest o' = Ret (configured M [s] o')"
    using option_step_sets [OF _ a(2), of attached] Cons.prems s by simp
  then have "main_loop M prog '''' (option_words s @ ?rest) o' = main_loop M prog '''' ?rest (configured M [s] o')"
    by (simp add: main_loop.simps [of M prog "''''" "option_words s @ ?rest"] a(1))
  also have "\<dots> = main_run M prog (configured M (s # ss) o') ws"
    using Cons by (simp add: configured_Cons [of M s ss])
  finally show ?case by simp
qed

text \<open>
  C13: The command line of the main program of \<^verbatim>\<open>c/SVDLIBC\<close> is read as it is meant: for any list of
  options with accepted arguments, each written as one word or as two, with or without \<^verbatim>\<open>--\<close>
  behind them, the program runs on the remaining words with every option set to its last argument
  and the others to their defaults.
\<close>

theorem svd_main_options:
  assumes "\<forall>s\<in>set ss. setting_ok s" and "mark = [''--''] \<or> mark = [] \<and> not_option ws"
  shows "svd_main M (prog # concat (map option_words ss) @ mark @ ws) = main_run M prog (configured M ss (opts0 M)) ws"
  using main_loop_settings [OF assms, of M prog "opts0 M"] by (simp add: svd_main_def)

end
