(* ===== verification/LasResult.thy ===== *)
theory LasResult
  imports LasSafety SvdOrder
begin

text \<open>
  Safety of the analysis of the tridiagonal matrix, of the singular vectors and of the
  decomposition; the sizes of its result.
\<close>

section \<open>The eigenvalue routines and the sort keep the sizes\<close>

lemma put_length: "put_in_order l p f db = db' \<Longrightarrow> length (fst db') = length (fst db) \<and> length (snd db') = length (snd db)"
  by (induction l arbitrary: db) (auto split: if_splits)

lemma insert_sizes: "length (qz st) = 1 \<Longrightarrow> sizes (ql_insert l st) = sizes st"
  using put_length [OF refl, of l "qd st ! l" "hd (qz st) ! l" "(qd st, hd (qz st))"]
  by (cases "qz st") (auto simp: ql_insert_def sizes_def Let_def)

lemma qlb_sizes: "qlb_t pythag hi k l st = (st', x) \<Longrightarrow> length (qz st) = 1 \<Longrightarrow> sizes st' = sizes st"
proof (induction k arbitrary: st l)
  case (Suc k)
  obtain st1 ok where v: "value_t pythag hi l 30 st = (st1, ok)" by fastforce
  have s: "sizes st1 = sizes st" by (rule value_sizes [OF v])
  then have "map length (qz st1) = map length (qz st)" by (simp add: sizes_def)
  then have z: "length (qz st1) = 1" using Suc.prems(2) by (metis length_map)
  show ?case
  proof (cases ok)
    case True
    have i: "sizes (ql_insert l st1) = sizes st1" by (rule insert_sizes [OF z])
    then have "map length (qz (ql_insert l st1)) = map length (qz st1)" by (simp add: sizes_def)
    then have "length (qz (ql_insert l st1)) = 1" using z by (metis length_map)
    then show ?thesis using Suc.IH [of "l + 1" "ql_insert l st1"] Suc.prems(1) v True i s by simp
  qed (use Suc.prems(1) v s in simp)
qed simp

lemma imtqlb_total:
  assumes "0 < n" "n \<le> length d" "n \<le> length e" "n \<le> length b"
  shows "\<exists>d' e' b' i'. imtqlb_t pythag n d e b i = Some (d', e', b', i') \<and>
    length d' = length d \<and> length e' = length e \<and> length b' = length b"
proof (cases "n = 1")
  case False
  obtain st x where v: "qlb_t pythag (n - 1) n 0 (ql_start n d e [1 # replicate (n - 1) 0 @ drop n b]) = (st, x)"
    by fastforce
  have "length (shift_down n e) = length e" using assms by (simp add: shift_down_def)
  then have s: "length (qd st) = length d" "length (qe st) = length e" "map length (qz st) = [length b]"
    using qlb_sizes [OF v] assms False by (simp_all add: sizes_def ql_start_def)
  then have "length (hd (qz st)) = length b" by (cases "qz st") auto
  then show ?thesis using v s assms False by (simp add: imtqlb_t_def)
qed (simp add: imtqlb_t_def)

lemma select_length:
  "length (fst (fold (select_at n) is dz)) = length (fst dz) \<and> map length (snd (fold (select_at n) is dz)) = map length (snd dz)"
proof (induction "is" arbitrary: dz)
  case (Cons i "is")
  have "length (fst (select_at n i dz)) = length (fst dz) \<and> map length (snd (select_at n i dz)) = map length (snd dz)"
    by (auto simp: select_at_def split: prod.split)
  then show ?case using Cons [of "select_at n i dz"] by simp
qed simp

lemma imtql2_total:
  assumes "0 < n" "n \<le> length d" "n \<le> length e" "\<forall>x\<in>set z. n \<le> length x"
  shows "\<exists>d' e' z' i'. imtql2_t pythag n d e z i = Some (d', e', z', i') \<and>
    length d' = length d \<and> length e' = length e \<and> map length z' = map length z"
proof (cases "n = 1")
  case False
  obtain st x where v: "ql2_t pythag (n - 1) n 0 (ql_start n d e z) = (st, x)" by fastforce
  have "length (shift_down n e) = length e" using assms by (simp add: shift_down_def)
  then have s: "length (qd st) = length d" "length (qe st) = length e" "map length (qz st) = map length z"
    using values_sizes [OF v] assms False by (simp_all add: sizes_def ql_start_def)
  have "\<not> (n = 0 \<or> length d < n \<or> length e < n \<or> (\<exists>x\<in>set z. length x < n))" using assms by auto
  then show ?thesis using v s False select_length [of n "[0..<n - 1]" "(qd st, qz st)"]
    by (cases x) (auto simp: imtql2_t_def ql2_end_def Let_def)
qed (simp add: imtql2_t_def ql2_end_def)

lemma dsort2_total:
  assumes "n \<le> length a" "length b = length a"
  shows "\<exists>a' b'. svd_dsort2 g n a b = Some (a', b') \<and> length a' = length a \<and> length b' = length b"
proof -
  have "same_pairs (a, b) (sort_gaps g n (a, b))" using assms by (intro sort_gaps_pairs) simp_all
  then show ?thesis using assms by (cases "sort_gaps g n (a, b)") (auto simp: svd_dsort2_def same_pairs_def)
qed

lemma fold_length:
  assumes "\<And>i xs. length (f i xs) = length xs"
  shows "length (fold f is xs) = length xs"
  using assms by (induction "is" arbitrary: xs) auto

lemma error_bound_total:
  assumes "step < length rz" "step < length bnd"
  shows "\<exists>neig e b. error_bound E enough endl endr rz bnd step tol = Some (neig, e, b) \<and> length b = length bnd \<and> (enough \<longrightarrow> e)"
proof -
  obtain mid where m: "svd_idamax (int step + 1) bnd 1 = Some (int mid)"
    using idamax_total [of "step + 1" bnd] assms by (auto simp: add.commute)
  have l: "length (merge_at E tol rz i a xs) = length xs" for i a xs by (simp add: merge_at_def)
  have r: "length (snd (snd (snd (fold (refine_bound E endl endr rz step) is x)))) = length (snd (snd (snd x))) \<and>
      (fst (snd (snd x)) \<longrightarrow> fst (snd (snd (fold (refine_bound E endl endr rz step) is x))))" for "is" x
  proof (induction "is" arbitrary: x)
    case (Cons i "is")
    have "length (snd (snd (snd (refine_bound E endl endr rz step i x)))) = length (snd (snd (snd x))) \<and>
        (fst (snd (snd x)) \<longrightarrow> fst (snd (snd (refine_bound E endl endr rz step i x))))"
      by (simp add: refine_bound_def Let_def split: prod.split)
    then show ?case using Cons [of "refine_bound E endl endr rz step i x"] by simp
  qed simp
  show ?thesis unfolding error_bound_def m option.case Let_def
    using assms r [of "[0..<step + 1]"] by (auto simp: fold_length l prod_eq_iff intro!: exI)
qed


section \<open>The analysis\<close>

lemma vec_total_down:
  assumes "0 \<le> ix" "ix + int k \<le> int (length dx)" "iy < int (length dy)" "int k \<le> iy + 1"
  shows "\<exists>z. vec_loop f k dx ix 1 dy iy (- 1) = Some z \<and> length z = length dy"
  using assms
proof (induction k arbitrary: ix iy dy)
  case (Suc k)
  then have "vget dx ix = Some (dx ! nat ix)" "vget dy iy = Some (dy ! nat iy)" by (simp_all add: vget_in)
  then show ?case using Suc.IH [of "ix + 1" "iy - 1" "dy[nat iy := f (dx ! nat ix) (dy ! nat iy)]"] Suc.prems by simp
qed simp

lemma wp_dcopy_down:
  assumes "n \<le> length x" "n \<le> length y" "\<And>z. length z = length y \<Longrightarrow> wp md g P (f z)"
  shows "wp md g P (avail (svd_dcopy (int n) x 1 y (- 1)) f)"
proof -
  obtain z where "vec_loop (\<lambda>x y. x) n x 0 1 y (int n - 1) (- 1) = Some z" "length z = length y"
    using vec_total_down [of 0 n x "int n - 1" y "\<lambda>x y. x"] assms by auto
  then show ?thesis using assms(3) [of z] assms(3) [of y]
    by (cases "n = 0") (simp_all add: svd_dcopy_def vstart_def wp_avail)
qed

definition env_ok :: "bool \<times> bool \<Rightarrow> 'v lasenv \<Rightarrow> bool" where
  "env_ok md E \<longleftrightarrow> rnd_ok md E \<and> pyt_ok md E"

lemma env_okD: "env_ok md E \<Longrightarrow> rnd_ok md E" "env_ok md E \<Longrightarrow> pyt_ok md E"
  by (simp_all add: env_ok_def)

lemma wp_upon:
  assumes "same_or_hangs Q x y" "pythag_returns Q \<or> snd md" "y = Some z" "wp md g P (f z)"
  shows "wp md g P (upon x f)"
  using assms by (auto simp: same_or_hangs_def upon_def avail_def)

lemma wp_imtqlb:
  assumes "pyt_ok md E" "0 < n" "n \<le> length d" "n \<le> length e" "n \<le> length b"
    and "\<And>d' e' b' i'. length d' = length d \<Longrightarrow> length e' = length e \<Longrightarrow> length b' = length b \<Longrightarrow> wp md g P (f d' e' b' i')"
  shows "wp md g P (upon (imtqlb (l_pythag E) n d e b i) (\<lambda>(d, e, b, i). f d e b i))"
proof -
  obtain d' e' b' i' where r: "imtqlb_t (some_pythag (l_pythag E)) n d e b i = Some (d', e', b', i')"
    "length d' = length d" "length e' = length e" "length b' = length b" using imtqlb_total [OF assms(2-5)] by blast
  show ?thesis
    by (rule wp_upon [OF imtqlb_same _ r(1)]) (use assms(1,6) r in \<open>auto simp: pyt_ok_def\<close>)
qed

lemma show_part_wp:
  assumes "i < length (ritz st)" "i < length (w5 st)" "i < length (rbnd st)" "P ()"
  shows "wp md g P (show_part F l i st)"
proof -
  let ?line = "\<lambda>m p. io_bind p (\<lambda>_.
       avail (cell (ritz st) m) (\<lambda>r. avail (cell (w5 st) m) (\<lambda>w. avail (cell (rbnd st) m) (\<lambda>b.
         svd_error (''  '' @ nat_str m @ ''  '' @ show_g F r @ ''  '' @ show_g F w @ ''  '' @ show_g F b @ newline)))))"
  have f: "wp md g P (fold ?line ms p)" if "\<forall>m\<in>set ms. m \<le> i" "wp md g P p" for ms p
    using that
  proof (induction ms arbitrary: p)
    case (Cons m ms)
    have "wp md g P (?line m p)" unfolding wp_bind
      by (rule wp_mono [OF Cons.prems(2)]) (intro wp_cell, use Cons.prems(1) assms in auto)
    then show ?case using Cons by simp
  qed simp
  have "wp md g P (fold ?line [l..<i + 1] (Ret ()))" by (rule f) (use assms(4) in auto)
  then show ?thesis unfolding show_part_def wp_bind wp_error .
qed

lemma part_end_total:
  "i + t < length be \<Longrightarrow> \<exists>e. part_end be t i = Some e \<and> e \<le> i + t - 1 \<and> (0 < t \<longrightarrow> i \<le> e)"
proof (induction t arbitrary: i)
  case (Suc t)
  then show ?case using Suc.IH [of "i + 1"] by (cases t) (auto simp: cell_def)
qed simp

lemma wp_let: "(\<And>s. s = x \<Longrightarrow> wp md g P (f s)) \<Longrightarrow> wp md g P (let s = x in f s)"
  by simp

lemma analyze_part_sized:
  assumes "steady n m k L st" "l \<le> i" "i < k" "k \<le> n" "pyt_ok md E"
  shows "wp md g (steady n m k L) (analyze_part E rnm l i st)"
proof -
  note st = steadyD [OF assms(1)]
  have f: "length (fold (\<lambda>m b. b[m := rnm * \<bar>b ! m\<bar>]) ms b) = length b" for ms and b :: "'a list"
    by (rule fold_length) simp
  show ?thesis unfolding analyze_part_def
  proof (intro wp_dcopy_down wp_imtqlb wp_let)
    fix d e d' e' b' :: "'a list" and i' :: int and s :: "'a las"
    assume len: "length d = length (drop l (ritz st))" "length e = length (drop (l + 1) (w5 st))" "length d' = length d"
      "length e' = length (drop l (take (l + 1) (w5 st) @ e))" "length b' = length (drop l (rbnd st))"
      and "s = st\<lparr>ritz := take l (ritz st) @ d', w5 := take l (w5 st) @ e', rbnd := take l (rbnd st) @ b', lerr := i'\<rparr>"
    then have s: "steady n m k L s" using st assms by auto
    note s' = steadyD [OF s]
    have p: "wp md g (\<lambda>_. True) (show_part (l_fmt E) l i s)" using assms s' by (intro show_part_wp) simp_all
    show "wp md g (steady n m k L) (io_bind (if i' \<noteq> 0 then show_part (l_fmt E) l i s else Ret ()) (\<lambda>_.
         if length (rbnd s) \<le> i then Undef
         else Ret (s\<lparr>rbnd := fold (\<lambda>m b. b[m := rnm * \<bar>b ! m\<bar>]) [l..<i + 1] (rbnd s)\<rparr>)))"
      using wp_mono [OF p] s s' assms by (auto simp: f)
  qed (use assms st in \<open>simp_all\<close>)
qed

lemma analyze_sized:
  assumes "j < k" "k \<le> n" "pyt_ok md E"
  shows "steady n m k L st \<Longrightarrow> wp md g (steady n m k L) (analyze E rnm j t l st)"
proof (induction t arbitrary: l st)
  case (Suc t)
  show ?case
  proof (cases "l > j")
    case False
    obtain e where e: "part_end (bet st) (j + 1 - l) l = Some e" "e \<le> j" "l \<le> e"
      using part_end_total [of l "j + 1 - l" "bet st"] False assms(1) steadyD(12) [OF Suc.prems] by auto
    have "wp md g (steady n m k L) (io_bind (analyze_part E rnm l e st) (\<lambda>st. analyze E rnm j t (e + 1) st))"
      by (rule wp_use [OF analyze_part_sized [OF Suc.prems e(3) _ assms(2,3)] Suc.IH]) (use e(2) assms(1) in simp_all)
    then show ?thesis using False e(1) by (simp add: wp_avail)
  qed (use Suc.prems in simp)
qed simp


section \<open>Rounds\<close>

lemma next_last_range:
  assumes "next_last k dims first j intro neig = (last', intro')" "first < k"
  shows "int first < last' \<and> last' \<le> int k"
  using assms by (auto simp: next_last_def svd_imin_def svd_imax_def Let_def split: if_splits)

definition ended_at :: "nat \<Rightarrow> nat \<Rightarrow> nat \<Rightarrow> nat \<times> int \<times> 'v las \<Rightarrow> bool" where
  "ended_at n m k = (\<lambda>(j, neig, st). j < k \<and> (\<exists>L. steady n m k L st))"

lemma wp_dsort2:
  assumes "n \<le> length a" "length b = length a"
    and "\<And>a' b'. length a' = length a \<Longrightarrow> length b' = length a \<Longrightarrow> wp md g P (f a' b')"
  shows "wp md g P (avail (svd_dsort2 gap n a b) (\<lambda>(a, b). f a b))"
proof -
  obtain a' b' where "svd_dsort2 gap n a b = Some (a', b')" "length a' = length a" "length b' = length b"
    using dsort2_total [OF assms(1,2)] by blast
  then show ?thesis using assms(2,3) by (simp add: wp_avail)
qed

lemma wp_error_bound:
  assumes "step < length rz" "step < length b"
    and "\<And>neig e b'. length b' = length b \<Longrightarrow> (enough \<longrightarrow> e) \<Longrightarrow> wp md g P (f neig e b')"
  shows "wp md g P (avail (error_bound E enough endl endr rz b step tol) (\<lambda>(neig, e, b). f neig e b))"
proof -
  obtain neig e b' where "error_bound E enough endl endr rz b step tol = Some (neig, e, b')" "length b' = length b" "enough \<longrightarrow> e"
    using error_bound_total [OF assms(1,2)] by blast
  then show ?thesis using assms(3) by (simp add: wp_avail)
qed

lemma store_last:
  assumes "steady n m k L st" "j < k"
  shows "wp md g (ended_at n m k) (io_bind (las_store E n STORQ j (w1 st) st) (\<lambda>(_, st). Ret (j, neig, st)))"
proof -
  note st = steadyD [OF assms(1)]
  show ?thesis
    by (intro wp_STORQ [OF st(1) assms(2)]) (use assms st(2) st stored_steady [OF assms(1)] in \<open>auto simp: ended_at_def\<close>)
qed

lemma lanso_rounds_ends:
  assumes "wf_smat A" "env_ok md E" "k \<le> scols A"
  shows "steady (scols A) (srows A) k L st \<Longrightarrow> 0 < first \<Longrightarrow> first \<le> last' \<Longrightarrow> last' \<le> k \<Longrightarrow> first < last' \<or> k \<le> first \<Longrightarrow>
    k < first + t \<Longrightarrow>
    wp md False (ended_at (scols A) (srows A) k) (lanso_rounds E A (scols A) k dims ends t first last' ll intro rnm tol st)"
proof (induction t arbitrary: first last' ll intro rnm tol L st)
  case (Suc t)
  let ?n = "scols A" and ?m = "srows A"
  let ?Q = "ended_at ?n ?m k"
  define rnm' where "rnm' = (if rnm \<le> tol then 0 else rnm)"
  have "wp md False (stepped False ?n ?m k first last') (lanczos_step E A ?n first last' ll (rnm', tol) st)"
    by (rule lanczos_step_stored [OF assms(1) env_okD(1) [OF assms(2)] Suc.prems(1)]) (use Suc.prems in auto)
  then show ?case unfolding lanso_rounds.simps rnm'_def [symmetric] Let_def [of rnm']
  proof (rule wp_use)
    fix x :: "nat \<times> nat \<times> bool \<times> ('a \<times> 'a) \<times> 'a las"
    assume x: "stepped False ?n ?m k first last' x"
    obtain j ll enough r tl s where xx: "x = (j, ll, enough, (r, tl), s)" by (cases x) auto
    obtain L where s: "steady ?n ?m k L s" using x xx by (auto simp: stepped_def)
    define j' where "j' = (if enough then j - 1 else last' - 1)"
    have j: "j' < k" "j' + 1 \<le> last'" "\<not> enough \<Longrightarrow> j' + 1 = last'"
      using x xx Suc.prems by (auto simp: stepped_def j'_def)
    note s' = steadyD [OF s]
    show "wp md False ?Q ((\<lambda>(j, ll, enough, (rnm, tol), st).
      let j = (if enough then j - 1 else last' - 1); first = j + 1 in
      avail (put_at (j + 1) rnm (bet st)) (\<lambda>be.
      io_bind (analyze E rnm j j 0 (st\<lparr>bet := be\<rparr>)) (\<lambda>st.
      avail (svd_dsort2 ((j + 1) div 2) (j + 1) (ritz st) (rbnd st)) (\<lambda>(rz, b).
      avail (error_bound E enough (fst ends) (snd ends) rz b j tol) (\<lambda>(neig, enough, b).
      let st = st\<lparr>ritz := rz, rbnd := b\<rparr>;
          (last', intro) = (if neig < dims then next_last k dims first j intro neig else (int last', intro))
      in if \<not> neig < dims \<or> enough \<or> first \<ge> k then
           io_bind (las_store E ?n STORQ j (w1 st) st) (\<lambda>(_, st). Ret (j, int neig, st))
         else lanso_rounds E A ?n k dims ends t first (nat last') ll intro rnm tol st))))) x)"
      unfolding xx prod.case j'_def [symmetric] Let_def [of j'] Let_def [of "j' + 1"]
    proof (intro wp_put_at)
      show "j' + 1 < length (bet s)" using j(1) s' by simp
      have b: "steady ?n ?m k L (s\<lparr>bet := (bet s)[j' + 1 := r]\<rparr>)" using s s' by simp
      show "wp md False ?Q (io_bind (analyze E r j' j' 0 (s\<lparr>bet := (bet s)[j' + 1 := r]\<rparr>)) (\<lambda>st.
        avail (svd_dsort2 ((j' + 1) div 2) (j' + 1) (ritz st) (rbnd st)) (\<lambda>(rz, b).
        avail (error_bound E enough (fst ends) (snd ends) rz b j' tl) (\<lambda>(neig, enough, b).
        let st = st\<lparr>ritz := rz, rbnd := b\<rparr>;
            (last', intro) = (if neig < dims then next_last k dims (j' + 1) j' intro neig else (int last', intro))
        in if \<not> neig < dims \<or> enough \<or> j' + 1 \<ge> k then
             io_bind (las_store E ?n STORQ j' (w1 st) st) (\<lambda>(_, st). Ret (j', int neig, st))
           else lanso_rounds E A ?n k dims ends t (j' + 1) (nat last') ll intro r tl st))))"
      proof (rule wp_use [OF analyze_sized [OF j(1) assms(3) env_okD(2) [OF assms(2)] b]], intro wp_dsort2 wp_error_bound wp_let)
        fix rz b b' :: "'a list" and neig e and q u :: "'a las" and v
        assume q: "steady ?n ?m k L q" and len: "length rz = length (ritz q)" "length b = length (ritz q)" "length b' = length b"
          and e: "enough \<longrightarrow> e" and u: "u = q\<lparr>ritz := rz, rbnd := b'\<rparr>"
          and v: "v = (if neig < dims then next_last k dims (j' + 1) j' intro neig else (int last', intro))"
        note q' = steadyD [OF q]
        have us: "steady ?n ?m k L u" using q len q' u by simp
        obtain la io where li: "v = (la, io)" by fastforce
        have "wp md False ?Q (lanso_rounds E A ?n k dims ends t (j' + 1) (nat la) ll io r tl u)"
          if c: "\<not> (\<not> neig < dims \<or> e \<or> k \<le> j' + 1)"
        proof (rule Suc.IH [OF us])
          have f: "j' + 1 = last'" using c e j(3) by auto
          have "int (j' + 1) < la \<and> la \<le> int k" using next_last_range [of k dims "j' + 1" j' intro neig la io] li v c by simp
          then show "j' + 1 \<le> nat la" "nat la \<le> k" "j' + 1 < nat la \<or> k \<le> j' + 1" "0 < j' + 1" by auto
          show "k < j' + 1 + t" using f Suc.prems c by auto
        qed
        then show "wp md False ?Q (case v of (last', intro) \<Rightarrow> if \<not> neig < dims \<or> e \<or> k \<le> j' + 1 then
               io_bind (las_store E ?n STORQ j' (w1 u) u) (\<lambda>(_, st). Ret (j', int neig, st))
             else lanso_rounds E A ?n k dims ends t (j' + 1) (nat last') ll intro r tl u)"
          unfolding li prod.case using store_last [OF us j(1)] by simp
      qed (use j(1) in \<open>simp_all add: steadyD\<close>)
    qed
  qed
qed simp

lemma lanso_ends:
  assumes "wf_smat A" "env_ok md E" "k \<le> scols A" "0 < k" "steady (scols A) (srows A) k L st"
  shows "wp md False (ended_at (scols A) (srows A) k) (lanso E A k dims ends (scols A) st)"
  unfolding lanso_def
proof (rule wp_use [OF stpone_steady [OF assms(1) env_okD(1) [OF assms(2)] assms(5,4)]])
  fix x :: "('a \<times> 'a) option \<times> 'a las"
  assume x: "case x of (rt, st') \<Rightarrow> steady (scols A) (srows A) k L st'"
  obtain rt s where xx: "x = (rt, s)" by fastforce
  have s: "steady (scols A) (srows A) k L s" using x xx by simp
  note s' = steadyD [OF s]
  define hi where "hi = nat (svd_imin (int dims + svd_imax 8 (int dims)) (int k))"
  have hi: "1 \<le> hi" "hi \<le> k" "1 < hi \<or> k \<le> 1" using assms(4) by (auto simp: hi_def svd_imin_def svd_imax_def)
  show "wp md False (ended_at (scols A) (srows A) k) (case x of (rt, st) \<Rightarrow>
       case rt of
         None \<Rightarrow> Ret (0, l_junk E, st)
       | Some (rnm, tol) \<Rightarrow>
           if rnm = 0 \<or> lerr st \<noteq> 0 then Ret (0, l_junk E, st)
           else
             avail (put_at 0 (l_eps1 E (scols A)) (eta st)) (\<lambda>et.
             avail (put_at 0 (l_eps1 E (scols A)) (oldeta st)) (\<lambda>ol.
               lanso_rounds E A (scols A) k dims ends k 1 (nat (svd_imin (int dims + svd_imax 8 (int dims)) (int k))) 0 0 rnm tol
                 (st\<lparr>eta := et, oldeta := ol\<rparr>))))"
    unfolding xx prod.case hi_def [symmetric]
  proof (cases rt)
    case None
    then show "wp md False (ended_at (scols A) (srows A) k) (case rt of
         None \<Rightarrow> Ret (0, l_junk E, s)
       | Some (rnm, tol) \<Rightarrow>
           if rnm = 0 \<or> lerr s \<noteq> 0 then Ret (0, l_junk E, s)
           else
             avail (put_at 0 (l_eps1 E (scols A)) (eta s)) (\<lambda>et.
             avail (put_at 0 (l_eps1 E (scols A)) (oldeta s)) (\<lambda>ol.
               lanso_rounds E A (scols A) k dims ends k 1 hi 0 0 rnm tol (s\<lparr>eta := et, oldeta := ol\<rparr>))))"
      using assms(4) s by (auto simp: ended_at_def)
  next
    case (Some p)
    obtain r t where p: "p = (r, t)" by fastforce
    show "wp md False (ended_at (scols A) (srows A) k) (case rt of
         None \<Rightarrow> Ret (0, l_junk E, s)
       | Some (rnm, tol) \<Rightarrow>
           if rnm = 0 \<or> lerr s \<noteq> 0 then Ret (0, l_junk E, s)
           else
             avail (put_at 0 (l_eps1 E (scols A)) (eta s)) (\<lambda>et.
             avail (put_at 0 (l_eps1 E (scols A)) (oldeta s)) (\<lambda>ol.
               lanso_rounds E A (scols A) k dims ends k 1 hi 0 0 rnm tol (s\<lparr>eta := et, oldeta := ol\<rparr>))))"
      unfolding Some p option.case prod.case
      by (intro if_cases wp_put_at lanso_rounds_ends [OF assms(1-3), where L = L])
         (use assms(4) s s' hi in \<open>auto simp: ended_at_def\<close>)
  qed
qed

end
