(* ===== verification/LasRotate.thy ===== *)
theory LasRotate
  imports LasSolve
begin

text \<open>
  \<^verbatim>\<open>rotateArray\<close> of \<^verbatim>\<open>c/SVDLIBC/las2.c\<close> rotates: it walks through the cycles of the permutation,
  one for each residue class of the greatest common divisor of the distance and the size.
\<close>

section \<open>The cycles\<close>

text \<open>
  With \<open>l\<close> elements in each cycle, the \<open>i\<close>-th move of the array of \<open>g * l\<close> elements by
  \<open>g * y\<close> places writes to this place.
\<close>

definition target :: "nat \<Rightarrow> nat \<Rightarrow> nat \<Rightarrow> nat \<Rightarrow> nat" where
  "target g l y i = nat ((int (i div l) - (int (i mod l) + 1) * int (g * y)) mod int (g * l))"

definition source :: "nat \<Rightarrow> nat \<Rightarrow> nat \<Rightarrow> nat \<Rightarrow> nat" where
  "source g l y i = nat ((int (i div l) - int (i mod l) * int (g * y)) mod int (g * l))"

lemma target_range: "0 < g \<Longrightarrow> 0 < l \<Longrightarrow> target g l y i < g * l"
  by (simp add: target_def nat_less_iff del: of_nat_mult)

lemma source_range: "0 < g \<Longrightarrow> 0 < l \<Longrightarrow> source g l y i < g * l"
  by (simp add: source_def nat_less_iff del: of_nat_mult)

lemma int_target: "0 < g \<Longrightarrow> 0 < l \<Longrightarrow> int (target g l y i) = (int (i div l) - (int (i mod l) + 1) * int (g * y)) mod int (g * l)"
  by (simp add: target_def del: of_nat_mult)

lemma int_source: "0 < g \<Longrightarrow> 0 < l \<Longrightarrow> int (source g l y i) = (int (i div l) - int (i mod l) * int (g * y)) mod int (g * l)"
  by (simp add: source_def del: of_nat_mult)

text \<open>The class of a place is the number of its cycle.\<close>

lemma class_of:
  assumes "0 < g" "0 < l" "i < g * l"
  shows "target g l y i mod g = i div l"
proof -
  have "int (target g l y i mod g) = (int (i div l) - (int (i mod l) + 1) * int (g * y)) mod int (g * l) mod int g"
    by (simp only: int_target [OF assms(1,2)] of_nat_mod)
  also have "\<dots> = (int (i div l) - (int (i mod l) + 1) * int (g * y)) mod int g"
    by (rule mod_mod_cancel) simp
  also have "\<dots> = int (i div l) mod int g"
  proof -
    have "int (i div l) - (int (i mod l) + 1) * int (g * y) = int (i div l) + (- (int (i mod l) + 1) * int y) * int g"
      by (simp add: algebra_simps)
    then show ?thesis by (simp only: mod_mult_self1)
  qed
  also have "\<dots> = int (i div l)" using assms by (simp add: less_mult_imp_div_less)
  finally show ?thesis by simp
qed

lemma cycle_dvd:
  assumes "coprime l y" "0 < g" "int (g * l) dvd z * int (g * y)"
  shows "int l dvd z"
proof -
  have "int g * int l dvd int g * (z * int y)" using assms(3) by (simp add: algebra_simps)
  then have "int l dvd z * int y" using assms(2) by simp
  moreover have "coprime (int l) (int y)" using assms(1) by simp
  ultimately show ?thesis by (simp add: coprime_dvd_mult_left_iff)
qed

lemma small_multiple: "int l dvd int a - int b \<Longrightarrow> a < l \<Longrightarrow> b < l \<Longrightarrow> a = b"
  by (metis int_int_eq mod_eq_dvd_iff mod_less of_nat_mod zmod_int)

lemma target_inj:
  assumes "coprime l y" "0 < g" "0 < l" "i < g * l" "j < g * l" "target g l y i = target g l y j"
  shows "i = j"
proof -
  have d: "i div l = j div l" using class_of [OF assms(2,3,4), of y] class_of [OF assms(2,3,5), of y] assms(6) by simp
  have "(int (i div l) - (int (i mod l) + 1) * int (g * y)) mod int (g * l) =
      (int (j div l) - (int (j mod l) + 1) * int (g * y)) mod int (g * l)"
    using assms(6) int_target [OF assms(2,3)] by metis
  then have "int (g * l) dvd (int (i div l) - (int (i mod l) + 1) * int (g * y)) - (int (j div l) - (int (j mod l) + 1) * int (g * y))"
    by (simp only: mod_eq_dvd_iff)
  also have "(int (i div l) - (int (i mod l) + 1) * int (g * y)) - (int (j div l) - (int (j mod l) + 1) * int (g * y)) =
      (int (j mod l) - int (i mod l)) * int (g * y)" unfolding d by (simp add: algebra_simps)
  finally have "int l dvd int (j mod l) - int (i mod l)" by (rule cycle_dvd [OF assms(1,2)])
  then have "j mod l = i mod l" by (rule small_multiple) (rule mod_less_divisor [OF assms(3)])+
  then show "i = j" using d by (metis div_mult_mod_eq)
qed

lemma targets_all:
  assumes "coprime l y" "0 < g" "0 < l"
  shows "target g l y ` {..<g * l} = {..<g * l}"
proof (rule card_subset_eq)
  show "target g l y ` {..<g * l} \<subseteq> {..<g * l}" using target_range [OF assms(2,3)] by auto
  show "card (target g l y ` {..<g * l}) = card {..<g * l}"
    using target_inj [OF assms] by (intro card_image) (auto simp: inj_on_def)
qed simp


lemma target_source:
  assumes "0 < g" "0 < l" "g * y < g * l"
  shows "target g l y i = (if g * y \<le> source g l y i then source g l y i - g * y else source g l y i + g * l - g * y)"
proof -
  let ?s = "source g l y i" and ?X = "int (g * y)" and ?N = "int (g * l)"
  have "int (target g l y i) = (int (i div l) - int (i mod l) * ?X - ?X) mod ?N"
    unfolding int_target [OF assms(1,2)] by (simp add: algebra_simps)
  also have "\<dots> = (int ?s - ?X) mod ?N" unfolding int_source [OF assms(1,2)] by (simp only: mod_diff_left_eq)
  finally have t: "int (target g l y i) = (int ?s - ?X) mod ?N" .
  have r: "int ?s < ?N" using source_range [OF assms(1,2)] by (simp only: of_nat_less_iff)
  show ?thesis
  proof (cases "g * y \<le> ?s")
    case True
    then have "(int ?s - ?X) mod ?N = int ?s - ?X" using r by (intro mod_pos_pos_trivial) linarith+
    then have "int (target g l y i) = int (?s - g * y)" using t True by (simp only: of_nat_diff)
    then show ?thesis using True by (simp only: of_nat_eq_iff if_True)
  next
    case False
    have "(int ?s - ?X) mod ?N = (int ?s - ?X + ?N) mod ?N" by simp
    also have "\<dots> = int ?s - ?X + ?N" using False assms(3) r by (intro mod_pos_pos_trivial) linarith+
    finally have "int (target g l y i) = int (?s + g * l - g * y)" using t assms(3) by (simp add: of_nat_diff del: of_nat_mult)
    then show ?thesis using False by simp
  qed
qed

lemma target_start:
  assumes "coprime l y" "0 < g" "0 < l" "i < g * l"
  shows "target g l y i = i div l \<longleftrightarrow> i mod l + 1 = l"
proof -
  let ?a = "int (i div l)" and ?X = "int (g * y)" and ?N = "int (g * l)"
  have "i div l < g" using assms by (simp add: less_mult_imp_div_less)
  then have "i div l < g * l" using assms(3) by (metis One_nat_def Suc_leI dual_order.strict_trans1 mult.right_neutral mult_le_mono2)
  then have a: "?a mod ?N = ?a" by (intro mod_pos_pos_trivial) (simp_all only: of_nat_0_le_iff of_nat_less_iff)
  have "target g l y i = i div l \<longleftrightarrow> (?a - (int (i mod l) + 1) * ?X) mod ?N = ?a mod ?N"
    unfolding a using int_target [OF assms(2,3), of y i] by (metis of_nat_eq_iff)
  also have "\<dots> \<longleftrightarrow> ?N dvd (- (int (i mod l) + 1)) * ?X" unfolding mod_eq_dvd_iff by (simp add: algebra_simps)
  also have "\<dots> \<longleftrightarrow> int l dvd int (i mod l + 1)"
  proof
    assume "?N dvd (- (int (i mod l) + 1)) * ?X"
    then have "int l dvd - (int (i mod l) + 1)" by (rule cycle_dvd [OF assms(1,2)])
    then show "int l dvd int (i mod l + 1)" by (metis dvd_minus_iff of_nat_1 of_nat_add)
  next
    assume "int l dvd int (i mod l + 1)"
    then obtain z where "int (i mod l + 1) = int l * z" by (rule dvdE)
    then have z: "int (i mod l) + 1 = int l * z" by simp
    have "(- (int (i mod l) + 1)) * ?X = ?N * (- (z * int y))" unfolding z by (simp add: algebra_simps)
    then show "?N dvd (- (int (i mod l) + 1)) * ?X" by (rule dvdI)
  qed
  also have "\<dots> \<longleftrightarrow> i mod l + 1 = l"
  proof -
    have "i mod l + 1 \<le> l" using mod_less_divisor [OF assms(3), of i] by simp
    moreover have "int l dvd int (i mod l + 1) \<longleftrightarrow> l dvd i mod l + 1" by (rule int_dvd_int_iff)
    ultimately show ?thesis using dvd_imp_le [of l "i mod l + 1"] by (metis add_gr_0 dvd_refl le_antisym less_one)
  qed
  finally show ?thesis .
qed

lemma source_next: "0 < l \<Longrightarrow> i mod l + 1 < l \<Longrightarrow> source g l y (i + 1) = target g l y i \<and> (i + 1) div l = i div l"
  by (simp add: source_def target_def mod_Suc div_Suc algebra_simps)

lemma source_start:
  assumes "i mod l + 1 = l" "0 < (l :: nat)"
  shows "(i + 1) mod l = 0 \<and> (i + 1) div l = i div l + 1"
proof -
  have "i + 1 = (i div l + 1) * l" using assms(1) div_mult_mod_eq [of i l] by (simp only: distrib_right mult_1)
  then show ?thesis using assms(2) by simp
qed


section \<open>The loop\<close>

text \<open>The array after \<open>i\<close> moves.\<close>

definition moved_to :: "nat \<Rightarrow> nat \<Rightarrow> nat \<Rightarrow> 'a list \<Rightarrow> nat \<Rightarrow> 'a list" where
  "moved_to g l y a i =
     map (\<lambda>p. if p \<in> target g l y ` {..<i} then a ! ((p + g * y) mod (g * l)) else a ! p) [0..<g * l]"

lemma move_back:
  assumes "0 < g" "0 < l" "g * y < g * l"
  shows "(target g l y i + g * y) mod (g * l) = source g l y i"
proof (cases "g * y \<le> source g l y i")
  case True
  then have "target g l y i + g * y = source g l y i" using target_source [OF assms, of i] by simp
  then show ?thesis using source_range [OF assms(1,2), of y i] by simp
next
  case False
  then have "target g l y i + g * y = source g l y i + g * l" using target_source [OF assms, of i] assms(3) by (simp only: if_False)
  then show ?thesis using source_range [OF assms(1,2), of y i] by simp
qed

lemma moved_next:
  assumes "0 < g" "0 < l" "g * y < g * l"
  shows "(moved_to g l y a i)[target g l y i := a ! source g l y i] = moved_to g l y a (i + 1)"
proof (rule nth_equalityI)
  fix p
  assume "p < length ((moved_to g l y a i)[target g l y i := a ! source g l y i])"
  then have "p < g * l" by (simp add: moved_to_def)
  then show "(moved_to g l y a i)[target g l y i := a ! source g l y i] ! p = moved_to g l y a (i + 1) ! p"
    by (cases "p = target g l y i") (simp_all add: moved_to_def lessThan_Suc move_back [OF assms])
qed (simp add: moved_to_def)

lemma not_moved: "p < g * l \<Longrightarrow> p \<notin> target g l y ` {..<i} \<Longrightarrow> moved_to g l y a i ! p = a ! p"
  by (simp add: moved_to_def)

lemma rotate_loop_moves:
  assumes "coprime l y" "0 < g" "0 < l" "0 < y" "g * y < g * l"
  shows "i + k = g * l \<Longrightarrow> i < g * l \<longrightarrow> t = a ! source g l y i \<Longrightarrow>
    rotate_loop (g * l) (g * y) k (source g l y i) (i div l) t (moved_to g l y a i) = Some (moved_to g l y a (g * l))"
proof (induction k arbitrary: i t)
  case (Suc k)
  define n where "n = target g l y i"
  have i: "i < g * l" and t: "t = a ! source g l y i" using Suc.prems by simp_all
  have n: "n < g * l" unfolding n_def by (rule target_range [OF assms(2,3)])
  have step: "(if g * y \<le> source g l y i then source g l y i - g * y else source g l y i + g * l - g * y) = n"
    unfolding n_def by (rule target_source [OF assms(2,3,5), symmetric])
  have "n \<notin> target g l y ` {..<i}"
  proof
    assume "n \<in> target g l y ` {..<i}"
    then obtain m where m: "m < i" "target g l y i = target g l y m" by (auto simp: n_def)
    then show False using target_inj [OF assms(1-3) i _ m(2)] i by simp
  qed
  then have c: "cell (moved_to g l y a i) n = Some (a ! n)"
    using n not_moved [of n g l y i a] unfolding cell_def by (simp add: moved_to_def)
  have u: "(moved_to g l y a i)[n := t] = moved_to g l y a (i + 1)"
    unfolding n_def t by (rule moved_next [OF assms(2,3,5)])
  show ?case
  proof (cases "i mod l + 1 = l")
    case True
    have s: "n = i div l" using target_start [OF assms(1-3) i] True by (simp add: n_def)
    have j: "(i + 1) mod l = 0" "(i + 1) div l = i div l + 1" using source_start [OF True assms(3)] by simp_all
    have "g \<le> g * y" using assms(4) by simp
    then have "n + 1 < g * l"
      using less_mult_imp_div_less [of i g l] i s assms(5) by linarith
    then have so: "source g l y (i + 1) = n + 1" using j s
      by (simp add: source_def mod_pos_pos_trivial del: of_nat_mult of_nat_Suc)
    have "moved_to g l y a (i + 1) ! (n + 1) = a ! (n + 1)" if "i + 1 < g * l"
    proof (rule not_moved)
      show "n + 1 < g * l" by fact
      have "n + 1 < g" using less_mult_imp_div_less [of "i + 1" g l] that j s by simp
      then have "(n + 1) mod g = i div l + 1" using s by simp
      moreover have "target g l y m mod g \<le> i div l" if "m \<le> i" for m
        using class_of [OF assms(2,3), of m y] that i div_le_mono [OF that, of l] by simp
      ultimately show "n + 1 \<notin> target g l y ` {..<i + 1}"
        by (metis Suc_eq_plus1 Suc_n_not_le_n imageE lessThan_iff less_Suc_eq_le)
    qed
    moreover have "cell (moved_to g l y a (i + 1)) (n + 1) = Some (moved_to g l y a (i + 1) ! (n + 1))"
      using \<open>n + 1 < g * l\<close> by (simp add: cell_def moved_to_def)
    moreover have "rotate_loop (g * l) (g * y) k (source g l y (i + 1)) ((i + 1) div l) (moved_to g l y a (i + 1) ! (n + 1))
        (moved_to g l y a (i + 1)) = Some (moved_to g l y a (g * l))"
      by (rule Suc.IH) (use Suc.prems(1) calculation so in auto)
    ultimately show ?thesis using c s u so j by (simp add: step Let_def)
  next
    case False
    have "i mod l + 1 < l" using False mod_less_divisor [OF assms(3), of i] by linarith
    from source_next [OF assms(3) this, of g y] have so: "source g l y (i + 1) = n" "(i + 1) div l = i div l" by (simp_all add: n_def)
    have s: "n \<noteq> i div l" using target_start [OF assms(1-3) i] False by (simp add: n_def)
    have "rotate_loop (g * l) (g * y) k (source g l y (i + 1)) ((i + 1) div l) (a ! n) (moved_to g l y a (i + 1)) =
        Some (moved_to g l y a (g * l))"
      by (rule Suc.IH) (use Suc.prems(1) so in auto)
    then show ?thesis using c s u so by (simp add: step Let_def)
  qed
qed simp

lemma rotateArray_turns:
  assumes "x < length a"
  shows "rotateArray a (length a) x = Some (rotate x a)"
proof (cases "x = 0")
  case False
  define g where "g = gcd (length a) x"
  define l where "l = length a div g"
  define y where "y = x div g"
  have g: "0 < g" using False by (simp add: g_def)
  have e: "length a = g * l" "x = g * y" by (simp_all add: g_def l_def y_def)
  have p: "0 < l" "0 < y" using assms False e by (auto intro: gr0I)
  have c: "coprime l y" unfolding l_def y_def g_def using False by (intro div_gcd_coprime) simp
  have "map (\<lambda>p. a ! p) [0..<length a] = a" by (rule map_nth)
  then have m: "moved_to g l y a 0 = a" by (simp add: moved_to_def e)
  have s: "source g l y 0 = 0" by (simp add: source_def)
  have "moved_to g l y a (g * l) = rotate x a"
  proof (rule nth_equalityI)
    fix q
    assume "q < length (moved_to g l y a (g * l))"
    then have q: "q < g * l" by (simp add: moved_to_def)
    then show "moved_to g l y a (g * l) ! q = rotate x a ! q"
      using targets_all [OF c g p(1)] nth_rotate [of q a x] e by (simp add: moved_to_def add.commute)
  qed (simp add: moved_to_def e)
  moreover have "rotate_loop (g * l) (g * y) (g * l) 0 0 (a ! 0) a = Some (moved_to g l y a (g * l))"
    using rotate_loop_moves [OF c g p, of 0 "g * l" "a ! 0" a] assms s m e by simp
  moreover have "cell a 0 = Some (a ! 0)" using assms by (auto simp: cell_def)
  ultimately show ?thesis using False e by (simp add: rotateArray_def)
qed (simp add: rotateArray_def)

section \<open>Rows\<close>

text \<open>Rotated by whole rows, the rows of a matrix are rotated.\<close>

lemma drop_concat_rows: "\<forall>r\<in>set xs. length r = c \<Longrightarrow> drop (i * c) (concat xs) = concat (drop i xs)"
proof (induction xs arbitrary: i)
  case (Cons r xs)
  then show ?case by (cases i) (simp_all add: add.commute)
qed simp

lemma take_concat_rows: "\<forall>r\<in>set xs. length r = c \<Longrightarrow> take (i * c) (concat xs) = concat (take i xs)"
proof (induction xs arbitrary: i)
  case (Cons r xs)
  then show ?case by (cases i) (simp_all add: add.commute)
qed simp

lemma length_concat_rows: "\<forall>r\<in>set xs. length r = c \<Longrightarrow> length (concat xs) = length xs * c"
  by (induction xs) simp_all

lemma rows_of_concat:
  assumes "\<forall>r\<in>set xs. length r = c"
  shows "rows_of (length xs) c (concat xs) = xs"
proof (rule nth_equalityI)
  fix i
  assume "i < length (rows_of (length xs) c (concat xs))"
  then have i: "i < length xs" by (simp add: rows_of_def)
  then have "drop (i * c) (concat xs) = xs ! i @ concat (drop (Suc i) xs)"
    using drop_concat_rows [OF assms, of i] by (simp add: Cons_nth_drop_Suc [symmetric])
  then show "rows_of (length xs) c (concat xs) ! i = xs ! i" using i assms by (simp add: rows_of_def)
qed (simp add: rows_of_def)

lemma rotate_concat_rows:
  assumes "\<forall>r\<in>set xs. length r = c" "x < length xs"
  shows "rotate (x * c) (concat xs) = concat (rotate x xs)"
proof -
  have "x * c \<le> length (concat xs)" using assms by (simp add: length_concat_rows [OF assms(1)])
  then have "rotate (x * c) (concat xs) = drop (x * c) (concat xs) @ take (x * c) (concat xs)"
  proof (cases "x * c = length (concat xs)")
    case False
    with \<open>x * c \<le> length (concat xs)\<close> show ?thesis by (simp add: rotate_drop_take)
  qed (simp add: rotate_drop_take)
  also have "\<dots> = concat (drop x xs @ take x xs)"
    by (simp add: drop_concat_rows [OF assms(1)] take_concat_rows [OF assms(1)])
  also have "drop x xs @ take x xs = rotate x xs" using assms(2) by (simp add: rotate_drop_take)
  finally show ?thesis .
qed

lemma rotate_rows:
  assumes "\<forall>r\<in>set xs. length r = c" "0 < c" "x < length xs"
  shows "\<exists>flat. rotateArray (concat xs) (length xs * c) (x * c) = Some flat \<and> rows_of (length xs) c flat = rotate x xs"
proof -
  have l: "length (concat xs) = length xs * c" by (rule length_concat_rows [OF assms(1)])
  have "rotateArray (concat xs) (length (concat xs)) (x * c) = Some (rotate (x * c) (concat xs))"
    by (rule rotateArray_turns) (use assms l in simp)
  moreover have "rows_of (length xs) c (concat (rotate x xs)) = rotate x xs"
    using rows_of_concat [of "rotate x xs" c] assms(1) by simp
  ultimately show ?thesis using rotate_concat_rows [OF assms(1,3)] l by simp
qed

text \<open>
  C21: \<^verbatim>\<open>rotateArray\<close> moves every element \<open>x\<close> places down, the first \<open>x\<close> to the end, within the
  array.
\<close>

theorem rotateArray_rotates:
  assumes "x < length a"
  shows "rotateArray a (length a) x = Some (rotate x a)"
  by (rule rotateArray_turns [OF assms])

theorem rotateArray_rotates_witness: "rotateArray [10, 20, 30, 40, 50, 60 :: int] 6 4 = Some [50, 60, 10, 20, 30, 40]"
  using rotateArray_rotates [of 4 "[10, 20, 30, 40, 50, 60 :: int]"] by (simp add: eval_nat_numeral)

end
