(* ===== verification/LasVectors.thy ===== *)
theory LasVectors
  imports LasResult LasRotate
begin

text \<open>
  Safety of the singular vectors and of the decomposition, and the sizes of the matrices that it
  returns.
\<close>

section \<open>The singular vectors\<close>

text \<open>Room for \<open>d\<close> triples of a matrix with \<open>m\<close> rows and \<open>n\<close> columns.\<close>

definition record_ok :: "nat \<Rightarrow> nat \<Rightarrow> nat \<Rightarrow> 'v svdrec \<Rightarrow> bool" where
  "record_ok d m n R \<longleftrightarrow>
     rd R \<le> d \<and> length (rS R) = d \<and>
     drows (rUt R) = d \<and> dcols (rUt R) = m \<and> wf_dmat (rUt R) \<and>
     drows (rVt R) = d \<and> dcols (rVt R) = n \<and> wf_dmat (rVt R)"

definition rows_ok :: "nat \<Rightarrow> nat \<Rightarrow> 'v list list \<Rightarrow> bool" where
  "rows_ok d n xs \<longleftrightarrow> length xs = d \<and> (\<forall>x\<in>set xs. length x = n)"

lemma rows_ok_update: "rows_ok d n xs \<Longrightarrow> length x = n \<Longrightarrow> rows_ok d n (xs[i := x])"
  using set_update_subset_insert [of xs i x] by (auto simp: rows_ok_def)

lemma rows_ok_nth: "rows_ok d n xs \<Longrightarrow> i < d \<Longrightarrow> length (xs ! i) = n"
  by (simp add: rows_ok_def)

lemma record_rows:
  "record_ok d m n R \<longleftrightarrow> rd R \<le> d \<and> length (rS R) = d \<and> drows (rUt R) = d \<and> dcols (rUt R) = m \<and> drows (rVt R) = d \<and>
     dcols (rVt R) = n \<and> rows_ok d m (dvalue (rUt R)) \<and> rows_ok d n (dvalue (rVt R))"
  by (auto simp: record_ok_def wf_dmat_def rows_ok_def)

lemma ritz_sum_sized:
  assumes "rows_ok js js s" "k < js" "js \<le> kk"
  shows "steady n m kk L st \<Longrightarrow> i + t \<le> js \<Longrightarrow> length w = n \<Longrightarrow>
    wp md False (\<lambda>(w, st'). length w = n \<and> steady n m kk L st') (ritz_sum E n s k js t i w st)"
proof (induction t arbitrary: i w st)
  case (Suc t)
  note st = steadyD [OF Suc.prems(1)]
  have c: "get2 s (js - 1 - i) k = Some (s ! (js - 1 - i) ! k)"
    using assms Suc.prems(2) by (simp add: get2_def rows_ok_def)
  show ?case unfolding ritz_sum.simps c avail_def [of "Some _"] option.case
    by (intro wp_RETRQ [OF st(1)] wp_daxpy Suc.IH) (use Suc.prems assms(3) in \<open>simp_all add: st\<close>)
qed simp

lemma ritz_vectors_sized:
  assumes "rows_ok js js s" "js \<le> kk" "0 < d"
  shows "steady n m kk L st \<Longrightarrow> k + t \<le> js \<Longrightarrow> x < d \<Longrightarrow> rows_ok d n vt \<Longrightarrow>
    wp md False (\<lambda>(x, nsig, vt, st'). x < d \<and> rows_ok d n vt \<and> steady n m kk L st')
      (ritz_vectors E n d kappa neig s js t k x nsig vt st)"
proof (induction t arbitrary: k x nsig vt st)
  case (Suc t)
  let ?Q = "\<lambda>(x, nsig, vt, st'). x < d \<and> rows_ok d n vt \<and> steady n m kk L st'"
  note st = steadyD [OF Suc.prems(1)]
  define x' where "x' = (if x = 0 then d - 1 else x - 1)"
  have x: "x' < d" using Suc.prems(3) assms(3) by (auto simp: x'_def)
  have w: "length (vt ! x') = n" "x' < length vt" using rows_ok_nth [OF Suc.prems(4) x] Suc.prems(4) x by (simp_all add: rows_ok_def)
  have "wp md False ?Q (io_bind (ritz_sum E n s k js js 0 (zeroed n (vt ! x')) st) (\<lambda>(w, st).
      ritz_vectors E n d kappa neig s js t (k + 1) x' (nsig + 1) (vt[x' := w]) st))"
  proof (rule wp_use [OF ritz_sum_sized [OF assms(1) _ assms(2) Suc.prems(1)]])
    show "length (zeroed n (vt ! x')) = n" using w by (simp add: length_zeroed)
    fix y :: "'a list \<times> 'a las"
    assume "case y of (w, st') \<Rightarrow> length w = n \<and> steady n m kk L st'"
    then have y: "length (fst y) = n" "steady n m kk L (snd y)" by auto
    show "wp md False ?Q (case y of (w, st) \<Rightarrow> ritz_vectors E n d kappa neig s js t (k + 1) x' (nsig + 1) (vt[x' := w]) st)"
      unfolding case_prod_beta [of _ y]
      by (rule Suc.IH) (use Suc.prems y x in \<open>simp_all add: rows_ok_update\<close>)
  qed (use Suc.prems in simp_all)
  then have "wp md False ?Q (let x = (if x = 0 then d - 1 else x - 1) in
         avail (cell vt x) (\<lambda>w.
           if length w < n then Undef
           else io_bind (ritz_sum E n s k js js 0 (zeroed n w) st) (\<lambda>(w, st).
             ritz_vectors E n d kappa neig s js t (k + 1) x (nsig + 1) (vt[x := w]) st)))"
    unfolding x'_def [symmetric] Let_def using w by (simp add: wp_avail cell_def)
  moreover have "wp md False ?Q (ritz_vectors E n d kappa neig s js t (k + 1) x nsig vt st)"
    by (rule Suc.IH) (use Suc.prems in auto)
  ultimately show ?case unfolding ritz_vectors.simps
    by (intro wp_cell if_cases) (use Suc.prems assms(2) st in auto)
qed simp

lemma wp_opb3:
  assumes "wf_smat A" "length x = scols A" "scols A \<le> length y" "srows A \<le> length t"
    and "\<And>c y' t'. length y' = length y \<Longrightarrow> length t' = length t \<Longrightarrow> wp md g P (f c y' t')"
  shows "wp md g P (avail (svd_opb A x y t k) (\<lambda>(c, y, t). f c y t))"
  by (rule wp_opb [OF assms(1-4)]) (use assms(5) in simp)

lemma wp_opa2:
  assumes "wf_smat A" "length x = scols A" "srows A \<le> length y" "\<And>c y'. length y' = length y \<Longrightarrow> wp md g P (f c y')"
  shows "wp md g P (avail (svd_opa A x y k) (\<lambda>(c, y). f c y))"
  by (rule wp_opa [OF assms(1-3)]) (use assms(4) in simp)

lemma left_vectors_sized:
  assumes "wf_smat A" "i \<le> kk"
  shows "steady (scols A) (srows A) kk L st \<Longrightarrow> x + t \<le> d \<Longrightarrow> record_ok d (srows A) (scols A) R \<Longrightarrow> length xv2 = scols A \<Longrightarrow>
    wp md False (\<lambda>(R', st'). record_ok d (srows A) (scols A) R' \<and> rd R' = rd R \<and> rVt R' = rVt R \<and> steady (scols A) (srows A) kk L st')
      (left_vectors E A (scols A) i t x xv2 R st)"
proof (induction t arbitrary: x xv2 R st)
  case (Suc t)
  note st = steadyD [OF Suc.prems(1)]
  have R: "rows_ok d (srows A) (dvalue (rUt R))" "rows_ok d (scols A) (dvalue (rVt R))" "length (rS R) = d"
    using Suc.prems(3) by (simp_all add: record_rows)
  have x: "x < d" "x < length (dvalue (rUt R))" "x < length (dvalue (rVt R))"
      "length (dvalue (rUt R) ! x) = srows A" "length (dvalue (rVt R) ! x) = scols A"
    using Suc.prems(2) R by (simp_all add: rows_ok_def)
  have ih: "wp md False (\<lambda>(R', st'). record_ok d (srows A) (scols A) R' \<and> rd R' = rd R \<and> rVt R' = rVt R \<and> steady (scols A) (srows A) kk L st')
      (left_vectors E A (scols A) i t (x + 1) xv
         (R\<lparr>rUt := (rUt R)\<lparr>dvalue := (dvalue (rUt R))[x := u]\<rparr>, rS := (rS R)[x := s]\<rparr>)
         (st\<lparr>opbtemp := tmp, mxv := c, rbnd := (rbnd st)[i := b]\<rparr>))"
    if "length xv = scols A" "length u = srows A" "length tmp = srows A" for xv u s tmp c b
  proof (rule wp_mono [OF Suc.IH])
    show "record_ok d (srows A) (scols A) (R\<lparr>rUt := (rUt R)\<lparr>dvalue := (dvalue (rUt R))[x := u]\<rparr>, rS := (rS R)[x := s]\<rparr>)"
      using Suc.prems(3) that by (simp add: record_rows rows_ok_update)
  qed (use Suc.prems that st in auto)
  show ?case unfolding left_vectors.simps Let_def
    by (intro wp_cell wp_opb3 [OF assms(1)] wp_opa2 [OF assms(1)] wp_ddot wp_daxpy wp_dscal wp_put_at)
       (use st x R Suc.prems assms(2) ih in auto)
qed simp


lemma wp_imtql2:
  assumes "n = 1 \<or> pyt_ok md E" "0 < n" "n \<le> length d" "n \<le> length e" "\<forall>x\<in>set z. n \<le> length x"
    and "\<And>d' e' z' i'. length d' = length d \<Longrightarrow> length e' = length e \<Longrightarrow> map length z' = map length z \<Longrightarrow> wp md g P (f d' e' z' i')"
  shows "wp md g P (upon (imtql2 (l_pythag E) n d e z i) (\<lambda>(d, e, z, i). f d e z i))"
proof (cases "n = 1")
  case True
  then show ?thesis using assms(6) by (simp add: imtql2_def upon_def avail_def)
next
  case False
  obtain d' e' z' i' where r: "imtql2_t (some_pythag (l_pythag E)) n d e z i = Some (d', e', z', i')"
    "length d' = length d" "length e' = length e" "map length z' = map length z" using imtql2_total [OF assms(2-5)] by blast
  show ?thesis
    by (rule wp_upon [OF imtql2_same _ r(1)]) (use assms(1,6) r False in \<open>auto simp: pyt_ok_def\<close>)
qed

lemma rows_ok_lengths: "map length z = replicate d n \<longleftrightarrow> rows_ok d n z"
proof
  assume z: "map length z = replicate d n"
  have "length x = n" if "x \<in> set z" for x
  proof -
    have "length x \<in> set (map length z)" using that by simp
    then show ?thesis unfolding z by simp
  qed
  then show "rows_ok d n z" using arg_cong [OF z, of length] by (simp add: rows_ok_def)
next
  assume "rows_ok d n z"
  then show "map length z = replicate d n" by (intro replicate_eqI) (auto simp: rows_ok_def)
qed

text \<open>
  A property \<open>I\<close> of the record that the last loop establishes, and that holds as long as all the
  values are 0.
\<close>

definition left_ok :: "bool \<times> bool \<Rightarrow> 'v lasenv \<Rightarrow> ('v :: {zero, one, ord, plus, minus, uminus, times, inverse, abs}) smat \<Rightarrow> ('v svdrec \<Rightarrow> bool) \<Rightarrow> bool" where
  "left_ok md E A I \<longleftrightarrow>
     (\<forall>k L st d i xv2 R. steady (scols A) (srows A) k L st \<and> i \<le> k \<and> length xv2 = scols A \<and>
        record_ok d (srows A) (scols A) R \<and> rS R = replicate d 0 \<longrightarrow>
        I R \<and> wp md False (\<lambda>(R', st'). record_ok d (srows A) (scols A) R' \<and> I R') (left_vectors E A (scols A) i (rd R) 0 xv2 R st))"

lemma left_ok_True: "wf_smat A \<Longrightarrow> left_ok md E A (\<lambda>_. True)"
  unfolding left_ok_def
proof (intro allI impI conjI TrueI, elim conjE)
  fix k L and st :: "'a las" and d i and xv2 :: "'a list" and R :: "'a svdrec"
  assume *: "wf_smat A" "steady (scols A) (srows A) k L st" "i \<le> k" "length xv2 = scols A" "record_ok d (srows A) (scols A) R"
  have "0 + rd R \<le> d" using *(5) by (simp add: record_ok_def)
  from wp_mono [OF left_vectors_sized [OF *(1,3,2) this *(5,4)]]
  show "wp md False (\<lambda>(R', st'). record_ok d (srows A) (scols A) R' \<and> True) (left_vectors E A (scols A) i (rd R) 0 xv2 R st)"
    by (auto simp: case_prod_beta)
qed

lemma triples_sized:
  assumes s: "steady (scols A) (srows A) k L st"
    and R: "record_ok d (srows A) (scols A) R" "rS R = replicate d 0" and d: "0 < d" "rd R = d" and I: "left_ok md E A I" and js: "js \<le> k"
    and z: "rows_ok js js z" and x: "length xv2 = scols A" and n: "0 < scols A"
  shows "wp md False (\<lambda>(nsig, R', st'). record_ok d (srows A) (scols A) R' \<and> I R') (triples E (scols A) A kappa neig js z xv2 R st)"
  unfolding triples_def d(2)
proof (rule wp_use [OF ritz_vectors_sized [OF z js d(1) s _ d(1)]])
  let ?n = "scols A" and ?m = "srows A"
  have V: "drows (rVt R) = d" "dcols (rVt R) = ?n" using R(1) by (simp_all add: record_ok_def)
  show "rows_ok d ?n (dvalue (rVt R))" using R(1) by (simp add: record_rows)
  fix y :: "nat \<times> nat \<times> 'a list list \<times> 'a las"
  assume y: "case y of (x, nsig, vt, st') \<Rightarrow> x < d \<and> rows_ok d ?n vt \<and> steady ?n ?m k L st'"
  obtain a nsig vt u where yy: "y = (a, nsig, vt, u)" by (cases y) auto
  have a: "a < length vt" "length vt = d" "\<forall>r\<in>set vt. length r = ?n" and u: "steady ?n ?m k L u"
    using y yy by (auto simp: rows_ok_def)
  obtain flat where f: "rotateArray (concat vt) (d * ?n) (a * ?n) = Some flat" "rows_of d ?n flat = rotate a vt"
    using rotate_rows [OF a(3) n a(1)] a(2) by auto
  let ?R = "R\<lparr>rd := nat (svd_imin (int d) (int nsig)), rVt := (rVt R)\<lparr>dvalue := rotate a vt\<rparr>\<rparr>"
  have Q: "record_ok d ?m ?n ?R" using R(1) a by (auto simp: record_rows rows_ok_def svd_imin_def)
  have "wp md False (\<lambda>(nsig, R', st'). record_ok d ?m ?n R' \<and> I R')
      (io_bind (left_vectors E A ?n js (nat (svd_imin (int d) (int nsig))) 0 xv2 ?R u) (\<lambda>(R, st). Ret (nsig, R, st)))"
    by (rule wp_use [where P = "\<lambda>(R', st'). record_ok d ?m ?n R' \<and> I R'"])
       (use I [unfolded left_ok_def, rule_format, of k L u js xv2 d ?R] u js x Q R(2) in auto)
  then show "wp md False (\<lambda>(nsig, R', st'). record_ok d ?m ?n R' \<and> I R') ((\<lambda>(x, nsig, vt, st).
       avail (rotateArray (concat vt) (drows (rVt R) * dcols (rVt R)) (x * dcols (rVt R))) (\<lambda>flat.
       let d = nat (svd_imin (int d) (int nsig));
           R = R\<lparr>rd := d, rVt := (rVt R)\<lparr>dvalue := rows_of (drows (rVt R)) (dcols (rVt R)) flat\<rparr>\<rparr>
       in io_bind (left_vectors E A ?n js d 0 xv2 R st) (\<lambda>(R, st). Ret (nsig, R, st)))) y)"
    unfolding yy prod.case V f(1) avail_def option.case Let_def f(2) .
qed simp

lemma ritvec_sized:
  assumes s: "steady (scols A) (srows A) k L st"
    and R: "record_ok d (srows A) (scols A) R" "rS R = replicate d 0" and d: "0 < d" "rd R = d" and I: "left_ok md E A I" and j: "steps < k" "k \<le> scols A" and p: "steps = 0 \<or> pyt_ok md E"
  shows "wp md False (\<lambda>(nsig, R', st'). record_ok d (srows A) (scols A) R' \<and> I R') (ritvec E (scols A) A R kappa steps neig st)"
proof -
  let ?n = "scols A" and ?m = "srows A"
  note st = steadyD [OF s]
  have V: "rows_ok d ?n (dvalue (rVt R))" using R(1) by (simp add: record_rows)
  have v0: "0 < length (dvalue (rVt R))" "length (dvalue (rVt R) ! 0) = ?n"
    using V d(1) by (simp_all add: rows_ok_def)
  let ?s = "map (\<lambda>i. (replicate (steps + 1) 0)[i := 1]) [0..<steps + 1] :: 'a list list"
  have sl: "rows_ok (steps + 1) (steps + 1) ?s" by (auto simp: rows_ok_def simp del: upt_Suc replicate.simps)
  have left: "I Q" if "record_ok d ?m ?n Q" "rS Q = replicate d 0" for Q
    using I [unfolded left_ok_def, rule_format, of k L st 0 "w0 st" d Q] s st that by simp
  show ?thesis unfolding ritvec_def Let_def [of "steps + 1"] Let_def [of ?s] Let_def [of "map f x" for f x]
  proof (intro wp_cell wp_dcopy_down wp_imtql2 wp_let if_cases triples_sized [OF _ _ _ d(1) _ I, where k = k and L = L])
    fix w e d' e' :: "'a list" and z :: "'a list list"
    assume "map length z = map length ?s"
    then show "rows_ok (steps + 1) (steps + 1) z" using sl rows_ok_lengths by metis
  qed (use s st v0 j V R d sl left p in \<open>auto simp: record_rows rows_ok_update rows_ok_def [of "steps + 1"] simp del: upt_Suc replicate.simps\<close>)
qed

section \<open>The decomposition\<close>

lemma write_array_total: "i + n \<le> length a \<Longrightarrow> \<exists>out. write_array f a n i = Some out"
  by (induction n arbitrary: i) (auto simp: append_out_def cell_def)

lemma write_row_total:
  assumes "wf_dmat D" "i < drows D"
  shows "j + n \<le> dcols D \<Longrightarrow> \<exists>out. write_row f D i n j = Some out"
proof (induction n arbitrary: j)
  case (Suc n)
  have "length (dvalue D ! i) = dcols D" using assms by (simp add: wf_dmat_def)
  then show ?case using Suc.IH [of "j + 1"] Suc.prems assms by (auto simp: append_out_def dense_cell_def get2_def wf_dmat_def)
qed simp

lemma write_rows_total: "wf_dmat D \<Longrightarrow> i + m \<le> drows D \<Longrightarrow> \<exists>out. write_rows f D m i = Some out"
proof (induction m arbitrary: i)
  case (Suc m)
  then show ?case using Suc.IH [of "i + 1"] write_row_total [of D i 0 "dcols D" f] by (auto simp: append_out_def)
qed simp

lemma wp_show_svd:
  assumes "record_ok d m n R" "P ()"
  shows "wp md g P (show_svd E v R)"
proof -
  obtain a where a: "print_array (l_fmt E) (rS R) (int (rd R)) False = Some a"
    using write_array_total [of 0 "rd R" "rS R" "\<lambda>x. show_g (l_fmt E) x @ newline"] assms(1)
    by (fastforce simp: print_array_def append_out_def record_ok_def)
  obtain u where u: "svdWriteDenseTextFile (l_fmt E) (rUt R) = Some u"
    using write_rows_total [of "rUt R" 0 "drows (rUt R)"] assms(1)
    unfolding svdWriteDenseTextFile_def append_out_def record_ok_def by fastforce
  obtain w where w: "svdWriteDenseTextFile (l_fmt E) (rVt R) = Some w"
    using write_rows_total [of "rVt R" 0 "drows (rVt R)"] assms(1)
    unfolding svdWriteDenseTextFile_def append_out_def record_ok_def by fastforce
  show ?thesis using assms(2)
    by (simp add: show_svd_def svdWriteDenseArray_def svdWriteDenseMatrix_def svd_writeFile_def finish_write_def a u w svd_closeFile_def)
qed

lemma wp_show_ritz:
  assumes "steps < length (ritz st)" "steps < length (rbnd st)" "P ()"
  shows "wp md g P (show_ritz E v steps neig st)"
proof -
  let ?line = "\<lambda>i p. io_bind p (\<lambda>_. avail (cell (ritz st) i) (\<lambda>r. avail (cell (rbnd st) i) (\<lambda>b.
           one_call (Out (pad_left 3 (nat_str (i + 1)) @ ''  '' @ l_exp E 22 14 r @ ''  ('' @ l_exp E 11 2 b @ '')'' @ newline)))))"
  have f: "wp md g P (fold ?line ms p)" if "\<forall>m\<in>set ms. m \<le> steps" "wp md g P p" for ms p
    using that
  proof (induction ms arbitrary: p)
    case (Cons m ms)
    have "wp md g P (?line m p)" unfolding wp_bind
      by (rule wp_mono [OF Cons.prems(2)]) (intro wp_cell, use Cons.prems(1) assms in auto)
    then show ?case using Cons by simp
  qed simp
  have "wp md g P (fold ?line [0..<steps + 1] (Ret ()))" by (rule f) (use assms(3) in auto)
  then show ?thesis unfolding show_ritz_def wp_bind wp_tell wp_one_call using assms(3) by (intro if_cases) simp_all
qed

lemma las_arrays_steady: "steady (scols A) (srows A) k (replicate (k + MAXLL) None) (las_arrays E A k)"
  by (auto simp: las_sizes_def las_arrays_def Let_def)

lemma new_dmat_ok: "0 < d \<Longrightarrow> \<exists>D. svdNewDMat d n = Some D \<and> drows D = d \<and> dcols D = n \<and> wf_dmat D"
  by (auto simp: svdNewDMat_def wf_dmat_def)

lemma las_solve_sized:
  assumes "wf_smat A" "env_ok md E" "0 < d" "0 < k" "k \<le> scols A" and I: "left_ok md E A I"
  shows "wp md False (\<lambda>(R, c). record_ok d (srows A) (scols A) R \<and> I R) (las_solve E v A d k ends kappa)"
  unfolding las_solve_def
proof (rule wp_use [OF lanso_ends [OF assms(1,2,5,4) las_arrays_steady]])
  let ?Q = "\<lambda>(R, c). record_ok d (srows A) (scols A) R \<and> I R"
  fix x :: "nat \<times> int \<times> 'a las"
  assume x: "ended_at (scols A) (srows A) k x"
  obtain steps neig st where xx: "x = (steps, neig, st)" by (cases x) auto
  obtain L where s: "steps < k" "steady (scols A) (srows A) k L st" using x xx by (auto simp: ended_at_def)
  obtain U :: "'a dmat" where U: "svdNewDMat d (srows A) = Some U" "drows U = d" "dcols U = srows A" "wf_dmat U"
    using new_dmat_ok [OF assms(3), of "srows A"] by blast
  obtain V :: "'a dmat" where V: "svdNewDMat d (scols A) = Some V" "drows V = d" "dcols V = scols A" "wf_dmat V"
    using new_dmat_ok [OF assms(3), of "scols A"] by blast
  let ?R = "\<lparr>rd = d, rUt = U, rS = replicate d 0, rVt = V\<rparr>"
  have R: "record_ok d (srows A) (scols A) ?R" using U V by (simp add: record_ok_def)
  have r: "wp md False ?Q (io_bind (ritvec E (scols A) A ?R (svd_dmax \<bar>kappa\<bar> (l_eps34 E)) steps neig st) (\<lambda>(nsig, R, st).
      io_bind (show_svd E v R) (\<lambda>_. Ret (R, mxv st))))"
    by (rule wp_use [OF ritvec_sized [OF s(2) R _ assms(3) _ I s(1) assms(5) disjI2 [OF env_okD(2) [OF assms(2)]]]]) (auto simp: wp_show_svd)
  have "wp md False (\<lambda>_. True) (show_ritz E v steps neig st)"
    by (rule wp_show_ritz) (use s steadyD [OF s(2)] in simp_all)
  then have "wp md False ?Q (io_bind (show_ritz E v steps neig st) (\<lambda>_.
      io_bind (ritvec E (scols A) A ?R (svd_dmax \<bar>kappa\<bar> (l_eps34 E)) steps neig st) (\<lambda>(nsig, R, st).
      io_bind (show_svd E v R) (\<lambda>_. Ret (R, mxv st)))))"
    by (rule wp_use) (rule r)
  then show "wp md False ?Q ((\<lambda>(steps, neig, st).
     io_bind (show_ritz E v steps neig st) (\<lambda>_.
     avail (svdNewDMat d (srows A)) (\<lambda>Ut.
     avail (svdNewDMat d (scols A)) (\<lambda>Vt.
     let R = \<lparr>rd = d, rUt = Ut, rS = replicate d 0, rVt = Vt\<rparr> in
     io_bind (ritvec E (scols A) A R (svd_dmax \<bar>kappa\<bar> (l_eps34 E)) steps neig st) (\<lambda>(nsig, R, st).
     io_bind (show_svd E v R) (\<lambda>_. Ret (R, mxv st))))))) x)"
    unfolding xx prod.case U(1) V(1) avail_def option.case Let_def .
qed

text \<open>How many triples there is room for.\<close>

definition wanted :: "'v smat \<Rightarrow> int \<Rightarrow> nat" where
  "wanted A dimensions =
     (let m = min (srows A) (scols A) in if dimensions \<le> 0 \<or> int m < dimensions then m else nat dimensions)"

lemma check_parameters_wp:
  assumes "0 < d" "d \<le> k" "k \<le> min (srows A) (scols A)"
  shows "wp md g (\<lambda>i. i = (if fst ends > snd ends then 2 else 0)) (check_parameters A (int d) (int k) ends)"
  using assms by (auto simp: check_parameters_def)

lemma swap_swap_sides [simp]: "swap_sides (swap_sides R) = R"
  by (simp add: swap_sides_def)

lemma record_swap [simp]: "record_ok d n m (swap_sides R) \<longleftrightarrow> record_ok d m n R"
  by (auto simp: record_ok_def swap_sides_def)

text \<open>
  What \<^verbatim>\<open>las_solve\<close> guarantees of the matrix that it gets is guaranteed of the matrix or of its
  transpose.
\<close>

lemma svdLAS2_frame:
  assumes A: "wf_smat A"
    and S: "\<And>M k. wf_smat M \<Longrightarrow> 0 < wanted A dimensions \<Longrightarrow> wanted A dimensions \<le> k \<Longrightarrow> k \<le> min (srows M) (scols M) \<Longrightarrow>
      min (srows M) (scols M) = min (srows A) (scols A) \<Longrightarrow>
      wp md g (\<lambda>(R, c). S M R) (las_solve E v M (wanted A dimensions) k ends kappa)"
  shows "wp md g (\<lambda>(R, c). case R of
       None \<Rightarrow> srows A = 0 \<or> scols A = 0 \<or> fst ends > snd ends
     | Some R \<Rightarrow>
         if 6 * srows A \<le> 5 * scols A
         then \<exists>N. svdTransposeS (l_heap E) A = Some N \<and> srows N = scols A \<and> scols N = srows A \<and> S N (swap_sides R)
         else S A R)
     (svdLAS2 E v A dimensions iterations ends kappa)"
    (is "wp md g ?Q _")
proof -
  let ?m = "min (srows A) (scols A)"
  define d where "d = wanted A dimensions"
  define k where "k = (let i = (if iterations \<le> 0 \<or> int ?m < iterations then ?m else nat iterations) in if i < d then d else i)"
  have dk: "d \<le> k" "k \<le> ?m" by (auto simp: d_def k_def wanted_def Let_def)
  have m: "svd_imin (int (srows A)) (int (scols A)) = int ?m" by (auto simp: svd_imin_def)
  have ed: "(if dimensions \<le> 0 \<or> int ?m < dimensions then int ?m else dimensions) = int d"
    by (auto simp: d_def wanted_def Let_def)
  have ek: "(if (if iterations \<le> 0 \<or> int ?m < iterations then int ?m else iterations) < int d then int d
      else if iterations \<le> 0 \<or> int ?m < iterations then int ?m else iterations) = int k"
    by (auto simp: k_def Let_def)
  define body where "body = (\<lambda>error_index :: int.
      if error_index \<noteq> 0 then Ret (None, 0)
      else if 6 * srows A \<le> 5 * scols A then
        io_bind (tell v (''TRANSPOSING THE MATRIX FOR SPEED'' @ newline)) (\<lambda>_.
        avail (svdTransposeS (l_heap E) A) (\<lambda>A.
        io_bind (las_solve E v A d k ends kappa) (\<lambda>(R, c). Ret (Some (swap_sides R), c))))
      else io_bind (las_solve E v A d k ends kappa) (\<lambda>(R, c). Ret (Some R, c)))"
  have e: "svdLAS2 E v A dimensions iterations ends kappa =
     io_bind (if v > 0 then write_header E (int k) (int d) ends kappa A else Ret ()) (\<lambda>_.
     io_bind (check_parameters A (int d) (int k) ends) body)"
    unfolding svdLAS2_def m Let_def ed ek body_def nat_int by (rule refl)
  have b0: "wp md g ?Q (body 0)" if d: "0 < d"
  proof -
    note S' = S [folded d_def, OF _ d dk(1)]
    have p: "0 < srows A" using d dk by auto
    have "wp md g ?Q (io_bind (las_solve E v A d k ends kappa) (\<lambda>(R, c). Ret (Some R, c)))" if "\<not> 6 * srows A \<le> 5 * scols A"
      by (rule wp_use [OF S' [OF A dk(2) refl]]) (use that in auto)
    moreover obtain N where N: "svdTransposeS (l_heap E) A = Some N" "wf_smat N" "srows N = scols A" "scols N = srows A"
      using svdTransposeS_entries [OF A p, of "l_heap E"] by auto
    have n: "min (srows N) (scols N) = ?m" by (simp add: N min.commute)
    have "wp md g ?Q (io_bind (las_solve E v N d k ends kappa) (\<lambda>(R, c). Ret (Some (swap_sides R), c)))"
      if "6 * srows A \<le> 5 * scols A"
      by (rule wp_use [OF S' [OF N(2) _ n]]) (use that dk n N in auto)
    ultimately show ?thesis unfolding body_def using N(1) by (simp add: avail_def)
  qed
  have "wp md g ?Q (io_bind (check_parameters A (int d) (int k) ends) body)"
  proof (cases "0 < d")
    case True
    show ?thesis by (rule wp_use [OF check_parameters_wp [OF True dk]]) (use b0 [OF True] in \<open>auto simp: body_def\<close>)
  next
    case False
    then have z: "srows A = 0 \<or> scols A = 0" by (auto simp: d_def wanted_def Let_def split: if_splits)
    then have "k = 0" "d = 0" using dk by auto
    then have "wp md g (\<lambda>i. i \<noteq> 0) (check_parameters A (int d) (int k) ends)" using z by (auto simp: check_parameters_def)
    then show ?thesis by (rule wp_use) (use z in \<open>auto simp: body_def\<close>)
  qed
  then show ?thesis unfolding e by (auto simp: write_header_def simp del: list.map syscalls.simps)
qed

lemma svdLAS2_wp:
  assumes A: "wf_smat A" and rnd: "env_ok md E" and J: "\<And>N. wf_smat N \<Longrightarrow> left_ok md E N (J N)"
  shows "wp md False (\<lambda>(R, c). case R of
       None \<Rightarrow> srows A = 0 \<or> scols A = 0 \<or> fst ends > snd ends
     | Some R \<Rightarrow> record_ok (wanted A dimensions) (srows A) (scols A) R \<and>
         (if 6 * srows A \<le> 5 * scols A then \<exists>N. svdTransposeS (l_heap E) A = Some N \<and> J N (swap_sides R) else J A R))
     (svdLAS2 E v A dimensions iterations ends kappa)"
proof (rule wp_mono [OF svdLAS2_frame [OF A]])
  fix M :: "'a smat" and k
  assume "wf_smat M" "0 < wanted A dimensions" "wanted A dimensions \<le> k" "k \<le> min (srows M) (scols M)"
  then show "wp md False (\<lambda>(R, c). record_ok (wanted A dimensions) (srows M) (scols M) R \<and> J M R)
      (las_solve E v M (wanted A dimensions) k ends kappa)"
    by (intro las_solve_sized [OF _ rnd] J) auto
qed (auto split: option.splits if_splits)


end
