(* ===== verification/LasTriples.thy ===== *)
theory LasTriples
  imports LasVectors
begin

text \<open>
  What the values and the left vectors are in exact arithmetic: every triple that the decomposition
  returns consists of a right vector, the length of its product with the matrix, and that product
  divided by its length.
\<close>

section \<open>Products in exact arithmetic\<close>

definition product :: "real smat \<Rightarrow> real list \<Rightarrow> real list" where
  "product A v = foldl (acc_entry v) (replicate (srows A) 0) (entries A)"

lemma product_length [simp]: "length (product A v) = srows A"
  by (simp add: product_def length_acc)

lemma product_nth: "r < srows A \<Longrightarrow> product A v ! r = (\<Sum>e\<leftarrow>of_row r (entries A). snd (snd e) * v ! fst (snd e))"
  by (simp add: product_def acc_nth fold_plus)

lemma opa_product: "wf_smat A \<Longrightarrow> length v = scols A \<Longrightarrow> length y = srows A \<Longrightarrow> svd_opa A v y k = Some (k + 1, product A v)"
  by (simp add: svd_opa_fold product_def zeroed_def)

lemma sum_by_row:
  assumes "\<forall>e\<in>set es. fst e < n"
  shows "(\<Sum>r<n. \<Sum>e\<leftarrow>of_row r es. f r e) = (\<Sum>e\<leftarrow>es. f (fst e) e :: real)"
  using assms
proof (induction es)
  case (Cons e es)
  have "(\<Sum>r<n. \<Sum>e\<leftarrow>of_row r (e # es). f r e) = (\<Sum>r<n. (if r = fst e then f r e else 0) + (\<Sum>e\<leftarrow>of_row r es. f r e))"
    by (rule sum.cong) (auto simp: of_row_def)
  also have "\<dots> = f (fst e) e + (\<Sum>r<n. \<Sum>e\<leftarrow>of_row r es. f r e)"
    using Cons.prems by (simp add: sum.distrib)
  finally show ?case using Cons by simp
qed (simp add: of_row_def)

lemma sum_concat_upt: "(\<Sum>c<n. \<Sum>e\<leftarrow>f c. g e) = (\<Sum>e\<leftarrow>concat (map f [0..<n]). g e :: real)"
  by (induction n) simp_all

lemma sum_by_column: "(\<Sum>c< scols A. \<Sum>e\<leftarrow>col_entries A c. g e) = (\<Sum>e\<leftarrow>entries A. g e :: real)"
  by (simp add: entries_def sum_concat_upt)

lemma opb_product:
  assumes "wf_smat A" "length v = scols A" "length y = scols A" "length t = srows A"
  shows "\<exists>y'. svd_opb A v y t k = Some (k + 2, y', product A v) \<and> length y' = scols A \<and>
    (\<Sum>c< scols A. v ! c * y' ! c) = (\<Sum>r< srows A. product A v ! r * product A v ! r)"
proof -
  let ?p = "product A v"
  have p: "opa_cols A v (scols A) 0 (zeroed (srows A) t) = Some ?p"
    using opa_cols_fold [OF assms(1,2), of 0 "scols A" "zeroed (srows A) t"] assms(4)
    by (simp add: product_def entries_def zeroed_def)
  obtain y' where y: "opb_cols A ?p (scols A) 0 (zeroed (scols A) y) = Some y'" "length y' = scols A"
    "\<forall>c< scols A. y' ! c = col_product A ?p c 0"
    using opb_cols_fold [OF assms(1), of ?p 0 "scols A" "zeroed (scols A) y"] assms(3) by (auto simp: zeroed_def)
  have c: "fst (snd e) = c" if "e \<in> set (col_entries A c)" for e c using that by (auto simp: col_entries_def nz_entry_def)
  have "(\<Sum>c< scols A. v ! c * y' ! c) = (\<Sum>c< scols A. \<Sum>e\<leftarrow>col_entries A c. v ! c * (snd (snd e) * ?p ! fst e))"
    using y(3) by (intro sum.cong) (simp_all add: col_product_def fold_plus sum_list_const_mult)
  also have "\<dots> = (\<Sum>c< scols A. \<Sum>e\<leftarrow>col_entries A c. ?p ! fst e * (snd (snd e) * v ! fst (snd e)))"
    by (intro sum.cong refl arg_cong [where f = sum_list] map_cong) (simp_all add: c)
  also have "\<dots> = (\<Sum>e\<leftarrow>entries A. ?p ! fst e * (snd (snd e) * v ! fst (snd e)))"
    by (rule sum_by_column)
  also have "\<dots> = (\<Sum>r< srows A. \<Sum>e\<leftarrow>of_row r (entries A). ?p ! r * (snd (snd e) * v ! fst (snd e)))"
    by (rule sum_by_row [symmetric]) (use entries_range [OF assms(1)] in fastforce)
  also have "\<dots> = (\<Sum>r< srows A. ?p ! r * ?p ! r)"
    by (intro sum.cong) (simp_all add: sum_list_const_mult product_nth)
  finally show ?thesis using y p assms by (auto simp: svd_opb_def)
qed

lemma scal_exact:
  "k + i = length x \<Longrightarrow> scal_loop k a x (int i) 1 = Some (take i x @ map (\<lambda>v. v * a) (drop i x))"
proof (induction k arbitrary: i x)
  case (Suc k)
  have "scal_loop k a (x[i := x ! i * a]) (int (i + 1)) 1 =
      Some (take (i + 1) (x[i := x ! i * a]) @ map (\<lambda>v. v * a) (drop (i + 1) (x[i := x ! i * a])))"
    by (rule Suc.IH) (use Suc.prems in simp)
  moreover have "take (i + 1) (x[i := x ! i * a]) = take i x @ [x ! i * a]" "drop i x = x ! i # drop (i + 1) x"
    using Suc.prems by (simp_all add: take_Suc_conv_app_nth Cons_nth_drop_Suc)
  ultimately show ?case using Suc.prems by (simp add: vget_in add.commute)
qed simp

lemma dscal_exact: "svd_dscal (int (length x)) a x 1 = Some (map (\<lambda>v. v * a) x)"
  using scal_exact [of "length x" 0 x a] by (simp add: svd_dscal_def vstart_def)


section \<open>Triples\<close>

text \<open>The value \<open>s\<close> is the length of the product with \<open>v\<close>, and \<open>u\<close> is the product divided by it.\<close>

definition triple :: "real smat \<Rightarrow> real list \<Rightarrow> real \<Rightarrow> real list \<Rightarrow> bool" where
  "triple A v s u \<longleftrightarrow>
     0 < s \<and> s\<^sup>2 = (\<Sum>r< srows A. (product A v ! r)\<^sup>2) \<and> length u = srows A \<and> (\<forall>r< srows A. u ! r = product A v ! r / s)"

definition triples_to :: "real smat \<Rightarrow> nat \<Rightarrow> real svdrec \<Rightarrow> bool" where
  "triples_to A n R \<longleftrightarrow>
     (\<forall>x<n. rS R ! x \<noteq> 0 \<longrightarrow> triple A (dvalue (rVt R) ! x) (rS R ! x) (dvalue (rUt R) ! x))"

lemma triple_made:
  assumes "(\<Sum>r< srows A. product A v ! r * product A v ! r) = q" "sqrt q \<noteq> 0"
  shows "triple A v (sqrt q) (map (\<lambda>x. x * (1 / sqrt q)) (product A v))"
proof -
  have "0 \<le> q" unfolding assms(1) [symmetric] by (intro sum_nonneg) simp
  then show ?thesis using assms by (auto simp: triple_def power2_eq_square)
qed

lemma left_vectors_triples:
  assumes A: "wf_smat A" and E: "l_sqrt E = sqrt" and i: "i \<le> kk"
  shows "steady (scols A) (srows A) kk L st \<Longrightarrow> x + t \<le> d \<Longrightarrow> record_ok d (srows A) (scols A) R \<Longrightarrow> length xv2 = scols A \<Longrightarrow>
    triples_to A x R \<Longrightarrow>
    wp md False (\<lambda>(R', st'). record_ok d (srows A) (scols A) R' \<and> rd R' = rd R \<and> triples_to A (x + t) R')
      (left_vectors E A (scols A) i t x xv2 R st)"
proof (induction t arbitrary: x xv2 R st)
  case (Suc t)
  note st = steadyD [OF Suc.prems(1)]
  have R: "rows_ok d (srows A) (dvalue (rUt R))" "rows_ok d (scols A) (dvalue (rVt R))" "length (rS R) = d"
    using Suc.prems(3) by (simp_all add: record_rows)
  let ?v = "dvalue (rVt R) ! x"
  have x: "x < d" "x < length (dvalue (rUt R))" "x < length (dvalue (rVt R))" "length (dvalue (rUt R) ! x) = srows A" "length ?v = scols A"
    using Suc.prems(2) R by (simp_all add: rows_ok_def)
  obtain y' where y: "svd_opb A ?v xv2 (opbtemp st) (mxv st) = Some (mxv st + 2, y', product A ?v)" "length y' = scols A"
    "(\<Sum>c< scols A. ?v ! c * y' ! c) = (\<Sum>r< srows A. product A ?v ! r * product A ?v ! r)"
    using opb_product [OF A x(5) Suc.prems(4) st(16)] by blast
  define q where "q = (\<Sum>c< scols A. ?v ! c * y' ! c)"
  have dot: "svd_ddot (int (scols A)) ?v 1 y' 1 = Some q"
    using svd_ddot_unit [of ?v y'] x(5) y(2) by (simp add: q_def)
  let ?u = "map (\<lambda>x. x * (1 / sqrt q)) (product A ?v)"
  let ?R = "R\<lparr>rUt := (rUt R)\<lparr>dvalue := (dvalue (rUt R))[x := ?u]\<rparr>, rS := (rS R)[x := sqrt q]\<rparr>"
  have Rok: "record_ok d (srows A) (scols A) ?R" using Suc.prems(3) by (simp add: record_rows rows_ok_update)
  have "triples_to A (x + 1) ?R"
    using Suc.prems(5) x(1,2) R(3) triple_made [of A ?v q] y(3)
    by (auto simp: triples_to_def nth_list_update less_Suc_eq q_def)
  then have ih: "wp md False (\<lambda>(R', st'). record_ok d (srows A) (scols A) R' \<and> rd R' = rd R \<and> triples_to A (x + Suc t) R')
      (left_vectors E A (scols A) i t (x + 1) z ?R (st\<lparr>opbtemp := product A ?v, mxv := c, rbnd := (rbnd st)[i := b]\<rparr>))"
    if "length z = scols A" for z c b
    using Suc.IH [OF _ _ Rok that, of "st\<lparr>opbtemp := product A ?v, mxv := c, rbnd := (rbnd st)[i := b]\<rparr>" "x + 1"]
      Suc.prems(1,2) st by simp
  have uu: "svd_opa A ?v (dvalue (rUt R) ! x) k = Some (k + 1, product A ?v)" for k
    by (rule opa_product [OF A x(5,4)])
  have sc: "svd_dscal (int (srows A)) (1 / sqrt q) (product A ?v) 1 = Some ?u" using dscal_exact [of "product A ?v"] by simp
  have pu: "put_at x (sqrt q) (rS R) = Some ((rS R)[x := sqrt q])" using x(1) R(3) by (simp add: put_at_def)
  have cu: "cell (dvalue (rUt R)) x = Some (dvalue (rUt R) ! x)" "cell (dvalue (rVt R)) x = Some ?v"
    using x by (simp_all add: cell_def)
  show ?case unfolding left_vectors.simps Let_def E cu y(1) uu sc pu dot avail_def [of "Some _"] option.case prod.case
    by (intro wp_ddot wp_daxpy wp_put_at ih) (use st x y i in auto)
qed simp

lemma left_ok_triples:
  assumes "wf_smat A" "l_sqrt E = sqrt"
  shows "left_ok md E A (\<lambda>R. triples_to A (rd R) R)"
  unfolding left_ok_def
proof (intro allI impI conjI, elim conjE)
  fix k L and st :: "real las" and d i and xv2 :: "real list" and R :: "real svdrec"
  assume "record_ok d (srows A) (scols A) R" "rS R = replicate d 0"
  then show "triples_to A (rd R) R" by (auto simp: triples_to_def record_ok_def)
next
  fix k L and st :: "real las" and d i and xv2 :: "real list" and R :: "real svdrec"
  assume *: "steady (scols A) (srows A) k L st \<and> i \<le> k \<and> length xv2 = scols A \<and>
      record_ok d (srows A) (scols A) R \<and> rS R = replicate d 0"
  then have "0 + rd R \<le> d" "i \<le> k" by (auto simp: record_ok_def)
  from wp_mono [OF left_vectors_triples [OF assms this(2) _ this(1), where md = md]] *
  show "wp md False (\<lambda>(R', st'). record_ok d (srows A) (scols A) R' \<and> triples_to A (rd R') R') (left_vectors E A (scols A) i (rd R) 0 xv2 R st)"
    by (auto simp: case_prod_beta triples_to_def)
qed


section \<open>The dense form\<close>

lemma distinct_rows:
  assumes "\<forall>c<n. distinct (map fst (f c))" "\<And>c e. e \<in> set (f c) \<Longrightarrow> fst (snd e) = c"
  shows "distinct (map (\<lambda>e. fst (snd e)) (of_row r (concat (map f [0..<n]))))"
  using assms(1)
proof (induction n)
  case (Suc n)
  have one: "distinct (map (\<lambda>e. fst (snd e)) (of_row r xs))" if "distinct (map fst xs)" for xs :: "(nat \<times> nat \<times> 'v) list"
    using that
  proof (induction xs)
    case (Cons e xs)
    have "of_row r xs = []" if "fst e = r" using Cons.prems that by (auto simp: of_row_def filter_empty_conv image_iff)
    then show ?case using Cons by (auto simp: of_row_def)
  qed (simp add: of_row_def)
  have "fst (snd e) < n" if "e \<in> set (of_row r (concat (map f [0..<n])))" for e
    using that assms(2) [where e = e] by (auto simp: of_row_def)
  moreover have "fst (snd e) = n" if "e \<in> set (of_row r (f n))" for e using that assms(2) by (auto simp: of_row_def)
  ultimately show ?case using Suc one [of "f n"] by (fastforce simp: of_row_append)
qed (simp add: of_row_def)

lemma distinct_transposed:
  assumes "wf_smat A" "distinct_columns A" "0 < srows A" "svdTransposeS h A = Some N"
  shows "distinct_columns N"
  unfolding distinct_columns_def
proof (intro allI impI)
  fix r
  assume r: "r < scols N"
  have N: "col_entries N r = map swap_entry (of_row r (entries A))"
    using svdTransposeS_entries [OF assms(1,3), of h] assms(4) r by auto
  have "fst (snd e) = c" if "e \<in> set (col_entries A c)" for e c using that by (auto simp: col_entries_def nz_entry_def)
  then have "distinct (map (\<lambda>e. fst (snd e)) (of_row r (entries A)))"
    unfolding entries_def using assms(2) by (intro distinct_rows) (auto simp: distinct_columns_def)
  moreover have "map fst (col_entries N r) = map (\<lambda>e. fst (snd e)) (of_row r (entries A))"
    unfolding N by (auto simp: swap_entry_def)
  ultimately show "distinct (map fst (col_entries N r))" by simp
qed

lemma product_dense:
  assumes "wf_smat A" "distinct_columns A" "0 < srows A" "svdConvertStoD A = Some D" "length v = scols A" "r < srows A"
  shows "product A v ! r = (\<Sum>c< scols A. dvalue D ! r ! c * v ! c)"
proof -
  let ?y = "replicate (srows A) (0 :: real)"
  obtain y' where "svd_opa A v ?y 0 = Some (0 + 1, y')" "\<forall>r< srows A. y' ! r = (\<Sum>c< scols A. dvalue D ! r ! c * v ! c)"
    using svd_opa_value [OF assms(1,2,5) _ assms(3), of ?y 0] assms(4) by auto
  moreover have "svd_opa A v ?y 0 = Some (0 + 1, product A v)" by (rule opa_product [OF assms(1,5)]) simp
  ultimately show ?thesis using assms(6) by simp
qed

lemma svdConvertStoD_shape:
  assumes "wf_smat A" "0 < srows A" "svdConvertStoD A = Some D"
  shows "drows D = srows A" "dcols D = scols A"
  using assms by (auto simp: svdConvertStoD_def svdNewDMat_def split: option.splits)

lemma transposed_entry:
  assumes "0 < dcols D" "svdTransposeD D = Some T" "c < dcols D" "r < drows D"
  shows "dvalue T ! c ! r = dvalue D ! r ! c"
proof -
  let ?V = "foldl (\<lambda>V r. foldl (\<lambda>V c. V[c := (V ! c)[r := dvalue D ! r ! c]]) V [0..<dcols D])
    (replicate (dcols D) (replicate (drows D) 0)) [0..<drows D]"
  have "dvalue T = ?V" using assms(1,2) by (auto simp: svdTransposeD_def svdNewDMat_def)
  then show ?thesis
    using transpose_rows [OF shaped_zero, of "drows D" "drows D" "dcols D" "\<lambda>r c. dvalue D ! r ! c"] assms by simp
qed

text \<open>
  A unit vector \<open>u\<close> and a value \<open>s\<close> that are the product of the \<open>m\<close> times \<open>n\<close> matrix with
  the entries \<open>d\<close> and the vector \<open>v\<close>.
\<close>

definition unit_product :: "nat \<Rightarrow> nat \<Rightarrow> (nat \<Rightarrow> nat \<Rightarrow> real) \<Rightarrow> real list \<Rightarrow> real \<Rightarrow> real list \<Rightarrow> bool" where
  "unit_product m n d v s u \<longleftrightarrow>
     0 < s \<and> (\<forall>r<m. s * u ! r = (\<Sum>c<n. d r c * v ! c)) \<and> (\<Sum>r<m. (u ! r)\<^sup>2) = 1"

lemma triple_unit:
  assumes "triple A v s u" "\<And>r. r < srows A \<Longrightarrow> product A v ! r = (\<Sum>c<n. d r c * v ! c)"
  shows "unit_product (srows A) n d v s u"
proof -
  have s: "0 < s" "s\<^sup>2 = (\<Sum>r< srows A. (product A v ! r)\<^sup>2)" "\<forall>r< srows A. u ! r = product A v ! r / s"
    using assms(1) by (simp_all add: triple_def)
  have "(\<Sum>r< srows A. (u ! r)\<^sup>2) = (\<Sum>r< srows A. (product A v ! r)\<^sup>2 / s\<^sup>2)"
    using s(3) by (intro sum.cong) (simp_all add: power_divide)
  also have "\<dots> = s\<^sup>2 / s\<^sup>2" unfolding s(2) by (rule sum_divide_distrib [symmetric])
  also have "\<dots> = 1" using s(1) by simp
  finally show ?thesis using s assms(2) by (simp add: unit_product_def)
qed


end
