(* ===== verification/LasSingle.thy ===== *)
theory LasSingle
  imports LasTriples
begin

text \<open>
  A matrix with a single row or a single column: the tridiagonal matrix of the one step is never
  analysed, so no singular value other than 0 is found.
\<close>

section \<open>What holds if a program returns\<close>

primrec pw :: "('a \<Rightarrow> bool) \<Rightarrow> 'a io \<Rightarrow> bool" where
  "pw P (Ret x) = P x"
| "pw P (Halt i) = True"
| "pw P Undef = True"
| "pw P Cut = True"
| "pw P (Sys c k) = (\<forall>r. pw P (k r))"

lemma pw_bind: "pw P (io_bind p f) \<longleftrightarrow> pw (\<lambda>x. pw P (f x)) p"
  by (induction p) auto

lemma pw_mono: "pw P p \<Longrightarrow> (\<And>x. P x \<Longrightarrow> Q x) \<Longrightarrow> pw Q p"
  by (induction p) auto

lemma pw_use: "pw P p \<Longrightarrow> (\<And>x. P x \<Longrightarrow> pw Q (f x)) \<Longrightarrow> pw Q (io_bind p f)"
  by (simp add: pw_bind pw_mono)

lemma pw_avail: "(\<And>x. pw P (f x)) \<Longrightarrow> pw P (avail m f)"
  by (simp add: avail_def split: option.split)

lemma pw_avail_Some: "(\<And>x. m = Some x \<Longrightarrow> pw P (f x)) \<Longrightarrow> pw P (avail m f)"
  by (simp add: avail_def split: option.split)

lemma pw_if: "(b \<Longrightarrow> pw P p) \<Longrightarrow> (\<not> b \<Longrightarrow> pw P q) \<Longrightarrow> pw P (if b then p else q)"
  by simp

lemma wp_pw: "wp md g P p \<Longrightarrow> pw Q p \<Longrightarrow> wp md g (\<lambda>x. P x \<and> Q x) p"
  by (induction p) auto

text \<open>The Ritz values and their bounds are left alone.\<close>

definition same_ritz :: "'v las \<Rightarrow> 'v las \<Rightarrow> bool" where
  "same_ritz st st' \<longleftrightarrow> ritz st' = ritz st \<and> rbnd st' = rbnd st"

lemma same_ritz_simps [simp]:
  "same_ritz st st"
  "same_ritz st (s\<lparr>w0 := a\<rparr>) = same_ritz st s" "same_ritz st (s\<lparr>w1 := a\<rparr>) = same_ritz st s"
  "same_ritz st (s\<lparr>w3 := a\<rparr>) = same_ritz st s" "same_ritz st (s\<lparr>w4 := a\<rparr>) = same_ritz st s"
  "same_ritz st (s\<lparr>alf := a\<rparr>) = same_ritz st s" "same_ritz st (s\<lparr>eta := a\<rparr>) = same_ritz st s"
  "same_ritz st (s\<lparr>oldeta := a\<rparr>) = same_ritz st s" "same_ritz st (s\<lparr>bet := a\<rparr>) = same_ritz st s"
  "same_ritz st (s\<lparr>opbtemp := a\<rparr>) = same_ritz st s" "same_ritz st (s\<lparr>mxv := c\<rparr>) = same_ritz st s"
  "same_ritz st (s\<lparr>lerr := e\<rparr>) = same_ritz st s" "same_ritz st (s\<lparr>lanstore := L\<rparr>) = same_ritz st s"
  by (simp_all add: same_ritz_def)

lemma pw_las_opb:
  assumes "\<And>y t c. pw P (f (s\<lparr>w0 := y, opbtemp := t, mxv := c\<rparr>))"
  shows "pw P (avail (las_opb A s) f)"
  using assms by (auto simp: avail_def las_opb_def split: option.split)

lemma tries_ritz: "same_ritz st s \<Longrightarrow> pw (\<lambda>(r, s'). same_ritz st s') (start_tries E A n step t id' rnm2 irand s)"
proof (induction t arbitrary: id' rnm2 irand s)
  case (Suc t)
  show ?case unfolding start_tries.simps case_prod_beta
    by (rule pw_avail, rule pw_avail, rule pw_las_opb, intro pw_avail pw_if Suc.IH [unfolded case_prod_beta])
       (use Suc.prems in \<open>simp_all add: case_prod_beta\<close>)
qed simp

lemma startv_ritz: "pw (\<lambda>(r, s'). same_ritz st s') (startv E A 0 n st)"
  unfolding startv_def by (intro pw_avail pw_use [OF tries_ritz]) auto

lemma stpone_ritz: "pw (\<lambda>(rt, s'). same_ritz st s') (stpone E A n st)"
  unfolding stpone_def
proof (rule pw_use [OF startv_ritz])
  fix x :: "'a \<times> 'a las"
  assume "case x of (r, s') \<Rightarrow> same_ritz st s'"
  then have x: "same_ritz st (snd x)" by auto
  show "pw (\<lambda>(rt, s'). same_ritz st s') (case x of (rnm, st) \<Rightarrow>
       if rnm = 0 \<or> lerr st \<noteq> 0 then Ret (None, st)
       else
         avail (svd_datx (int n) (1 / rnm) (w0 st) 1 (w1 st) 1) (\<lambda>q.
         avail (svd_dscal (int n) (1 / rnm) (w3 st) 1) (\<lambda>p.
         avail (las_opb A (st\<lparr>w1 := q, w3 := p\<rparr>)) (\<lambda>st.
         avail (svd_ddot (int n) (w0 st) 1 (w3 st) 1) (\<lambda>a.
         avail (svd_daxpy (int n) (- a) (w1 st) 1 (w0 st) 1) (\<lambda>r.
         avail (svd_ddot (int n) r 1 (w3 st) 1) (\<lambda>t.
         avail (svd_daxpy (int n) (- t) (w1 st) 1 r 1) (\<lambda>r.
         avail (put_at 0 (a + t) (alf st)) (\<lambda>al.
         avail (svd_dcopy (int n) r 1 (w4 st) 1) (\<lambda>p'.
         avail (svd_ddot (int n) r 1 p' 1) (\<lambda>d.
           let rnm = l_sqrt E d; anorm = rnm + \<bar>a + t\<bar> in
             Ret (Some (rnm, l_reps E * anorm), st\<lparr>w0 := r, alf := al, w4 := p'\<rparr>))))))))))))"
    unfolding case_prod_beta Let_def
    by (rule pw_if, simp add: x case_prod_beta, rule pw_avail, rule pw_avail, rule pw_las_opb, intro pw_avail)
       (simp add: x)
qed


section \<open>One step\<close>

lemma bound_single:
  assumes "(0 :: 'v :: linordered_field) < h"
  shows "error_bound E False endl endr [0, 0] [h, h] 0 tol = Some (0, False, [h, h])"
  using assms by (simp add: error_bound_def refine_bound_def svd_idamax_def svd_dmin_def Let_def)

definition nothing_found :: "('v :: zero) lasenv \<Rightarrow> 'v smat \<Rightarrow> nat \<times> int \<times> 'v las \<Rightarrow> bool" where
  "nothing_found E A = (\<lambda>(j, neig, st).
     j = 0 \<and> (\<exists>L. steady (scols A) (srows A) 1 L st) \<and> ritz st = [0, 0] \<and> rbnd st = [l_huge E, l_huge E])"

lemma single_round:
  fixes E :: "('v :: linordered_field) lasenv"
  assumes "steady (scols A) (srows A) 1 L s" "ritz s = [0, 0]" "rbnd s = [l_huge E, l_huge E]" "0 < l_huge E" "0 < d"
  shows "wp md g (nothing_found E A) (lanso_rounds E A (scols A) 1 d ends 1 1 1 0 0 rnm tol s)"
proof -
  note s = steadyD [OF assms(1)]
  define r where "r = (if rnm \<le> tol then 0 else rnm)"
  define u where "u = s\<lparr>bet := (bet s)[Suc 0 := r]\<rparr>"
  have u: "steady (scols A) (srows A) 1 L u" using assms(1) s by (simp add: u_def)
  note u' = steadyD [OF u]
  have ur: "ritz u = [0, 0]" "rbnd u = [l_huge E, l_huge E]" using assms by (simp_all add: u_def)
  have w: "w1 u = w1 s" by (simp add: u_def)
  have so: "svd_dsort2 0 (Suc 0) [0, 0 :: 'v] [l_huge E, l_huge E] = Some ([0, 0], [l_huge E, l_huge E])" by (simp add: svd_dsort2_def)
  have same: "u\<lparr>ritz := [0, 0], rbnd := [l_huge E, l_huge E]\<rparr> = u" using ur by (simp add: las.equality)
  have p: "put_at (Suc 0) r (bet s) = Some ((bet s)[Suc 0 := r])" using s(12) by (simp add: put_at_def)
  have "wp md g (nothing_found E A) (io_bind (las_store E (scols A) STORQ 0 (w1 u) u) (\<lambda>(_, st). Ret (0, 0, st)))"
    by (intro wp_STORQ [OF u'(1)])
       (use u u' ur stored_steady [OF u] in \<open>auto simp: nothing_found_def\<close>)
  then show ?thesis
    using so p
    by (simp add: lanczos_step_def Let_def r_def [symmetric] avail_def [of "Some _"] u_def [symmetric] ur bound_single [OF assms(4)] same
        assms(2,3,5) w del: las_store.simps split: prod.split)
qed

lemma single_lanso:
  fixes E :: "('v :: linordered_field) lasenv"
  assumes "wf_smat A" "rnd_ok md E" "0 < l_huge E" "0 < d"
  shows "wp md True (nothing_found E A) (lanso E A 1 d ends (scols A) (las_arrays E A 1))"
proof -
  let ?s = "las_arrays E A 1" and ?n = "scols A" and ?L = "replicate (1 + MAXLL) None"
  have hi: "nat (svd_imin (int d + svd_imax 8 (int d)) (int 1)) = 1" using assms(4) by (auto simp: svd_imin_def svd_imax_def)
  have "wp md True (\<lambda>x. (case x of (rt, st') \<Rightarrow> steady ?n (srows A) 1 ?L st') \<and> (case x of (rt, s') \<Rightarrow> same_ritz ?s s')) (stpone E A ?n ?s)"
    by (rule wp_pw [OF stpone_steady [OF assms(1,2) las_arrays_steady] stpone_ritz]) simp
  then show ?thesis unfolding lanso_def hi
  proof (rule wp_use)
    fix x :: "('v \<times> 'v) option \<times> 'v las"
    assume "(case x of (rt, st') \<Rightarrow> steady ?n (srows A) 1 ?L st') \<and> (case x of (rt, s') \<Rightarrow> same_ritz ?s s')"
    moreover obtain rt s where xx: "x = (rt, s)" by fastforce
    ultimately have s: "steady ?n (srows A) 1 ?L s" "ritz s = [0, 0]" "rbnd s = [l_huge E, l_huge E]"
      by (simp_all add: same_ritz_def las_arrays_def Let_def)
    note s' = steadyD [OF s(1)]
    have fin: "nothing_found E A (0, l_junk E, s)" using s by (auto simp: nothing_found_def)
    have go: "wp md True (nothing_found E A) (avail (put_at 0 (l_eps1 E ?n) (eta s)) (\<lambda>et.
             avail (put_at 0 (l_eps1 E ?n) (oldeta s)) (\<lambda>ol.
               lanso_rounds E A ?n 1 d ends 1 1 1 0 0 rnm tol (s\<lparr>eta := et, oldeta := ol\<rparr>))))" for rnm tol
      by (intro wp_put_at single_round [where L = ?L]) (use s s' assms in simp_all)
    show "wp md True (nothing_found E A) (case x of (rt, st) \<Rightarrow> (case rt of
         None \<Rightarrow> Ret (0, l_junk E, st)
       | Some (rnm, tol) \<Rightarrow>
           if rnm = 0 \<or> lerr st \<noteq> 0 then Ret (0, l_junk E, st)
           else
             avail (put_at 0 (l_eps1 E ?n) (eta st)) (\<lambda>et.
             avail (put_at 0 (l_eps1 E ?n) (oldeta st)) (\<lambda>ol.
               lanso_rounds E A ?n 1 d ends 1 1 1 0 0 rnm tol (st\<lparr>eta := et, oldeta := ol\<rparr>)))))"
      unfolding xx prod.case using fin go by (auto split: option.split)
  qed
qed

lemma single_ritvec:
  fixes E :: "('v :: linordered_field) lasenv"
  assumes "steady (scols A) (srows A) 1 L st" "ritz st = [0, 0]" "rbnd st = [l_huge E, l_huge E]" "0 < l_huge E"
    and "record_ok 1 (srows A) (scols A) R" "0 < scols A"
  shows "wp md True (\<lambda>(nsig, R', st'). rS R' = rS R) (ritvec E (scols A) A R kappa 0 neig st)"
proof -
  note st = steadyD [OF assms(1)]
  have V: "length (dvalue (rVt R)) = 1" "length (dvalue (rVt R) ! 0) = scols A"
    using assms(5) by (auto simp: record_rows rows_ok_def)
  have n: "\<not> l_huge E \<le> 0" using assms(4) by simp
  have "wp md True (\<lambda>(nsig, R', st'). rS R' = rS R) (triples E (scols A) A kappa neig 1 z xv2 Q u)"
    if "rS Q = rS R" "ritz u = [0, 0]" "rbnd u = [l_huge E, l_huge E]" for Q z xv2 u
    using that n by (simp add: triples_def avail_def cell_def rotateArray_def svd_imin_def Let_def)
  moreover have "svd_dcopy 0 xs 1 ys (- 1) = Some ys" for xs ys :: "'v list" by (simp add: svd_dcopy_def)
  moreover have "\<exists>d. svd_dcopy 1 (alf st) 1 (dvalue (rVt R) ! 0) (- 1) = Some d"
    using st(9) V(2) assms(6) by (simp add: svd_dcopy_def vstart_def vget_def)
  ultimately show ?thesis using V assms(2,3)
    by (auto simp: ritvec_def Let_def cell_def avail_def upon_def imtql2_def)
qed

lemma wp_both: "wp md True P p \<Longrightarrow> wp md False Q p \<Longrightarrow> wp md True (\<lambda>x. P x \<and> Q x) p"
  by (induction p) auto

lemma single_solve:
  fixes E :: "('v :: linordered_field) lasenv"
  assumes A: "wf_smat A" and E: "rnd_ok md E" "0 < l_huge E" and n: "0 < scols A"
  shows "wp md True (\<lambda>(R, c). rS R = [0]) (las_solve E v A 1 1 ends kappa)"
  unfolding las_solve_def
proof (rule wp_use [OF single_lanso [OF A E]])
  let ?Q = "\<lambda>(R, c). rS R = [0]"
  fix x :: "nat \<times> int \<times> 'v las"
  assume x: "nothing_found E A x"
  obtain j neig st where xx: "x = (j, neig, st)" by (cases x) auto
  obtain L where s: "j = 0" "steady (scols A) (srows A) 1 L st" "ritz st = [0, 0]" "rbnd st = [l_huge E, l_huge E]"
    using x xx by (auto simp: nothing_found_def)
  obtain U :: "'v dmat" where U: "svdNewDMat 1 (srows A) = Some U" "drows U = 1" "dcols U = srows A" "wf_dmat U"
    using new_dmat_ok [of 1 "srows A"] by auto
  obtain V :: "'v dmat" where V: "svdNewDMat 1 (scols A) = Some V" "drows V = 1" "dcols V = scols A" "wf_dmat V"
    using new_dmat_ok [of 1 "scols A"] by auto
  let ?R = "\<lparr>rd = 1, rUt = U, rS = replicate 1 0, rVt = V\<rparr>"
  have R: "record_ok 1 (srows A) (scols A) ?R" using U V by (simp add: record_ok_def)
  have "wp md True (\<lambda>y. (case y of (nsig, R', st') \<Rightarrow> rS R' = [0]) \<and> (case y of (nsig, R', st') \<Rightarrow> record_ok 1 (srows A) (scols A) R' \<and> True))
      (ritvec E (scols A) A ?R (svd_dmax \<bar>kappa\<bar> (l_eps34 E)) 0 neig st)"
    by (rule wp_both [OF _ ritvec_sized [OF s(2) R _ _ _ left_ok_True [OF A] _ _ disjI1]])
       (use single_ritvec [OF s(2-4) E(2) R n] n in auto)
  then have r: "wp md True ?Q (io_bind (ritvec E (scols A) A ?R (svd_dmax \<bar>kappa\<bar> (l_eps34 E)) 0 neig st) (\<lambda>(nsig, R, st).
      io_bind (show_svd E v R) (\<lambda>_. Ret (R, mxv st))))"
    by (rule wp_use) (auto simp: wp_show_svd)
  have "wp md True (\<lambda>_. True) (show_ritz E v 0 neig st)"
    by (rule wp_show_ritz) (use s in simp_all)
  then have "wp md True ?Q (io_bind (show_ritz E v 0 neig st) (\<lambda>_.
      io_bind (ritvec E (scols A) A ?R (svd_dmax \<bar>kappa\<bar> (l_eps34 E)) 0 neig st) (\<lambda>(nsig, R, st).
      io_bind (show_svd E v R) (\<lambda>_. Ret (R, mxv st)))))"
    by (rule wp_use) (rule r)
  then show "wp md True ?Q ((\<lambda>(steps, neig, st).
     io_bind (show_ritz E v steps neig st) (\<lambda>_.
     avail (svdNewDMat 1 (srows A)) (\<lambda>Ut.
     avail (svdNewDMat 1 (scols A)) (\<lambda>Vt.
     let R = \<lparr>rd = 1, rUt = Ut, rS = replicate 1 0, rVt = Vt\<rparr> in
     io_bind (ritvec E (scols A) A R (svd_dmax \<bar>kappa\<bar> (l_eps34 E)) steps neig st) (\<lambda>(nsig, R, st).
     io_bind (show_svd E v R) (\<lambda>_. Ret (R, mxv st))))))) x)"
    unfolding xx s(1) prod.case U(1) V(1) avail_def option.case Let_def .
qed simp

lemma single_values:
  fixes E :: "('v :: linordered_field) lasenv"
  assumes "wf_smat A" and "random_total E" and "0 < l_huge E" and "min (srows A) (scols A) = 1" and "fst ends \<le> snd ends"
  shows "\<exists>R c. fst (run os tr (svdLAS2 E v A dimensions iterations ends kappa)) = Returned (Some R, c) \<and> rS R = [0]"
proof -
  have E: "rnd_ok (False, False) E" using assms(2) by (simp add: rnd_ok_def)
  have one: "wanted A dimensions = 1" using assms(4) by (auto simp: wanted_def Let_def)
  have "wp (False, False) True (\<lambda>(R, c). case R of
       None \<Rightarrow> srows A = 0 \<or> scols A = 0 \<or> fst ends > snd ends
     | Some R \<Rightarrow>
         if 6 * srows A \<le> 5 * scols A
         then \<exists>N. svdTransposeS (l_heap E) A = Some N \<and> srows N = scols A \<and> scols N = srows A \<and> rS (swap_sides R) = [0]
         else rS R = [0])
     (svdLAS2 E v A dimensions iterations ends kappa)"
  proof (rule svdLAS2_frame [OF assms(1)])
    fix M :: "'v smat" and k
    assume "wf_smat M" "wanted A dimensions \<le> k" "k \<le> min (srows M) (scols M)" "min (srows M) (scols M) = min (srows A) (scols A)"
    moreover from this have "k = 1" "0 < scols M" using one assms(4) by auto
    ultimately show "wp (False, False) True (\<lambda>(R, c). rS R = [0]) (las_solve E v M (wanted A dimensions) k ends kappa)"
      using single_solve [OF _ E assms(3)] one by simp
  qed
  from wp_run [OF this, of os tr, simplified] assms(4,5) show ?thesis
    by (auto simp: swap_sides_def split: option.splits if_splits)
qed


text \<open>
  C22: A defect: for a matrix with a single row or a single column, \<^verbatim>\<open>svdLAS2\<close> returns a record whose
  only value is 0, whatever the matrix and the random start are. The one Lanczos step is not
  followed by an analysis of the tridiagonal matrix, so the Ritz value keeps its initial 0 and its
  bound the initial, huge number.
\<close>

theorem svdLAS2_single:
  fixes E :: "('v :: linordered_field) lasenv"
  assumes "wf_smat A" and "random_total E" and "0 < l_huge E" and "min (srows A) (scols A) = 1" and "fst ends \<le> snd ends"
  shows "\<exists>R c. fst (run os tr (svdLAS2 E v A dimensions iterations ends kappa)) = Returned (Some R, c) \<and> rS R = [0]"
  by (rule single_values [OF assms])

end
