(* ===== verification/LasSample.thy ===== *)
theory LasSample
  imports LasSingle
begin

text \<open>
  A run of the decomposition: two rows and two columns, one triple, one Lanczos step, in exact
  arithmetic. Other examples of the properties of \<^verbatim>\<open>c/SVDLIBC/las2.c\<close>.
\<close>

section \<open>A matrix and an environment\<close>

definition las_sample :: "real smat" where
  "las_sample = \<lparr>srows = 2, scols = 2, svals = 2, pointr = [0, 1, 2], rowind = [0, 1], svalue = [5, 2]\<rparr>"

definition las_env :: "real lasenv" where
  "las_env = \<lparr>l_eps = 0, l_sqrt = sqrt, l_pythag = (\<lambda>a b. Some (sqrt (a * a + b * b))),
     l_random = (\<lambda>i. Some (if i = 918273 then 3 / 25 else 1, i + 1)), l_real = real, l_huge = 0,
     l_heap = \<lparr>wild_row = (\<lambda>_. 0), wild_value = (\<lambda>_. 0)\<rparr>,
     l_fmt = \<lparr>show_g = (\<lambda>x. int_str \<lfloor>x\<rfloor>), scan_lf = (\<lambda>s. map_option (\<lambda>(n, t). (of_int n, t)) (scan_int s)),
       to_float = (\<lambda>_. 0), of_float = (\<lambda>_. 0)\<rparr>,
     l_exp = (\<lambda>_ _ _. ''x''), l_density = (\<lambda>_. ''50.00''), l_junk = 0, l_ierr = 0\<rparr>"

lemma opb_sample: "svd_opb las_sample [a, b] [c, d] [e, f] k = Some (k + 2, [25 * a, 4 * b], [5 * a, 2 * b])"
  by (simp add: svd_opb_def las_sample_def zeroed_def eval_nat_numeral)

lemma opa_sample: "svd_opa las_sample [a, b] [c, d] k = Some (k + 1, [5 * a, 2 * b])"
  by (simp add: svd_opa_def las_sample_def zeroed_def eval_nat_numeral)

lemma vec2:
  "svd_dcopy 2 [a, b] 1 [c, d] 1 = Some [a, b :: real]"
  "svd_daxpy 2 x [a, b] 1 [c, d] 1 = Some [c + x * a, d + x * b :: real]"
  "svd_ddot 2 [a, b] 1 [c, d] 1 = Some (a * c + b * d :: real)"
  "svd_dscal 2 x [a, b] 1 = Some [a * x, b * x :: real]"
  "svd_datx 2 x [a, b] 1 [c, d] 1 = Some (if x = 0 then [c, d] else [x * a, x * b :: real])"
  by (simp_all add: svd_dcopy_def svd_daxpy_def svd_ddot_def svd_dscal_def svd_datx_def vstart_def vget_def eval_nat_numeral)

lemma env_sel [simp]:
  "l_eps las_env = 0" "l_sqrt las_env = sqrt" "l_pythag las_env = (\<lambda>a b. Some (sqrt (a * a + b * b)))"
  "l_random las_env = (\<lambda>i. Some (if i = 918273 then 3 / 25 else 1, i + 1))" "l_real las_env = real" "l_huge las_env = 0"
  "wild_value (l_heap las_env) = (\<lambda>_. 0)" "l_junk las_env = 0" "l_ierr las_env = 0" "l_reps las_env = 0" "l_eps1 las_env n = 0" "l_eps34 las_env = 0"
  by (simp_all add: las_env_def l_reps_def l_eps1_def l_eps34_def)

lemma sample_sel [simp]: "srows las_sample = 2" "scols las_sample = 2"
  by (simp_all add: las_sample_def)

lemma avail_Some [simp]: "avail (Some x) f = f x"
  by (simp add: avail_def)

definition st1 :: "real las" where
  "st1 = \<lparr>w0 = [3, 4], w1 = [0, 0], w2 = [0, 0], w3 = [3, 4], w4 = [0, 0], w5 = [0, 0], alf = [0], eta = [0], oldeta = [0],
     bet = [0, 0], ritz = [0, 0], rbnd = [0, 0], lanstore = [None, None, None], opbtemp = [3 / 5, 2], lerr = 0, mxv = 2\<rparr>"

definition st2 :: "real las" where
  "st2 = \<lparr>w0 = [1008 / 125, - 756 / 125], w1 = [3 / 5, 4 / 5], w2 = [0, 0], w3 = [3 / 5, 4 / 5], w4 = [1008 / 125, - 756 / 125], w5 = [0, 0],
     alf = [289 / 25], eta = [0], oldeta = [0],
     bet = [0, 0], ritz = [0, 0], rbnd = [0, 0], lanstore = [None, None, None], opbtemp = [3, 8 / 5], lerr = 0, mxv = 4\<rparr>"

definition st0 :: "real las" where
  "st0 =
    \<lparr>w0 = [0, 0], w1 = [0, 0], w2 = [0, 0], w3 = [0, 0], w4 = [0, 0], w5 = [0, 0], alf = [0], eta = [0], oldeta = [0],
     bet = [0, 0], ritz = [0, 0], rbnd = [0, 0], lanstore = [None, None, None], opbtemp = [0, 0], lerr = 0, mxv = 0\<rparr>"

lemma arrays_sample: "las_arrays las_env las_sample (Suc 0) = st0"
  by (simp add: las_arrays_def st0_def Let_def numeral_2_eq_2 MAXLL_def)

lemma start_sample: "startv las_env las_sample 0 2 st0 = Ret (5, st1)"
proof -
  have f: "fill_random (l_random las_env) 2 0 918273 [0, 0] = Some ([3 / 25, 1], 918275)"
    by (simp add: numeral_2_eq_2)
  have s: "sqrt 25 = 5" by (rule real_sqrt_unique) simp_all
  have "start_tries las_env las_sample 2 0 3 0 0 918273 st0 = Ret (25, st1)"
    unfolding numeral_3_eq_3 by (simp add: st0_def f vec2 las_opb_def opb_sample st1_def del: fill_random.simps env_sel(4))
  moreover have "svd_ddot 2 (w0 st0) 1 (w0 st0) 1 = Some 0" by (simp add: st0_def vec2)
  ultimately show ?thesis by (simp add: startv_def s)
qed

lemma stpone_sample:
  "stpone las_env las_sample 2 st0 = Ret (Some (252 / 25, 0), st2)"
proof -
  have s: "sqrt (63504 / 625) = 252 / 25" by (rule real_sqrt_unique) (simp_all add: power2_eq_square)
  show ?thesis by (simp add: stpone_def start_sample st1_def st2_def vec2 las_opb_def opb_sample put_at_def s Let_def)
qed

definition st3 :: "real las" where
  "st3 = st2\<lparr>bet := [0, 252 / 25], lanstore := [None, None, Some [3 / 5, 4 / 5]]\<rparr>"

lemma bound_sample: "error_bound las_env False (- 1) 1 [0, 0] [0, 0] 0 0 = Some (1, True, [0, 0])"
  by (simp add: error_bound_def refine_bound_def svd_idamax_def svd_dmin_def Let_def)

lemma lanso_sample: "lanso las_env las_sample (Suc 0) (Suc 0) (- 1, 1) 2 st0 = Ret (0, 1, st3)"
proof -
  have "svd_dsort2 0 (Suc 0) [0, 0 :: real] [0, 0 :: real] = Some ([0, 0], [0, 0])" by (simp add: svd_dsort2_def)
  moreover have "put_stored (l_heap las_env) 2 MAXLL [3 / 5, 4 / 5] [None, None, None] = Some [None, None, Some [3 / 5, 4 / 5]]"
    by (simp add: put_stored_def MAXLL_def numeral_2_eq_2 vec2 [unfolded numeral_2_eq_2])
  ultimately show ?thesis
    by (simp add: lanso_def stpone_sample put_at_def st2_def svd_imin_def svd_imax_def lanczos_step_def bound_sample st3_def las_store.simps)
qed

definition rec_sample :: "real svdrec" where
  "rec_sample = \<lparr>rd = 1, rUt = \<lparr>drows = 1, dcols = 2, dvalue = [[15 / 17, 8 / 17]]\<rparr>, rS = [17 / 5],
     rVt = \<lparr>drows = 1, dcols = 2, dvalue = [[3 / 5, 4 / 5]]\<rparr>\<rparr>"

lemma left_sample:
  "left_vectors las_env las_sample 2 (Suc 0) (Suc 0) 0 [0, 0]
     \<lparr>rd = Suc 0, rUt = \<lparr>drows = Suc 0, dcols = 2, dvalue = [[0, 0]]\<rparr>, rS = [0], rVt = \<lparr>drows = Suc 0, dcols = 2, dvalue = [[3 / 5, 4 / 5]]\<rparr>\<rparr>
     (st3\<lparr>w5 := [3 / 5, 4 / 5]\<rparr>) =
   Ret (rec_sample, st3\<lparr>w5 := [3 / 5, 4 / 5], rbnd := [0, 252 / 85], mxv := 7\<rparr>)"
proof -
  have s: "sqrt (289 / 25) = 17 / 5" "sqrt (63504 / 625) = 252 / 25"
    by (rule real_sqrt_unique; simp add: power2_eq_square)+
  show ?thesis by (simp add: cell_def st3_def st2_def opb_sample opa_sample vec2 s put_at_def rec_sample_def)
qed

lemma ritz_sample:
  "ritz_vectors las_env 2 (Suc 0) 1 1 [[1]] (Suc 0) (Suc 0) 0 0 0 [[289 / 25, 0]] st3 =
   Ret (0, Suc 0, [[3 / 5, 4 / 5]], st3\<lparr>w5 := [3 / 5, 4 / 5]\<rparr>)"
proof -
  have "get_stored ''RETRQ'' 2 MAXLL [0, 0] [None, None, Some [3 / 5, 4 / 5 :: real]] = Ret [3 / 5, 4 / 5]"
    by (simp add: get_stored_def MAXLL_def vec2)
  moreover have "zeroed 2 [289 / 25, 0 :: real] = [0, 0]" by (simp add: zeroed_def numeral_2_eq_2)
  ultimately show ?thesis
    by (simp add: cell_def st3_def st2_def las_store.simps get2_def vec2 Let_def)
qed

lemma triples_sample:
  "triples las_env 2 las_sample 1 1 (Suc 0) [[1]] [0, 0]
     \<lparr>rd = Suc 0, rUt = \<lparr>drows = Suc 0, dcols = 2, dvalue = [[0, 0]]\<rparr>, rS = [0], rVt = \<lparr>drows = Suc 0, dcols = 2, dvalue = [[289 / 25, 0]]\<rparr>\<rparr> st3 =
   Ret (Suc 0, rec_sample, st3\<lparr>w5 := [3 / 5, 4 / 5], rbnd := [0, 252 / 85], mxv := 7\<rparr>)"
  by (simp add: triples_def ritz_sample rotateArray_def rows_of_def svd_imin_def Let_def left_sample del: ritz_vectors.simps left_vectors.simps)

lemma ritvec_sample:
  "ritvec las_env 2 las_sample
     \<lparr>rd = Suc 0, rUt = \<lparr>drows = Suc 0, dcols = 2, dvalue = [[0, 0]]\<rparr>, rS = [0], rVt = \<lparr>drows = Suc 0, dcols = 2, dvalue = [[0, 0]]\<rparr>\<rparr> 1 0 1 st3 =
   Ret (Suc 0, rec_sample, st3\<lparr>w5 := [3 / 5, 4 / 5], rbnd := [0, 252 / 85], mxv := 7\<rparr>)"
proof -
  have "svd_dcopy 1 (alf st3) 1 [0, 0] (- 1) = Some [289 / 25, 0]"
    by (simp add: svd_dcopy_def vstart_def vget_def st3_def st2_def)
  moreover have "svd_dcopy 0 xs 1 ys (- 1) = Some ys" for xs ys :: "real list" by (simp add: svd_dcopy_def)
  moreover have "w5 st3 = [0, 0]" "lerr st3 = 0" by (simp_all add: st3_def st2_def)
  moreover have "map (\<lambda>_. 0) [0..<2] = [0, 0 :: real]" by (simp add: numeral_2_eq_2)
  moreover have same: "st3\<lparr>w5 := [0, 0], lerr := 0\<rparr> = st3" by (simp add: st3_def st2_def)
  ultimately show ?thesis
    by (simp add: ritvec_def cell_def upon_def imtql2_def Let_def triples_sample same)
qed

lemma solve_sample: "las_solve las_env 0 las_sample (Suc 0) (Suc 0) (- 1, 1) 1 = Ret (rec_sample, 7)"
proof -
  have "show_svd las_env 0 rec_sample = Ret ()" by (simp add: show_svd_def tell_def)
  moreover have "replicate 2 0 = [0, 0 :: real]" by (simp add: numeral_2_eq_2)
  moreover have "svd_dmax 1 0 = (1 :: real)" by (simp add: svd_dmax_def)
  ultimately show ?thesis
    by (simp add: las_solve_def arrays_sample lanso_sample show_ritz_def tell_def svdNewDMat_def ritvec_sample Let_def)
qed

lemma svdLAS2_sample: "svdLAS2 las_env 0 las_sample 1 1 (- 1, 1) 1 = Ret (Some rec_sample, 7)"
  by (simp add: svdLAS2_def check_parameters_def svd_imin_def Let_def solve_sample)

section \<open>Examples\<close>

lemma sample_matrix: "wf_smat las_sample" "distinct_columns las_sample"
    "svdConvertStoD las_sample = Some \<lparr>drows = 2, dcols = 2, dvalue = [[5, 0], [0, 2]]\<rparr>"
proof -
  show "wf_smat las_sample" by (simp add: wf_smat_def las_sample_def)
  show "distinct_columns las_sample"
    by (auto simp: distinct_columns_def las_sample_def col_entries_def nz_entry_def numeral_2_eq_2 less_Suc_eq)
  show "svdConvertStoD las_sample = Some \<lparr>drows = 2, dcols = 2, dvalue = [[5, 0], [0, 2]]\<rparr>"
    by (simp add: svdConvertStoD_def svdNewDMat_def las_sample_def next_col.simps put2_def numeral_2_eq_2)
qed

lemma sample_random: "random_total las_env" "random_total (las_env\<lparr>l_huge := 1\<rparr>)"
  by (simp_all add: random_total_def)



text \<open>A column: its only singular value is 5.\<close>

definition las_column :: "real smat" where
  "las_column = \<lparr>srows = 2, scols = 1, svals = 2, pointr = [0, 2], rowind = [0, 1], svalue = [3, 4]\<rparr>"

theorem svdLAS2_single_witness:
  "\<exists>R c. fst (run (script []) [] (svdLAS2 (las_env\<lparr>l_huge := 1\<rparr>) 0 las_column 0 0 (- 1, 1) 1)) = Returned (Some R, c) \<and> rS R = [0]"
  by (rule svdLAS2_single) (simp_all add: sample_random wf_smat_def las_column_def)

theorem lanczos_step_keeps_witness:
  "\<exists>j ll' enough rt' st'. fst (run (script []) [] (lanczos_step las_env las_sample 2 1 2 0 (1, 0) (las_arrays las_env las_sample 2))) =
     Returned (j, ll', enough, rt', st') \<and> las_ok 2 2 2 st'"
proof -
  have "las_ok (scols las_sample) (srows las_sample) 2 (las_arrays las_env las_sample 2)"
    using las_arrays_steady [of las_sample 2 las_env] by (simp add: steady_def)
  moreover have "has_vectors (1 - 1) (lanstore (las_arrays las_env las_sample 2))" by (simp add: has_vectors_def)
  ultimately show ?thesis
    using lanczos_step_keeps [OF sample_matrix(1) sample_random(1), where k = 2
      and st = "las_arrays las_env las_sample 2" and first = 1 and last' = 2 and os = "script []" and tr = "[]" and ll = 0 and rt = "(1, 0)"]
    by fastforce
qed

end
