(* ===== verification/SvdMain.thy ===== *)
theory SvdMain
  imports SvdArgs LasSample
begin

text \<open>
  The main program of \<^verbatim>\<open>c/SVDLIBC\<close> from the command line to the files it writes.
\<close>

section \<open>Writing never fails\<close>

lemma append_out_total [intro]:
  "\<exists>s. a = Some s \<Longrightarrow> \<exists>s. b = Some s \<Longrightarrow> \<exists>s. append_out a b = Some s"
  by (auto simp: append_out_def)

lemma write_cells_total:
  assumes "wf_smat S"
  shows "v + n \<le> svals S \<Longrightarrow> \<exists>out. write_cells pc S n v = Some out"
proof (induction n arbitrary: v)
  case (Suc n)
  moreover have "length (rowind S) = svals S" "length (svalue S) = svals S" using assms by (simp_all add: wf_smat_def)
  ultimately show ?case using Suc.IH [of "v + 1"] by (auto simp: cell_def append_out_def)
qed simp

lemma write_cols_total:
  assumes "wf_smat S"
  shows "c + m \<le> scols S \<Longrightarrow> v \<le> svals S \<Longrightarrow> \<exists>out. write_cols pn pc S m c v = Some out"
proof (induction m arbitrary: c v)
  case (Suc m)
  let ?b = "pointr S ! (c + 1)"
  have l: "length (pointr S) = scols S + 1" using assms by (simp add: wf_smat_def)
  have b: "?b \<le> svals S" using wf_pointr_vals [OF assms, of "c + 1"] Suc.prems by simp
  obtain o1 where o1: "write_cells pc S (?b - v) v = Some o1"
    using write_cells_total [OF assms, of v "?b - v"] b Suc.prems by (cases "v \<le> ?b") auto
  obtain o2 where "write_cols pn pc S m (c + 1) (max v ?b) = Some o2"
    using Suc.IH [of "c + 1" "max v ?b"] b Suc.prems by auto
  then show ?case using o1 l Suc.prems by (simp add: cell_def append_out_def)
qed simp

lemma hb_items_total: "(\<forall>j. i \<le> j \<and> j < i + n \<longrightarrow> f j \<noteq> None) \<Longrightarrow> \<exists>out. hb_items f n i = Some out"
proof (induction n arbitrary: i)
  case (Suc n)
  have "\<exists>out. hb_items f n (i + 1) = Some out" using Suc.prems by (intro Suc.IH) auto
  moreover have "f i \<noteq> None" using Suc.prems by simp
  ultimately show ?case by (auto simp: append_out_def)
qed simp

lemma print_dense_total:
  assumes "wf_dmat D"
  shows "\<exists>out. print_dense h F f D = Some out"
proof -
  let ?S = "svdConvertDtoS h D"
  have w: "wf_smat ?S" by (rule svdConvertDtoS_entries(1))
  then have l: "length (pointr ?S) = scols ?S + 1" "length (rowind ?S) = svals ?S" "length (svalue ?S) = svals ?S"
    by (simp_all add: wf_smat_def)
  have c: "\<exists>out. write_cols pn pc ?S (scols ?S) 0 0 = Some out" for pn pc by (rule write_cols_total [OF w]) simp_all
  have d: "\<exists>out. write_rows g D (drows D) 0 = Some out" for g by (rule write_rows_total [OF assms]) simp
  have hb: "\<exists>out. svdWriteSparseTextHBFile F ?S = Some out" unfolding svdWriteSparseTextHBFile_def
    by (intro append_out_total hb_items_total) (auto simp: cell_def l)
  show ?thesis
    using c d hb
    by (cases f) (auto simp: svdWriteSparseTextFile_def svdWriteSparseBinaryFile_def svdWriteDenseTextFile_def
        svdWriteDenseBinaryFile_def append_out_def)
qed

section \<open>The run\<close>

lemma run_next: "run os tr p = (Returned x, tr') \<Longrightarrow> run os tr (io_bind p f) = run os tr' (f x)"
  by (simp add: run_bind)

lemma run_write_array:
  assumes "can_write os n f" and "print_array F a d binary = Some out"
  shows "run os tr (svdWriteDenseArray F [] a d n binary) = (Returned [], tr @ [Fopen n ''w'', Fwrite f out, Fclose f])"
  using assms run_writeFile [OF assms(1), of _ "[]"] run_closeFile [of f]
  by (simp add: svdWriteDenseArray_def run_bind can_write_def)

lemma write_triples_run:
  assumes "length stem \<le> 124" and "can_write os (stem @ ''-Ut'') f1" "can_write os (stem @ ''-S'') f2" "can_write os (stem @ ''-Vt'') f3"
    and "print_dense (l_heap (m_las M)) (l_fmt (m_las M)) w (rUt R) = Some U"
    and "print_array (l_fmt (m_las M)) (rS R) (int (rd R)) False = Some S"
    and "print_dense (l_heap (m_las M)) (l_fmt (m_las M)) w (rVt R) = Some V"
  shows "run os tr (write_triples M [] w stem R) = (Returned [], tr @
    [Fopen (stem @ ''-Ut'') ''w'', Fwrite f1 U, Fclose f1, Fopen (stem @ ''-S'') ''w'', Fwrite f2 S, Fclose f2,
     Fopen (stem @ ''-Vt'') ''w'', Fwrite f3 V, Fclose f3])"
  using assms(1) run_write_dense [OF assms(2,5)] run_write_array [OF assms(3,6)] run_write_dense [OF assms(4,7)]
  by (simp add: write_triples_def out_name_def run_bind Let_def)

lemma las2_only: "a = LAS2"
  by (cases a)

lemma tell_run: "run os tr (tell v s) = (Returned (), tr @ (if v > 0 then [Out s] else []))"
  by (simp add: tell_def)

lemma run_timer: "\<exists>t. run os tr timer = (Returned t, tr @ [Misc ''getrusage(RUSAGE_SELF)''])"
  by (simp add: timer_def)

lemma run_show_counts: "\<exists>cs. run os tr (show_counts M v t0 t1 c d) = (Returned (), tr @ cs)"
  by (simp add: show_counts_def Let_def)

text \<open>The decomposition as the main program calls it.\<close>

definition main_svd ::
  "('v :: {zero, one, ord, plus, minus, uminus, times, inverse, abs}) mainenv \<Rightarrow> 'v opts \<Rightarrow> 'v smat \<Rightarrow> ('v svdrec option \<times> nat) io"
where
  "main_svd M o' B =
     (let dims = (if o_dimensions o' \<le> 0 then imin (int (srows B)) (int (scols B)) else o_dimensions o') in
      svdLAS2 ((m_las M)\<lparr>l_ierr := 0\<rparr>) (o_verbosity o') B dims (o_iterations o') (o_ends o') (o_kappa o'))"

text \<open>The calls \<open>cs\<close> end with those that write the triples \<open>R\<close>.\<close>

definition written ::
  "'v mainenv \<Rightarrow> ('v :: zero) opts \<Rightarrow> string \<Rightarrow> int \<Rightarrow> int \<Rightarrow> int \<Rightarrow> 'v svdrec \<Rightarrow> syscall list \<Rightarrow> bool"
where
  "written M o' stem f1 f2 f3 R cs \<longleftrightarrow>
     (let h = l_heap (m_las M); F = l_fmt (m_las M); w = o_write o' in
      \<exists>cs' U S V.
        print_dense h F w (rUt R) = Some U \<and> print_array F (rS R) (int (rd R)) False = Some S \<and>
        print_dense h F w (rVt R) = Some V \<and>
        cs = cs' @ [Fopen (stem @ ''-Ut'') ''w'', Fwrite f1 U, Fclose f1, Fopen (stem @ ''-S'') ''w'', Fwrite f2 S, Fclose f2,
          Fopen (stem @ ''-Vt'') ''w'', Fwrite f3 V, Fclose f3])"

text \<open>How the program ends, by the end of the decomposition.\<close>

definition main_ends ::
  "'v mainenv \<Rightarrow> ('v :: zero) opts \<Rightarrow> string \<Rightarrow> int \<Rightarrow> int \<Rightarrow> int \<Rightarrow> ('v svdrec option \<times> nat) ended \<Rightarrow> int ended \<Rightarrow> syscall list \<Rightarrow> bool"
where
  "main_ends M o' stem f1 f2 f3 r e cs \<longleftrightarrow>
     (case r of
        Returned (None, c) \<Rightarrow> e = Exited 1
      | Returned (Some R, c) \<Rightarrow> e = Returned 0 \<and> written M o' stem f1 f2 f3 R cs
      | Exited n \<Rightarrow> e = Exited n
      | Undefined \<Rightarrow> e = Undefined
      | Running \<Rightarrow> e = Running)"

lemma svdLAS2_record:
  assumes "wf_smat A"
  shows "wp (True, True) False (\<lambda>(R, c). \<forall>R'. R = Some R' \<longrightarrow> record_ok (wanted A dims) (srows A) (scols A) R') (svdLAS2 E v A dims its ends kappa)"
proof -
  have "env_ok (True, True) E" by (simp add: env_ok_def rnd_ok_def pyt_ok_def)
  from svdLAS2_wp [OF assms this left_ok_True] show ?thesis by (rule wp_mono) (auto split: option.splits)
qed

lemma decompose_run:
  assumes "wf_smat B" "o_root o' = Some stem" "length stem \<le> 124"
    and "can_write os (stem @ ''-Ut'') f1" "can_write os (stem @ ''-S'') f2" "can_write os (stem @ ''-Vt'') f3"
    and run: "run os tr (decompose M o' B []) = (e, cs)"
  shows "\<exists>tr1 rest. cs = tr1 @ rest \<and> main_ends M o' stem f1 f2 f3 (fst (run os tr1 (main_svd M o' B))) e cs"
proof -
  let ?v = "o_verbosity o'" and ?las = "main_svd M o' B"
  obtain t0 where t0: "run os tr timer = (Returned t0, tr @ [Misc ''getrusage(RUSAGE_SELF)''])" using run_timer by blast
  define c1 where "c1 = tr @ [Misc ''getrusage(RUSAGE_SELF)''] @ (if ?v > 0 then [Out (''Computing the SVD...'' @ newline)] else [])"
  obtain r tr1 where r: "run os c1 ?las = (r, tr1)" by fastforce
  have head: "run os tr (decompose M o' B []) = run os c1 (io_bind ?las (\<lambda>(R, mults).
        case R of
          None \<Rightarrow> main_fatalError ''error in svdLAS2''
        | Some R \<Rightarrow>
            io_bind timer (\<lambda>t1.
            io_bind (show_counts M ?v t0 t1 mults (rd R)) (\<lambda>_.
            case o_root o' of
              None \<Rightarrow> Ret 0
            | Some stem \<Rightarrow> io_bind (write_triples M [] (o_write o') stem R) (\<lambda>_. Ret 0)))))"
    unfolding decompose_def main_svd_def Let_def run_next [OF t0] run_next [OF tell_run] if_P [OF las2_only] c1_def by simp
  obtain rest where grown: "cs = c1 @ rest"
    using run_trace [of os c1] run unfolding head by (auto simp: prod_eq_iff)
  have "main_ends M o' stem f1 f2 f3 r e cs"
  proof (cases r)
    case (Returned x)
    obtain R c where x: "x = (R, c)" by (cases x)
    show ?thesis
    proof (cases R)
      case None
      then show ?thesis using run r Returned x by (simp add: head run_bind main_fatalError_def main_ends_def)
    next
      case (Some R)
      have "wp (True, True) False (\<lambda>(R, c). \<forall>R'. R = Some R' \<longrightarrow>
          record_ok (wanted B (if o_dimensions o' \<le> 0 then imin (int (srows B)) (int (scols B)) else o_dimensions o')) (srows B) (scols B) R') ?las"
        unfolding main_svd_def Let_def by (rule svdLAS2_record [OF assms(1)])
      from wp_run [OF this, of os c1] obtain d where R: "record_ok d (srows B) (scols B) R"
        using r Returned x Some by auto
      let ?h = "l_heap (m_las M)" and ?F = "l_fmt (m_las M)" and ?w = "o_write o'"
      have wf: "wf_dmat (rUt R)" "wf_dmat (rVt R)" using R by (simp_all add: record_ok_def)
      obtain U where U: "print_dense ?h ?F ?w (rUt R) = Some U" using print_dense_total [OF wf(1)] by blast
      obtain V where V: "print_dense ?h ?F ?w (rVt R) = Some V" using print_dense_total [OF wf(2)] by blast
      obtain S where S: "print_array ?F (rS R) (int (rd R)) False = Some S"
        using write_array_total [of 0 "rd R" "rS R" "\<lambda>x. show_g ?F x @ newline"] R
        by (fastforce simp: print_array_def append_out_def record_ok_def)
      obtain t1 where t1: "run os tr1 timer = (Returned t1, tr1 @ [Misc ''getrusage(RUSAGE_SELF)''])" using run_timer by blast
      obtain c2 where c2: "run os (tr1 @ [Misc ''getrusage(RUSAGE_SELF)'']) (show_counts M ?v t0 t1 c (rd R)) = (Returned (), c2)"
        using run_show_counts [of os] by blast
      have e: "e = Returned 0" "cs = c2 @ [Fopen (stem @ ''-Ut'') ''w'', Fwrite f1 U, Fclose f1, Fopen (stem @ ''-S'') ''w'', Fwrite f2 S, Fclose f2,
            Fopen (stem @ ''-Vt'') ''w'', Fwrite f3 V, Fclose f3]"
        using run unfolding head run_next [OF r [unfolded Returned x Some]] prod.case option.case run_next [OF t1] run_next [OF c2] assms(2)
          run_next [OF write_triples_run [OF assms(3-6) U S V, of c2]] by simp_all
      have "written M o' stem f1 f2 f3 R cs" unfolding written_def Let_def
        by (intro exI [of _ c2] exI [of _ U] exI [of _ S] exI [of _ V] conjI) (simp_all only: U S V e)
      then show ?thesis using e(1) by (simp add: main_ends_def Returned x Some)
    qed
  qed (use run r in \<open>simp_all add: head run_bind main_ends_def\<close>)
  then show ?thesis by (intro exI [of _ c1] exI [of _ rest]) (simp add: grown r)
qed

lemma main_run_writes:
  assumes src: "file_is os file f txt" "parse_sparse (l_heap (m_las M)) (l_fmt (m_las M)) (o_read o') txt = Loaded A"
    and A: "wf_smat A" "0 < srows A"
    and out: "o_root o' = Some stem" "length stem \<le> 124"
      "can_write os (stem @ ''-Ut'') f1" "can_write os (stem @ ''-S'') f2" "can_write os (stem @ ''-Vt'') f3"
    and run: "run os [] (main_run M prog o' [file]) = (e, cs)"
  shows "\<exists>B tr rest. (if o_turn o' then svdTransposeS (l_heap (m_las M)) A else Some A) = Some B \<and>
    cs = tr @ rest \<and> main_ends M o' stem f1 f2 f3 (fst (run os tr (main_svd M o' B))) e cs"
proof -
  let ?turned = "if o_turn o' then svdTransposeS (l_heap (m_las M)) A else Some A"
  obtain B where B: "?turned = Some B" "wf_smat B"
    using svdTransposeS_entries [OF A, of "l_heap (m_las M)"] A(1) by (cases "o_turn o'") auto
  obtain c1 where c1: "run os [] (tell (o_verbosity o') (''Loading the matrix...'' @ newline)) = (Returned (), c1)"
    using tell_run by fastforce
  obtain c2 where c2: "run os c1 (svdLoadSparseMatrix (l_heap (m_las M)) (l_fmt (m_las M)) [] file (o_read o')) =
      (Returned (Some A, []), c1 @ c2)"
    using run_load_sparse [OF src] by blast
  obtain c3 where c3: "run os (c1 @ c2) (if o_turn o' then tell (o_verbosity o') (''  Transposing the matrix...'' @ newline) else Ret ()) =
      (Returned (), c3)"
    using tell_run by (cases "o_turn o'") fastforce+
  have "run os [] (main_run M prog o' [file]) = run os c3 (decompose M o' B [])"
    unfolding main_run_def Let_def list.case run_next [OF c1] run_next [OF c2] prod.case option.case run_next [OF c3] B(1)
    by (simp add: avail_def)
  then have "run os c3 (decompose M o' B []) = (e, cs)" using run by simp
  from decompose_run [OF B(2) out this] obtain tr1 rest where
    "cs = tr1 @ rest" "main_ends M o' stem f1 f2 f3 (fst (run os tr1 (main_svd M o' B))) e cs" by blast
  then show ?thesis by (intro exI [of _ B] exI [of _ tr1] exI [of _ rest] conjI B(1))
qed


section \<open>An example\<close>

definition main_env :: "real mainenv" where
  "main_env = \<lparr>m_las = las_env, m_atof = (\<lambda>s. of_int (atoi s)), m_tiny = 1, m_kappa = 1, m_complaint = (\<lambda>_ _ _. ''?''),
     m_seconds = (\<lambda>_ _. ''0'')\<rparr>"

lemma main_env_text: "text_ok (l_fmt (m_las main_env)) (of_int n)"
proof -
  have "text_ok int_fmt n" by (rule int_fmt_text)
  then show ?thesis by (simp add: text_ok_def int_fmt_def main_env_def las_env_def)
qed

theorem svd_main_options_witness:
  "svd_main main_env [''svd'', ''-d'', ''7'', ''-t'', ''-d3'', ''--'', ''-m''] =
     main_run main_env ''svd'' ((opts0 main_env)\<lparr>o_turn := True, o_dimensions := 3\<rparr>) [''-m'']"
proof -
  let ?ss = "[(CHR ''d'', ''7'', False), (CHR ''t'', '''', False), (CHR ''d'', ''3'', True)]"
  have n: "atoi ''7'' = 7" "atoi ''3'' = 3" by code_simp+
  then have "\<forall>s\<in>set ?ss. setting_ok s" by (simp add: setting_ok_def)
  moreover have "configured main_env ?ss (opts0 main_env) = (opts0 main_env)\<lparr>o_turn := True, o_dimensions := 3\<rparr>"
    using n by (simp add: configured_def opts0_def)
  ultimately show ?thesis
    using svd_main_options [of ?ss "[''--'']" "[''-m'']" main_env "''svd''"] by (simp add: option_words_def)
qed

lemma main_sample:
  "main_svd main_env (configured main_env [(CHR ''d'', ''1'', False), (CHR ''i'', ''1'', True), (CHR ''o'', ''out'', False), (CHR ''v'', ''0'', True)]
     (opts0 main_env)) las_sample = Ret (Some rec_sample, 7)"
proof -
  let ?ss = "[(CHR ''d'', ''1'', False), (CHR ''i'', ''1'', True), (CHR ''o'', ''out'', False), (CHR ''v'', ''0'', True)]"
  have "atoi ''1'' = 1" "atoi ''0'' = 0" by code_simp+
  then have "main_svd main_env (configured main_env ?ss (opts0 main_env)) las_sample =
      svdLAS2 (las_env\<lparr>l_ierr := 0\<rparr>) 0 las_sample 1 1 (- 1, 1) 1"
    by (simp add: main_svd_def configured_def opts0_def main_env_def)
  also have "las_env\<lparr>l_ierr := 0\<rparr> = las_env" by (simp add: las_env_def)
  finally show ?thesis using svdLAS2_sample by simp
qed


end
