(* ===== verification/SvdSamples.thy ===== *)
theory SvdSamples
  imports SvdMain
begin

text \<open>
  The two samples of \<^verbatim>\<open>c/SVDLIBC\<close>: \<^verbatim>\<open>loadsample.c\<close> prints a matrix, \<^verbatim>\<open>svdsample.c\<close> its
  decomposition. What \<^verbatim>\<open>%.4lf\<close> and \<^verbatim>\<open>%lf\<close> print is a parameter.
\<close>

section \<open>Printing a matrix\<close>

definition sample_file :: "string list \<Rightarrow> string" where
  "sample_file argv = (if length argv = 2 then argv ! 1 else ''sparse_text'')"

text \<open>The rows of a column, \<open>k\<close> more from the \<open>j\<close>-th; \<open>p\<close> is the entry to print next.\<close>

primrec print_rows :: "('v \<Rightarrow> string) \<Rightarrow> 'v smat \<Rightarrow> nat \<Rightarrow> nat \<Rightarrow> nat \<Rightarrow> nat io" where
  "print_rows lf4 S 0 j p = Ret p"
| "print_rows lf4 S (Suc k) j p =
     avail (cell (rowind S) p) (\<lambda>r.
       if r = j then
         avail (cell (svalue S) p) (\<lambda>x. Sys (Out (lf4 x @ ''  '')) (\<lambda>_. print_rows lf4 S k (j + 1) (p + 1)))
       else Sys (Out ''     0  '') (\<lambda>_. print_rows lf4 S k (j + 1) p))"

primrec print_columns :: "('v \<Rightarrow> string) \<Rightarrow> 'v smat \<Rightarrow> nat \<Rightarrow> nat \<Rightarrow> unit io" where
  "print_columns lf4 S 0 p = Ret ()"
| "print_columns lf4 S (Suc k) p =
     io_bind (print_rows lf4 S (srows S) 0 p) (\<lambda>p. Sys (Out newline) (\<lambda>_. print_columns lf4 S k p))"

definition loadsample :: "'v heap \<Rightarrow> ('v :: zero) numfmt \<Rightarrow> ('v \<Rightarrow> string) \<Rightarrow> string list \<Rightarrow> int io" where
  "loadsample h F lf4 argv =
     io_bind (svdLoadSparseMatrix h F [] (sample_file argv) SVD_F_ST) (\<lambda>(sm, ps).
     avail sm (\<lambda>S.
     io_bind (syscalls
       [Out (''col: '' @ nat_str (scols S) @ newline), Out (''row: '' @ nat_str (srows S) @ newline),
        Out (''val: '' @ nat_str (svals S) @ newline)]) (\<lambda>_.
     io_bind (print_columns lf4 S (scols S) 0) (\<lambda>_. Ret 0))))"

section \<open>Printing a decomposition\<close>

definition print_vectors :: "('v \<Rightarrow> string) \<Rightarrow> 'v dmat \<Rightarrow> unit io" where
  "print_vectors flt D =
     fold (\<lambda>i p. io_bind p (\<lambda>_.
       io_bind (fold (\<lambda>j p. io_bind p (\<lambda>_. avail (dense_cell D i j) (\<lambda>x. one_call (Out (flt x @ '' '')))))
                  [0..<dcols D] (Ret ())) (\<lambda>_.
       one_call (Out newline)))) [0..<drows D] (Ret ())"

definition print_values :: "('v \<Rightarrow> string) \<Rightarrow> 'v svdrec \<Rightarrow> unit io" where
  "print_values flt R =
     fold (\<lambda>i p. io_bind p (\<lambda>_. avail (cell (rS R) i) (\<lambda>x. one_call (Out (flt x @ newline))))) [0..<rd R] (Ret ())"

text \<open>The verbosity is the default, 1.\<close>

definition svdsample ::
  "('v :: {zero, one, ord, plus, minus, uminus, times, inverse, abs}) mainenv \<Rightarrow> ('v \<Rightarrow> string) \<Rightarrow> string list \<Rightarrow> int io"
where
  "svdsample M flt argv =
     io_bind (svdLoadSparseMatrix (l_heap (m_las M)) (l_fmt (m_las M)) [] (sample_file argv) SVD_F_ST) (\<lambda>(sm, ps).
     io_bind (svdLAS2A ((m_las M)\<lparr>l_ierr := 0\<rparr>) (m_tiny M) (m_kappa M) 1 sm 0) (\<lambda>(r, mults).
     avail r (\<lambda>R.
     io_bind (one_call (Out (''singulars:'' @ newline))) (\<lambda>_.
     io_bind (print_values flt R) (\<lambda>_.
     io_bind (one_call (Out (newline @ ''transpose of left vectors:'' @ newline))) (\<lambda>_.
     io_bind (print_vectors flt (rUt R)) (\<lambda>_.
     io_bind (one_call (Out (newline @ ''transpose of right vectors:'' @ newline))) (\<lambda>_.
     io_bind (print_vectors flt (rVt R)) (\<lambda>_. Ret 0)))))))))"

section \<open>Where the samples are safe\<close>

lemma wp_fold_calls:
  assumes "\<And>i. i \<in> set is \<Longrightarrow> wp md g (\<lambda>_. True) (f i)"
  shows "wp md g (\<lambda>_. True) p \<Longrightarrow> wp md g (\<lambda>_. True) (fold (\<lambda>i p. io_bind p (\<lambda>_. f i)) is p)"
  using assms
proof (induction "is" arbitrary: p)
  case (Cons i js)
  have "wp md g (\<lambda>_. True) (io_bind p (\<lambda>_. f i))" using Cons.prems by (intro wp_use [OF Cons.prems(1)]) simp
  then show ?case using Cons by simp
qed simp

lemma wp_print_values: "length (rS R) = d \<Longrightarrow> rd R \<le> d \<Longrightarrow> wp md g (\<lambda>_. True) (print_values flt R)"
  unfolding print_values_def by (rule wp_fold_calls) (auto simp: wp_avail cell_def)

lemma wp_print_vectors: "wf_dmat D \<Longrightarrow> wp md g (\<lambda>_. True) (print_vectors flt D)"
  unfolding print_vectors_def
  by (intro wp_fold_calls wp_use [where P = "\<lambda>_. True"]) (auto simp: wp_avail dense_cell_def get2_def wf_dmat_def)

lemma svdsample_ends:
  assumes "file_is os (sample_file argv) f src" and "parse_sparse (l_heap (m_las M)) (l_fmt (m_las M)) SVD_F_ST src = Loaded A"
    and "wf_smat A" "0 < srows A" "0 < scols A" and "random_total (m_las M)" and "pythag_returns (l_pythag (m_las M))" and "- m_tiny M \<le> (m_tiny M :: 'v :: linordered_field)"
  shows "fst (run os tr (svdsample M flt argv)) \<in> {Returned 0, Exited 1}"
proof -
  let ?E = "(m_las M)\<lparr>l_ierr := 0\<rparr>"
  obtain c where c: "run os tr (svdLoadSparseMatrix (l_heap (m_las M)) (l_fmt (m_las M)) [] (sample_file argv) SVD_F_ST) =
      (Returned (Some A, []), c)"
    using run_load_sparse [OF assms(1,2)] by blast
  let ?rest = "io_bind (svdLAS2A ?E (m_tiny M) (m_kappa M) 1 (Some A) 0) (\<lambda>(r, mults).
     avail r (\<lambda>R.
     io_bind (one_call (Out (''singulars:'' @ newline))) (\<lambda>_.
     io_bind (print_values flt R) (\<lambda>_.
     io_bind (one_call (Out (newline @ ''transpose of left vectors:'' @ newline))) (\<lambda>_.
     io_bind (print_vectors flt (rUt R)) (\<lambda>_.
     io_bind (one_call (Out (newline @ ''transpose of right vectors:'' @ newline))) (\<lambda>_.
     io_bind (print_vectors flt (rVt R)) (\<lambda>_. Ret (0 :: int)))))))))"
  have "env_ok (False, False) ?E" using assms(6,7) by (simp add: env_ok_def rnd_ok_def pyt_ok_def random_total_def)
  from svdLAS2_wp [OF assms(3) this left_ok_True]
  have "wp (False, False) False (\<lambda>(R, c). \<exists>R'. R = Some R' \<and> record_ok (wanted A 0) (srows A) (scols A) R')
      (svdLAS2A ?E (m_tiny M) (m_kappa M) 1 (Some A) 0)"
    unfolding svdLAS2A_def option.case by (rule wp_mono) (use assms(4,5,8) in \<open>auto split: option.splits\<close>)
  then have "wp (False, False) False (\<lambda>x. x = 0) ?rest"
  proof (rule wp_use)
    fix x :: "'v svdrec option \<times> nat"
    assume "case x of (R, c) \<Rightarrow> \<exists>R'. R = Some R' \<and> record_ok (wanted A 0) (srows A) (scols A) R'"
    then obtain R c where x: "x = (Some R, c)" "record_ok (wanted A 0) (srows A) (scols A) R" by auto
    then have R: "wf_dmat (rUt R)" "wf_dmat (rVt R)" "wp (False, False) False (\<lambda>_. True) (print_values flt R)"
      by (auto simp: record_ok_def intro: wp_print_values)
    show "wp (False, False) False (\<lambda>x. x = 0) (case x of (r, mults) \<Rightarrow> avail r (\<lambda>R.
       io_bind (one_call (Out (''singulars:'' @ newline))) (\<lambda>_.
       io_bind (print_values flt R) (\<lambda>_.
       io_bind (one_call (Out (newline @ ''transpose of left vectors:'' @ newline))) (\<lambda>_.
       io_bind (print_vectors flt (rUt R)) (\<lambda>_.
       io_bind (one_call (Out (newline @ ''transpose of right vectors:'' @ newline))) (\<lambda>_.
       io_bind (print_vectors flt (rVt R)) (\<lambda>_. Ret (0 :: int)))))))))"
      unfolding x(1) prod.case avail_Some
      by (intro wp_use [where P = "\<lambda>_. True"] R(3) wp_print_vectors R(1,2)) simp_all
  qed
  from wp_run [OF this, of os c] show ?thesis unfolding svdsample_def run_next [OF c] prod.case by auto
qed

text \<open>
  The columns are printed by the row indices alone, without their ends: for the matrix with the
  rows 5 0 and 0 2 the 2 appears in the first column, and what is behind the last entry is read.
\<close>

lemma loadsample_misprints:
  "run os tr (print_columns (\<lambda>x :: int. int_str x) \<lparr>srows = 2, scols = 2, svals = 2, pointr = [0, 1, 2], rowind = [0, 1], svalue = [5, 2]\<rparr> 2 0) =
     (Undefined, tr @ [Out ''5  '', Out ''2  '', Out newline])"
proof -
  have "int_str 5 = ''5''" "int_str 2 = ''2''" by code_simp+
  then show ?thesis by (simp add: numeral_2_eq_2 avail_def cell_def)
qed

end
