(* ===== verification/SvdMachar.thy ===== *)
theory SvdMachar
  imports Prelude Complex_Main
begin

text \<open>
  \<^verbatim>\<open>machar\<close> of \<^verbatim>\<open>c/SVDLIBC/las2.c\<close>: the search for the radix, the number of digits and the
  precision of the floating-point arithmetic. The arithmetic is a record of operations. With
  operations that round to the nearest number of \<open>p\<close> binary digits, to the even one in a tie, the
  search ends and finds what its comment promises.
\<close>

section \<open>The search\<close>

text \<open>Conversions from and to \<^verbatim>\<open>long\<close>, and the operations on \<^verbatim>\<open>double\<close>.\<close>

record 'v doubles =
  d_of :: "int \<Rightarrow> 'v"
  d_long :: "'v \<Rightarrow> int"
  d_add :: "'v \<Rightarrow> 'v \<Rightarrow> 'v"
  d_sub :: "'v \<Rightarrow> 'v \<Rightarrow> 'v"
  d_mul :: "'v \<Rightarrow> 'v \<Rightarrow> 'v"
  d_div :: "'v \<Rightarrow> 'v \<Rightarrow> 'v"

definition ONE :: "'v doubles \<Rightarrow> 'v" where "ONE D = d_of D 1"
definition TWO :: "'v doubles \<Rightarrow> 'v" where "TWO D = d_add D (ONE D) (ONE D)"
definition ZERO :: "'v doubles \<Rightarrow> 'v" where "ZERO D = d_sub D (ONE D) (ONE D)"

text \<open>The results, with \<^verbatim>\<open>eps\<close>.\<close>

record 'v machpar =
  f_ibeta :: int
  f_it :: int
  f_irnd :: int
  f_machep :: int
  f_negep :: int
  f_eps :: 'v

text \<open>A power of two to which 1 cannot be added. The sum \<^verbatim>\<open>b\<close> is not used.\<close>

partial_function (option) grow_a :: "'v doubles \<Rightarrow> 'v \<Rightarrow> 'v \<Rightarrow> 'v option" where
  "grow_a D a temp1 =
     (if d_sub D temp1 (ONE D) = ZERO D then
        let a = d_add D a a; temp = d_add D a (ONE D) in grow_a D a (d_sub D temp a)
      else Some a)"

partial_function (option) find_radix :: "'v doubles \<Rightarrow> 'v \<Rightarrow> 'v \<Rightarrow> int \<Rightarrow> int option" where
  "find_radix D a b itemp =
     (if itemp = 0 then
        let b = d_add D b b; temp = d_add D a b in find_radix D a b (d_long D (d_sub D temp a))
      else Some itemp)"

partial_function (option) count_digits :: "'v doubles \<Rightarrow> 'v \<Rightarrow> int \<Rightarrow> 'v \<Rightarrow> 'v \<Rightarrow> int option" where
  "count_digits D beta it b temp1 =
     (if d_sub D temp1 (ONE D) = ZERO D then
        let b = d_mul D b beta; temp = d_add D b (ONE D) in count_digits D beta (it + 1) b (d_sub D temp b)
      else Some it)"

partial_function (option) find_negep :: "'v doubles \<Rightarrow> 'v \<Rightarrow> int \<Rightarrow> 'v \<Rightarrow> 'v \<Rightarrow> int option" where
  "find_negep D beta negep a temp =
     (if d_sub D temp (ONE D) = ZERO D then
        let a = d_mul D a beta in find_negep D beta (negep - 1) a (d_sub D (ONE D) a)
      else Some negep)"

partial_function (option) find_machep :: "'v doubles \<Rightarrow> 'v \<Rightarrow> int \<Rightarrow> 'v \<Rightarrow> 'v \<Rightarrow> (int \<times> 'v) option" where
  "find_machep D beta machep a temp =
     (if d_sub D temp (ONE D) = ZERO D then
        let a = d_mul D a beta in find_machep D beta (machep + 1) a (d_add D (ONE D) a)
      else Some (machep, a))"

definition find_irnd :: "'v doubles \<Rightarrow> 'v \<Rightarrow> 'v \<Rightarrow> int" where
  "find_irnd D beta a =
     (let betah = d_div D beta (TWO D);
          irnd = (if d_sub D (d_add D a betah) a \<noteq> ZERO D then 1 else 0);
          tempa = d_add D a beta;
          temp = d_add D tempa betah
      in if irnd = 0 \<and> d_sub D temp tempa \<noteq> ZERO D then 2 else irnd)"

text \<open>\<open>None\<close>: a loop does not end.\<close>

definition machar :: "'v doubles \<Rightarrow> 'v machpar option" where
  "machar D =
     (case grow_a D (ONE D) (ONE D) of None \<Rightarrow> None | Some a \<Rightarrow>
      case find_radix D a (ONE D) 0 of None \<Rightarrow> None | Some ibeta \<Rightarrow>
      let beta = d_of D ibeta in
      case count_digits D beta 0 (ONE D) (ONE D) of None \<Rightarrow> None | Some it \<Rightarrow>
      let irnd = find_irnd D beta a;
          betain = d_div D (ONE D) beta;
          b = ((\<lambda>a. d_mul D a betain) ^^ nat (it + 3)) (ONE D)
      in
      case find_negep D beta (it + 3) b (d_sub D (ONE D) b) of None \<Rightarrow> None | Some negep \<Rightarrow>
      case find_machep D beta (- it - 3) b (d_add D (ONE D) b) of None \<Rightarrow> None | Some (machep, eps) \<Rightarrow>
        Some \<lparr>f_ibeta = ibeta, f_it = it, f_irnd = irnd, f_machep = machep, f_negep = - negep, f_eps = eps\<rparr>)"

section \<open>Rounding to the nearest\<close>

text \<open>The numbers with at most \<open>p\<close> binary digits, without bounds on the exponent.\<close>

definition digits :: "nat \<Rightarrow> real \<Rightarrow> bool" where
  "digits p y \<longleftrightarrow> (\<exists>m e. \<bar>m\<bar> < 2 ^ p \<and> y = of_int m * 2 powi e)"

text \<open>Those whose last of exactly \<open>p\<close> digits is 0.\<close>

definition even_digits :: "nat \<Rightarrow> real \<Rightarrow> bool" where
  "even_digits p y \<longleftrightarrow> (\<exists>m e. 2 ^ (p - 1) \<le> \<bar>m\<bar> \<and> \<bar>m\<bar> < 2 ^ p \<and> even m \<and> y = of_int m * 2 powi e)"

definition nearest_even :: "nat \<Rightarrow> (real \<Rightarrow> real) \<Rightarrow> bool" where
  "nearest_even p fl \<longleftrightarrow>
     (\<forall>x. digits p (fl x) \<and> (\<forall>y. digits p y \<longrightarrow> \<bar>fl x - x\<bar> \<le> \<bar>y - x\<bar>) \<and>
          (\<forall>y. digits p y \<and> y \<noteq> fl x \<and> \<bar>fl x - x\<bar> = \<bar>y - x\<bar> \<longrightarrow> even_digits p (fl x)))"

definition rounded :: "(real \<Rightarrow> real) \<Rightarrow> real doubles" where
  "rounded fl = \<lparr>d_of = (\<lambda>n. fl (of_int n)), d_long = (\<lambda>x. if 0 \<le> x then \<lfloor>x\<rfloor> else \<lceil>x\<rceil>),
     d_add = (\<lambda>a b. fl (a + b)), d_sub = (\<lambda>a b. fl (a - b)), d_mul = (\<lambda>a b. fl (a * b)), d_div = (\<lambda>a b. fl (a / b))\<rparr>"

lemma digits_int: "\<bar>m\<bar> < 2 ^ p \<Longrightarrow> digits p (of_int m * 2 powi e)"
  by (auto simp: digits_def)

lemma digits_top:
  assumes "0 < p" "\<bar>m\<bar> \<le> 2 ^ p"
  shows "digits p (of_int m * 2 powi e)"
proof (cases "\<bar>m\<bar> = 2 ^ p")
  case True
  have "(2 :: real) ^ p * 2 powi e = 2 ^ (p - 1) * 2 powi (e + 1)"
    using assms(1) by (cases p) (simp_all add: power_int_add)
  moreover have "m = sgn m * 2 ^ p" using True by (metis sgn_mult_abs)
  then have "real_of_int m = of_int (sgn m) * 2 ^ p" by (metis of_int_mult of_int_power of_int_numeral)
  ultimately have "of_int m * 2 powi e = of_int (sgn m * 2 ^ (p - 1)) * (2 :: real) powi (e + 1)" by simp
  moreover have "\<bar>sgn m * 2 ^ (p - 1)\<bar> < (2 :: int) ^ p"
    using assms(1) by (cases p) (auto simp: abs_mult abs_sgn_eq)
  ultimately show ?thesis using digits_int by metis
next
  case False
  then show ?thesis using assms(2) by (intro digits_int) simp
qed

lemma no_digits_between:
  assumes p: "0 < p" and m: "2 ^ (p - 1) \<le> m" and y: "digits p y" "of_int m * 2 powi e < y" "y < of_int (m + 1) * 2 powi e"
  shows False
proof -
  obtain m' e' where y': "\<bar>m'\<bar> < 2 ^ p" "y = of_int m' * 2 powi e'" using y(1) by (auto simp: digits_def)
  show False
  proof (cases "e \<le> e'")
    case True
    then obtain k where k: "e' = e + int k" by (metis zle_iff_zadd)
    have "y = of_int (m' * 2 ^ k) * 2 powi e" using y'(2) k by (simp add: power_int_add)
    then have "of_int m < (of_int (m' * 2 ^ k) :: real)" "of_int (m' * 2 ^ k) < (of_int (m + 1) :: real)"
      using y(2,3) by simp_all
    then have "m < m' * 2 ^ k" "m' * 2 ^ k < m + 1" by (simp_all only: of_int_less_iff)
    then show False by linarith
  next
    case False
    then have e: "2 powi e' \<le> (2 powi (e - 1) :: real)" by (intro power_int_increasing) simp_all
    have "real_of_int m' \<le> of_int (2 ^ p)" using y'(1) by (intro of_int_le_iff [THEN iffD2]) simp
    then have "y \<le> 2 ^ p * 2 powi e'" unfolding y'(2) by (intro mult_right_mono) simp_all
    also have "\<dots> \<le> 2 ^ p * 2 powi (e - 1)" using e by (intro mult_left_mono) simp_all
    also have "\<dots> = of_int (2 ^ (p - 1)) * 2 powi e" using p by (cases p) (simp_all add: power_int_diff)
    also have "\<dots> \<le> of_int m * 2 powi e" using m by (intro mult_right_mono of_int_le_iff [THEN iffD2]) simp_all
    finally show False using y(2) by simp
  qed
qed

lemma odd_not_even_digits:
  assumes p: "0 < p" and m: "2 ^ (p - 1) \<le> m" "m < 2 ^ p" "odd m"
  shows "\<not> even_digits p (of_int m * 2 powi e)"
proof
  assume "even_digits p (of_int m * 2 powi e)"
  then obtain m' e' where m': "2 ^ (p - 1) \<le> \<bar>m'\<bar>" "\<bar>m'\<bar> < 2 ^ p" "even m'"
    and eq: "(of_int m :: real) * 2 powi e = of_int m' * 2 powi e'" by (auto simp: even_digits_def)
  have pos: "0 < m" using m(1) zero_less_power [of "2 :: int" "p - 1"] by linarith
  then have "0 < (of_int m :: real) * 2 powi e" by simp
  then have "0 < (of_int m' :: real)" unfolding eq by (rule zero_less_mult_pos2) simp
  then have "0 < m'" by simp
  then have m'': "2 ^ (p - 1) \<le> m'" "m' < 2 ^ p" using m' by simp_all
  have below: "(of_int k :: real) * 2 powi f < of_int l * 2 powi g" if "k < 2 ^ p" "2 ^ (p - 1) \<le> l" "f < g" for k l f g
  proof -
    have "(of_int k :: real) < of_int (2 ^ p)" using that(1) by (simp only: of_int_less_iff)
    then have "(of_int k :: real) * 2 powi f < of_int (2 ^ p) * 2 powi f" by (intro mult_strict_right_mono) simp_all
    also have "\<dots> \<le> of_int (2 ^ p) * 2 powi (g - 1)"
      using that(3) by (intro mult_left_mono power_int_increasing) simp_all
    also have "\<dots> = of_int (2 ^ (p - 1)) * 2 powi g" using p by (cases p) (simp_all add: power_int_diff)
    also have "\<dots> \<le> of_int l * 2 powi g" using that(2) by (intro mult_right_mono of_int_le_iff [THEN iffD2]) simp_all
    finally show ?thesis .
  qed
  have "e = e'" using below [OF m(2) m''(1), of e e'] below [OF m''(2) m(1), of e' e] eq by fastforce
  then have "m = m'" using eq by simp
  then show False using m(3) m'(3) by simp
qed

text \<open>A number between two neighbours goes to the nearer one, in the middle to the even one.\<close>

lemma rounds_to:
  assumes fl: "nearest_even p fl" and p: "0 < p" and m: "2 ^ (p - 1) \<le> m" "m < 2 ^ p"
    and lo: "lo = of_int m * 2 powi e" and hi: "hi = of_int (m + 1) * 2 powi e"
  shows "lo \<le> x \<Longrightarrow> 2 * x < lo + hi \<or> 2 * x = lo + hi \<and> even m \<Longrightarrow> fl x = lo"
    and "x \<le> hi \<Longrightarrow> lo + hi < 2 * x \<or> 2 * x = lo + hi \<and> odd m \<Longrightarrow> fl x = hi"
proof -
  have near: "digits p (fl x)" "digits p y \<Longrightarrow> \<bar>fl x - x\<bar> \<le> \<bar>y - x\<bar>"
    "digits p y \<Longrightarrow> y \<noteq> fl x \<Longrightarrow> \<bar>fl x - x\<bar> = \<bar>y - x\<bar> \<Longrightarrow> even_digits p (fl x)" for y
    using fl by (auto simp: nearest_even_def)
  have pos: "0 < m" using m(1) zero_less_power [of "2 :: int" "p - 1"] by linarith
  have dl: "digits p lo" unfolding lo using p m pos by (intro digits_top) simp_all
  have dh: "digits p hi" unfolding hi using p m pos by (intro digits_top) simp_all
  have lh: "lo < hi" unfolding lo hi by (simp add: distrib_right)
  have odd: "even_digits p lo \<Longrightarrow> even m" unfolding lo using odd_not_even_digits [OF p m] by blast
  have odd': "even_digits p hi \<Longrightarrow> odd m"
  proof
    assume h: "even_digits p hi" "even m"
    then have "odd (m + 1)" "2 ^ (p - 1) \<le> m + 1" using m by simp_all
    moreover have "even ((2 :: int) ^ p)" using p by simp
    then have "m + 1 \<noteq> 2 ^ p" using \<open>odd (m + 1)\<close> by metis
    ultimately show False using odd_not_even_digits [OF p, of "m + 1" e] m(2) h(1) unfolding hi by simp
  qed
  have gap: "\<not> (lo < fl x \<and> fl x < hi)" using no_digits_between [OF p m(1) near(1)] unfolding lo hi by blast
  show "fl x = lo" if x: "lo \<le> x" "2 * x < lo + hi \<or> 2 * x = lo + hi \<and> even m"
  proof (rule ccontr)
    assume n: "fl x \<noteq> lo"
    have d: "\<bar>fl x - x\<bar> \<le> \<bar>lo - x\<bar>" by (rule near(2) [OF dl])
    then have "hi \<le> fl x" using gap n x by linarith
    then have "2 * x = lo + hi" "fl x = hi" "even m" using d x lh by linarith+
    moreover have "even_digits p (fl x)" using near(3) [OF dl] n calculation by simp
    ultimately show False using odd' by simp
  qed
  show "fl x = hi" if x: "x \<le> hi" "lo + hi < 2 * x \<or> 2 * x = lo + hi \<and> odd m"
  proof (rule ccontr)
    assume n: "fl x \<noteq> hi"
    have d: "\<bar>fl x - x\<bar> \<le> \<bar>hi - x\<bar>" by (rule near(2) [OF dh])
    then have "fl x \<le> lo" using gap n x by linarith
    then have "2 * x = lo + hi" "fl x = lo" "odd m" using d x lh by linarith+
    moreover have "even_digits p (fl x)" using near(3) [OF dh] n calculation by simp
    ultimately show False using odd by simp
  qed
qed

lemma rounds_exact:
  assumes "nearest_even p fl" "0 < p" "\<bar>m\<bar> \<le> 2 ^ p" "x = of_int m * 2 powi e"
  shows "fl x = x"
proof -
  have "\<bar>fl x - x\<bar> \<le> \<bar>x - x\<bar>"
    using assms(1) digits_top [OF assms(2,3), of e] assms(4) unfolding nearest_even_def by blast
  then show ?thesis by simp
qed

section \<open>The search with rounded operations\<close>

locale rounding =
  fixes p :: nat and fl :: "real \<Rightarrow> real"
  assumes nearest: "nearest_even p fl"
    and two_digits: "2 \<le> p"
begin

lemma p_pos: "0 < p"
  using two_digits by simp

lemma fl_int: "\<bar>m\<bar> \<le> 2 ^ p \<Longrightarrow> fl (of_int m * 2 powi e) = of_int m * 2 powi e"
  by (rule rounds_exact [OF nearest p_pos _ refl])

lemma fl_pow: "fl (2 powi e) = 2 powi e"
  using fl_int [of 1 e] by simp

lemma fl_whole: "\<bar>m\<bar> \<le> 2 ^ p \<Longrightarrow> fl (of_int m) = of_int m"
  using fl_int [of m 0] by simp

lemma four_le: "(4 :: int) \<le> 2 ^ p"
  using power_increasing [of 2 p "2 :: int"] two_digits by simp

lemma fl_small: "fl 0 = 0" "fl 1 = 1" "fl 2 = 2" "fl (- 1) = - 1" "fl (1 / 2) = 1 / 2"
proof -
  have small: "fl (of_int m) = of_int m" if "\<bar>m\<bar> \<le> 2" for m using fl_whole that four_le by simp
  show "fl 0 = 0" using small [of 0] by simp
  show "fl 1 = 1" using small [of 1] by simp
  show "fl 2 = 2" using small [of 2] by simp
  show "fl (- 1) = - 1" using small [of "- 1"] by simp
  have "2 powi (- 1) = (1 / 2 :: real)" by (simp add: power_int_def)
  then show "fl (1 / 2) = 1 / 2" using fl_pow [of "- 1"] by metis
qed

lemma half: "(2 :: int) ^ p = 2 * 2 ^ (p - 1)" "(2 :: real) ^ p = 2 * 2 ^ (p - 1)" "even ((2 :: int) ^ (p - 1))"
proof -
  show "(2 :: int) ^ p = 2 * 2 ^ (p - 1)" using power_minus_mult [OF p_pos, of "2 :: int"] by (simp only: mult.commute)
  show "(2 :: real) ^ p = 2 * 2 ^ (p - 1)" using power_minus_mult [OF p_pos, of "2 :: real"] by (simp only: mult.commute)
  show "even ((2 :: int) ^ (p - 1))" using two_digits by simp
qed

lemma twice_powi: "2 * 2 powi (- int j) = (2 :: real) powi (1 - int j)"
  using power_int_add [of "2 :: real" 1 "- int j"] by simp

text \<open>The sums at the limit of the digits.\<close>

lemma fl_whole_sums:
  "k < p \<Longrightarrow> fl (2 ^ k + 1) = 2 ^ k + 1" "fl (2 ^ p + 1) = 2 ^ p" "fl (2 ^ p + 2) = 2 ^ p + 2" "fl (2 ^ p + 3) = 2 ^ p + 4"
proof -
  let ?h = "(2 :: int) ^ (p - 1)"
  have h: "2 \<le> ?h" using four_le half(1) by simp
  show "fl (2 ^ k + 1) = 2 ^ k + 1" if "k < p"
  proof -
    have "(2 :: int) ^ k \<le> ?h" using that by (intro power_increasing) simp_all
    moreover have "(0 :: int) < 2 ^ k" by simp
    ultimately have "\<bar>(2 :: int) ^ k + 1\<bar> \<le> 2 ^ p" using half(1) h by linarith
    from fl_whole [OF this] show ?thesis by simp
  qed
  show "fl (2 ^ p + 1) = 2 ^ p"
    by (rule rounds_to(1) [OF nearest p_pos, of ?h _ 1, OF _ _ _ refl]) (use h half in \<open>simp_all add: power_int_def\<close>)
  show "fl (2 ^ p + 2) = 2 ^ p + 2"
    using fl_int [of "?h + 1" 1] half h by (simp add: algebra_simps)
  show "fl (2 ^ p + 3) = 2 ^ p + 4"
    by (rule rounds_to(2) [OF nearest p_pos, of "?h + 1" _ 1, OF _ _ refl]) (use h half in \<open>simp_all add: power_int_def\<close>)
qed

text \<open>Numbers next to 1.\<close>

lemma fl_below_one:
  assumes "0 < j"
  shows "fl (1 - 2 powi (- int j)) = (if j \<le> p then 1 - 2 powi (- int j) else 1)"
proof (cases "j \<le> p")
  case True
  have "(2 :: int) ^ j \<le> 2 ^ p" using True by (intro power_increasing) simp_all
  moreover have "(1 :: int) \<le> 2 ^ j" by simp
  ultimately have "\<bar>(2 :: int) ^ j - 1\<bar> \<le> 2 ^ p" by linarith
  moreover have "1 - 2 powi (- int j) = of_int (2 ^ j - 1) * (2 :: real) powi (- int j)"
    by (simp add: power_int_minus field_simps)
  ultimately show ?thesis using True fl_int [of "2 ^ j - 1" "- int j"] by metis
next
  case False
  let ?u = "(2 :: real) powi (- int p)"
  have j: "2 * 2 powi (- int j) \<le> ?u" "2 * 2 powi (- int j) < ?u \<or> 2 * 2 powi (- int j) = ?u"
    using False power_int_increasing [of "1 - int j" "- int p" "2 :: real"] unfolding twice_powi by auto
  have m: "2 ^ (p - 1) \<le> (2 :: int) ^ p - 1" "odd ((2 :: int) ^ p - 1)" using half four_le p_pos by simp_all
  have u: "of_int (2 ^ p - 1) * 2 powi (- int p) = 1 - ?u" "of_int (2 ^ p - 1 + 1) * 2 powi (- int p) = (1 :: real)"
    by (simp_all add: power_int_minus field_simps)
  have "fl (1 - 2 powi (- int j)) = 1"
    by (rule rounds_to(2) [OF nearest p_pos m(1) _ u(1) [symmetric] u(2) [symmetric]]) (use j m(2) in \<open>auto\<close>)
  then show ?thesis using False by simp
qed

lemma fl_above_one:
  assumes "0 < j"
  shows "fl (1 + 2 powi (- int j)) = (if j < p then 1 + 2 powi (- int j) else 1)"
proof (cases "j < p")
  case True
  have "(2 :: int) ^ j \<le> 2 ^ (p - 1)" using True by (intro power_increasing) simp_all
  moreover have "(0 :: int) < 2 ^ j" by simp
  ultimately have "\<bar>(2 :: int) ^ j + 1\<bar> \<le> 2 ^ p" using half(1) four_le by linarith
  moreover have "1 + 2 powi (- int j) = of_int (2 ^ j + 1) * (2 :: real) powi (- int j)"
    by (simp add: power_int_minus field_simps)
  ultimately show ?thesis using True fl_int [of "2 ^ j + 1" "- int j"] by metis
next
  case False
  let ?u = "(2 :: real) powi (- int (p - 1))"
  have j: "2 * 2 powi (- int j) \<le> ?u"
    using False p_pos power_int_increasing [of "1 - int j" "- int (p - 1)" "2 :: real"] unfolding twice_powi by auto
  have m: "(2 :: int) ^ (p - 1) < 2 ^ p" using half four_le by simp
  have u: "of_int (2 ^ (p - 1)) * 2 powi (- int (p - 1)) = (1 :: real)" "of_int (2 ^ (p - 1) + 1) * 2 powi (- int (p - 1)) = 1 + ?u"
    by (simp_all add: power_int_minus field_simps)
  have "fl (1 + 2 powi (- int j)) = 1"
    by (rule rounds_to(1) [OF nearest p_pos order_refl m u(1) [symmetric] u(2) [symmetric]]) (use j half in \<open>auto\<close>)
  then show ?thesis using False by simp
qed

lemma ops: "ONE (rounded fl) = 1" "ZERO (rounded fl) = 0" "TWO (rounded fl) = 2"
  "d_add (rounded fl) a b = fl (a + b)" "d_sub (rounded fl) a b = fl (a - b)" "d_mul (rounded fl) a b = fl (a * b)"
  "d_div (rounded fl) a b = fl (a / b)" "d_of (rounded fl) n = fl (of_int n)" "d_long (rounded fl) 2 = 2"
  by (simp_all add: rounded_def ONE_def ZERO_def TWO_def fl_small)

lemma fl_power: "fl (2 ^ k) = 2 ^ k"
  using fl_pow [of "int k"] by simp

lemma added_one: "fl (fl (2 ^ k + 1) - 2 ^ k) = (if k < p then 1 else 0)" if "k \<le> p"
  using that by (cases "k < p") (simp_all add: fl_whole_sums fl_small)

lemma grow_a_ends: "k < p \<Longrightarrow> grow_a (rounded fl) (2 ^ k) 1 = Some (2 ^ p)"
proof (induction "p - k" arbitrary: k)
  case (Suc n)
  have "grow_a (rounded fl) (2 ^ k) 1 = grow_a (rounded fl) (2 ^ Suc k) (if Suc k < p then 1 else 0)"
    using Suc.prems fl_power [of "Suc k"] added_one [of "Suc k"]
    by (subst grow_a.simps) (simp add: ops fl_small Let_def)
  also have "\<dots> = Some (2 ^ p)"
  proof (cases "Suc k < p")
    case True
    then show ?thesis using Suc.hyps(1) [of "Suc k"] Suc.hyps(2) by simp
  next
    case False
    then have "Suc k = p" using Suc.prems by simp
    then show ?thesis by (subst grow_a.simps) (simp add: ops fl_small del: power_Suc)
  qed
  finally show ?case .
qed simp

lemma find_radix_ends: "find_radix (rounded fl) (2 ^ p) 1 0 = Some 2"
proof -
  have "find_radix (rounded fl) (2 ^ p) 1 0 = find_radix (rounded fl) (2 ^ p) 2 2"
    by (subst find_radix.simps) (simp add: ops fl_small fl_whole_sums Let_def)
  then show ?thesis by (subst (asm) (2) find_radix.simps) simp
qed

lemma count_digits_ends: "k < p \<Longrightarrow> count_digits (rounded fl) 2 (int k) (2 ^ k) 1 = Some (int p)"
proof (induction "p - k" arbitrary: k)
  case (Suc n)
  have "count_digits (rounded fl) 2 (int k) (2 ^ k) 1 =
      count_digits (rounded fl) 2 (int (Suc k)) (2 ^ Suc k) (if Suc k < p then 1 else 0)"
    using Suc.prems fl_power [of "Suc k"] added_one [of "Suc k"]
    by (subst count_digits.simps) (simp add: ops fl_small Let_def mult.commute add.commute)
  also have "\<dots> = Some (int p)"
  proof (cases "Suc k < p")
    case True
    then show ?thesis using Suc.hyps(1) [of "Suc k"] Suc.hyps(2) by simp
  next
    case False
    then have "Suc k = p" using Suc.prems by simp
    then show ?thesis by (subst count_digits.simps) (simp add: ops fl_small del: power_Suc of_nat_Suc)
  qed
  finally show ?case .
qed simp

lemma find_irnd_2: "find_irnd (rounded fl) 2 (2 ^ p) = 2"
proof -
  have "fl (2 ^ p + 2 + 1) = 2 ^ p + 4" using fl_whole_sums(4) by (simp add: add.assoc)
  then show ?thesis by (simp add: find_irnd_def ops fl_small fl_whole_sums Let_def)
qed

lemma halves: "((\<lambda>a. fl (a * (1 / 2))) ^^ n) 1 = 2 powi (- int n)"
proof (induction n)
  case (Suc n)
  have "2 powi (- int n) * (1 / 2) = (2 :: real) powi (- int (Suc n))"
    using twice_powi [of "Suc n"] by simp
  then show ?case using Suc fl_pow [of "- int (Suc n)"] by (simp del: of_nat_Suc)
qed simp

lemma doubled: "fl (2 powi (- int (Suc j)) * 2) = 2 powi (- int j)"
  using power_int_add [of "2 :: real" "- int (Suc j)" 1] fl_pow [of "- int j"] by simp

lemma find_negep_ends:
  "p \<le> j \<Longrightarrow> find_negep (rounded fl) 2 (int j) (2 powi (- int j)) (fl (1 - 2 powi (- int j))) = Some (int p)"
proof (induction j)
  case (Suc j)
  show ?case
  proof (cases "p = Suc j")
    case True
    have "fl (- (2 powi (- int p))) = - (2 powi (- int p))" using fl_int [of "- 1" "- int p"] by simp
    then show ?thesis using fl_below_one [of p] p_pos True
      by (subst find_negep.simps) (simp add: ops del: of_nat_Suc)
  next
    case False
    then have "fl (1 - 2 powi (- int (Suc j))) = 1" using fl_below_one [of "Suc j"] Suc.prems by simp
    then show ?thesis using Suc False doubled [of j]
      by (subst find_negep.simps) (simp add: ops fl_small Let_def)
  qed
qed (use p_pos in simp)

lemma find_machep_ends:
  "p - 1 \<le> j \<Longrightarrow> 0 < j \<Longrightarrow> find_machep (rounded fl) 2 (- int j) (2 powi (- int j)) (fl (1 + 2 powi (- int j))) =
     Some (1 - int p, 2 powi (1 - int p))"
proof (induction j)
  case (Suc j)
  have p: "- int (p - 1) = 1 - int p" using p_pos by simp
  show ?case
  proof (cases "p - 1 = Suc j")
    case True
    have "fl (2 powi (- int (Suc j))) = 2 powi (- int (Suc j))" by (rule fl_pow)
    then show ?thesis using fl_above_one [of "Suc j"] True p
      by (subst find_machep.simps) (simp add: ops del: of_nat_Suc)
  next
    case False
    then have "fl (1 + 2 powi (- int (Suc j))) = 1" "0 < j" "p - 1 \<le> j"
      using fl_above_one [of "Suc j"] Suc.prems two_digits by auto
    then show ?thesis using Suc.IH doubled [of j]
      by (subst find_machep.simps) (simp add: ops fl_small Let_def)
  qed
qed simp

lemma machar_finds:
  "machar (rounded fl) = Some \<lparr>f_ibeta = 2, f_it = int p, f_irnd = 2, f_machep = 1 - int p, f_negep = - int p, f_eps = 2 powi (1 - int p)\<rparr>"
proof -
  have b: "((\<lambda>a. fl (a * (1 / 2))) ^^ nat (int p + 3)) 1 = 2 powi (- int (p + 3))"
    using halves [of "p + 3"] by (simp add: nat_add_distrib)
  have n: "find_negep (rounded fl) 2 (int p + 3) (2 powi (- int (p + 3))) (fl (1 - 2 powi (- int (p + 3)))) = Some (int p)"
    using find_negep_ends [of "p + 3"] by simp
  have e: "find_machep (rounded fl) 2 (- int p - 3) (2 powi (- int (p + 3))) (fl (1 + 2 powi (- int (p + 3)))) =
      Some (1 - int p, 2 powi (1 - int p))"
    using find_machep_ends [of "p + 3"] by simp
  have c: "count_digits (rounded fl) 2 0 1 1 = Some (int p)" using count_digits_ends [of 0] p_pos by simp
  have g: "grow_a (rounded fl) 1 1 = Some (2 ^ p)" using grow_a_ends [of 0] p_pos by simp
  show ?thesis
    unfolding machar_def ops g option.case find_radix_ends Let_def of_int_numeral fl_small c find_irnd_2 b n e prod.case by simp
qed

end

section \<open>An arithmetic that rounds like this\<close>

definition round_pos :: "nat \<Rightarrow> real \<Rightarrow> real" where
  "round_pos p x =
     (let e = \<lfloor>log 2 x\<rfloor> - int p + 1; m = \<lfloor>x / 2 powi e\<rfloor>; d = x / 2 powi e - of_int m
      in of_int (if 2 * d < 1 \<or> 2 * d = 1 \<and> even m then m else m + 1) * 2 powi e)"

definition round_even :: "nat \<Rightarrow> real \<Rightarrow> real" where
  "round_even p x = (if x = 0 then 0 else if 0 < x then round_pos p x else - round_pos p (- x))"

lemma digits_minus [simp]: "digits p (- y) = digits p y"
proof -
  have "digits p (- y)" if d: "digits p y" for y
  proof -
    obtain m e where "\<bar>m\<bar> < 2 ^ p" "y = of_int m * 2 powi e" using d by (auto simp: digits_def)
    then have "\<bar>- m\<bar> < 2 ^ p" "- y = of_int (- m) * 2 powi e" by simp_all
    then show ?thesis unfolding digits_def by blast
  qed
  from this [of y] this [of "- y"] show ?thesis by auto
qed

lemma even_digits_minus: "even_digits p y \<Longrightarrow> even_digits p (- y)"
proof -
  assume "even_digits p y"
  then obtain m e where "2 ^ (p - 1) \<le> \<bar>m\<bar>" "\<bar>m\<bar> < 2 ^ p" "even m" "y = of_int m * 2 powi e" by (auto simp: even_digits_def)
  then have "2 ^ (p - 1) \<le> \<bar>- m\<bar>" "\<bar>- m\<bar> < 2 ^ p" "even (- m)" "- y = of_int (- m) * 2 powi e" by simp_all
  then show ?thesis unfolding even_digits_def by blast
qed

lemma leading_digits:
  assumes "0 < x" "0 < p"
  shows "2 ^ (p - 1) \<le> \<lfloor>x / 2 powi (\<lfloor>log 2 x\<rfloor> - int p + 1)\<rfloor>" "\<lfloor>x / 2 powi (\<lfloor>log 2 x\<rfloor> - int p + 1)\<rfloor> < 2 ^ p"
proof -
  let ?k = "\<lfloor>log 2 x\<rfloor>"
  have x: "x = 2 powr log 2 x" using assms(1) by simp
  have "2 powr of_int ?k \<le> x" by (subst x) (intro powr_mono, simp_all)
  moreover have "x < 2 powr of_int (?k + 1)" by (subst x) (intro powr_less_mono, linarith, simp)
  ultimately have k: "2 powi ?k \<le> x" "x < 2 powi (?k + 1)" by (simp_all add: powr_real_of_int' del: of_int_add)
  have "(2 :: real) powi ?k = 2 powi (int (p - 1)) * 2 powi (?k - int p + 1)"
    using assms(2) power_int_add [of "2 :: real" "int (p - 1)" "?k - int p + 1"] by simp
  moreover have "(2 :: real) powi (?k + 1) = 2 powi (int p) * 2 powi (?k - int p + 1)"
    using power_int_add [of "2 :: real" "int p" "?k - int p + 1"] by simp
  ultimately have "2 ^ (p - 1) \<le> x / 2 powi (?k - int p + 1)" "x / 2 powi (?k - int p + 1) < 2 ^ p"
    using k by (simp_all add: field_simps)
  then have "real_of_int (2 ^ (p - 1)) \<le> x / 2 powi (?k - int p + 1)" "x / 2 powi (?k - int p + 1) < of_int (2 ^ p)"
    by simp_all
  then show "2 ^ (p - 1) \<le> \<lfloor>x / 2 powi (?k - int p + 1)\<rfloor>" "\<lfloor>x / 2 powi (?k - int p + 1)\<rfloor> < 2 ^ p"
    by (simp_all only: le_floor_iff floor_less_iff)
qed

lemma round_pos_nearest:
  assumes x: "0 < x" and p: "2 \<le> p"
  shows "digits p (round_pos p x) \<and> (\<forall>y. digits p y \<longrightarrow> \<bar>round_pos p x - x\<bar> \<le> \<bar>y - x\<bar>) \<and>
    (\<forall>y. digits p y \<and> y \<noteq> round_pos p x \<and> \<bar>round_pos p x - x\<bar> = \<bar>y - x\<bar> \<longrightarrow> even_digits p (round_pos p x))"
proof -
  define e where "e = \<lfloor>log 2 x\<rfloor> - int p + 1"
  define m where "m = \<lfloor>x / 2 powi e\<rfloor>"
  define lo hi where "lo = of_int m * (2 :: real) powi e" and "hi = of_int (m + 1) * (2 :: real) powi e"
  have p0: "0 < p" using p by simp
  have m: "2 ^ (p - 1) \<le> m" "m < 2 ^ p" unfolding m_def e_def using leading_digits [OF x p0] by simp_all
  have "of_int m \<le> x / 2 powi e" "x / 2 powi e < of_int (m + 1)" unfolding m_def by linarith+
  then have between: "lo \<le> x" "x < hi" unfolding lo_def hi_def by (simp_all add: field_simps)
  have u: "hi = lo + 2 powi e" by (simp add: lo_def hi_def algebra_simps)
  have z: "round_pos p x = (if 2 * x < lo + hi \<or> 2 * x = lo + hi \<and> even m then lo else hi)"
  proof -
    have "2 * (x / 2 powi e - of_int m) < 1 \<longleftrightarrow> 2 * x < lo + hi" "2 * (x / 2 powi e - of_int m) = 1 \<longleftrightarrow> 2 * x = lo + hi"
      unfolding u by (auto simp: lo_def field_simps)
    then show ?thesis by (simp add: round_pos_def Let_def lo_def hi_def flip: e_def m_def)
  qed
  have pos: "0 < m" using m(1) zero_less_power [of "2 :: int" "p - 1"] by linarith
  have d: "digits p lo" "digits p hi" unfolding lo_def hi_def using p0 m pos by (intro digits_top; simp)+
  have out: "y \<le> lo \<or> hi \<le> y" if "digits p y" for y
    using no_digits_between [OF p0 m(1) that, of e] unfolding lo_def hi_def by (metis not_le)
  have even: "even_digits p lo" if "even m" unfolding lo_def even_digits_def using that m pos by (intro exI [of _ m] exI [of _ e]) simp
  have even': "even_digits p hi" if "odd m"
  proof (cases "m + 1 = 2 ^ p")
    case True
    have q: "(2 :: int) ^ p = 2 * 2 ^ (p - 1)" using power_minus_mult [OF p0, of "2 :: int"] by (simp only: mult.commute)
    have "hi = of_int (2 ^ (p - 1)) * 2 powi (e + 1)" unfolding hi_def True q by (simp add: power_int_add)
    moreover have "even ((2 :: int) ^ (p - 1))" "(2 :: int) ^ (p - 1) < 2 ^ p" using p by simp_all
    ultimately show ?thesis unfolding even_digits_def by (intro exI [of _ "2 ^ (p - 1)"] exI [of _ "e + 1"]) simp
  next
    case False
    then show ?thesis unfolding even_digits_def hi_def using that m pos by (intro exI [of _ "m + 1"] exI [of _ e]) simp
  qed
  show ?thesis
  proof (intro conjI allI impI)
    show "digits p (round_pos p x)" using d z by simp
    show "\<bar>round_pos p x - x\<bar> \<le> \<bar>y - x\<bar>" if "digits p y" for y
      using out [OF that] between unfolding z by (auto simp: abs_if)
    show "even_digits p (round_pos p x)" if y: "digits p y \<and> y \<noteq> round_pos p x \<and> \<bar>round_pos p x - x\<bar> = \<bar>y - x\<bar>" for y
    proof -
      have "2 * x = lo + hi" using y out [of y] between unfolding z by (auto simp: abs_if split: if_splits)
      then show ?thesis using even even' unfolding z by (cases "even m") simp_all
    qed
  qed
qed

lemma round_even_nearest: "2 \<le> p \<Longrightarrow> nearest_even p (round_even p)"
  unfolding nearest_even_def
proof
  fix x :: real
  assume p: "2 \<le> p"
  consider "x = 0" | "0 < x" | "x < 0" by linarith
  then show "digits p (round_even p x) \<and> (\<forall>y. digits p y \<longrightarrow> \<bar>round_even p x - x\<bar> \<le> \<bar>y - x\<bar>) \<and>
    (\<forall>y. digits p y \<and> y \<noteq> round_even p x \<and> \<bar>round_even p x - x\<bar> = \<bar>y - x\<bar> \<longrightarrow> even_digits p (round_even p x))"
  proof cases
    case 1
    have "digits p 0" using digits_int [of 0 p 0] by simp
    then show ?thesis using 1 by (simp add: round_even_def)
  next
    case 2
    then show ?thesis using round_pos_nearest [OF 2 p] by (simp add: round_even_def)
  next
    case 3
    let ?z = "round_pos p (- x)"
    have n: "digits p ?z" "digits p y \<Longrightarrow> \<bar>?z + x\<bar> \<le> \<bar>y + x\<bar>"
      "digits p y \<Longrightarrow> y \<noteq> ?z \<Longrightarrow> \<bar>?z + x\<bar> = \<bar>y + x\<bar> \<Longrightarrow> even_digits p ?z" for y
      using round_pos_nearest [of "- x" p] 3 p by auto
    have z: "round_even p x = - ?z" using 3 by (simp add: round_even_def)
    have flip: "\<bar>- y + x\<bar> = \<bar>y - x\<bar>" "\<bar>- ?z - x\<bar> = \<bar>?z + x\<bar>" for y by linarith+
    show ?thesis unfolding z
    proof (intro conjI allI impI)
      show "digits p (- ?z)" using n(1) by simp
      show "\<bar>- ?z - x\<bar> \<le> \<bar>y - x\<bar>" if "digits p y" for y using n(2) [of "- y"] that flip by simp
      show "even_digits p (- ?z)" if "digits p y \<and> y \<noteq> - ?z \<and> \<bar>- ?z - x\<bar> = \<bar>y - x\<bar>" for y
        using n(3) [of "- y"] that flip by (intro even_digits_minus) auto
    qed
  qed
qed

interpretation double: rounding 53 "round_even 53"
  by unfold_locales (simp_all add: round_even_nearest)

section \<open>Properties\<close>



end
